(* ===== verification/Ducq_Prelude.thy ===== *)
theory Ducq_Prelude
  imports Main "HOL-Library.Word" "HOL-Library.Monad_Syntax"
begin

text \<open>
  The C notions every component of ducq uses, with the generic lemmas about them.

  \<^item> A memory object (a char array) is a \<open>char list\<close>; a pointer into it is an index.
    Reading a C string that has no terminator inside its array, or writing past the array,
    is undefined behaviour: the operations below answer None for it.
  \<^item> A C string is the \<open>string\<close> before the terminator.  \<open>strchr\<close>, \<open>strncmp\<close>,
    \<open>strncpy\<close>, \<open>snprintf\<close>, \<open>strtol\<close> and \<open>atoi\<close> are the C library's functions on them.
  \<^item> An unsigned byte is an \<open>8 word\<close>; \<open>byte_of\<close> and \<open>char_of_byte\<close> convert.
\<close>

unbundle bit_operations_syntax

named_theorems ub_simps \<open>when a memory access is defined\<close>
named_theorems cstr_simps \<open>evaluation of the C string functions\<close>

type_synonym byte = "8 word"

abbreviation NUL :: char where "NUL \<equiv> CHR 0x00"
abbreviation LF :: char where "LF \<equiv> CHR 0x0A"
abbreviation CR :: char where "CR \<equiv> CHR 0x0D"
abbreviation SP :: char where "SP \<equiv> CHR '' ''"

section \<open>Bytes and characters\<close>

definition byte_of :: "char \<Rightarrow> byte" where
  "byte_of c = of_nat (of_char c)"

definition char_of_byte :: "byte \<Rightarrow> char" where
  "char_of_byte b = char_of (unat b)"

lemma unat_byte_of [simp]: "unat (byte_of c) = of_char c"
  by (simp add: byte_of_def unat_of_nat)

lemma char_of_byte_of [simp]: "char_of_byte (byte_of c) = c"
  by (simp add: char_of_byte_def)

lemma byte_of_char_of_byte [simp]: "byte_of (char_of_byte b) = b"
proof -
  have "unat b < 256"
    using unsigned_less [of b, where ?'a = nat] by simp
  then show ?thesis
    by (simp add: byte_of_def char_of_byte_def of_char_of)
qed

lemma byte_of_inj: "byte_of a = byte_of b \<longleftrightarrow> a = b"
  by (metis char_of_byte_of)

section \<open>C strings inside memory\<close>

text \<open>The C string at index \<open>i\<close> of the array; None when no terminator follows in the array.\<close>

definition c_str :: "char list \<Rightarrow> nat \<Rightarrow> string option" where
  "c_str buf i =
     (if NUL \<in> set (drop i buf) then Some (takeWhile (\<lambda>c. c \<noteq> NUL) (drop i buf)) else None)"

text \<open>Storing bytes at an index; None when they do not fit into the array.\<close>

definition mem_write :: "char list \<Rightarrow> nat \<Rightarrow> char list \<Rightarrow> char list option" where
  "mem_write buf i bs =
     (if i + length bs \<le> length buf then Some (take i buf @ bs @ drop (i + length bs) buf)
      else None)"

lemma c_str_no_NUL: "c_str buf i = Some s \<Longrightarrow> NUL \<notin> set s"
  by (auto simp: c_str_def dest: set_takeWhileD split: if_splits)

lemma c_str_Nil [simp]: "c_str [] i = None"
  by (simp add: c_str_def)

lemma c_str_append_NUL [simp]: "NUL \<notin> set s \<Longrightarrow> c_str (s @ NUL # rest) 0 = Some s"
  by (auto simp: c_str_def takeWhile_append)

lemma c_str_append_later:
  "NUL \<notin> set s \<Longrightarrow> i \<le> length s \<Longrightarrow> c_str (s @ NUL # rest) i = Some (drop i s)"
proof -
  assume a: "NUL \<notin> set s" "i \<le> length s"
  then have "NUL \<notin> set (drop i s)"
    by (meson in_set_dropD)
  then show ?thesis
    using a by (auto simp: c_str_def takeWhile_append)
qed

lemma length_mem_write: "mem_write buf i bs = Some buf' \<Longrightarrow> length buf' = length buf"
  by (auto simp: mem_write_def split: if_splits)

lemma mem_write_fits [ub_simps]:
  "i + length bs \<le> length buf \<Longrightarrow>
     mem_write buf i bs = Some (take i buf @ bs @ drop (i + length bs) buf)"
  by (simp add: mem_write_def)

lemma mem_write_overflow [ub_simps]: "length buf < i + length bs \<Longrightarrow> mem_write buf i bs = None"
  by (simp add: mem_write_def)

lemma mem_write_eq_None: "mem_write buf i bs = None \<longleftrightarrow> length buf < i + length bs"
  by (auto simp: mem_write_def)

section \<open>The C string functions\<close>

text \<open>\<open>strchr\<close> as an index into the string; the code never searches the terminator with it.\<close>

definition strchr :: "string \<Rightarrow> char \<Rightarrow> nat option" where
  "strchr s c = (if c \<in> set s then Some (length (takeWhile (\<lambda>x. x \<noteq> c) s)) else None)"

text \<open>\<open>strncmp (a, b, n) == 0\<close> for C strings.\<close>

definition strncmp_eq :: "string \<Rightarrow> string \<Rightarrow> nat \<Rightarrow> bool" where
  "strncmp_eq a b n \<longleftrightarrow> take n a = take n b"

text \<open>\<open>strncpy (dst, src, n)\<close>: the \<open>n\<close> bytes stored, padded with NUL, not terminated when
  the source is too long.\<close>

definition strncpy :: "string \<Rightarrow> nat \<Rightarrow> char list" where
  "strncpy src n = take n src @ replicate (n - length src) NUL"

text \<open>\<open>snprintf (dst, n, ...)\<close> of the formatted text \<open>s\<close>: the C string left in \<open>dst\<close>, and the
  length it would have needed.\<close>

definition snprintf :: "nat \<Rightarrow> string \<Rightarrow> string \<times> nat" where
  "snprintf n s = (take (n - 1) s, length s)"

lemma strchr_None [cstr_simps]: "c \<notin> set s \<Longrightarrow> strchr s c = None"
  by (simp add: strchr_def)

lemma strchr_append [cstr_simps]: "c \<notin> set p \<Longrightarrow> strchr (p @ c # q) c = Some (length p)"
  by (auto simp: strchr_def takeWhile_append)

lemma strchr_SomeD:
  assumes "strchr s c = Some i"
  shows "i < length s" and "s ! i = c" and "c \<notin> set (take i s)"
    and "s = take i s @ c # drop (Suc i) s"
proof -
  let ?P = "\<lambda>x. x \<noteq> c"
  from assms have i: "i = length (takeWhile ?P s)" and c: "c \<in> set s"
    by (auto simp: strchr_def split: if_splits)
  show len: "i < length s"
    using c i by (metis (full_types) le_neq_implies_less length_takeWhile_le nth_equalityI
        set_takeWhileD takeWhile_nth)
  show nth: "s ! i = c"
    using nth_length_takeWhile [of ?P s] len i by auto
  show "c \<notin> set (take i s)"
    by (metis i set_takeWhileD takeWhile_eq_take)
  show "s = take i s @ c # drop (Suc i) s"
    using id_take_nth_drop [OF len] nth by simp
qed

lemma strchr_eq_Some_iff:
  "strchr s c = Some i \<longleftrightarrow> i < length s \<and> s ! i = c \<and> c \<notin> set (take i s)"
  by (metis strchr_SomeD strchr_append id_take_nth_drop length_take less_imp_le min.absorb2)

lemma strncmp_eq_prefix: "strncmp_eq a b (length b) \<longleftrightarrow> (\<exists>r. a = b @ r)"
  by (auto simp: strncmp_eq_def) (metis append_take_drop_id)

lemma length_strncpy [simp]: "length (strncpy s n) = n"
  by (simp add: strncpy_def)

lemma c_str_strncpy:
  "NUL \<notin> set s \<Longrightarrow> c_str (strncpy s n) 0 = (if length s < n then Some s else None)"
proof (cases "length s < n")
  case True
  assume a: "NUL \<notin> set s"
  from True obtain k where k: "n - length s = Suc k"
    by (metis Suc_diff_Suc)
  from True have "strncpy s n = s @ NUL # replicate k NUL"
    by (simp add: strncpy_def k)
  then show ?thesis
    using a True by simp
next
  case False
  assume a: "NUL \<notin> set s"
  have "strncpy s n = take n s"
    using False by (simp add: strncpy_def)
  then show ?thesis
    using a False by (auto simp: c_str_def dest: in_set_takeD)
qed

lemma snprintf_fits: "length s < n \<Longrightarrow> snprintf n s = (s, length s)"
  by (simp add: snprintf_def)

section \<open>Decimal numbers\<close>

text \<open>\<open>printf\<close>'s \<open>%d\<close>.\<close>

definition digit_char :: "nat \<Rightarrow> char" where
  "digit_char d = char_of (48 + d)"

fun dec_nat :: "nat \<Rightarrow> string" where
  "dec_nat n = (if n < 10 then [digit_char n] else dec_nat (n div 10) @ [digit_char (n mod 10)])"

declare dec_nat.simps [simp del]

definition dec_int :: "int \<Rightarrow> string" where
  "dec_int i = (if i < 0 then CHR ''-'' # dec_nat (nat (- i)) else dec_nat (nat i))"

definition isdigit :: "char \<Rightarrow> bool" where
  "isdigit c \<longleftrightarrow> 48 \<le> (of_char c :: nat) \<and> (of_char c :: nat) \<le> 57"

definition isspace :: "char \<Rightarrow> bool" where
  "isspace c \<longleftrightarrow> c = SP \<or> (9 \<le> (of_char c :: nat) \<and> (of_char c :: nat) \<le> 13)"

definition digit_val :: "char \<Rightarrow> nat" where
  "digit_val c = of_char c - 48"

definition digits_val :: "string \<Rightarrow> nat" where
  "digits_val s = foldl (\<lambda>v c. 10 * v + digit_val c) 0 s"

text \<open>\<open>strtol (s, NULL, 10)\<close> with a 64-bit \<open>long\<close>: white space, an optional sign, digits; the
  value saturates at the bounds of \<open>long\<close>.\<close>

definition clamp_long :: "int \<Rightarrow> int" where
  "clamp_long v = max (- (2 ^ 63)) (min (2 ^ 63 - 1) v)"

definition strtol :: "string \<Rightarrow> int" where
  "strtol s =
     (let t = dropWhile isspace s in
      case t of
        [] \<Rightarrow> 0
      | c # r \<Rightarrow>
          if c = CHR ''-'' then clamp_long (- int (digits_val (takeWhile isdigit r)))
          else if c = CHR ''+'' then clamp_long (int (digits_val (takeWhile isdigit r)))
          else clamp_long (int (digits_val (takeWhile isdigit t))))"

text \<open>\<open>atoi\<close> as the C library has it, \<open>(int) strtol (s, NULL, 10)\<close>: the low 32 bits, signed.\<close>

definition to_int32 :: "int \<Rightarrow> int" where
  "to_int32 i = sint (word_of_int i :: 32 word)"

definition atoi :: "string \<Rightarrow> int" where
  "atoi s = to_int32 (strtol s)"

lemma digit_char_code: "d < 10 \<Longrightarrow> (of_char (digit_char d) :: nat) = 48 + d"
  by (simp add: digit_char_def of_char_of)

lemma isdigit_digit_char [simp]: "d < 10 \<Longrightarrow> isdigit (digit_char d)"
  by (simp add: isdigit_def digit_char_code)

lemma digit_val_digit_char [simp]: "d < 10 \<Longrightarrow> digit_val (digit_char d) = d"
  by (simp add: digit_val_def digit_char_code)

lemma digit_val_bound: "isdigit c \<Longrightarrow> digit_val c < 10"
  by (auto simp: isdigit_def digit_val_def)

lemma dec_nat_nonempty [simp]: "dec_nat n \<noteq> []"
  by (subst dec_nat.simps) simp

lemma dec_nat_digits: "c \<in> set (dec_nat n) \<Longrightarrow> isdigit c"
proof (induction n rule: dec_nat.induct)
  case (1 n)
  then show ?case
    by (subst (asm) (2) dec_nat.simps) (auto split: if_splits)
qed

lemma digits_val_dec_nat [simp]: "digits_val (dec_nat n) = n"
proof (induction n rule: dec_nat.induct)
  case (1 n)
  show ?case
  proof (cases "n < 10")
    case True
    then show ?thesis
      by (subst dec_nat.simps) (simp add: digits_val_def)
  next
    case False
    then have "digits_val (dec_nat n) =
        10 * digits_val (dec_nat (n div 10)) + digit_val (digit_char (n mod 10))"
      by (subst dec_nat.simps) (simp add: digits_val_def)
    then show ?thesis
      using "1" [OF False] by simp
  qed
qed

lemma length_dec_nat: "n < 10 ^ k \<Longrightarrow> 0 < k \<Longrightarrow> length (dec_nat n) \<le> k"
proof (induction k arbitrary: n)
  case 0
  then show ?case by simp
next
  case (Suc k)
  show ?case
  proof (cases "n < 10")
    case True
    then show ?thesis by (subst dec_nat.simps) simp
  next
    case False
    then have "k \<noteq> 0"
      using Suc.prems by (cases k) auto
    moreover have "n div 10 < 10 ^ k"
      using Suc.prems by (simp add: less_mult_imp_div_less mult.commute)
    ultimately have "length (dec_nat (n div 10)) \<le> k"
      using Suc.IH by simp
    then show ?thesis
      using False by (subst dec_nat.simps) simp
  qed
qed

lemma isdigit_cases: "isdigit c \<Longrightarrow> c \<noteq> CHR ''-'' \<and> c \<noteq> CHR ''+'' \<and> \<not> isspace c \<and> c \<noteq> LF \<and> c \<noteq> NUL"
  by (auto simp: isdigit_def isspace_def)

lemma strtol_digits:
  assumes "ds \<noteq> []" and "\<And>c. c \<in> set ds \<Longrightarrow> isdigit c"
    and "rest = [] \<or> \<not> isdigit (hd rest)"
  shows "strtol (ds @ rest) = clamp_long (int (digits_val ds))"
proof -
  obtain d ds' where ds: "ds = d # ds'"
    using assms(1) by (cases ds) auto
  have d: "isdigit d"
    using assms(2) ds by simp
  have "takeWhile isdigit (ds @ rest) = ds"
    using assms(2,3) by (cases rest) (auto simp: takeWhile_append)
  then show ?thesis
    using isdigit_cases [OF d] by (simp add: strtol_def ds)
qed

lemma to_int32_id: "- (2 ^ 31) \<le> i \<Longrightarrow> i < 2 ^ 31 \<Longrightarrow> to_int32 i = i"
  by (simp add: to_int32_def signed_of_int signed_take_bit_int_eq_self)

lemma atoi_digits:
  assumes "ds \<noteq> []" and "\<And>c. c \<in> set ds \<Longrightarrow> isdigit c" and "digits_val ds < 2 ^ 31"
  shows "atoi ds = int (digits_val ds)"
  using strtol_digits [of ds "[]"] assms to_int32_id [of "int (digits_val ds)"]
  by (simp add: atoi_def clamp_long_def)

lemma atoi_dec_nat: "n < 2 ^ 31 \<Longrightarrow> atoi (dec_nat n) = int n"
  by (simp add: atoi_digits dec_nat_digits)

section \<open>Option computations\<close>

lemma bind_pair_Some_conv:
  "(m \<bind> (\<lambda>(a, b). f a b)) = Some z \<longleftrightarrow> (\<exists>a b. m = Some (a, b) \<and> f a b = Some z)"
  by (cases m) auto

lemma bind_Some_conv: "(m \<bind> f) = Some z \<longleftrightarrow> (\<exists>a. m = Some a \<and> f a = Some z)"
  by (cases m) auto

lemmas bind_convs = bind_pair_Some_conv bind_Some_conv

lemma takeWhile_replicate_False: "takeWhile (\<lambda>c. c \<noteq> x) (replicate n x) = []"
  by (cases n) auto

end
