(* ===== verification/Ducq_State.thy ===== *)
theory Ducq_State
  imports Ducq_Prelude
begin

text \<open>
  The states of ducq (enum \<open>ducq_state\<close> of \<open>src/ducq.h\<close>) and their texts (\<open>src/ducq.c\<close>): the
  enumerators in declaration order with their values, the table the X-macro builds,
  \<open>_sanitize_state\<close>, \<open>ducq_state_tostr\<close> and \<open>ducq_state_short\<close>.  The enumerators are ordered by
  their values, as the comparisons of the code (\<open>state >= DUCQ_ERROR\<close>) read them.
\<close>

datatype ducq_state =
    DUCQ_OK | DUCQ_PROTOCOL | DUCQ_NACK | DUCQ_ERROR | DUCQ_ENULL | DUCQ_ESTDC | DUCQ_EMEMFAIL
  | DUCQ_EFILE | DUCQ_ECOMMLAYER | DUCQ_ECONNECT | DUCQ_ECONNCLOSED | DUCQ_EWRITE | DUCQ_EREAD
  | DUCQ_ECLOSE | DUCQ_ETIMEOUT | DUCQ_EMSGINV | DUCQ_EMSGSIZE | DUCQ_ENOCMD | DUCQ_EACK
  | DUCQ_ENOTFOUND | DUCQ_ENOIMPL | DUCQ_EMAX | DUCQ_ELUA | DUCQ_UNKNOWN

fun state_code :: "ducq_state \<Rightarrow> int" where
  "state_code DUCQ_OK = 0"
| "state_code DUCQ_PROTOCOL = 1"
| "state_code DUCQ_NACK = 2"
| "state_code DUCQ_ERROR = 3"
| "state_code DUCQ_ENULL = 4"
| "state_code DUCQ_ESTDC = 5"
| "state_code DUCQ_EMEMFAIL = 6"
| "state_code DUCQ_EFILE = 7"
| "state_code DUCQ_ECOMMLAYER = 8"
| "state_code DUCQ_ECONNECT = 9"
| "state_code DUCQ_ECONNCLOSED = 10"
| "state_code DUCQ_EWRITE = 11"
| "state_code DUCQ_EREAD = 12"
| "state_code DUCQ_ECLOSE = 13"
| "state_code DUCQ_ETIMEOUT = 14"
| "state_code DUCQ_EMSGINV = 15"
| "state_code DUCQ_EMSGSIZE = 16"
| "state_code DUCQ_ENOCMD = 17"
| "state_code DUCQ_EACK = 18"
| "state_code DUCQ_ENOTFOUND = 19"
| "state_code DUCQ_ENOIMPL = 20"
| "state_code DUCQ_EMAX = 21"
| "state_code DUCQ_ELUA = 22"
| "state_code DUCQ_UNKNOWN = 23"

text \<open>\<open>state_str\<close>: the stringised enumerator and its message, one row per enumerator.\<close>

definition state_str :: "(string \<times> string) list" where
  "state_str =
    [(''ok'', ''ok''),
     (''DUCQ_PROTOCOL'', ''protocol-layer message (not an error)''),
     (''DUCQ_NACK'', ''received NACK from server''),
     (''DUCQ_ERROR'', ''error''),
     (''DUCQ_ENULL'', ''null parameter''),
     (''DUCQ_ESTDC'', ''std c lib error''),
     (''DUCQ_EMEMFAIL'', ''os memory allocation failed''),
     (''DUCQ_EFILE'', ''os file io error''),
     (''DUCQ_ECOMMLAYER'', ''os communication layer error''),
     (''DUCQ_ECONNECT'', ''could not connect to server''),
     (''DUCQ_ECONNCLOSED'', ''connection closed''),
     (''DUCQ_EWRITE'', ''communication write error''),
     (''DUCQ_EREAD'', ''communication read error''),
     (''DUCQ_ECLOSE'', ''error closing connection''),
     (''DUCQ_ETIMEOUT'', ''timeout''),
     (''DUCQ_EMSGINV'', ''message invalid''),
     (''DUCQ_EMSGSIZE'', ''message too big''),
     (''DUCQ_ENOCMD'', ''command unknown''),
     (''DUCQ_EACK'', ''no ack received''),
     (''DUCQ_ENOTFOUND'', ''connection not found''),
     (''DUCQ_ENOIMPL'', ''not implemented yet''),
     (''DUCQ_EMAX'', ''collection reached maximum count''),
     (''DUCQ_ELUA'', ''lua error''),
     (''DUCQ_UNKNOWN'', ''unknown error'')]"

text \<open>\<open>_sanitize_state\<close> on a C int: negating the smallest int is undefined.\<close>

definition sanitize_state :: "int \<Rightarrow> int option" where
  "sanitize_state state =
     (if state = - (2 ^ 31) then None
      else
        let state = (if state < 0 then - state else state);
            last = int (length state_str) - 1
        in Some (if state > last then last else state))"

definition ducq_state_tostr :: "int \<Rightarrow> string option" where
  "ducq_state_tostr state =
     do { s \<leftarrow> sanitize_state state; Some (snd (state_str ! nat s)) }"

definition ducq_state_short :: "int \<Rightarrow> string option" where
  "ducq_state_short state =
     do { s \<leftarrow> sanitize_state state;
          let ptr = fst (state_str ! nat s);
          Some (if s \<noteq> state_code DUCQ_OK then drop 5 ptr else ptr) }"

text \<open>The message of an enumerator.\<close>

definition state_msg :: "ducq_state \<Rightarrow> string" where
  "state_msg s = snd (state_str ! nat (state_code s))"

section \<open>The enumerators as an ordered type\<close>

definition all_states :: "ducq_state list" where
  "all_states =
    [DUCQ_OK, DUCQ_PROTOCOL, DUCQ_NACK, DUCQ_ERROR, DUCQ_ENULL, DUCQ_ESTDC, DUCQ_EMEMFAIL,
     DUCQ_EFILE, DUCQ_ECOMMLAYER, DUCQ_ECONNECT, DUCQ_ECONNCLOSED, DUCQ_EWRITE, DUCQ_EREAD,
     DUCQ_ECLOSE, DUCQ_ETIMEOUT, DUCQ_EMSGINV, DUCQ_EMSGSIZE, DUCQ_ENOCMD, DUCQ_EACK,
     DUCQ_ENOTFOUND, DUCQ_ENOIMPL, DUCQ_EMAX, DUCQ_ELUA, DUCQ_UNKNOWN]"

lemma in_all_states: "s \<in> set all_states"
  by (cases s) (simp_all add: all_states_def)

lemma all_states_code: "map state_code all_states = map int [0..<24]"
  by (simp add: all_states_def upt_rec)

lemma state_code_inj: "state_code s = state_code t \<longleftrightarrow> s = t"
proof
  assume eq: "state_code s = state_code t"
  have "distinct (map state_code all_states)"
    by (simp add: all_states_code distinct_map)
  then have "inj_on state_code (set all_states)"
    by (simp add: distinct_map)
  with eq show "s = t"
    by (meson in_all_states inj_onD)
qed simp

lemma state_code_range: "0 \<le> state_code s \<and> state_code s < 24"
proof -
  have "state_code s \<in> set (map state_code all_states)"
    using in_all_states by simp
  then show ?thesis
    by (auto simp: all_states_code)
qed

instantiation ducq_state :: linorder
begin

definition less_eq_ducq_state :: "ducq_state \<Rightarrow> ducq_state \<Rightarrow> bool" where
  "less_eq_ducq_state s t \<longleftrightarrow> state_code s \<le> state_code t"

definition less_ducq_state :: "ducq_state \<Rightarrow> ducq_state \<Rightarrow> bool" where
  "less_ducq_state s t \<longleftrightarrow> state_code s < state_code t"

instance
  by standard (auto simp: less_eq_ducq_state_def less_ducq_state_def state_code_inj)

end

lemmas state_order = less_eq_ducq_state_def less_ducq_state_def

section \<open>Texts of the states\<close>

lemma length_state_str [simp]: "length state_str = 24"
  by (simp add: state_str_def)

lemma sanitize_state_range:
  "sanitize_state i = Some s \<Longrightarrow> 0 \<le> s \<and> s < int (length state_str)"
  by (auto simp: sanitize_state_def Let_def split: if_splits)

lemma sanitize_state_code [simp]: "sanitize_state (state_code s) = Some (state_code s)"
  using state_code_range [of s] by (auto simp: sanitize_state_def Let_def)

lemma ducq_state_tostr_code [simp]: "ducq_state_tostr (state_code s) = Some (state_msg s)"
  by (simp add: ducq_state_tostr_def state_msg_def)

lemma state_msg_facts:
  "NUL \<notin> set (state_msg s) \<and> LF \<notin> set (state_msg s) \<and> length (state_msg s) < 40"
  by (cases s) (simp_all add: state_msg_def state_str_def)

text \<open>Every C int but the smallest has a message and a short name: those of the enumerator
  whose value is its absolute value, or of \<open>DUCQ_UNKNOWN\<close> when there is no such enumerator.\<close>

theorem state_texts_total:
  assumes "- (2 ^ 31) < i"
  shows "\<exists>s. state_code s = min \<bar>i\<bar> 23 \<and> ducq_state_tostr i = Some (snd (state_str ! nat (state_code s)))
    \<and> ducq_state_short i = Some (if s = DUCQ_OK then ''ok'' else drop 5 (fst (state_str ! nat (state_code s))))"
proof -
  have san: "sanitize_state i = Some (min \<bar>i\<bar> 23)"
    using assms by (auto simp: sanitize_state_def Let_def)
  have "min \<bar>i\<bar> 23 \<in> set (map state_code all_states)"
    by (auto simp: all_states_code image_iff intro!: bexI [of _ "nat (min \<bar>i\<bar> 23)"])
  then obtain s where s: "state_code s = min \<bar>i\<bar> 23"
    by auto
  have "s = DUCQ_OK \<longleftrightarrow> min \<bar>i\<bar> 23 = 0"
    using state_code_inj [of s DUCQ_OK] s by simp
  then show ?thesis
    using san s by (intro exI [of _ s])
      (auto simp: ducq_state_tostr_def ducq_state_short_def state_str_def)
qed

theorem state_texts_total_witness:
  "\<exists>s. state_code s = 17 \<and> ducq_state_tostr (- 17) = Some (snd (state_str ! nat (state_code s)))"
  using state_texts_total [of "- 17"] by auto

end
