(* ===== verification/Ducq_Parse.thy ===== *)
theory Ducq_Parse
  imports Ducq_State
begin

text \<open>
  Message parsing of \<open>src/ducq.c\<close>: \<open>ducq_parse_command\<close>, \<open>ducq_parse_route\<close>,
  \<open>ducq_parse_payload\<close>, \<open>ducq_parse_msg\<close>, \<open>ducq_ack_to_state\<close> and the route matcher
  \<open>ducq_route_cmp\<close>.  A buffer is the C string it holds; a pointer into it is an index, NULL is
  None.  The matcher is compared with the declarative meaning of a wildcard pattern.
\<close>

section \<open>Pointers into a message\<close>

text \<open>The command and the value stored through \<open>end\<close>.\<close>

definition ducq_parse_command :: "string \<Rightarrow> nat option \<times> nat option" where
  "ducq_parse_command buffer =
     (case strchr buffer SP of
        None \<Rightarrow> (None, None)
      | Some ptr \<Rightarrow> (if buffer ! ptr \<noteq> NUL then Some 0 else None, Some ptr))"

text \<open>The route and the value of \<open>*end\<close> afterwards; \<open>end0\<close> is its value before the call, which
  the early return leaves alone.\<close>

definition ducq_parse_route :: "string \<Rightarrow> nat option \<Rightarrow> nat option \<times> nat option" where
  "ducq_parse_route buffer end0 =
     (case (case buffer of
              [] \<Rightarrow> strchr buffer SP
            | c # _ \<Rightarrow> if c \<noteq> SP then strchr buffer SP else Some 0) of
        None \<Rightarrow> (None, end0)
      | Some b \<Rightarrow>
          (let b = b + 1 in
           case strchr (drop b buffer) LF of
             None \<Rightarrow> (None, None)
           | Some ptr \<Rightarrow> (if buffer ! (b + ptr) \<noteq> NUL then Some b else None, Some (b + ptr))))"

definition ducq_parse_payload :: "string \<Rightarrow> nat option" where
  "ducq_parse_payload buffer =
     (case strchr buffer LF of None \<Rightarrow> None | Some ptr \<Rightarrow> Some (ptr + 1))"

text \<open>\<open>strtok\<close>: the token and what is left for the next call.\<close>

definition strtok :: "string \<Rightarrow> string \<Rightarrow> string option \<times> string" where
  "strtok s delim =
     (let t = dropWhile (\<lambda>c. c \<in> set delim) s in
      if t = [] then (None, [])
      else (Some (takeWhile (\<lambda>c. c \<notin> set delim) t), drop 1 (dropWhile (\<lambda>c. c \<notin> set delim) t)))"

record ducq_msg =
  msg_command :: "string option"
  msg_route :: "string option"
  msg_payload :: "string option"

definition ducq_parse_msg :: "string \<Rightarrow> ducq_msg" where
  "ducq_parse_msg message =
     (let (c, rest) = strtok message [SP];
          (r, rest) = strtok rest [LF];
          (p, rest) = strtok rest []
      in \<lparr>msg_command = c, msg_route = r, msg_payload = p\<rparr>)"

text \<open>\<open>ducq_ack_to_state\<close>: the enum it returns holds the low 32 bits of the number read.\<close>

definition state_val :: "ducq_state \<Rightarrow> 32 word" where
  "state_val s = word_of_int (state_code s)"

definition ducq_ack_to_state :: "string \<Rightarrow> 32 word" where
  "ducq_ack_to_state msg =
     (if strncmp_eq msg ''ACK'' 3 then state_val DUCQ_OK
      else
        case ducq_parse_payload msg of
          None \<Rightarrow> state_val DUCQ_EMSGINV
        | Some payload \<Rightarrow>
            (let ack = strtol (drop payload msg) in
             if ack = 0 then state_val DUCQ_EMSGINV else word_of_int ack))"

section \<open>Route matching\<close>

definition strchrnull :: "string \<Rightarrow> char \<Rightarrow> string" where
  "strchrnull str c = dropWhile (\<lambda>x. x \<noteq> c) str"

definition c_head :: "string \<Rightarrow> char" where
  "c_head s = (case s of [] \<Rightarrow> NUL | c # _ \<Rightarrow> c)"

fun route_cmp_loop :: "string \<Rightarrow> string \<Rightarrow> string \<times> string" where
  "route_cmp_loop [] pub = ([], pub)"
| "route_cmp_loop sub [] = (sub, [])"
| "route_cmp_loop (s # sub) (p # pub) =
     (if s = CHR ''*'' then route_cmp_loop sub (strchrnull (p # pub) (c_head sub))
      else if s = p then route_cmp_loop sub pub
      else (s # sub, p # pub))"

definition ducq_route_cmp :: "string option \<Rightarrow> string option \<Rightarrow> bool" where
  "ducq_route_cmp sub pub =
     (case (sub, pub) of
        (Some sub, Some pub) \<Rightarrow>
          (let (sub, pub) = route_cmp_loop sub pub;
               sub = (if c_head sub = CHR ''*'' then tl sub else sub)
           in sub = [] \<and> pub = [])
      | _ \<Rightarrow> False)"

text \<open>The declarative meaning of a pattern: a star stands for any text.\<close>

inductive glob :: "string \<Rightarrow> string \<Rightarrow> bool" where
  glob_nil: "glob [] []"
| glob_lit: "c \<noteq> CHR ''*'' \<Longrightarrow> glob s p \<Longrightarrow> glob (c # s) (c # p)"
| glob_star: "glob s p \<Longrightarrow> glob (CHR ''*'' # s) (m @ p)"

text \<open>The meaning the code gives a pattern: a star at the end stands for any text, any other
  star for the shortest text before the next character of the pattern.\<close>

inductive lazy_glob :: "string \<Rightarrow> string \<Rightarrow> bool" where
  lazy_nil: "lazy_glob [] []"
| lazy_lit: "c \<noteq> CHR ''*'' \<Longrightarrow> lazy_glob s p \<Longrightarrow> lazy_glob (c # s) (c # p)"
| lazy_last: "lazy_glob ''*'' p"
| lazy_star: "c \<noteq> CHR ''*'' \<Longrightarrow> c \<notin> set m \<Longrightarrow> lazy_glob (c # s) (c # p) \<Longrightarrow>
    lazy_glob (CHR ''*'' # c # s) (m @ c # p)"

inductive_cases lazy_nilE: "lazy_glob [] p"
inductive_cases lazy_consE: "lazy_glob (c # s) p"
inductive_simps lazy_nil_iff [simp]: "lazy_glob [] p"
inductive_simps lazy_lit_iff: "lazy_glob (c # s) (d # p)"
inductive_simps glob_nil_iff [simp]: "glob [] p"

definition route_end :: "string \<times> string \<Rightarrow> bool" where
  "route_end sp \<longleftrightarrow>
     (let sub = (if c_head (fst sp) = CHR ''*'' then tl (fst sp) else fst sp)
      in sub = [] \<and> snd sp = [])"

lemma ducq_route_cmp_Some:
  "ducq_route_cmp (Some s) (Some p) \<longleftrightarrow> route_end (route_cmp_loop s p)"
  by (simp add: ducq_route_cmp_def route_end_def split: prod.splits)

lemma ducq_route_cmp_NULL [simp]:
  "\<not> ducq_route_cmp None p" and "\<not> ducq_route_cmp s None"
  by (simp_all add: ducq_route_cmp_def split: option.splits)

lemma c_head_simps [simp]: "c_head [] = NUL" "c_head (c # s) = c"
  by (simp_all add: c_head_def)

lemma strchrnull_split: "\<exists>m. p = m @ strchrnull p c \<and> c \<notin> set m"
  by (rule exI [of _ "takeWhile (\<lambda>x. x \<noteq> c) p"])
     (auto simp: strchrnull_def dest: set_takeWhileD)

lemma strchrnull_found [simp]: "c \<notin> set m \<Longrightarrow> strchrnull (m @ c # p) c = c # p"
  by (auto simp: strchrnull_def dropWhile_append)

lemma strchrnull_absent: "c \<notin> set p \<Longrightarrow> strchrnull p c = []"
  by (auto simp: strchrnull_def)

lemma route_loop_nil [simp]: "route_cmp_loop s [] = (s, [])"
  by (cases s) simp_all

lemma route_end_nil [simp]: "route_end ([], p) \<longleftrightarrow> p = []"
  by (simp add: route_end_def Let_def)

lemma route_end_cons [simp]: "route_end (c # s, p) \<longleftrightarrow> c = CHR ''*'' \<and> s = [] \<and> p = []"
  by (auto simp: route_end_def Let_def)

lemma route_end_stuck: "route_end (s, []) \<longleftrightarrow> s = [] \<or> s = ''*''"
  by (cases s) auto

lemma route_loop_sound: "route_end (route_cmp_loop s p) \<Longrightarrow> glob s p"
proof (induction s p rule: route_cmp_loop.induct)
  case (1 pub)
  then show ?case by simp
next
  case (2 s sub)
  then have "glob (s # sub) ([] @ [])"
    by (auto intro: glob.intros simp del: append_Nil append_Nil2)
  then show ?case by simp
next
  case (3 s sub p pub)
  show ?case
  proof (cases "s = CHR ''*''")
    case True
    with 3 have "glob sub (strchrnull (p # pub) (c_head sub))"
      by simp
    moreover obtain m where "p # pub = m @ strchrnull (p # pub) (c_head sub)"
      using strchrnull_split by blast
    ultimately show ?thesis
      using True by (metis glob_star)
  next
    case False
    with 3 show ?thesis
      by (auto intro: glob_lit split: if_splits)
  qed
qed

text \<open>No two stars side by side.\<close>

fun spaced_stars :: "string \<Rightarrow> bool" where
  "spaced_stars (c # d # s) \<longleftrightarrow> \<not> (c = CHR ''*'' \<and> d = CHR ''*'') \<and> spaced_stars (d # s)"
| "spaced_stars _ \<longleftrightarrow> True"

lemma spaced_stars_Cons: "spaced_stars (c # s) \<Longrightarrow> spaced_stars s"
  by (cases s) auto

lemma route_loop_literal:
  "CHR ''*'' \<notin> set a \<Longrightarrow> route_cmp_loop (a @ s) (a @ p) = route_cmp_loop s p"
  by (induction a) auto

lemma lazy_star_iff:
  assumes "c \<noteq> CHR ''*''"
  shows "lazy_glob (CHR ''*'' # c # s) p \<longleftrightarrow> lazy_glob (c # s) (strchrnull p c)"
proof
  assume "lazy_glob (CHR ''*'' # c # s) p"
  then show "lazy_glob (c # s) (strchrnull p c)"
    using assms by (auto elim!: lazy_consE intro: lazy_lit)
next
  assume l: "lazy_glob (c # s) (strchrnull p c)"
  then obtain r where r: "strchrnull p c = c # r"
    using assms by (auto elim: lazy_consE)
  obtain m where m: "p = m @ strchrnull p c" "c \<notin> set m"
    using strchrnull_split by blast
  then have "lazy_glob (CHR ''*'' # c # s) (m @ c # r)"
    using l r assms by (intro lazy_star) auto
  then show "lazy_glob (CHR ''*'' # c # s) p"
    using m r by simp
qed

lemma lazy_star_nil: "lazy_glob (c # s) [] \<longleftrightarrow> c = CHR ''*'' \<and> s = []"
  by (auto elim: lazy_consE intro: lazy_last)

lemma route_loop_lazy:
  "spaced_stars s \<Longrightarrow> NUL \<notin> set p \<Longrightarrow> route_end (route_cmp_loop s p) \<longleftrightarrow> lazy_glob s p"
proof (induction s p rule: route_cmp_loop.induct)
  case (1 pub)
  then show ?case by auto
next
  case (2 s sub)
  then show ?case by (auto simp: lazy_star_nil)
next
  case (3 s sub p pub)
  note spaced = spaced_stars_Cons [OF "3.prems"(1)]
  have nul: "NUL \<notin> set (strchrnull (p # pub) c)" for c
    using "3.prems"(2) by (auto simp: strchrnull_def dest!: set_dropWhileD split: if_splits)
  show ?case
  proof (cases "s = CHR ''*''")
    case True
    show ?thesis
    proof (cases sub)
      case Nil
      then show ?thesis
        using True "3.prems"(2) by (auto simp: strchrnull_absent intro: lazy_last)
    next
      case (Cons c r)
      then have "c \<noteq> CHR ''*''"
        using "3.prems"(1) True by simp
      then show ?thesis
        using True "3.IH"(1) [OF True spaced nul] Cons by (simp add: lazy_star_iff)
    qed
  next
    case False
    then have "lazy_glob (s # sub) (p # pub) \<longleftrightarrow> s = p \<and> lazy_glob sub pub"
      by (auto elim: lazy_consE intro: lazy_lit)
    then show ?thesis
      using False "3.IH"(2) [OF False _ spaced] "3.prems"(2) by auto
  qed
qed

section \<open>What the parsers return\<close>

text \<open>The text of a message with the given parts.\<close>

definition message_text :: "string \<Rightarrow> string \<Rightarrow> string \<Rightarrow> string" where
  "message_text c r p = c @ SP # r @ LF # p"

definition parts_ok :: "string \<Rightarrow> string \<Rightarrow> bool" where
  "parts_ok c r \<longleftrightarrow> SP \<notin> set c \<and> LF \<notin> set c \<and> c \<noteq> [] \<and> LF \<notin> set r"

lemma parse_command_text:
  "SP \<notin> set c \<Longrightarrow> ducq_parse_command (c @ SP # rest) = (Some 0, Some (length c))"
  by (simp add: ducq_parse_command_def strchr_append)

lemma parse_payload_text:
  "LF \<notin> set s \<Longrightarrow> ducq_parse_payload (s @ LF # p) = Some (Suc (length s))"
  by (simp add: ducq_parse_payload_def strchr_append)

lemma parse_route_text:
  assumes "SP \<notin> set c" and "LF \<notin> set r"
  shows "ducq_parse_route (c @ SP # r @ LF # p) e =
    (Some (Suc (length c)), Some (Suc (length c) + length r))"
proof -
  have "strchr (c @ SP # r @ LF # p) SP = Some (length c)"
    using assms by (simp add: strchr_append)
  moreover have "strchr (r @ LF # p) LF = Some (length r)"
    using assms by (simp add: strchr_append)
  ultimately show ?thesis
    using assms by (cases c) (auto simp: ducq_parse_route_def nth_append Let_def)
qed

lemma parse_route_Some:
  assumes "ducq_parse_route s e = (Some b, e')"
  obtains n where "e' = Some (b + n)" and "b + n < length s" and "s ! (b + n) = LF"
    and "LF \<notin> set (take n (drop b s))"
proof -
  from assms obtain n where n: "strchr (drop b s) LF = Some n" and e: "e' = Some (b + n)"
    by (auto simp: ducq_parse_route_def Let_def split: option.splits if_splits)
  from strchr_SomeD(1-3) [OF n] show ?thesis
    by (intro that [OF e]) auto
qed

lemma strtok_first:
  assumes "t \<noteq> []" and "set t \<inter> set ds = {}" and "d \<in> set ds"
  shows "strtok (t @ d # rest) ds = (Some t, rest)"
proof -
  obtain x xs where t: "t = x # xs" using assms(1) by (cases t) auto
  have "dropWhile (\<lambda>c. c \<in> set ds) (t @ d # rest) = t @ d # rest"
    using assms(2) t by auto
  moreover have "takeWhile (\<lambda>c. c \<notin> set ds) (t @ d # rest) = t"
    and "dropWhile (\<lambda>c. c \<notin> set ds) (t @ d # rest) = d # rest"
    using assms(2,3) by (auto simp: takeWhile_append dropWhile_append)
  ultimately show ?thesis
    by (simp add: strtok_def t)
qed

lemma dropWhile_True: "length (dropWhile (\<lambda>c. True) s) = 0"
  by (induction s) auto

lemma strtok_rest: "strtok s [] = (if s = [] then (None, []) else (Some s, []))"
  by (simp add: strtok_def dropWhile_True)

lemma parse_msg_text:
  assumes "parts_ok c r" and "r \<noteq> []"
  shows "ducq_parse_msg (message_text c r p) =
    \<lparr>msg_command = Some c, msg_route = Some r, msg_payload = (if p = [] then None else Some p)\<rparr>"
proof -
  have "strtok (message_text c r p) [SP] = (Some c, r @ LF # p)"
    using assms by (auto simp: message_text_def parts_ok_def intro!: strtok_first)
  moreover have "strtok (r @ LF # p) [LF] = (Some r, p)"
    using assms by (auto simp: parts_ok_def intro!: strtok_first)
  ultimately show ?thesis
    by (simp add: ducq_parse_msg_def strtok_rest)
qed

section \<open>Properties\<close>

text \<open>C36: Whatever the subscriber's pattern, a published route that the code accepts is a text of
  the pattern, with every star standing for some text: no subscriber gets a message its
  pattern does not describe.\<close>

theorem route_cmp_sound: "ducq_route_cmp (Some sub) (Some pub) \<Longrightarrow> glob sub pub"
  by (simp add: ducq_route_cmp_Some route_loop_sound)

theorem route_cmp_sound_witness: "glob ''a/*/c'' ''a/b/c''"
  by (rule route_cmp_sound) code_simp

text \<open>C35: For a pattern without two adjacent stars and a C string, the code decides exactly the
  lazy reading of the pattern: a last star stands for any text, an inner star for the shortest
  text before the first occurrence of the pattern's next character.\<close>

theorem route_cmp_lazy:
  assumes "spaced_stars sub" and "NUL \<notin> set pub"
  shows "ducq_route_cmp (Some sub) (Some pub) \<longleftrightarrow> lazy_glob sub pub"
  using assms by (simp add: ducq_route_cmp_Some route_loop_lazy)

theorem route_cmp_lazy_witness: "lazy_glob ''a/*'' ''a/b/c'' \<and> \<not> lazy_glob ''*ab'' ''aab''"
  using route_cmp_lazy [of "''a/*''" "''a/b/c''"] route_cmp_lazy [of "''*ab''" "''aab''"]
  by (simp add: ducq_route_cmp_def strchrnull_def)

text \<open>An inner star followed by a separator \<open>c\<close> consumes exactly one segment \<open>m\<close>: after equal
  literal texts the match goes on behind the next separator on both sides; and a final star
  accepts every rest.\<close>

theorem route_cmp_segment:
  assumes "CHR ''*'' \<notin> set a" and "c \<noteq> CHR ''*''" and "c \<notin> set m" and "NUL \<notin> set p"
  shows "ducq_route_cmp (Some (a @ CHR ''*'' # c # s)) (Some (a @ m @ c # p))
      = ducq_route_cmp (Some s) (Some p) \<and> ducq_route_cmp (Some (a @ ''*'')) (Some (a @ p))"
proof (intro conjI)
  obtain d q where dq: "m @ c # p = d # q" by (cases m) auto
  have "route_cmp_loop (CHR ''*'' # c # s) (m @ c # p) = route_cmp_loop (c # s) (c # p)"
    using assms(3) by (metis c_head_simps(2) dq route_cmp_loop.simps(3) strchrnull_found)
  then show "ducq_route_cmp (Some (a @ CHR ''*'' # c # s)) (Some (a @ m @ c # p))
      = ducq_route_cmp (Some s) (Some p)"
    using assms(1,2) by (simp add: ducq_route_cmp_Some route_loop_literal)
  have "route_end (route_cmp_loop ''*'' p)"
    using assms(4) by (cases p) (auto simp: strchrnull_absent)
  then show "ducq_route_cmp (Some (a @ ''*'')) (Some (a @ p))"
    using assms(1) by (simp add: ducq_route_cmp_Some route_loop_literal)
qed

theorem route_cmp_segment_witness:
  "ducq_route_cmp (Some ''a/*/c'') (Some ''a/bb/c'') \<and> ducq_route_cmp (Some ''a/*'') (Some ''a/x/y'')"
  using route_cmp_segment [of "''a/''" "CHR ''/''" "''bb''" "''c''" "''c''"]
    route_cmp_segment [of "''a/''" "CHR ''/''" "''bb''" "''x/y''"]
  by (simp add: ducq_route_cmp_def)

text \<open>The matcher does not backtrack and treats runs of stars unevenly: \<open>*ab\<close> does not match
  \<open>aab\<close>, \<open>**\<close> matches every route but \<open>***\<close> does not match \<open>abc\<close>, though all are texts of the
  patterns.\<close>

theorem route_cmp_incomplete:
  "glob ''*ab'' ''aab'' \<and> \<not> ducq_route_cmp (Some ''*ab'') (Some ''aab'') \<and>
   glob ''***'' ''abc'' \<and> \<not> ducq_route_cmp (Some ''***'') (Some ''abc'') \<and>
   ducq_route_cmp (Some ''**'') (Some ''abc'')"
proof -
  have g: "glob (CHR ''*'' # s) (m @ p)" if "glob s p" for s m p
    using that by (rule glob_star)
  have "glob ''ab'' ''ab''"
    by (auto intro: glob.intros)
  from g [OF this, of "''a''"] have "glob ''*ab'' ''aab''" by simp
  moreover have "glob ''***'' ''abc''"
    using g [OF g [OF g [OF glob_nil, of "[]"], of "[]"], of "''abc''"] by simp
  ultimately show ?thesis
    by (simp add: ducq_route_cmp_def strchrnull_def)
qed

text \<open>On the text of a command, a route and a payload, the three non-destructive parsers point
  at the three parts and at their ends, whatever the payload holds.\<close>

theorem parse_text:
  assumes "parts_ok c r"
  shows "ducq_parse_command (message_text c r p) = (Some 0, Some (length c)) \<and>
    ducq_parse_route (message_text c r p) e =
      (Some (Suc (length c)), Some (Suc (length c) + length r)) \<and>
    map_option (\<lambda>i. drop i (message_text c r p)) (ducq_parse_payload (message_text c r p)) = Some p"
proof (intro conjI)
  show "ducq_parse_command (message_text c r p) = (Some 0, Some (length c))"
    using assms by (simp add: message_text_def parts_ok_def parse_command_text)
  show "ducq_parse_route (message_text c r p) e =
      (Some (Suc (length c)), Some (Suc (length c) + length r))"
    using assms by (simp add: message_text_def parts_ok_def parse_route_text)
  have "ducq_parse_payload (message_text c r p) = Some (Suc (length (c @ SP # r)))"
    using assms parse_payload_text [of "c @ SP # r" p] by (auto simp: message_text_def parts_ok_def)
  then show "map_option (\<lambda>i. drop i (message_text c r p))
      (ducq_parse_payload (message_text c r p)) = Some p"
    by (simp add: message_text_def)
qed

theorem parse_text_witness:
  "parts_ok ''pub'' ''a/b'' \<and>
   ducq_parse_route (message_text ''pub'' ''a/b'' ''x y'') None = (Some 4, Some 7)"
proof -
  have "parts_ok ''pub'' ''a/b''" by (simp add: parts_ok_def)
  then show ?thesis
    using parse_text [of "''pub''" "''a/b''" "''x y''" None] by simp
qed

text \<open>The destructive parser finds the same three parts when the route is not empty (an empty
  payload is NULL).\<close>

theorem parse_msg_parts:
  assumes "parts_ok c r" and "r \<noteq> []"
  shows "ducq_parse_msg (message_text c r p) =
    \<lparr>msg_command = Some c, msg_route = Some r, msg_payload = (if p = [] then None else Some p)\<rparr>"
  using assms by (rule parse_msg_text)

theorem parse_msg_parts_witness:
  "ducq_parse_msg (message_text ''pub'' ''a'' ''x y'') =
    \<lparr>msg_command = Some ''pub'', msg_route = Some ''a'', msg_payload = Some ''x y''\<rparr>"
  by (subst parse_msg_parts) (simp_all add: parts_ok_def)

text \<open>With an empty route the two parsers disagree: \<open>strtok\<close> skips the empty field, so the
  destructive parser takes the payload for the route, where \<open>ducq_parse_route\<close> finds the empty
  route.\<close>

theorem parse_msg_empty_route:
  "ducq_parse_msg (message_text ''pub'' [] ''hello'') =
     \<lparr>msg_command = Some ''pub'', msg_route = Some ''hello'', msg_payload = None\<rparr> \<and>
   ducq_parse_route (message_text ''pub'' [] ''hello'') None = (Some 4, Some 4)"
  by (simp add: message_text_def ducq_parse_msg_def strtok_def ducq_parse_route_def strchr_def)

end
