(* ===== verification/Inet_Socket.thy ===== *)
theory Inet_Socket
  imports Ducq_Prelude
begin

text \<open>
  The operating system as ducq sees it, and \<open>src/inet_socket.c\<close>.

  The system calls are scripted: for each file descriptor a list of what the next \<open>read\<close>s
  deliver and a list of what the next \<open>write\<close>s accept, so a theorem about every script is a
  theorem about every fragmentation, signal and failure.  \<open>readn\<close> and \<open>writen\<close> are the
  loops of the source; the address text of \<open>inet_ntop\<close> and the answers of the other calls are
  fields of the state.
\<close>

section \<open>System calls\<close>

text \<open>The values of \<open>errno\<close> the code tests, and the others.\<close>

datatype errno = EINTR | EWOULDBLOCK | EOTHER

text \<open>\<open>RData bs\<close>: bytes have arrived (none: end of file); \<open>WOk k\<close>: a write takes at most \<open>k\<close>
  bytes.  When its script is used up, a \<open>read\<close> reports end of file and a \<open>write\<close> takes all.\<close>

datatype rd_ev = RData "char list" | RErr errno
datatype wr_ev = WOk nat | WErr errno

text \<open>A socket address: its family, the text \<open>inet_ntop\<close> gives for it, its port.\<close>

datatype sockaddr = AF_INET string nat | AF_INET6 string nat | AF_OTHER

datatype os_call =
    CSocket int
  | CReuseAddr int
  | CRcvTimeout int nat
  | CConnect int string "16 word"
  | CShutdownWr int
  | CClose int

record os =
  os_in :: "int \<Rightarrow> rd_ev list"
  os_wr :: "int \<Rightarrow> wr_ev list"
  os_out :: "int \<Rightarrow> char list"
  os_errno :: errno
  os_calls :: "os_call list"
  os_socket :: "int list"
  os_sockopt :: "int list"
  os_connect :: "int list"
  os_close :: "int list"
  os_pton :: "string \<Rightarrow> int"
  os_peer :: "int \<Rightarrow> sockaddr option"
  os_self :: "int \<Rightarrow> sockaddr option"
  os_time :: int
  os_rand :: "int \<Rightarrow> nat \<Rightarrow> int"
  os_malloc :: "bool list"

text \<open>The next answer of a script of results, and \<open>d\<close> when it is used up.\<close>

definition answer :: "'a \<Rightarrow> 'a list \<Rightarrow> 'a" where
  "answer d xs = (case xs of [] \<Rightarrow> d | x # _ \<Rightarrow> x)"

definition log_call :: "os_call \<Rightarrow> os \<Rightarrow> os" where
  "log_call c s = s\<lparr>os_calls := os_calls s @ [c]\<rparr>"

definition sys_read :: "int \<Rightarrow> nat \<Rightarrow> os \<Rightarrow> int \<times> char list \<times> os" where
  "sys_read fd n s =
     (case os_in s fd of
        [] \<Rightarrow> (0, [], s)
      | RData bs # es \<Rightarrow>
          (int (min n (length bs)), take n bs,
           s\<lparr>os_in := (os_in s)(fd := if n < length bs then RData (drop n bs) # es else es)\<rparr>)
      | RErr e # es \<Rightarrow> (- 1, [], s\<lparr>os_in := (os_in s)(fd := es), os_errno := e\<rparr>))"

definition sys_write :: "int \<Rightarrow> char list \<Rightarrow> os \<Rightarrow> int \<times> os" where
  "sys_write fd bs s =
     (case os_wr s fd of
        [] \<Rightarrow> (int (length bs), s\<lparr>os_out := (os_out s)(fd := os_out s fd @ bs)\<rparr>)
      | WOk k # es \<Rightarrow>
          (int (min k (length bs)),
           s\<lparr>os_wr := (os_wr s)(fd := es), os_out := (os_out s)(fd := os_out s fd @ take k bs)\<rparr>)
      | WErr e # es \<Rightarrow> (- 1, s\<lparr>os_wr := (os_wr s)(fd := es), os_errno := e\<rparr>))"

definition sys_close :: "int \<Rightarrow> os \<Rightarrow> int \<times> os" where
  "sys_close fd s = (answer 0 (os_close s), log_call (CClose fd) (s\<lparr>os_close := tl (os_close s)\<rparr>))"

definition sys_setsockopt :: "os_call \<Rightarrow> os \<Rightarrow> int \<times> os" where
  "sys_setsockopt c s = (answer 0 (os_sockopt s), log_call c (s\<lparr>os_sockopt := tl (os_sockopt s)\<rparr>))"

definition sys_malloc :: "os \<Rightarrow> bool \<times> os" where
  "sys_malloc s = (answer True (os_malloc s), s\<lparr>os_malloc := tl (os_malloc s)\<rparr>)"

section \<open>readn and writen\<close>

text \<open>The bytes stored behind \<open>vptr\<close> are collected in \<open>acc\<close>; what the function returns comes first.\<close>

function readn_loop :: "int \<Rightarrow> nat \<Rightarrow> char list \<Rightarrow> os \<Rightarrow> int \<times> char list \<times> os" where
  "readn_loop fd nleft acc s =
     (if nleft = 0 then (int (length acc), acc, s)
      else
        let (nread, bs, s') = sys_read fd nleft s in
        if nread < 0 then
          if os_errno s' = EINTR then readn_loop fd nleft acc s' else (- 1, acc, s')
        else if nread = 0 then (int (length acc), acc, s')
        else readn_loop fd (nleft - nat nread) (acc @ bs) s')"
  by pat_completeness auto
termination
  by (relation "measure (\<lambda>(fd, nleft, acc, s). nleft + length (os_in s fd))")
     (auto simp: sys_read_def split: list.splits rd_ev.splits if_splits)

declare readn_loop.simps [simp del]

definition readn :: "int \<Rightarrow> char list \<Rightarrow> nat \<Rightarrow> nat \<Rightarrow> os \<Rightarrow> (int \<times> char list \<times> os) option" where
  "readn fd buf off n s =
     (let (r, bs, s') = readn_loop fd n [] s in
      map_option (\<lambda>buf'. (r, buf', s')) (mem_write buf off bs))"

text \<open>\<open>writen (fd, ptr, n)\<close> of the \<open>n\<close> bytes \<open>bs\<close>; \<open>n\<close> is what it returns when all are written.\<close>

function writen_loop :: "int \<Rightarrow> char list \<Rightarrow> nat \<Rightarrow> os \<Rightarrow> int \<times> os" where
  "writen_loop fd bs n s =
     (if bs = [] then (int n, s)
      else
        let (nwritten, s') = sys_write fd bs s in
        if nwritten \<le> 0 then
          if nwritten < 0 \<and> os_errno s' = EINTR then writen_loop fd bs n s' else (- 1, s')
        else writen_loop fd (drop (nat nwritten) bs) n s')"
  by pat_completeness auto
termination
  by (relation "measure (\<lambda>(fd, bs, n, s). length bs + length (os_wr s fd))")
     (auto simp: sys_write_def split: list.splits wr_ev.splits if_splits)

declare writen_loop.simps [simp del]

definition writen :: "int \<Rightarrow> char list \<Rightarrow> os \<Rightarrow> int \<times> os" where
  "writen fd bs s = writen_loop fd bs (length bs) s"

section \<open>Sockets and addresses\<close>

definition inet_set_read_timeout :: "int \<Rightarrow> nat \<Rightarrow> os \<Rightarrow> int \<times> os" where
  "inet_set_read_timeout fd timeout_sec s = sys_setsockopt (CRcvTimeout fd timeout_sec) s"

definition inet_close :: "int \<Rightarrow> os \<Rightarrow> int \<times> os" where
  "inet_close fd s = sys_close fd s"

definition inet_shutdown_write :: "int \<Rightarrow> os \<Rightarrow> os" where
  "inet_shutdown_write fd s = log_call (CShutdownWr fd) s"

text \<open>The address of \<open>addr\<close> is all zeros unless \<open>inet_pton\<close> understood the host.\<close>

definition inet_tcp_connect :: "string \<Rightarrow> string \<Rightarrow> bool \<Rightarrow> os \<Rightarrow> int \<times> os" where
  "inet_tcp_connect host service reuseaddr s =
     (let fd = answer (- 1) (os_socket s); s = s\<lparr>os_socket := tl (os_socket s)\<rparr> in
      if fd = - 1 then (- 1, s)
      else
        let s = log_call (CSocket fd) s;
            port = word_of_int (atoi service);
            pton = os_pton s host;
            ip = (if pton = 1 then host else ''0.0.0.0'') in
        if pton = - 1 then (- 1, snd (inet_close fd s))
        else
          let (rc, s) = (if reuseaddr then sys_setsockopt (CReuseAddr fd) s else (0, s)) in
          if rc \<noteq> 0 then (- 1, snd (inet_close fd s))
          else
            let rc = answer 0 (os_connect s);
                s = log_call (CConnect fd ip port) (s\<lparr>os_connect := tl (os_connect s)\<rparr>) in
            if rc = - 1 then (- 1, snd (inet_close fd s)) else (fd, s))"

text \<open>Whether the text was made, and the C string stored at \<open>buffer\<close>, if one was.\<close>

definition inet_address_tostring :: "sockaddr \<Rightarrow> nat \<Rightarrow> bool \<times> string option" where
  "inet_address_tostring addr len =
     (let out = (\<lambda>txt port.
        if length txt < len then
          (let (t, n) = snprintf (len - length txt) (CHR '':'' # dec_nat port)
           in (n < len - length txt, Some (txt @ t)))
        else (False, None))
      in case addr of
           AF_INET txt port \<Rightarrow> out txt port
         | AF_INET6 txt port \<Rightarrow> out txt port
         | AF_OTHER \<Rightarrow> (False, None))"

definition inet_socket_tostring :: "int \<Rightarrow> bool \<Rightarrow> nat \<Rightarrow> os \<Rightarrow> bool \<times> string option" where
  "inet_socket_tostring socket self len s =
     (case (if self then os_self s socket else os_peer s socket) of
        None \<Rightarrow> (False, None)
      | Some addr \<Rightarrow> inet_address_tostring addr len)"

section \<open>Reading a stream\<close>

text \<open>The bytes a script delivers, and the scripts in which nothing but data and signals
  happens, so that the bytes are delivered in pieces of any size.\<close>

fun rd_bytes :: "rd_ev list \<Rightarrow> char list" where
  "rd_bytes [] = []"
| "rd_bytes (RData bs # es) = bs @ rd_bytes es"
| "rd_bytes (RErr e # es) = rd_bytes es"

fun fluent :: "rd_ev list \<Rightarrow> bool" where
  "fluent [] = True"
| "fluent (RData bs # es) = (bs \<noteq> [] \<and> fluent es)"
| "fluent (RErr e # es) = (e = EINTR \<and> fluent es)"

definition stream :: "int \<Rightarrow> os \<Rightarrow> char list" where
  "stream fd s = rd_bytes (os_in s fd)"

text \<open>\<open>s'\<close> is \<open>s\<close> after bytes of \<open>fd\<close> have been read and nothing else has happened.\<close>

definition only_read :: "int \<Rightarrow> os \<Rightarrow> os \<Rightarrow> bool" where
  "only_read fd s s' \<longleftrightarrow> (\<exists>es e. s' = s\<lparr>os_in := (os_in s)(fd := es), os_errno := e\<rparr>)"

lemma only_read_refl [simp]: "only_read fd s s"
  unfolding only_read_def by (rule exI [of _ "os_in s fd"], rule exI [of _ "os_errno s"]) simp

lemma only_readI:
  fixes s :: os and es :: "rd_ev list" and e :: errno
  shows "only_read fd s (s\<lparr>os_in := (os_in s)(fd := es), os_errno := e\<rparr>)"
  unfolding only_read_def by (rule exI [of _ es], rule exI [of _ e]) (rule refl)

lemma only_read_trans [trans]:
  assumes "only_read fd s t" and "only_read fd t u"
  shows "only_read fd s u"
proof -
  obtain es e where t: "t = s\<lparr>os_in := (os_in s)(fd := es), os_errno := e\<rparr>"
    using assms(1) unfolding only_read_def by blast
  obtain es' e' where u: "u = t\<lparr>os_in := (os_in t)(fd := es'), os_errno := e'\<rparr>"
    using assms(2) unfolding only_read_def by blast
  have "u = s\<lparr>os_in := (os_in s)(fd := es'), os_errno := e'\<rparr>"
    by (simp add: t u)
  then show ?thesis
    using only_readI by simp
qed

lemma only_readD:
  assumes "only_read fd s t"
  shows "os_out t = os_out s" and "os_wr t = os_wr s" and "g \<noteq> fd \<Longrightarrow> os_in t g = os_in s g"
    and "os_calls t = os_calls s" and "os_peer t = os_peer s" and "os_close t = os_close s"
    and "os_malloc t = os_malloc s"
  using assms by (auto simp: only_read_def)

lemma only_read_data: "only_read fd s (s\<lparr>os_in := (os_in s)(fd := es)\<rparr>)"
  using only_readI [where s = s and es = es and e = "os_errno s"] by simp

lemma sys_read_only: "sys_read fd n s = (r, bs, s') \<Longrightarrow> only_read fd s s'"
  by (auto simp: sys_read_def intro: only_readI only_read_data split: list.splits rd_ev.splits)

lemma readn_loop_only: "readn_loop fd n acc s = (r, bs, s') \<Longrightarrow> only_read fd s s'"
proof (induction fd n acc s rule: readn_loop.induct)
  case (1 fd n acc s)
  obtain k cs t where rd: "sys_read fd n s = (k, cs, t)"
    by (metis prod_cases3)
  note step = sys_read_only [OF rd] "1.prems"
  show ?case
    using step "1.IH" [OF _ rd [symmetric] refl refl]
    by (subst (asm) (1) readn_loop.simps)
       (auto simp: rd split: if_splits intro: only_read_trans)
qed

text \<open>\<open>readn\<close> of a fluent script: the next bytes of the stream, whatever the pieces are.\<close>

lemma sys_read_fluent:
  assumes "fluent (os_in s fd)" and "0 < n" and "sys_read fd n s = (k, bs, t)"
  shows "k = - 1 \<and> os_errno t = EINTR \<and> bs = [] \<and> stream fd t = stream fd s \<and> fluent (os_in t fd) \<or>
    k = int (length bs) \<and> bs = take (length bs) (stream fd s) \<and> length bs \<le> n \<and>
    stream fd t = drop (length bs) (stream fd s) \<and> fluent (os_in t fd) \<and> (bs = [] \<longrightarrow> stream fd s = [])"
  using assms
  by (cases "os_in s fd" rule: fluent.cases)
     (auto simp: sys_read_def stream_def min_def split: if_splits)

lemma readn_fluent:
  "fluent (os_in s fd) \<Longrightarrow>
    \<exists>s'. readn_loop fd n acc s =
        (int (length acc + min n (length (stream fd s))), acc @ take n (stream fd s), s') \<and>
      only_read fd s s' \<and> fluent (os_in s' fd) \<and> stream fd s' = drop n (stream fd s)"
proof (induction fd n acc s rule: readn_loop.induct)
  case (1 fd n acc s)
  obtain k bs t where rd: "sys_read fd n s = (k, bs, t)"
    by (metis prod_cases3)
  show ?case
  proof (cases "n = 0")
    case True
    then show ?thesis
      using "1.prems" by (subst readn_loop.simps) simp
  next
    case False
    note ih = "1.IH" [OF False rd [symmetric] refl refl]
    have only: "only_read fd s t" by (rule sys_read_only [OF rd])
    from sys_read_fluent [OF "1.prems" _ rd] False
    consider (intr) "k = - 1" "os_errno t = EINTR" "stream fd t = stream fd s" "fluent (os_in t fd)"
      | (eof) "k = 0" "stream fd s = []" "stream fd t = []" "fluent (os_in t fd)"
      | (data) "k = int (length bs)" "bs \<noteq> []" "bs = take (length bs) (stream fd s)"
          "length bs \<le> n" "stream fd t = drop (length bs) (stream fd s)" "fluent (os_in t fd)"
      by fastforce
    then show ?thesis
    proof cases
      case intr
      then show ?thesis
        using ih(1) False rd only by (subst readn_loop.simps) (auto intro: only_read_trans)
    next
      case eof
      then show ?thesis
        using False rd only by (subst readn_loop.simps) auto
    next
      case data
      define str where "str = stream fd s"
      have str: "str = bs @ stream fd t"
        using data(3,5) append_take_drop_id [of "length bs" str] by (simp add: str_def)
      have "0 < k" using data by simp
      then obtain s' where s': "readn_loop fd (n - nat k) (acc @ bs) t =
          (int (length (acc @ bs) + min (n - nat k) (length (stream fd t))),
           (acc @ bs) @ take (n - nat k) (stream fd t), s')"
          "only_read fd t s'" "fluent (os_in s' fd)" "stream fd s' = drop (n - nat k) (stream fd t)"
        using ih(2) data by auto
      have "readn_loop fd n acc s = readn_loop fd (n - nat k) (acc @ bs) t"
        using False rd \<open>0 < k\<close> by (subst readn_loop.simps) simp
      then show ?thesis
        using s' only_read_trans [OF only s'(2)] data(1,4) unfolding str_def [symmetric] str by simp
    qed
  qed
qed

text \<open>Every script: never more bytes than asked for, and the count is that of the bytes stored.\<close>

lemma readn_loop_bounds:
  "readn_loop fd n acc s = (r, bs, s') \<Longrightarrow>
    (r = - 1 \<or> r = int (length bs)) \<and> length bs \<le> length acc + n \<and> (\<exists>p. bs = acc @ p)"
proof (induction fd n acc s rule: readn_loop.induct)
  case (1 fd n acc s)
  obtain k cs t where rd: "sys_read fd n s = (k, cs, t)"
    by (metis prod_cases3)
  have cs: "k < 0 \<or> k = int (length cs) \<and> length cs \<le> n"
    using rd by (auto simp: sys_read_def split: list.splits rd_ev.splits)
  show ?case
  proof (cases "n = 0")
    case True
    then show ?thesis using "1.prems" by (subst (asm) readn_loop.simps) auto
  next
    case False
    have step: "readn_loop fd n acc s =
        (if k < 0 then if os_errno t = EINTR then readn_loop fd n acc t else (- 1, acc, t)
         else if k = 0 then (int (length acc), acc, t)
         else readn_loop fd (n - nat k) (acc @ cs) t)"
      using False rd by (subst readn_loop.simps) simp
    show ?thesis
      using "1.prems" "1.IH" [OF False rd [symmetric] refl refl] cs unfolding step
      by (fastforce split: if_splits)
  qed
qed

section \<open>Writing a stream\<close>

fun writable :: "wr_ev list \<Rightarrow> bool" where
  "writable [] = True"
| "writable (WOk k # es) = (0 < k \<and> writable es)"
| "writable (WErr e # es) = (e = EINTR \<and> writable es)"

definition only_wrote :: "int \<Rightarrow> char list \<Rightarrow> os \<Rightarrow> os \<Rightarrow> bool" where
  "only_wrote fd bs s s' \<longleftrightarrow>
     (\<exists>es e. s' = s\<lparr>os_wr := (os_wr s)(fd := es), os_out := (os_out s)(fd := os_out s fd @ bs),
        os_errno := e\<rparr>)"

lemma only_wroteI:
  fixes s :: os and es :: "wr_ev list" and e :: errno
  shows "only_wrote fd bs s (s\<lparr>os_wr := (os_wr s)(fd := es),
    os_out := (os_out s)(fd := os_out s fd @ bs), os_errno := e\<rparr>)"
  unfolding only_wrote_def by (rule exI [of _ es], rule exI [of _ e]) (rule refl)

lemma only_wrote_refl: "only_wrote fd [] s s"
  using only_wroteI [where s = s and fd = fd and bs = "[]" and es = "os_wr s fd" and e = "os_errno s"]
  by simp

lemma only_wrote_trans [trans]:
  assumes "only_wrote fd a s t" and "only_wrote fd b t u"
  shows "only_wrote fd (a @ b) s u"
proof -
  obtain es e where t: "t = s\<lparr>os_wr := (os_wr s)(fd := es), os_out := (os_out s)(fd := os_out s fd @ a),
      os_errno := e\<rparr>"
    using assms(1) unfolding only_wrote_def by blast
  obtain es' e' where u: "u = t\<lparr>os_wr := (os_wr t)(fd := es'), os_out := (os_out t)(fd := os_out t fd @ b),
      os_errno := e'\<rparr>"
    using assms(2) unfolding only_wrote_def by blast
  have "u = s\<lparr>os_wr := (os_wr s)(fd := es'), os_out := (os_out s)(fd := os_out s fd @ a @ b),
      os_errno := e'\<rparr>"
    by (simp add: t u)
  then show ?thesis
    using only_wroteI by simp
qed

lemma only_wroteD:
  assumes "only_wrote fd bs s t"
  shows "os_out t fd = os_out s fd @ bs" and "g \<noteq> fd \<Longrightarrow> os_out t g = os_out s g"
    and "os_in t = os_in s" and "g \<noteq> fd \<Longrightarrow> os_wr t g = os_wr s g" and "os_calls t = os_calls s"
    and "os_peer t = os_peer s" and "os_malloc t = os_malloc s"
  using assms by (auto simp: only_wrote_def)

lemma sys_write_only:
  "sys_write fd bs s = (k, t) \<Longrightarrow> only_wrote fd (take (nat k) bs) s t \<and> k \<le> int (length bs)"
proof (cases "os_wr s fd")
  case Nil
  assume "sys_write fd bs s = (k, t)"
  then show ?thesis
    using Nil only_wroteI [where s = s and fd = fd and es = "[]" and bs = bs and e = "os_errno s"]
    by (auto simp: sys_write_def fun_upd_idem)
next
  case (Cons ev es)
  assume *: "sys_write fd bs s = (k, t)"
  show ?thesis
  proof (cases ev)
    case (WOk j)
    then show ?thesis
      using * Cons only_wroteI [where s = s and fd = fd and es = es and bs = "take j bs" and e = "os_errno s"]
      by (auto simp: sys_write_def min_def)
  next
    case (WErr e)
    then show ?thesis
      using * Cons only_wroteI [where s = s and fd = fd and es = es and bs = "[]" and e = e]
      by (auto simp: sys_write_def)
  qed
qed

text \<open>Every script: \<open>writen\<close> writes all and returns the count, or writes a strict prefix and fails.\<close>

lemma writen_loop_cases:
  "writen_loop fd bs n s = (r, t) \<Longrightarrow>
    (r = int n \<and> only_wrote fd bs s t) \<or>
    (r = - 1 \<and> (\<exists>p q. bs = p @ q \<and> q \<noteq> [] \<and> only_wrote fd p s t))"
proof (induction fd bs n s rule: writen_loop.induct)
  case (1 fd bs n s)
  obtain k u where wr: "sys_write fd bs s = (k, u)"
    by (metis surj_pair)
  show ?case
  proof (cases "bs = []")
    case True
    then show ?thesis
      using "1.prems" only_wrote_refl by (subst (asm) writen_loop.simps) auto
  next
    case False
    have step: "writen_loop fd bs n s =
        (if k \<le> 0 then if k < 0 \<and> os_errno u = EINTR then writen_loop fd bs n u else (- 1, u)
         else writen_loop fd (drop (nat k) bs) n u)"
      using False wr by (subst writen_loop.simps) simp
    note ih = "1.IH" [OF False wr [symmetric] refl]
    note w = sys_write_only [OF wr]
    show ?thesis
    proof (cases "k \<le> 0")
      case True
      then have w0: "only_wrote fd [] s u" using w by simp
      show ?thesis
      proof (cases "k < 0 \<and> os_errno u = EINTR")
        case True
        then have "(r = int n \<and> only_wrote fd bs u t) \<or>
            (r = - 1 \<and> (\<exists>p q. bs = p @ q \<and> q \<noteq> [] \<and> only_wrote fd p u t))"
          using ih(1) "1.prems" step by auto
        then show ?thesis
          using only_wrote_trans [OF w0] by auto
      next
        case False
        then show ?thesis
          using "1.prems" step True w0 \<open>bs \<noteq> []\<close> by (metis Pair_inject append_Nil)
      qed
    next
      case False
      then consider "r = int n" "only_wrote fd (drop (nat k) bs) u t"
        | p q where "r = - 1" "drop (nat k) bs = p @ q" "q \<noteq> []" "only_wrote fd p u t"
        using ih(2) "1.prems" step by auto
      then show ?thesis
      proof cases
        case 1
        then show ?thesis
          using only_wrote_trans [OF conjunct1 [OF w], of "drop (nat k) bs" t] by simp
      next
        case 2
        then have "bs = (take (nat k) bs @ p) @ q"
          by (metis append_assoc append_take_drop_id)
        then show ?thesis
          using 2 only_wrote_trans [OF conjunct1 [OF w], of p t] by blast
      qed
    qed
  qed
qed

lemmas writen_cases = writen_loop_cases [where n = "length bs" and bs = bs for bs, folded writen_def]

lemma writen_all:
  "writen fd bs s = (int (length bs), t) \<Longrightarrow> only_wrote fd bs s t"
  using writen_cases [of fd bs s "int (length bs)" t] by auto

text \<open>A script without failures lets every write through.\<close>

lemma writen_loop_writable:
  "writable (os_wr s fd) \<Longrightarrow>
    \<exists>t. writen_loop fd bs n s = (int n, t) \<and> only_wrote fd bs s t \<and> writable (os_wr t fd)"
proof (induction fd bs n s rule: writen_loop.induct)
  case (1 fd bs n s)
  obtain k u where wr: "sys_write fd bs s = (k, u)"
    by (metis surj_pair)
  show ?case
  proof (cases "bs = []")
    case True
    then show ?thesis
      using "1.prems" only_wrote_refl by (subst writen_loop.simps) auto
  next
    case False
    note w = conjunct1 [OF sys_write_only [OF wr]]
    have k: "k = - 1 \<and> os_errno u = EINTR \<or> 0 < k" and u: "writable (os_wr u fd)"
      using wr "1.prems" False
      by (cases "os_wr s fd" rule: writable.cases; auto simp: sys_write_def)+
    have step: "writen_loop fd bs n s =
        (if k \<le> 0 then if k < 0 \<and> os_errno u = EINTR then writen_loop fd bs n u else (- 1, u)
         else writen_loop fd (drop (nat k) bs) n u)"
      using False wr by (subst writen_loop.simps) simp
    note ih = "1.IH" [OF False wr [symmetric] refl]
    from k show ?thesis
    proof
      assume "k = - 1 \<and> os_errno u = EINTR"
      then obtain t where "writen_loop fd bs n s = (int n, t)" "only_wrote fd bs u t" "writable (os_wr t fd)"
          "only_wrote fd [] s u"
        using ih(1) u w step by auto
      then show ?thesis
        using only_wrote_trans by fastforce
    next
      assume "0 < k"
      then obtain t where t: "writen_loop fd bs n s = (int n, t)"
          "only_wrote fd (drop (nat k) bs) u t" "writable (os_wr t fd)"
        using ih(2) u step by auto
      then show ?thesis
        using only_wrote_trans [OF w t(2)] by auto
    qed
  qed
qed

section \<open>Properties\<close>

definition quiet_os :: os where
  "quiet_os = \<lparr>os_in = (\<lambda>_. []), os_wr = (\<lambda>_. []), os_out = (\<lambda>_. []), os_errno = EOTHER,
     os_calls = [], os_socket = [], os_sockopt = [], os_connect = [], os_close = [],
     os_pton = (\<lambda>_. 0), os_peer = (\<lambda>_. None), os_self = (\<lambda>_. None), os_time = 0,
     os_rand = (\<lambda>_ _. 0), os_malloc = []\<rparr>"

lemma readn_eq:
  assumes "readn_loop fd n [] s = (r, bs, s')"
  shows "readn fd buf off n s = map_option (\<lambda>b. (r, b, s')) (mem_write buf off bs)"
  using assms by (simp add: readn_def)

lemma readn_in_buffer:
  assumes "fluent (os_in s fd)" and "off + n \<le> length buf"
  shows "\<exists>s'. readn fd buf off n s = Some (int (min n (length (stream fd s))),
      take off buf @ take n (stream fd s) @ drop (off + min n (length (stream fd s))) buf, s') \<and>
    only_read fd s s' \<and> fluent (os_in s' fd) \<and> stream fd s' = drop n (stream fd s)"
proof -
  obtain s' where s': "readn_loop fd n [] s =
        (int (min n (length (stream fd s))), take n (stream fd s), s')"
      "only_read fd s s'" "fluent (os_in s' fd)" "stream fd s' = drop n (stream fd s)"
    using readn_fluent [OF assms(1), of n "[]"] by auto
  have "readn fd buf off n s = Some (int (min n (length (stream fd s))),
      take off buf @ take n (stream fd s) @ drop (off + min n (length (stream fd s))) buf, s')"
    unfolding readn_eq [OF s'(1)] using assms(2) by (simp add: mem_write_def min_def split: if_splits)
  then show ?thesis
    using s'(2-) by blast
qed

text \<open>readn delivers the next n bytes of the stream (all that is left when there are fewer) into the
  buffer at the given place and nowhere else, in whatever pieces and with whatever signals the
  bytes arrive; the rest of the stream stays for the next read.\<close>

theorem readn_fragmentation:
  assumes "fluent (os_in s fd)" and "off + n \<le> length buf"
  shows "\<exists>s'. readn fd buf off n s = Some (int (min n (length (stream fd s))),
      take off buf @ take n (stream fd s) @ drop (off + min n (length (stream fd s))) buf, s') \<and>
    only_read fd s s' \<and> fluent (os_in s' fd) \<and> stream fd s' = drop n (stream fd s)"
  using assms by (rule readn_in_buffer)

theorem readn_fragmentation_witness:
  "\<exists>s'. readn 4 ''......'' 1 4 (quiet_os\<lparr>os_in := (\<lambda>_. [RData ''ab'', RErr EINTR, RData ''c'', RData ''def''])\<rparr>)
     = Some (4, ''.abcd.'', s') \<and> stream 4 s' = ''ef''"
  using readn_fragmentation
    [of "quiet_os\<lparr>os_in := (\<lambda>_. [RData ''ab'', RErr EINTR, RData ''c'', RData ''def''])\<rparr>" 4 1 4 "''......''"]
  by (auto simp: quiet_os_def stream_def)

text \<open>writen, against every behaviour of the kernel (short writes, signals, errors), either returns the
  count and has appended exactly the given bytes to the stream of the descriptor, or returns -1 and
  has appended a strict prefix of them; the streams of other descriptors are untouched.\<close>

theorem writen_exact:
  "\<exists>r t p q. writen fd bs s = (r, t) \<and> bs = p @ q \<and>
     (q = [] \<and> r = int (length bs) \<or> q \<noteq> [] \<and> r = - 1) \<and>
     os_out t = (os_out s)(fd := os_out s fd @ p) \<and> os_in t = os_in s"
proof -
  obtain r t where w: "writen fd bs s = (r, t)"
    by (metis surj_pair)
  from writen_cases [OF w] show ?thesis
  proof (elim disjE conjE exE)
    assume "r = int (length bs)" and "only_wrote fd bs s t"
    then show ?thesis
      unfolding w by (intro exI [of _ r] exI [of _ t] exI [of _ bs] exI [of _ "[]"])
        (auto simp: only_wrote_def)
  next
    fix p q assume "r = - 1" and "bs = p @ q" and "q \<noteq> []" and "only_wrote fd p s t"
    then show ?thesis
      unfolding w by (intro exI [of _ r] exI [of _ t] exI [of _ p] exI [of _ q])
        (auto simp: only_wrote_def)
  qed
qed

text \<open>inet_tcp_connect hands out a descriptor only after a successful connect to that host and port,
  with the port's low 16 bits, and whenever it fails after the socket was made it closes it; a host
  that inet_pton does not understand (answer 0) is not refused: the connection goes to 0.0.0.0.\<close>

theorem tcp_connect_outcomes:
  assumes "inet_tcp_connect host service reuse s = (r, t)"
  shows "r \<noteq> - 1 \<and> (\<exists>cs. os_calls t = os_calls s @ CSocket r # cs @
            [CConnect r (if os_pton s host = 1 then host else ''0.0.0.0'') (word_of_int (atoi service))] \<and>
            CClose r \<notin> set cs) \<or>
    r = - 1 \<and> os_calls t = os_calls s \<or>
    r = - 1 \<and> (\<exists>fd cs. os_calls t = os_calls s @ CSocket fd # cs @ [CClose fd])"
  using assms
  by (auto simp: inet_tcp_connect_def Let_def log_call_def sys_setsockopt_def inet_close_def sys_close_def
      split: if_splits)

theorem tcp_connect_outcomes_witness:
  "inet_tcp_connect ''localhost'' ''9090'' True (quiet_os\<lparr>os_socket := [7]\<rparr>) =
     (7, quiet_os\<lparr>os_calls := [CSocket 7, CReuseAddr 7, CConnect 7 ''0.0.0.0'' 9090]\<rparr>) \<and>
   (7::int) \<noteq> - 1 \<and> (\<exists>cs. [CSocket 7, CReuseAddr 7, CConnect 7 ''0.0.0.0'' 9090] =
      CSocket 7 # cs @ [CConnect 7 ''0.0.0.0'' (word_of_int (atoi ''9090''))])"
proof -
  have at: "atoi ''9090'' = 9090"
    by code_simp
  have run: "inet_tcp_connect ''localhost'' ''9090'' True (quiet_os\<lparr>os_socket := [7]\<rparr>) =
      (7, quiet_os\<lparr>os_calls := [CSocket 7, CReuseAddr 7, CConnect 7 ''0.0.0.0'' 9090]\<rparr>)"
    by (simp add: inet_tcp_connect_def at Let_def answer_def log_call_def sys_setsockopt_def quiet_os_def)
  show ?thesis
    using run tcp_connect_outcomes [OF run] by (auto simp: quiet_os_def)
qed

end
