(* ===== verification/Ducq_Tcp.thy ===== *)
theory Ducq_Tcp
  imports Ducq_State Inet_Socket
begin

text \<open>
  The TCP client of \<open>src/ducq_tcp.c\<close>: a message travels as its length in decimal, a line feed and
  its bytes.  The functions that answer a negative state or a count answer \<open>Inl\<close> the state or
  \<open>Inr\<close> the count here.  None is undefined behaviour: a store outside the caller's buffer or an
  overflow of \<open>int\<close>.

  The main results: what \<open>ducq_tcp_send\<close> writes is received whole however the network cuts it, frame
  after frame; no store leaves the buffer while the announced length is below \<open>INT_MAX\<close>.
\<close>

section \<open>Receiving and sending\<close>

text \<open>The loop that reads the length into the buffer, byte by byte.  It stops with a state when the digits
  reach the end of the buffer; otherwise with the count of the last \<open>readn\<close> and the place of
  its byte.\<close>

function tcp_header ::
  "int \<Rightarrow> nat \<Rightarrow> char list \<Rightarrow> nat \<Rightarrow> os \<Rightarrow> ((ducq_state + int \<times> nat) \<times> char list \<times> os) option" where
  "tcp_header fd sz buf ptr s =
     do {
       (n, buf, s) \<leftarrow> readn fd buf ptr 1 s;
       if n > 0 then
         if \<not> isdigit (buf ! ptr) then Some (Inr (n, ptr), buf, s)
         else if int (ptr + 1) \<ge> int sz - 1 then Some (Inl DUCQ_EMSGSIZE, buf, s)
         else tcp_header fd sz buf (ptr + 1) s
       else Some (Inr (n, ptr), buf, s)
     }"
  by pat_completeness auto
termination
  by (relation "measure (\<lambda>(fd, sz, buf, ptr, s). sz - ptr)") auto

declare tcp_header.simps [simp del]

definition INT_MAX :: int where "INT_MAX = 2 ^ 31 - 1"

text \<open>The comparison and the count of the second \<open>readn\<close> are done in \<open>size_t\<close>.\<close>

definition ducq_tcp_recv ::
  "int \<Rightarrow> char list \<Rightarrow> nat \<Rightarrow> os \<Rightarrow> ((ducq_state + nat) \<times> char list \<times> os) option" where
  "ducq_tcp_recv fd buf sz s =
     do {
       (h, buf, s) \<leftarrow> tcp_header fd sz buf 0 s;
       case h of
         Inl state \<Rightarrow> Some (Inl state, buf, s)
       | Inr (n, ptr) \<Rightarrow>
           if n < 0 then Some (Inl DUCQ_EREAD, buf, s)
           else if n = 0 then Some (Inl DUCQ_ECONNCLOSED, buf, s)
           else if buf ! ptr \<noteq> LF then Some (Inl DUCQ_EMSGINV, buf, s)
           else do {
             buf \<leftarrow> mem_write buf ptr [NUL];
             str \<leftarrow> c_str buf 0;
             let len = atoi str in
             if len = INT_MAX then None
             else if (len + 1) mod 2 ^ 64 > int sz then Some (Inl DUCQ_EMSGSIZE, buf, s)
             else do {
               (n, buf, s) \<leftarrow> readn fd buf 0 (nat (len mod 2 ^ 64)) s;
               if n < 0 then Some (Inl DUCQ_EREAD, buf, s)
               else if n = 0 then Some (Inl DUCQ_ECONNCLOSED, buf, s)
               else if n \<noteq> len then Some (Inl DUCQ_EREAD, buf, s)
               else do {
                 buf \<leftarrow> mem_write buf (nat len) [NUL];
                 Some (Inr (nat n), buf, s)
               }
             }
           }
     }"

text \<open>The count is answered as an \<open>int\<close>, so it has to fit one.\<close>

definition ducq_tcp_send :: "int \<Rightarrow> char list \<Rightarrow> os \<Rightarrow> ((ducq_state + nat) \<times> os) option" where
  "ducq_tcp_send fd bs s =
     (if INT_MAX < int (length bs) then None
      else
        let (header, len) = snprintf 25 (dec_nat (length bs) @ [LF]) in
        if 25 \<le> len then Some (Inl DUCQ_ESTDC, s)
        else
          let (n, s) = writen fd (take len header) s in
          if n \<noteq> int len then Some (Inl DUCQ_EWRITE, s)
          else
            let (n, s) = writen fd bs s in
            if n \<noteq> int (length bs) then Some (Inl DUCQ_EWRITE, s)
            else Some (Inr (length bs), s))"

section \<open>The client\<close>

text \<open>\<open>host\<close> and \<open>port\<close> are NULL in a client made from an accepted connection; \<open>id\<close> is the C string
  in the array of 100 bytes.\<close>

record tcp =
  tcp_fd :: int
  tcp_reuse :: bool
  tcp_host :: "string option"
  tcp_port :: "string option"
  tcp_id :: string

definition tcp_conn :: "tcp \<Rightarrow> os \<Rightarrow> (ducq_state \<times> tcp \<times> os) option" where
  "tcp_conn tcp s =
     do {
       host \<leftarrow> tcp_host tcp;
       port \<leftarrow> tcp_port tcp;
       let (fd, s) = inet_tcp_connect host port (tcp_reuse tcp) s in
       Some (if fd = - 1 then (DUCQ_ECONNECT, tcp, s) else (DUCQ_OK, tcp\<lparr>tcp_fd := fd\<rparr>, s))
     }"

definition tcp_get_id :: "tcp \<Rightarrow> os \<Rightarrow> string \<times> tcp" where
  "tcp_get_id tcp s =
     (if tcp_id tcp \<noteq> [] then (tcp_id tcp, tcp)
      else
        let (t, n) = snprintf 100 ''TCP:'';
            addr = (case snd (inet_socket_tostring (tcp_fd tcp) False (100 - n) s) of None \<Rightarrow> [] | Some a \<Rightarrow> a)
        in (t @ addr, tcp\<lparr>tcp_id := t @ addr\<rparr>))"

definition tcp_timeout :: "tcp \<Rightarrow> nat \<Rightarrow> os \<Rightarrow> ducq_state \<times> os" where
  "tcp_timeout tcp timeout s =
     (let (rc, s) = inet_set_read_timeout (tcp_fd tcp) timeout s
      in (if rc \<noteq> 0 then DUCQ_ECOMMLAYER else DUCQ_OK, s))"

definition tcp_reuseaddr :: "tcp \<Rightarrow> ducq_state \<times> tcp" where
  "tcp_reuseaddr tcp = (DUCQ_OK, tcp\<lparr>tcp_reuse := True\<rparr>)"

text \<open>\<open>_recv\<close> and \<open>_send\<close> answer the state, and the count they leave in \<open>*count\<close>.\<close>

definition tcp_recv ::
  "tcp \<Rightarrow> char list \<Rightarrow> nat \<Rightarrow> os \<Rightarrow> (ducq_state \<times> nat \<times> char list \<times> os) option" where
  "tcp_recv tcp buf count s =
     do {
       (rc, buf, s) \<leftarrow> ducq_tcp_recv (tcp_fd tcp) buf count s;
       case rc of
         Inr n \<Rightarrow> Some (DUCQ_OK, n, buf, s)
       | Inl e \<Rightarrow>
           Some (if e = DUCQ_EREAD \<and> os_errno s = EWOULDBLOCK then DUCQ_ETIMEOUT else e, count, buf, s)
     }"

definition tcp_send :: "tcp \<Rightarrow> char list \<Rightarrow> os \<Rightarrow> (ducq_state \<times> os) option" where
  "tcp_send tcp bs s =
     do {
       (rc, s) \<leftarrow> ducq_tcp_send (tcp_fd tcp) bs s;
       case rc of Inl e \<Rightarrow> Some (e, s) | Inr n \<Rightarrow> Some (DUCQ_OK, s)
     }"

definition tcp_parts :: "tcp \<Rightarrow> os \<Rightarrow> (ducq_state \<times> os) option" where
  "tcp_parts tcp s = tcp_send tcp ''PARTS'' s"

definition tcp_end :: "tcp \<Rightarrow> os \<Rightarrow> (ducq_state \<times> os) option" where
  "tcp_end tcp s = tcp_send tcp ''END'' s"

definition ducq_new_tcp :: "string option \<Rightarrow> string option \<Rightarrow> os \<Rightarrow> tcp option \<times> os" where
  "ducq_new_tcp host port s =
     (let (ok, s) = sys_malloc s in
      (if ok then Some \<lparr>tcp_fd = - 1, tcp_reuse = False, tcp_host = host, tcp_port = port, tcp_id = []\<rparr>
       else None, s))"

definition ducq_new_tcp_connection :: "int \<Rightarrow> os \<Rightarrow> tcp option \<times> os" where
  "ducq_new_tcp_connection fd s =
     (let (ok, s) = sys_malloc s in
      (if ok then Some \<lparr>tcp_fd = fd, tcp_reuse = False, tcp_host = None, tcp_port = None, tcp_id = []\<rparr>
       else None, s))"

text \<open>\<open>_copy\<close> does not test the new client for NULL.\<close>

definition tcp_copy :: "tcp \<Rightarrow> os \<Rightarrow> (tcp \<times> os) option" where
  "tcp_copy tcp s =
     (let (copy, s) = ducq_new_tcp (tcp_host tcp) (tcp_port tcp) s in
      map_option (\<lambda>copy. (copy\<lparr>tcp_fd := tcp_fd tcp\<rparr>, s)) copy)"

definition tcp_close :: "tcp \<Rightarrow> os \<Rightarrow> ducq_state \<times> tcp \<times> os" where
  "tcp_close tcp s =
     (if tcp_fd tcp = - 1 then (DUCQ_ECLOSE, tcp, s)
      else
        let (rc, s) = inet_close (tcp_fd tcp) s in
        if rc = - 1 then (DUCQ_ECLOSE, tcp, s) else (DUCQ_OK, tcp\<lparr>tcp_fd := - 1\<rparr>, s))"

section \<open>The length of a frame\<close>

text \<open>One byte, of any script.\<close>

lemma readn_loop_1:
  "readn_loop fd 1 [] s = (r, bs, s') \<Longrightarrow>
    (\<exists>c. r = 1 \<and> bs = [c] \<and> stream fd s = c # stream fd s') \<or> (r \<le> 0 \<and> bs = [])"
proof (induction "length (os_in s fd)" arbitrary: s rule: less_induct)
  case less
  obtain k cs t where rd: "sys_read fd 1 s = (k, cs, t)"
    by (metis prod_cases3)
  have step: "readn_loop fd 1 [] s =
      (if k < 0 then if os_errno t = EINTR then readn_loop fd 1 [] t else (- 1, [], t)
       else if k = 0 then (0, [], t) else readn_loop fd (1 - nat k) cs t)"
    using rd by (subst readn_loop.simps) simp
  show ?case
  proof (cases "os_in s fd")
    case Nil
    then show ?thesis using less.prems rd step by (simp add: sys_read_def)
  next
    case (Cons ev es)
    show ?thesis
    proof (cases ev)
      case (RErr e)
      then have "length (os_in t fd) < length (os_in s fd)" "k = - 1" "stream fd t = stream fd s"
        using rd Cons by (auto simp: sys_read_def stream_def)
      then show ?thesis
        using less.hyps [of t] less.prems step by (auto split: if_splits)
    next
      case (RData bs')
      show ?thesis
      proof (cases bs')
        case Nil
        then show ?thesis using less.prems rd step Cons RData by (simp add: sys_read_def)
      next
        case (Cons c cs')
        then have "k = 1" "cs = [c]" "stream fd s = c # stream fd t"
          using rd \<open>os_in s fd = ev # es\<close> RData by (auto simp: sys_read_def stream_def)
        then show ?thesis
          using less.prems step by (simp add: readn_loop.simps [of fd 0])
      qed
    qed
  qed
qed

lemma readn_1:
  assumes "p < length buf"
  obtains (byte) c s' where "readn fd buf p 1 s = Some (1, buf[p := c], s')" "stream fd s = c # stream fd s'"
      "only_read fd s s'"
    | (none) r s' where "readn fd buf p 1 s = Some (r, buf, s')" "r \<le> 0" "only_read fd s s'"
proof -
  obtain r bs s' where rd: "readn_loop fd 1 [] s = (r, bs, s')"
    by (metis prod_cases3)
  note only = readn_loop_only [OF rd]
  from readn_loop_1 [OF rd] show thesis
  proof
    assume "\<exists>c. r = 1 \<and> bs = [c] \<and> stream fd s = c # stream fd s'"
    then obtain c where c: "r = 1" "bs = [c]" "stream fd s = c # stream fd s'" by blast
    then have "readn fd buf p 1 s = Some (1, buf[p := c], s')"
      unfolding readn_eq [OF rd] using assms by (simp add: mem_write_def upd_conv_take_nth_drop)
    then show thesis using byte c only by blast
  next
    assume "r \<le> 0 \<and> bs = []"
    moreover from this have "readn fd buf p 1 s = Some (r, buf, s')"
      unfolding readn_eq [OF rd] using assms by (simp add: mem_write_def)
    ultimately show thesis using none only by blast
  qed
qed

lemma tcp_header_step:
  assumes "readn fd buf p 1 s = Some (n, buf', s')"
  shows "tcp_header fd sz buf p s =
    (if n > 0 then
       if \<not> isdigit (buf' ! p) then Some (Inr (n, p), buf', s')
       else if int (p + 1) \<ge> int sz - 1 then Some (Inl DUCQ_EMSGSIZE, buf', s')
       else tcp_header fd sz buf' (p + 1) s'
     else Some (Inr (n, p), buf', s'))"
  using assms by (subst tcp_header.simps) simp

text \<open>The loop stays in the buffer; when it ends at a byte, the buffer holds the digits and that byte.\<close>

lemma tcp_header_safe:
  assumes "sz \<le> length buf" and "p = 0 \<and> 0 < sz \<or> p + 1 < sz"
  shows "\<exists>h buf' s'. tcp_header fd sz buf p s = Some (h, buf', s') \<and> length buf' = length buf \<and>
    only_read fd s s' \<and>
    (\<forall>n q. h = Inr (n, q) \<longrightarrow> q < sz \<and> (0 < n \<longrightarrow> p \<le> q \<and> (\<exists>ds c. stream fd s = ds @ c # stream fd s' \<and>
       (\<forall>d \<in> set ds. isdigit d) \<and> \<not> isdigit c \<and> q = p + length ds \<and>
       buf' = take p buf @ ds @ c # drop (Suc q) buf)))"
  using assms
proof (induction "sz - p" arbitrary: p buf s rule: less_induct)
  case less
  have p: "p < length buf" "p < sz"
    using less.prems by auto
  show ?case
  proof (rule readn_1 [OF p(1), of fd s])
    fix r s' assume "readn fd buf p 1 s = Some (r, buf, s')" "r \<le> 0" "only_read fd s s'"
    then show ?thesis
      using p tcp_header_step by auto
  next
    fix c s'
    assume rd: "readn fd buf p 1 s = Some (1, buf[p := c], s')" and str: "stream fd s = c # stream fd s'"
      and only: "only_read fd s s'"
    note step = tcp_header_step [OF rd, of sz]
    have nth: "buf[p := c] ! p = c" using p by simp
    show ?thesis
    proof (cases "isdigit c")
      case False
      then have "tcp_header fd sz buf p s = Some (Inr (1, p), buf[p := c], s')"
        using step nth by simp
      then show ?thesis
        using p only str False
        by (intro exI [of _ "Inr (1, p)"] exI [of _ "buf[p := c]"] exI [of _ s'])
           (auto simp: upd_conv_take_nth_drop)
    next
      case True
      show ?thesis
      proof (cases "int (p + 1) \<ge> int sz - 1")
        case True
        then show ?thesis
          using step nth \<open>isdigit c\<close> only by auto
      next
        case False
        then have "tcp_header fd sz buf p s = tcp_header fd sz (buf[p := c]) (p + 1) s'"
          using step nth True by simp
        moreover have "sz - (p + 1) < sz - p" "sz \<le> length (buf[p := c])"
            "p + 1 = 0 \<and> 0 < sz \<or> p + 1 + 1 < sz"
          using False less.prems p by auto
        from less.hyps [OF this(1) this(2) this(3), of s'] obtain h buf' t where ih:
          "tcp_header fd sz (buf[p := c]) (p + 1) s' = Some (h, buf', t)" "length buf' = length buf"
          "only_read fd s' t"
          "\<forall>n q. h = Inr (n, q) \<longrightarrow> q < sz \<and> (0 < n \<longrightarrow> p + 1 \<le> q \<and> (\<exists>ds c'. stream fd s' = ds @ c' # stream fd t \<and>
             (\<forall>d \<in> set ds. isdigit d) \<and> \<not> isdigit c' \<and> q = p + 1 + length ds \<and>
             buf' = take (p + 1) (buf[p := c]) @ ds @ c' # drop (Suc q) (buf[p := c])))"
          by auto
        have "p \<le> q \<and> (\<exists>ds c'. stream fd s = ds @ c' # stream fd t \<and>
             (\<forall>d \<in> set ds. isdigit d) \<and> \<not> isdigit c' \<and> q = p + length ds \<and>
             buf' = take p buf @ ds @ c' # drop (Suc q) buf)" if "h = Inr (n, q)" "0 < n" for n q
        proof -
          note hyp = that
          obtain ds c' where d: "stream fd s' = ds @ c' # stream fd t" "\<forall>d \<in> set ds. isdigit d"
              "\<not> isdigit c'" "q = p + 1 + length ds" "p + 1 \<le> q"
              "buf' = take (p + 1) (buf[p := c]) @ ds @ c' # drop (Suc q) (buf[p := c])"
            using ih(4) [THEN spec, THEN spec, THEN mp, OF hyp(1)] hyp(2) by blast
          have "take (p + 1) (buf[p := c]) = take p buf @ [c]" "drop (Suc q) (buf[p := c]) = drop (Suc q) buf"
            using p d by (simp_all add: take_Suc_conv_app_nth)
          then show ?thesis
            using d str True by (intro conjI exI [of _ "c # ds"] exI [of _ c']) auto
        qed
        then show ?thesis
          using calculation ih only_read_trans [OF only ih(3)] by auto
      qed
    qed
  qed
qed

text \<open>A fluent script whose stream starts with digits and another byte.\<close>

lemma tcp_header_fluent:
  assumes "fluent (os_in s fd)" and "stream fd s = ds @ c # r" and "\<And>d. d \<in> set ds \<Longrightarrow> isdigit d"
    and "\<not> isdigit c" and "sz \<le> length buf" and "p + length ds < sz" and "ds \<noteq> [] \<longrightarrow> p + length ds + 1 < sz"
  shows "\<exists>s'. tcp_header fd sz buf p s =
      Some (Inr (1, p + length ds), take p buf @ ds @ c # drop (Suc (p + length ds)) buf, s') \<and>
    only_read fd s s' \<and> fluent (os_in s' fd) \<and> stream fd s' = r"
  using assms
proof (induction ds arbitrary: p buf s)
  case Nil
  obtain s' where s': "readn fd buf p 1 s = Some (1, take p buf @ [c] @ drop (p + 1) buf, s')"
      "only_read fd s s'" "fluent (os_in s' fd)" "stream fd s' = r"
    using readn_in_buffer [of s fd p 1 buf] Nil by auto
  then show ?case
    using Nil tcp_header_step [OF s'(1), of sz] by (simp add: nth_append)
next
  case (Cons d ds)
  obtain s' where s': "readn fd buf p 1 s = Some (1, take p buf @ [d] @ drop (p + 1) buf, s')"
      "only_read fd s s'" "fluent (os_in s' fd)" "stream fd s' = ds @ c # r"
    using readn_in_buffer [of s fd p 1 buf] Cons.prems by auto
  define b where "b = take p buf @ [d] @ drop (p + 1) buf"
  have b: "length b = length buf" "take (p + 1) b = take p buf @ [d]"
      "drop (Suc (p + 1 + length ds)) b = drop (Suc (p + 1 + length ds)) buf"
    using Cons.prems(5,6) by (simp_all add: b_def add.commute [of "length ds"])
  have "tcp_header fd sz buf p s = tcp_header fd sz b (p + 1) s'"
    using Cons.prems tcp_header_step [OF s'(1), of sz] by (simp add: nth_append b_def)
  moreover obtain t where "tcp_header fd sz b (p + 1) s' =
      Some (Inr (1, p + 1 + length ds), take (p + 1) b @ ds @ c # drop (Suc (p + 1 + length ds)) b, t)"
      "only_read fd s' t" "fluent (os_in t fd)" "stream fd t = r"
    using Cons.IH [where buf = b and p = "p + 1", OF s'(3,4)] Cons.prems b by auto
  ultimately show ?case
    using only_read_trans [OF s'(2)] unfolding b by auto
qed

section \<open>Frames\<close>

definition tcp_frame :: "char list \<Rightarrow> char list" where
  "tcp_frame m = dec_nat (length m) @ LF # m"

lemma dec_nat_header: "NUL \<notin> set (dec_nat n)" "LF \<notin> set (dec_nat n)"
  using dec_nat_digits isdigit_cases by blast+

lemma dec_nat_length_le: "length (dec_nat n) \<le> max 1 n \<and> (2 \<le> n \<longrightarrow> length (dec_nat n) < n)"
proof (induction n rule: dec_nat.induct)
  case (1 n)
  show ?case
  proof (cases "n < 10")
    case True
    then show ?thesis by (subst dec_nat.simps, subst (2) dec_nat.simps) simp
  next
    case False
    then have "length (dec_nat n) = Suc (length (dec_nat (n div 10)))"
      by (subst dec_nat.simps) simp
    moreover have "length (dec_nat (n div 10)) \<le> max 1 (n div 10)" "Suc (max 1 (n div 10)) < n"
      using "1" [OF False] False by auto
    ultimately show ?thesis by simp
  qed
qed

lemma not_isdigit_LF [simp]: "\<not> isdigit LF"
  by (simp add: isdigit_def)

text \<open>After the header of \<open>len\<close> bytes: what the rest of \<open>ducq_tcp_recv\<close> does.\<close>

lemma atoi_header:
  assumes "\<forall>d \<in> set ds. isdigit d" and "int (digits_val ds) < INT_MAX"
  shows "atoi ds = int (digits_val ds)"
proof (cases "ds = []")
  case True
  have "atoi [] = 0" by code_simp
  then show ?thesis using True by (simp add: digits_val_def)
next
  case False
  then show ?thesis
    using atoi_digits [of ds] assms by (simp add: INT_MAX_def)
qed

lemma tcp_recv_header:
  assumes hdr: "tcp_header fd sz buf 0 s = Some (Inr (k, length ds), ds @ LF # rest, s1)" and k: "0 < k"
    and ds: "\<forall>d \<in> set ds. isdigit d" and len: "atoi ds = int len" "int len < INT_MAX"
  shows "ducq_tcp_recv fd buf sz s =
    (if sz < len + 1 then Some (Inl DUCQ_EMSGSIZE, ds @ NUL # rest, s1)
     else do {
       (n, buf, s) \<leftarrow> readn fd (ds @ NUL # rest) 0 len s1;
       if n < 0 then Some (Inl DUCQ_EREAD, buf, s)
       else if n = 0 then Some (Inl DUCQ_ECONNCLOSED, buf, s)
       else if n \<noteq> int len then Some (Inl DUCQ_EREAD, buf, s)
       else do { buf \<leftarrow> mem_write buf len [NUL]; Some (Inr (nat n), buf, s) }
     })"
proof -
  have nul: "NUL \<notin> set ds"
    using ds isdigit_cases by blast
  have w: "mem_write (ds @ LF # rest) (length ds) [NUL] = Some (ds @ NUL # rest)"
    by (simp add: mem_write_def)
  note at = len(1)
  have k1: "(k < 0) = False" "(k = 0) = False"
    using k by simp_all
  have small: "(int len + 1) mod 2 ^ 64 = int len + 1" "int len mod 2 ^ 64 = int len"
    using len(2) by (simp_all add: INT_MAX_def)
  have cmp: "int sz < int len + 1 \<longleftrightarrow> sz < len + 1" and max: "(int len = INT_MAX) = False"
    using len(2) by auto
  have nth: "(ds @ LF # rest) ! length ds = LF"
    by simp
  have str: "c_str (ds @ NUL # rest) 0 = Some ds"
    using nul by simp
  show ?thesis
    by (simp only: ducq_tcp_recv_def hdr k1 w at nth str small cmp max nat_int bind.bind_lunit Let_def
        prod.case sum.case if_False if_True simp_thms less_numeral_extra zero_neq_one not_one_less_zero)
qed

lemma atoi_less: "atoi t \<le> INT_MAX"
  using sint_less [of "word_of_int (strtol t) :: 32 word"] by (simp add: atoi_def to_int32_def INT_MAX_def)

lemma tcp_recv_fluent:
  assumes "fluent (os_in s fd)" and "stream fd s = tcp_frame m @ r"
    and "m \<noteq> []" and "length m < sz" and "3 \<le> sz" and "sz \<le> length buf" and "int (length m) < INT_MAX"
  shows "\<exists>s'. ducq_tcp_recv fd buf sz s = Some (Inr (length m), m @ NUL # drop (length m + 1) buf, s') \<and>
    only_read fd s s' \<and> fluent (os_in s' fd) \<and> stream fd s' = r"
proof -
  define ds where "ds = dec_nat (length m)"
  have ds: "ds \<noteq> []" "\<And>d. d \<in> set ds \<Longrightarrow> isdigit d" "digits_val ds = length m"
    by (simp_all add: ds_def dec_nat_digits)
  have len: "length ds + 1 < sz" "length ds \<le> length m"
    using dec_nat_length_le [of "length m"] assms(3-5) unfolding ds_def
    by (cases "2 \<le> length m"; auto simp: max_def Suc_le_eq split: if_splits)+
  define rest where "rest = drop (Suc (length ds)) buf"
  obtain s1 where s1: "tcp_header fd sz buf 0 s = Some (Inr (1, length ds), ds @ LF # rest, s1)"
      "only_read fd s s1" "fluent (os_in s1 fd)" "stream fd s1 = m @ r"
    using tcp_header_fluent [OF assms(1), of ds LF "m @ r" sz buf 0] assms(2,6) ds(2) len
    by (auto simp: tcp_frame_def ds_def [symmetric] rest_def)
  define b where "b = ds @ NUL # rest"
  have lb: "length b = length buf" "drop (length m + 1) b = drop (length m + 1) buf"
    using len assms(4,6) by (simp_all add: b_def rest_def Suc_diff_le)
  obtain s2 where s2: "readn fd b 0 (length m) s1 = Some (int (length m), m @ drop (length m) b, s2)"
      "only_read fd s1 s2" "fluent (os_in s2 fd)" "stream fd s2 = r"
    using readn_in_buffer [OF s1(3), of 0 "length m" b] s1(4) lb assms(4,6) by auto
  have w: "mem_write (m @ drop (length m) b) (length m) [NUL] = Some (m @ NUL # drop (length m + 1) buf)"
    using lb assms(4,6) by (simp add: mem_write_def add.commute)
  have "ducq_tcp_recv fd buf sz s = Some (Inr (length m), m @ NUL # drop (length m + 1) buf, s2)"
    using tcp_recv_header [OF s1(1) _ _ _ assms(7)] atoi_header [of ds] assms(7) ds(2,3) s2(1) w assms(3,4) by (simp add: b_def)
  then show ?thesis
    using s2 only_read_trans [OF s1(2) s2(2)] by blast
qed

lemma tcp_send_writable:
  assumes "writable (os_wr s fd)" and "int (length m) \<le> INT_MAX"
  shows "\<exists>t. ducq_tcp_send fd m s = Some (Inr (length m), t) \<and> only_wrote fd (tcp_frame m) s t \<and>
    writable (os_wr t fd)"
proof -
  define h where "h = dec_nat (length m) @ [LF]"
  have "length m < 10 ^ 10"
    using assms(2) by (simp add: INT_MAX_def)
  then have len: "length h < 25"
    using length_dec_nat [of "length m" 10] by (simp add: h_def)
  have hdr: "snprintf 25 h = (h, length h)"
    using len by (rule snprintf_fits)
  obtain t where t: "writen fd h s = (int (length h), t)" "only_wrote fd h s t" "writable (os_wr t fd)"
    using writen_loop_writable [OF assms(1)] unfolding writen_def by blast
  obtain u where u: "writen fd m t = (int (length m), u)" "only_wrote fd m t u" "writable (os_wr u fd)"
    using writen_loop_writable [OF t(3)] unfolding writen_def by blast
  have "only_wrote fd (tcp_frame m) s u"
    using only_wrote_trans [OF t(2) u(2)] by (simp add: h_def tcp_frame_def)
  then show ?thesis
    using assms(2) t(1) u(1,3) len unfolding ducq_tcp_send_def h_def [symmetric] hdr by simp
qed

text \<open>Every script: what has been written is the frame, or a strict prefix of it.\<close>

lemma tcp_send_prefix:
  assumes "ducq_tcp_send fd m s = Some (res, t)"
  shows "res = Inr (length m) \<and> only_wrote fd (tcp_frame m) s t \<or>
    res = Inl DUCQ_EWRITE \<and> (\<exists>p q. tcp_frame m = p @ q \<and> q \<noteq> [] \<and> only_wrote fd p s t)"
proof -
  define h where "h = dec_nat (length m) @ [LF]"
  have small: "int (length m) \<le> INT_MAX"
    using assms by (simp add: ducq_tcp_send_def split: if_splits)
  then have "length m < 10 ^ 10"
    by (simp add: INT_MAX_def)
  then have len: "length h < 25"
    using length_dec_nat [of "length m" 10] by (simp add: h_def)
  have hdr: "snprintf 25 h = (h, length h)"
    using len by (rule snprintf_fits)
  have frame: "tcp_frame m = h @ m"
    by (simp add: h_def tcp_frame_def)
  obtain n u where w1: "writen fd h s = (n, u)"
    by (metis surj_pair)
  obtain n' v where w2: "writen fd m u = (n', v)"
    by (metis surj_pair)
  have run: "ducq_tcp_send fd m s = (if n \<noteq> int (length h) then Some (Inl DUCQ_EWRITE, u)
      else if n' \<noteq> int (length m) then Some (Inl DUCQ_EWRITE, v) else Some (Inr (length m), v))"
    using small len w1 w2 unfolding ducq_tcp_send_def h_def [symmetric] hdr by simp
  from writen_cases [OF w1] show ?thesis
  proof (elim disjE conjE exE)
    fix p q assume "n = - 1" "h = p @ q" "q \<noteq> []" "only_wrote fd p s u"
    then show ?thesis
      using assms run frame by (intro disjI2 conjI exI [of _ p] exI [of _ "q @ m"]) auto
  next
    assume n: "n = int (length h)" "only_wrote fd h s u"
    from writen_cases [OF w2] show ?thesis
    proof (elim disjE conjE exE)
      assume "n' = int (length m)" "only_wrote fd m u v"
      then show ?thesis
        using assms run n frame only_wrote_trans [OF n(2)] by auto
    next
      fix p q assume "n' = - 1" "m = p @ q" "q \<noteq> []" "only_wrote fd p u v"
      then show ?thesis
        using assms run n frame only_wrote_trans [OF n(2)]
        by (intro disjI2 conjI exI [of _ "h @ p"] exI [of _ q]) auto
    qed
  qed
qed

section \<open>The interface: a framed transport\<close>

text \<open>
  What a client of a transport relies on: when the stream starts with a frame of a message, one
  receive answers that message and leaves the stream behind the frame.  Then any sequence of
  messages arrives as it was sent.  A message may have several frames (a WebSocket sender draws a
  mask).
\<close>

primrec receive_many :: "('s \<Rightarrow> ('m \<times> 's) option) \<Rightarrow> nat \<Rightarrow> 's \<Rightarrow> ('m list \<times> 's) option" where
  "receive_many recv 0 s = Some ([], s)"
| "receive_many recv (Suc n) s =
     recv s \<bind> (\<lambda>(m, s). map_option (\<lambda>(ms, s). (m # ms, s)) (receive_many recv n s))"

locale framing =
  fixes frames :: "'m \<Rightarrow> char list \<Rightarrow> bool" and recv :: "'s \<Rightarrow> ('m \<times> 's) option"
    and pending :: "'s \<Rightarrow> char list" and ready :: "'s \<Rightarrow> bool"
  assumes recv_frame: "ready s \<Longrightarrow> frames m f \<Longrightarrow> pending s = f @ r \<Longrightarrow>
    \<exists>s'. recv s = Some (m, s') \<and> ready s' \<and> pending s' = r"
begin

lemma recv_frames:
  "list_all2 frames ms fs \<Longrightarrow> ready s \<Longrightarrow> pending s = concat fs @ r \<Longrightarrow>
    \<exists>s'. receive_many recv (length ms) s = Some (ms, s') \<and> ready s' \<and> pending s' = r"
proof (induction ms fs arbitrary: s rule: list_all2_induct)
  case Nil
  then show ?case by simp
next
  case (Cons m ms f fs)
  have "pending s = f @ concat fs @ r"
    using Cons.prems by simp
  then obtain s' where "recv s = Some (m, s')" "ready s'" "pending s' = concat fs @ r"
    using recv_frame [OF Cons.prems(1) Cons.hyps(1)] by blast
  then show ?case
    using Cons.IH [of s'] by auto
qed

text \<open>No message can be taken for another: frames are uniquely decodable.\<close>

lemma frames_unique:
  assumes "ready s" and "pending s = concat fs @ r" and "concat fs @ r = concat fs' @ r'"
    and "list_all2 frames ms fs" and "list_all2 frames ms' fs'" and "length ms = length ms'"
  shows "ms = ms' \<and> r = r'"
proof -
  obtain s1 where s1: "receive_many recv (length ms) s = Some (ms, s1)" "pending s1 = r"
    using recv_frames [OF assms(4,1,2)] by blast
  have "pending s = concat fs' @ r'"
    using assms(2,3) by simp
  then obtain s2 where "receive_many recv (length ms') s = Some (ms', s2)" "pending s2 = r'"
    using recv_frames [OF assms(5,1)] by blast
  then show ?thesis
    using s1 assms(6) by simp
qed

end

text \<open>The TCP client provides it: one receive into a buffer of \<open>DUCQ_MSGSZ\<close> bytes, read as a C string
  of the answered length.\<close>

definition tcp_recv_msg :: "int \<Rightarrow> os \<Rightarrow> (char list \<times> os) option" where
  "tcp_recv_msg fd s =
     do {
       (rc, buf, s) \<leftarrow> ducq_tcp_recv fd (replicate 256 NUL) 256 s;
       case rc of Inl e \<Rightarrow> None | Inr n \<Rightarrow> Some (take n buf, s)
     }"

definition tcp_sendable :: "char list \<Rightarrow> bool" where
  "tcp_sendable m \<longleftrightarrow> m \<noteq> [] \<and> length m < 256"

interpretation tcp: framing "\<lambda>m f. tcp_sendable m \<and> f = tcp_frame m" "tcp_recv_msg fd" "stream fd"
    "\<lambda>s. fluent (os_in s fd)"
  for fd :: int
proof unfold_locales
  fix s :: os and m f r :: "char list"
  assume "fluent (os_in s fd)" "tcp_sendable m \<and> f = tcp_frame m" "stream fd s = f @ r"
  then have a: "fluent (os_in s fd)" "tcp_sendable m" "stream fd s = tcp_frame m @ r"
    by simp_all
  then obtain s' where "ducq_tcp_recv fd (replicate 256 NUL) 256 s =
      Some (Inr (length m), m @ NUL # drop (length m + 1) (replicate 256 NUL), s')"
      "fluent (os_in s' fd)" "stream fd s' = r"
    using tcp_recv_fluent [OF a(1,3), of 256 "replicate 256 NUL"] by (auto simp: tcp_sendable_def INT_MAX_def)
  then show "\<exists>s'. tcp_recv_msg fd s = Some (m, s') \<and> fluent (os_in s' fd) \<and> stream fd s' = r"
    by (simp add: tcp_recv_msg_def)
qed

section \<open>Properties\<close>

text \<open>A message sent by ducq_tcp_send is received whole and unchanged by ducq_tcp_recv, with a
  terminator behind it, in every fragmentation of the stream and with every short write on the
  sender's side; the stream behind the frame is untouched.\<close>

theorem tcp_send_recv_roundtrip:
  assumes "writable (os_wr s fd)" and "fluent (os_in t fd')"
    and "m \<noteq> []" and "length m < sz" and "3 \<le> sz" and "sz \<le> length buf" and "int sz \<le> INT_MAX"
    and "stream fd' t = drop (length (os_out s fd)) (os_out (snd (the (ducq_tcp_send fd m s))) fd) @ r"
  shows "(\<exists>s'. ducq_tcp_send fd m s = Some (Inr (length m), s')) \<and>
    (\<exists>t'. ducq_tcp_recv fd' buf sz t = Some (Inr (length m), m @ NUL # drop (length m + 1) buf, t') \<and>
      fluent (os_in t' fd') \<and> stream fd' t' = r)"
proof -
  have small: "int (length m) < INT_MAX"
    using assms(4,7) by simp
  obtain s' where s': "ducq_tcp_send fd m s = Some (Inr (length m), s')" "only_wrote fd (tcp_frame m) s s'"
    using tcp_send_writable [OF assms(1), of m] small by auto
  have "stream fd' t = tcp_frame m @ r"
    using assms(8) s' only_wroteD(1) [OF s'(2)] by simp
  then show ?thesis
    using s'(1) tcp_recv_fluent [OF assms(2) _ assms(3-6) small] by blast
qed

theorem tcp_send_recv_roundtrip_witness:
  "\<exists>t'. ducq_tcp_recv 4 (replicate 8 NUL) 8 (quiet_os\<lparr>os_in := (\<lambda>_. [RData ''5'', RErr EINTR, RData [LF], RData ''hel'', RData ''lo3''])\<rparr>) =
     Some (Inr 5, ''hello'' @ NUL # drop 6 (replicate 8 NUL), t') \<and> stream 4 t' = ''3''"
proof -
  let ?t = "quiet_os\<lparr>os_in := (\<lambda>_. [RData ''5'', RErr EINTR, RData [LF], RData ''hel'', RData ''lo3''])\<rparr>"
  have "dec_nat (Suc (Suc (Suc (Suc (Suc 0))))) = ''5''" by code_simp
  then have out: "os_out (snd (the (ducq_tcp_send 3 ''hello'' quiet_os))) 3 = ''5'' @ LF # ''hello''"
    using tcp_send_writable [of quiet_os 3 "''hello''"] only_wroteD(1)
    by (auto simp: quiet_os_def INT_MAX_def tcp_frame_def)
  then have s: "stream 4 ?t = drop (length (os_out quiet_os 3)) (os_out (snd (the (ducq_tcp_send 3 ''hello'' quiet_os))) 3) @ ''3''"
    by (simp add: stream_def quiet_os_def)
  have w: "writable (os_wr quiet_os 3)" "fluent (os_in ?t 4)"
    by (simp_all add: quiet_os_def)
  show ?thesis
    using tcp_send_recv_roundtrip [OF w _ _ _ _ _ s, of 8 "replicate 8 NUL"] by (auto simp: INT_MAX_def)
qed

text \<open>C16: Messages sent one after the other arrive one by one, unchanged and in order, and the bytes behind
  the last frame stay in the stream.\<close>

theorem tcp_messages_in_order:
  assumes "fluent (os_in s fd)" and "list_all tcp_sendable ms"
    and "stream fd s = concat (map tcp_frame ms) @ r"
  shows "\<exists>s'. receive_many (tcp_recv_msg fd) (length ms) s = Some (ms, s') \<and> stream fd s' = r"
proof -
  have "list_all2 (\<lambda>m f. tcp_sendable m \<and> f = tcp_frame m) ms (map tcp_frame ms)"
    using assms(2) by (induction ms) simp_all
  then show ?thesis
    using tcp.recv_frames assms(1,3) by blast
qed

theorem tcp_messages_in_order_witness:
  "\<exists>s'. receive_many (tcp_recv_msg 4) 2
     (quiet_os\<lparr>os_in := (\<lambda>_. [RData ''2'', RData (LF # ''ab1''), RErr EINTR, RData (LF # ''c9'')])\<rparr>) = Some ([''ab'', ''c''], s') \<and>
   stream 4 s' = ''9''"
proof -
  have d: "dec_nat (Suc (Suc 0)) = ''2''" "dec_nat (Suc 0) = ''1''" by code_simp+
  show ?thesis
    using tcp_messages_in_order
      [of "quiet_os\<lparr>os_in := (\<lambda>_. [RData ''2'', RData (LF # ''ab1''), RErr EINTR, RData (LF # ''c9'')])\<rparr>" 4
        "[''ab'', ''c'']" "''9''"]
    by (simp add: d stream_def tcp_frame_def tcp_sendable_def numeral_2_eq_2)
qed

text \<open>C32: Against every behaviour of the network, ducq_tcp_send either puts exactly one frame on the stream
  and answers the count, or answers \<open>DUCQ_EWRITE\<close> having put a strict prefix of the frame.\<close>

theorem tcp_send_whole_or_prefix:
  assumes "int (length m) \<le> INT_MAX"
  shows "\<exists>res t p q. ducq_tcp_send fd m s = Some (res, t) \<and> tcp_frame m = p @ q \<and>
    os_out t = (os_out s)(fd := os_out s fd @ p) \<and>
    (q = [] \<and> res = Inr (length m) \<or> q \<noteq> [] \<and> res = Inl DUCQ_EWRITE)"
proof -
  have "ducq_tcp_send fd m s \<noteq> None"
    using assms by (auto simp: ducq_tcp_send_def split: prod.splits)
  then obtain res t where run: "ducq_tcp_send fd m s = Some (res, t)"
    by auto
  from tcp_send_prefix [OF run] show ?thesis
  proof (elim disjE conjE exE)
    assume "res = Inr (length m)" and "only_wrote fd (tcp_frame m) s t"
    then show ?thesis
      unfolding run by (intro exI [of _ res] exI [of _ t] exI [of _ "tcp_frame m"] exI [of _ "[]"])
        (auto simp: only_wrote_def)
  next
    fix p q assume "res = Inl DUCQ_EWRITE" and "tcp_frame m = p @ q" and "q \<noteq> []" and "only_wrote fd p s t"
    then show ?thesis
      unfolding run by (intro exI [of _ res] exI [of _ t] exI [of _ p] exI [of _ q])
        (auto simp: only_wrote_def)
  qed
qed

theorem tcp_send_whole_or_prefix_witness:
  "\<exists>res t p q. ducq_tcp_send 3 ''hi'' (quiet_os\<lparr>os_wr := (\<lambda>_. [WOk 1, WErr EINTR, WErr EOTHER])\<rparr>) = Some (res, t) \<and>
    tcp_frame ''hi'' = p @ q \<and> (q = [] \<and> res = Inr (length ''hi'') \<or> q \<noteq> [] \<and> res = Inl DUCQ_EWRITE)"
  using tcp_send_whole_or_prefix [of "''hi''" 3 "quiet_os\<lparr>os_wr := (\<lambda>_. [WOk 1, WErr EINTR, WErr EOTHER])\<rparr>"]
  by (simp add: INT_MAX_def) blast

lemma takeWhile_digits:
  assumes "\<forall>d \<in> set ds. isdigit d" and "\<not> isdigit c"
  shows "takeWhile isdigit (ds @ c # r) = ds"
  using assms by (simp add: takeWhile_append)

lemma readn_fits:
  assumes "off + n \<le> length buf"
  shows "\<exists>r bs s'. readn fd buf off n s = Some (r, take off buf @ bs @ drop (off + length bs) buf, s') \<and>
    length bs \<le> n \<and> (r = - 1 \<or> r = int (length bs))"
proof -
  obtain r bs s' where rd: "readn_loop fd n [] s = (r, bs, s')"
    by (metis prod_cases3)
  have b: "(r = - 1 \<or> r = int (length bs)) \<and> length bs \<le> n"
    using readn_loop_bounds [OF rd] by simp
  then have "readn fd buf off n s = Some (r, take off buf @ bs @ drop (off + length bs) buf, s')"
    unfolding readn_eq [OF rd] using assms by (simp add: mem_write_def)
  then show ?thesis
    using b by blast
qed

lemma tcp_recv_header_fits:
  assumes "tcp_header fd sz buf 0 s = Some (Inr (k, length ds), ds @ LF # rest, s1)" and "0 < k"
    and "\<forall>d \<in> set ds. isdigit d" and "atoi ds = int len" and "int len < INT_MAX"
    and "length (ds @ NUL # rest) = length buf" and "sz \<le> length buf"
  shows "\<exists>res buf' s'. ducq_tcp_recv fd buf sz s = Some (res, buf', s') \<and> length buf' = length buf \<and>
    (\<forall>n. res = Inr n \<longrightarrow> 0 < n \<and> n < sz \<and> buf' ! n = NUL)"
proof -
  note recv = tcp_recv_header [OF assms(1-5)]
  show ?thesis
  proof (cases "sz < len + 1")
    case False
    let ?b = "ds @ NUL # rest"
    have "0 + len \<le> length ?b"
      using assms(6,7) False by simp
    from readn_fits [OF this, of fd s1] obtain r bs s2 where r:
      "readn fd ?b 0 len s1 = Some (r, bs @ drop (length bs) ?b, s2)" "length bs \<le> len"
      "r = - 1 \<or> r = int (length bs)"
      by auto
    define b2 where "b2 = bs @ drop (length bs) ?b"
    have l2: "length b2 = length buf"
      using r(2) False assms(6,7) by (simp add: b2_def)
    have w: "mem_write b2 len [NUL] = Some (b2[len := NUL])"
      using l2 False assms(7) by (simp add: mem_write_def upd_conv_take_nth_drop)
    have "ducq_tcp_recv fd buf sz s =
      (if r < 0 then Some (Inl DUCQ_EREAD, b2, s2) else if r = 0 then Some (Inl DUCQ_ECONNCLOSED, b2, s2)
       else if r \<noteq> int len then Some (Inl DUCQ_EREAD, b2, s2) else Some (Inr (nat r), b2[len := NUL], s2))"
      using recv False r(1) w unfolding b2_def by simp
    then show ?thesis
      using l2 False assms(7) by auto
  qed (use recv assms(6) in auto)
qed

text \<open>A negative length other than -1 is a huge size.\<close>

lemma tcp_recv_negative:
  assumes hdr: "tcp_header fd sz buf 0 s = Some (Inr (k, length ds), ds @ LF # rest, s1)" and k: "0 < k"
    and ds: "\<forall>d \<in> set ds. isdigit d" and neg: "atoi ds < - 1" and sz: "sz < 2 ^ 63"
  shows "ducq_tcp_recv fd buf sz s = Some (Inl DUCQ_EMSGSIZE, ds @ NUL # rest, s1)"
proof -
  have nul: "NUL \<notin> set ds"
    using ds isdigit_cases by blast
  have w: "mem_write (ds @ LF # rest) (length ds) [NUL] = Some (ds @ NUL # rest)"
    by (simp add: mem_write_def)
  have str: "c_str (ds @ NUL # rest) 0 = Some ds"
    using nul by simp
  have "- (2 ^ 31) \<le> atoi ds"
    using sint_greater_eq [of "word_of_int (strtol ds) :: 32 word"] by (simp add: atoi_def to_int32_def)
  then have "(atoi ds + 1) mod 2 ^ 64 = atoi ds + 1 + 2 ^ 64"
    using neg mod_add_self2 [of "atoi ds + 1" "2 ^ 64"] mod_pos_pos_trivial [of "atoi ds + 1 + 2 ^ 64" "2 ^ 64"] by simp
  moreover have "int sz < 2 ^ 63"
    using sz by simp
  ultimately have "int sz < (atoi ds + 1) mod 2 ^ 64"
    using \<open>- (2 ^ 31) \<le> atoi ds\<close> by simp
  then show ?thesis
    using hdr k w str neg by (simp add: ducq_tcp_recv_def INT_MAX_def)
qed

lemma tcp_recv_safe:
  assumes "0 < sz" and "sz \<le> length buf" and "sz < 2 ^ 63"
    and len: "atoi (takeWhile isdigit (stream fd s)) \<noteq> - 1" "atoi (takeWhile isdigit (stream fd s)) \<noteq> INT_MAX"
  shows "\<exists>res buf' s'. ducq_tcp_recv fd buf sz s = Some (res, buf', s') \<and> length buf' = length buf \<and>
    (\<forall>n. res = Inr n \<longrightarrow> 0 < n \<and> n < sz \<and> buf' ! n = NUL)"
proof -
  obtain h b s1 where hd: "tcp_header fd sz buf 0 s = Some (h, b, s1)" "length b = length buf"
    and h: "\<forall>n q. h = Inr (n, q) \<longrightarrow> q < sz \<and> (0 < n \<longrightarrow> 0 \<le> q \<and> (\<exists>ds c. stream fd s = ds @ c # stream fd s1 \<and>
       (\<forall>d \<in> set ds. isdigit d) \<and> \<not> isdigit c \<and> q = 0 + length ds \<and> b = take 0 buf @ ds @ c # drop (Suc q) buf))"
    using tcp_header_safe [OF assms(2), of 0 fd s] assms(1) by blast
  show ?thesis
  proof (cases h)
    case (Inl e)
    then show ?thesis using hd by (auto simp: ducq_tcp_recv_def)
  next
    case (Inr nq)
    obtain n q where nq: "nq = (n, q)" by (cases nq) auto
    show ?thesis
    proof (cases "0 < n")
      case False
      then show ?thesis using hd Inr nq by (auto simp: ducq_tcp_recv_def)
    next
      case True
      then obtain ds c where ds: "stream fd s = ds @ c # stream fd s1" "\<forall>d \<in> set ds. isdigit d"
          "\<not> isdigit c" "q = length ds" "b = ds @ c # drop (Suc q) buf"
        using h [THEN spec, THEN spec, THEN mp, OF Inr [unfolded nq]] by auto
      have q: "length ds < length buf"
        using h [THEN spec, THEN spec, THEN mp, OF Inr [unfolded nq]] assms(2) ds(4) by simp
      show ?thesis
      proof (cases "c = LF")
        case False
        then show ?thesis using hd Inr nq ds by (auto simp: ducq_tcp_recv_def nth_append)
      next
        case lf: True
        have at: "atoi ds \<noteq> - 1" "atoi ds \<noteq> INT_MAX"
          using len takeWhile_digits [OF ds(2,3)] ds(1) by simp_all
        have hdr: "tcp_header fd sz buf 0 s = Some (Inr (n, length ds), ds @ LF # drop (Suc q) buf, s1)"
          using hd(1) Inr nq ds(4,5) lf by simp
        have lb: "length (ds @ NUL # drop (Suc q) buf) = length buf"
          using q ds(4) by simp
        show ?thesis
        proof (cases "atoi ds < 0")
          case True
          then have "atoi ds < - 1"
            using at(1) by simp
          from tcp_recv_negative [OF hdr \<open>0 < n\<close> ds(2) this assms(3)] show ?thesis
            using lb by simp
        next
          case False
          then show ?thesis
            using tcp_recv_header_fits [OF hdr \<open>0 < n\<close> ds(2), of "nat (atoi ds)"] atoi_less [of ds] at(2) lb assms(2) by simp
        qed
      qed
    qed
  qed
qed

text \<open>C33: Memory safety: whatever arrives and however it fails, \<open>ducq_tcp_recv\<close> stores only inside the
  caller's buffer, unless \<open>atoi\<close> reads the announced length as -1 or as \<open>INT_MAX\<close>; a received message is not
  empty, is shorter than the buffer and has its terminator.  Both exceptions are needed: the theorems behind this
  one show what the two lengths do.\<close>

theorem tcp_recv_in_bounds:
  assumes "0 < sz" and "sz \<le> length buf" and "sz < 2 ^ 63"
    and "atoi (takeWhile isdigit (stream fd s)) \<noteq> - 1" and "atoi (takeWhile isdigit (stream fd s)) \<noteq> INT_MAX"
  shows "\<exists>res buf' s'. ducq_tcp_recv fd buf sz s = Some (res, buf', s') \<and> length buf' = length buf \<and>
    (\<forall>n. res = Inr n \<longrightarrow> 0 < n \<and> n < sz \<and> buf' ! n = NUL)"
  using assms by (rule tcp_recv_safe)

theorem tcp_recv_in_bounds_witness:
  "\<exists>res buf' s'. ducq_tcp_recv 4 ''........'' 8
     (quiet_os\<lparr>os_in := (\<lambda>_. [RData ''99'', RErr EINTR, RData [LF], RData ''hello''])\<rparr>) = Some (res, buf', s') \<and>
   length buf' = length ''........''"
proof -
  let ?s = "quiet_os\<lparr>os_in := (\<lambda>_. [RData ''99'', RErr EINTR, RData [LF], RData ''hello''])\<rparr>"
  have "takeWhile isdigit (stream 4 ?s) = ''99''"
    by (simp add: stream_def isdigit_def)
  moreover have "atoi ''99'' = 99"
    by code_simp
  ultimately show ?thesis
    using tcp_recv_in_bounds [of 8 "''........''" 4 ?s] by (simp add: INT_MAX_def) blast
qed

text \<open>At \<open>INT_MAX\<close> the sum \<open>len + 1\<close> overflows.\<close>

theorem tcp_recv_int_max:
  assumes "fluent (os_in s fd)" and "stream fd s = ds @ LF # r" and "\<forall>d \<in> set ds. isdigit d" and "atoi ds = INT_MAX"
    and "Suc (length ds) < sz" and "sz \<le> length buf"
  shows "ducq_tcp_recv fd buf sz s = None"
proof -
  obtain s1 where s1: "tcp_header fd sz buf 0 s = Some (Inr (1, length ds), ds @ LF # drop (Suc (length ds)) buf, s1)"
    using tcp_header_fluent [OF assms(1,2), of sz buf 0] assms(3,5,6) by auto
  have "NUL \<notin> set ds"
    using assms(3) isdigit_cases by blast
  then show ?thesis
    using s1 assms(4) by (simp add: ducq_tcp_recv_def mem_write_def)
qed

theorem tcp_recv_int_max_witness:
  "ducq_tcp_recv 4 (replicate 16 NUL) 16 (quiet_os\<lparr>os_in := (\<lambda>_. [RData ''2147483647'', RData [LF]])\<rparr>) = None"
proof (rule tcp_recv_int_max)
  let ?s = "quiet_os\<lparr>os_in := (\<lambda>_. [RData ''2147483647'', RData [LF]])\<rparr>"
  show digits: "\<forall>d \<in> set ''2147483647''. isdigit d"
    by (simp add: isdigit_def)
  have "digits_val ''2147483647'' = 2147483647"
    by (simp add: digits_val_def digit_val_def)
  then show "atoi ''2147483647'' = INT_MAX"
    using atoi_digits [of "''2147483647''"] digits by (simp add: INT_MAX_def)
  show "fluent (os_in ?s 4)" and "stream 4 ?s = ''2147483647'' @ LF # []"
    by (simp_all add: stream_def)
  show "Suc (length ''2147483647'') < 16" and "16 \<le> length (replicate 16 NUL)"
    by simp_all
qed

text \<open>When the announced length is 4294967295, \<open>atoi\<close> answers -1, the comparison with the size passes and the bytes that follow are stored past
  the end of the buffer.\<close>

theorem tcp_recv_overflow:
  assumes "fluent (os_in s fd)" and "stream fd s = ''4294967295'' @ LF # r"
    and "12 \<le> sz" and "sz \<le> length buf" and "length buf < length r" and "length r < 2 ^ 64"
  shows "ducq_tcp_recv fd buf sz s = None"
proof -
  define ds where "ds = ''4294967295''"
  have ds: "length ds = 10" "NUL \<notin> set ds" "ds \<noteq> []"
    by (simp_all add: ds_def)
  have dig: "isdigit d" if "d \<in> set ds" for d
    using that by (auto simp: isdigit_def ds_def)
  define b where "b = ds @ LF # drop 11 buf"
  define b' where "b' = ds @ NUL # drop 11 buf"
  obtain s1 where s1: "tcp_header fd sz buf 0 s = Some (Inr (1, 10), b, s1)" "fluent (os_in s1 fd)"
      "stream fd s1 = r"
    using tcp_header_fluent [OF assms(1) assms(2) [folded ds_def] dig, of sz buf 0] assms(3,4) ds
    by (auto simp: b_def)
  have "digits_val ds = 4294967295"
    by (simp add: ds_def digits_val_def digit_val_def)
  moreover have "(word_of_int 4294967295 :: 32 word) = - 1"
    by simp
  ultimately have at: "atoi ds = - 1"
    using strtol_digits [of ds "[]"] ds(3) dig by (simp add: atoi_def clamp_long_def to_int32_def)
  have w: "mem_write b 10 [NUL] = Some b'" "b ! 10 = LF"
    using ds(1) by (simp_all add: b_def b'_def mem_write_def nth_append)
  have c: "c_str b' 0 = Some ds"
    unfolding b'_def using ds(2) by (rule c_str_append_NUL)
  have lb: "length b' = length buf"
    using ds(1) assms(3,4) by (simp add: b'_def)
  obtain s2 where "readn_loop fd (nat (- 1 mod 2 ^ 64)) [] s1 = (int (length r), r, s2)"
    using readn_fluent [OF s1(2), of "nat (- 1 mod 2 ^ 64)" "[]"] s1(3) assms(6) by auto
  then have rd: "readn fd b' 0 (nat (- 1 mod 2 ^ 64)) s1 = None"
    using assms(5) lb by (simp add: readn_eq mem_write_def)
  have cmp: "((- 1::int) = INT_MAX) = False" "(int sz < (- 1 + 1) mod 2 ^ 64) = False"
    "((1::int) < 0) = False" "((1::int) = 0) = False"
    by (simp_all add: INT_MAX_def)
  show ?thesis
    by (simp only: ducq_tcp_recv_def s1(1) w c at cmp rd bind.bind_lunit bind.bind_lzero Let_def
        prod.case sum.case if_False if_True simp_thms)
qed

definition big_buffer :: "char list" where
  "big_buffer = replicate 16 NUL"

theorem tcp_recv_overflow_witness:
  "ducq_tcp_recv 4 big_buffer 16
     (quiet_os\<lparr>os_in := (\<lambda>_. [RData ''4294967295'', RData (LF # ''0123456789abcdefg'')])\<rparr>) = None"
  using tcp_recv_overflow [of "quiet_os\<lparr>os_in := (\<lambda>_. [RData ''4294967295'', RData (LF # ''0123456789abcdefg'')])\<rparr>" 4
    "''0123456789abcdefg''" 16 big_buffer]
  by (simp add: stream_def big_buffer_def)

text \<open>The empty message can be sent and cannot be received: its frame is taken for a closed
  connection, which consumes the frame.\<close>

theorem tcp_empty_message:
  assumes "writable (os_wr s fd)" and "fluent (os_in t fd')" and "stream fd' t = tcp_frame [] @ r"
    and "3 \<le> sz" and "sz \<le> length buf"
  shows "(\<exists>s'. ducq_tcp_send fd [] s = Some (Inr 0, s') \<and> os_out s' fd = os_out s fd @ tcp_frame []) \<and>
    (\<exists>buf' t'. ducq_tcp_recv fd' buf sz t = Some (Inl DUCQ_ECONNCLOSED, buf', t') \<and> stream fd' t' = r)"
proof -
  have sent: "\<exists>s'. ducq_tcp_send fd [] s = Some (Inr 0, s') \<and> os_out s' fd = os_out s fd @ tcp_frame []"
    using tcp_send_writable [OF assms(1), of "[]"] only_wroteD(1) by (auto simp: INT_MAX_def)
  define ds where "ds = dec_nat 0"
  have ds: "length ds = 1" "digits_val ds = 0" "\<forall>d \<in> set ds. isdigit d" "ds \<noteq> []"
    by (simp_all add: ds_def dec_nat_digits) (subst dec_nat.simps, simp)
  obtain s1 where s1: "tcp_header fd' sz buf 0 t = Some (Inr (1, length ds), ds @ LF # drop 2 buf, s1)"
      "fluent (os_in s1 fd')" "stream fd' s1 = r"
    using tcp_header_fluent [OF assms(2), of ds LF r sz buf 0] assms(3-5) ds
    by (auto simp: tcp_frame_def ds_def [symmetric] numeral_2_eq_2)
  have rd: "readn fd' b 0 0 s1 = Some (0, b, s1)" for b
    by (simp add: readn_def readn_loop.simps [of fd' 0] mem_write_def)
  have "ducq_tcp_recv fd' buf sz t = Some (Inl DUCQ_ECONNCLOSED, ds @ NUL # drop 2 buf, s1)"
    using tcp_recv_header [OF s1(1) _ ds(3), of 0] atoi_header [OF ds(3)] ds(2) rd assms(4) by (simp add: INT_MAX_def)
  then show ?thesis
    using sent s1(3) by blast
qed

theorem tcp_empty_message_witness:
  "\<exists>buf' t'. ducq_tcp_recv 4 ''....'' 4 (quiet_os\<lparr>os_in := (\<lambda>_. [RData ''0'', RData [LF]])\<rparr>) =
     Some (Inl DUCQ_ECONNCLOSED, buf', t') \<and> stream 4 t' = []"
proof -
  have d: "dec_nat 0 = ''0''" by code_simp
  show ?thesis
    using tcp_empty_message [of quiet_os 3 "quiet_os\<lparr>os_in := (\<lambda>_. [RData ''0'', RData [LF]])\<rparr>" 4 "[]" 4 "''....''"]
    by (simp add: quiet_os_def stream_def tcp_frame_def d)
qed

end
