(* ===== verification/Base64.thy ===== *)
theory Base64
  imports Ducq_Prelude
begin

text \<open>
  \<open>base64_encode\<close> of \<open>src/base64.c\<close>: the space computation on \<open>size_t\<close>, the loop over groups of
  three bytes, the padded tail and the terminator.  The reference is the 24-bit group encoding
  of RFC 4648 with its decoder; the code is shown to compute it inside the buffer it is given.
\<close>

section \<open>The code\<close>

definition B64 :: string where
  "B64 = ''ABCDEFGHIJKLMNOPQRSTUVWXYZabcdefghijklmnopqrstuvwxyz0123456789+/''"

definition b64_char :: "byte \<Rightarrow> char" where
  "b64_char x = B64 ! unat x"

text \<open>Reading \<open>src[i]\<close>; None past the array.\<close>

definition rd_src :: "byte list \<Rightarrow> nat \<Rightarrow> byte option" where
  "rd_src src i = (if i < length src then Some (src ! i) else None)"

function b64_loop :: "byte list \<Rightarrow> nat \<Rightarrow> nat \<Rightarrow> string option" where
  "b64_loop src i len =
     (if i < len then
        do { a \<leftarrow> rd_src src i;
             b \<leftarrow> rd_src src (i + 1);
             c \<leftarrow> rd_src src (i + 2);
             rest \<leftarrow> b64_loop src (i + 3) len;
             Some (b64_char (drop_bit 2 a AND 0x3F)
                 # b64_char ((push_bit 4 a AND 0x30) OR (drop_bit 4 b AND 0x0F))
                 # b64_char ((push_bit 2 b AND 0x3C) OR (drop_bit 6 c AND 0x03))
                 # b64_char (drop_bit 0 c AND 0x3F) # rest) }
      else Some [])"
  by pat_completeness auto
termination
  by (relation "measure (\<lambda>(src, i, len). len - i)") auto

declare b64_loop.simps [simp del]

text \<open>The bytes after the whole groups, \<open>i\<close> the index the loop stopped at.\<close>

definition b64_tail :: "byte list \<Rightarrow> nat \<Rightarrow> nat \<Rightarrow> string option" where
  "b64_tail src i pad =
     (if pad = 0 then Some []
      else
        do { a \<leftarrow> rd_src src i;
             let first = b64_char (drop_bit 2 a AND 0x3F);
             let x = (push_bit 4 a AND 0x30);
             if pad = 1 then
               do { b \<leftarrow> rd_src src (i + 1);
                    let x = x OR (drop_bit 4 b AND 0x0F);
                    Some ([first, b64_char x, b64_char (push_bit 2 b AND 0x3C)] @ ''='') }
             else Some ([first, b64_char x] @ replicate pad CHR ''='') })"

text \<open>The space the encoding of \<open>len\<close> bytes needs; \<open>size_t\<close> arithmetic is modulo \<open>2 ^ 64\<close>.\<close>

definition b64_needed_space :: "nat \<Rightarrow> nat" where
  "b64_needed_space len =
     (let needed_space = (len * 4 mod 2 ^ 64) div 3;
          pad = needed_space mod 4;
          needed_space = (if pad \<noteq> 0 then needed_space + (4 - pad) else needed_space)
      in needed_space + 1)"

text \<open>The result code and the destination afterwards.\<close>

definition base64_encode ::
  "byte list option \<Rightarrow> int \<Rightarrow> char list option \<Rightarrow> int \<Rightarrow> (int \<times> char list option) option" where
  "base64_encode src ssize dst dsize =
     (case (src, dst) of
        (Some s, Some d) \<Rightarrow>
          (let len = nat (ssize mod 2 ^ 64)
           in if nat (dsize mod 2 ^ 64) < b64_needed_space len then Some (- 2, dst)
              else
                let pad = len mod 3;
                    len = (if pad \<noteq> 0 then len - pad else len);
                    pad = (if pad \<noteq> 0 then 3 - pad else pad)
                in do { body \<leftarrow> b64_loop s 0 len;
                        end \<leftarrow> b64_tail s len pad;
                        d' \<leftarrow> mem_write d 0 (body @ end @ [NUL]);
                        Some (0, Some d') })
      | _ \<Rightarrow> Some (- 1, dst))"

section \<open>The reference: RFC 4648\<close>

definition b64_digit :: "nat \<Rightarrow> char" where
  "b64_digit n = B64 ! n"

fun b64_spec :: "nat list \<Rightarrow> string" where
  "b64_spec (a # b # c # r) =
     (let v = a * 2 ^ 16 + b * 2 ^ 8 + c
      in [b64_digit (v div 2 ^ 18), b64_digit (v div 2 ^ 12 mod 64), b64_digit (v div 2 ^ 6 mod 64),
          b64_digit (v mod 64)] @ b64_spec r)"
| "b64_spec [a, b] =
     (let v = a * 2 ^ 16 + b * 2 ^ 8
      in [b64_digit (v div 2 ^ 18), b64_digit (v div 2 ^ 12 mod 64), b64_digit (v div 2 ^ 6 mod 64),
          CHR ''=''])"
| "b64_spec [a] =
     (let v = a * 2 ^ 16
      in [b64_digit (v div 2 ^ 18), b64_digit (v div 2 ^ 12 mod 64), CHR ''='', CHR ''=''])"
| "b64_spec [] = []"

fun index_in :: "'a \<Rightarrow> 'a list \<Rightarrow> nat" where
  "index_in x [] = 0"
| "index_in x (y # ys) = (if x = y then 0 else Suc (index_in x ys))"

definition b64_value :: "char \<Rightarrow> nat" where
  "b64_value c = index_in c B64"

fun b64_decode :: "string \<Rightarrow> nat list" where
  "b64_decode (p # q # r # s # rest) =
     (let byte1 = b64_value p * 4 + b64_value q div 16;
          byte2 = b64_value q mod 16 * 16 + b64_value r div 4;
          byte3 = b64_value r mod 4 * 64 + b64_value s
      in if r = CHR ''='' then [byte1]
         else if s = CHR ''='' then [byte1, byte2]
         else [byte1, byte2, byte3] @ b64_decode rest)"
| "b64_decode _ = []"

section \<open>Sextets\<close>

lemma and_bits_mask: "(x :: byte) AND 0x3F = take_bit 6 x" "x AND 0x0F = take_bit 4 x"
    "x AND 0x03 = take_bit 2 x"
  by (simp_all add: take_bit_eq_mask mask_eq_exp_minus_1)

lemma nat_push_or: "push_bit n x OR take_bit n y = x * 2 ^ n + y mod 2 ^ n" for x y :: nat
proof -
  have "push_bit n x + take_bit n y = push_bit n x OR take_bit n y"
    by (rule disjunctive_add_eq_or) (auto simp: bit_eq_iff bit_simps)
  then show ?thesis
    by (simp add: push_bit_eq_mult take_bit_eq_mod)
qed

lemma unat_push_take:
  "n + m \<le> 8 \<Longrightarrow> unat (push_bit n (take_bit m a) :: byte) = push_bit n (take_bit m (unat a))"
  by (simp add: unsigned_push_bit_eq unsigned_take_bit_eq take_bit_push_bit take_bit_take_bit min_absorb2)

lemma unat_push_add:
  fixes a b :: byte
  assumes "n + m \<le> 8"
  shows "unat (push_bit n (take_bit m a) OR take_bit n b) = unat a mod 2 ^ m * 2 ^ n + unat b mod 2 ^ n"
proof -
  have "unat (push_bit n (take_bit m a) OR take_bit n b) =
      push_bit n (take_bit m (unat a)) OR take_bit n (unat b)"
    using assms by (simp only: unsigned_or_eq unat_push_take unsigned_take_bit_eq)
  also have "\<dots> = take_bit m (unat a) * 2 ^ n + unat b mod 2 ^ n"
    by (rule nat_push_or)
  finally show ?thesis
    by (simp only: take_bit_eq_mod [of m "unat a"])
qed

lemma push_mask: "push_bit 4 a AND 0x30 = push_bit 4 (take_bit 2 a)"
  "push_bit 2 a AND 0x3C = push_bit 2 (take_bit 4 a)" for a :: byte
proof -
  have "(0x30 :: byte) = push_bit 4 (mask 2)" "(0x3C :: byte) = push_bit 2 (mask 4)"
    by (simp_all add: mask_eq_exp_minus_1)
  then show "push_bit 4 a AND 0x30 = push_bit 4 (take_bit 2 a)"
    and "push_bit 2 a AND 0x3C = push_bit 2 (take_bit 4 a)"
    by (simp_all only: take_bit_eq_mask push_bit_and)
qed

lemma sextets:
  fixes a b c :: byte
  shows "unat (drop_bit 2 a AND 0x3F) = unat a div 4"
    and "unat ((push_bit 4 a AND 0x30) OR (drop_bit 4 b AND 0x0F)) = unat a mod 4 * 16 + unat b div 16"
    and "unat ((push_bit 2 b AND 0x3C) OR (drop_bit 6 c AND 0x03)) = unat b mod 16 * 4 + unat c div 64"
    and "unat (c AND 0x3F) = unat c mod 64"
    and "unat (push_bit 4 a AND 0x30) = unat a mod 4 * 16"
    and "unat (push_bit 2 b AND 0x3C) = unat b mod 16 * 4"
proof -
  have lt: "unat x < 256" for x :: byte
    using unsigned_less [of x, where ?'a = nat] by simp
  have d: "unat x div 4 mod 64 = unat x div 4" "unat x div 16 mod 16 = unat x div 16"
    "unat x div 64 mod 4 = unat x div 64" for x :: byte
    using lt [of x] by (simp_all add: less_mult_imp_div_less)
  show "unat (drop_bit 2 a AND 0x3F) = unat a div 4"
    by (simp only: and_bits_mask unsigned_take_bit_eq unat_drop_bit_eq)
       (simp add: take_bit_eq_mod drop_bit_eq_div d)
  show "unat ((push_bit 4 a AND 0x30) OR (drop_bit 4 b AND 0x0F)) = unat a mod 4 * 16 + unat b div 16"
    using unat_push_add [of 4 2 a "drop_bit 4 b"]
    by (simp only: and_bits_mask push_mask unat_drop_bit_eq) (simp add: drop_bit_eq_div d)
  show "unat ((push_bit 2 b AND 0x3C) OR (drop_bit 6 c AND 0x03)) = unat b mod 16 * 4 + unat c div 64"
    using unat_push_add [of 2 4 b "drop_bit 6 c"]
    by (simp only: and_bits_mask push_mask unat_drop_bit_eq) (simp add: drop_bit_eq_div d)
  show "unat (c AND 0x3F) = unat c mod 64"
    by (simp only: and_bits_mask unsigned_take_bit_eq)
       (simp add: take_bit_eq_mod)
  show "unat (push_bit 4 a AND 0x30) = unat a mod 4 * 16"
    by (simp only: push_mask unat_push_take) (simp add: push_bit_eq_mult take_bit_eq_mod unat_push_take)
  show "unat (push_bit 2 b AND 0x3C) = unat b mod 16 * 4"
    by (simp only: push_mask unat_push_take) (simp add: push_bit_eq_mult take_bit_eq_mod unat_push_take)
qed

lemma pack_mod:
  fixes u k :: nat
  assumes "u < k" and "l = k * m"
  shows "(x * k + u) mod l = x mod m * k + u"
proof -
  have "(x * k + u) div k = x" and "(x * k + u) mod k = u"
    using assms(1) by simp_all
  then show ?thesis
    using mod_mult2_eq [of "x * k + u" k m] assms(2) by simp
qed

text \<open>The same sextets, read off the 24-bit group.\<close>

lemma group_sextets:
  fixes a b c :: nat
  assumes "a < 256" and "b < 256" and "c < 256"
  shows "(a * 2 ^ 16 + b * 2 ^ 8 + c) div 2 ^ 18 = a div 4"
    and "(a * 2 ^ 16 + b * 2 ^ 8 + c) div 2 ^ 12 mod 64 = a mod 4 * 16 + b div 16"
    and "(a * 2 ^ 16 + b * 2 ^ 8 + c) div 2 ^ 6 mod 64 = b mod 16 * 4 + c div 64"
    and "(a * 2 ^ 16 + b * 2 ^ 8 + c) mod 64 = c mod 64"
proof -
  define v where "v = b * 256 + c"
  have v64: "v = c + b * 4 * 64"
    by (simp add: v_def)
  have v1: "v < 65536"
    using assms by (simp add: v_def)
  have "v div 256 = b"
    using assms by (simp add: v_def)
  then have v2: "v div 4096 = b div 16"
    using div_mult2_eq [of v 256 16] by simp
  have v3: "v div 64 = b * 4 + c div 64" and v4: "v mod 64 = c mod 64"
    unfolding v64 by (simp_all only: div_mult_self1 mod_mult_self1 zero_neq_numeral not_False_eq_True)
  note v = v1 v2 v3 v4
  have e: "a * 2 ^ 16 + b * 2 ^ 8 + c = a * 65536 + v"
    by (simp add: v_def)
  show "(a * 2 ^ 16 + b * 2 ^ 8 + c) div 2 ^ 18 = a div 4"
    unfolding e using v(1) by simp
  have "(a * 65536 + v) div 4096 = a * 16 + b div 16"
    using v(2) by simp
  moreover have "b div 16 < 16"
    using assms by simp
  moreover have "(a * 16 + u) mod 64 = a mod 4 * 16 + u" if "u < 16" for u
    using pack_mod [OF that, of 64 4 a] by simp
  ultimately show "(a * 2 ^ 16 + b * 2 ^ 8 + c) div 2 ^ 12 mod 64 = a mod 4 * 16 + b div 16"
    unfolding e by simp
  have "(a * 65536 + v) div 64 = a * 1024 + (b * 4 + c div 64)"
    using v(3) by simp
  moreover have "c div 64 < 4"
    using assms by simp
  moreover have "(a * 1024 + (b * 4 + u)) mod 64 = b mod 16 * 4 + u" if "u < 4" for u
  proof -
    have m: "(a * 256 + b) mod 16 = b mod 16"
      using mod_mult_self3 [of "a * 16" 16 b] by (simp add: mult.commute)
    have e: "a * 1024 + (b * 4 + u) = (a * 256 + b) * 4 + u" by simp
    show ?thesis
      unfolding e using pack_mod [OF that, of 64 16 "a * 256 + b"] m by simp
  qed
  ultimately show "(a * 2 ^ 16 + b * 2 ^ 8 + c) div 2 ^ 6 mod 64 = b mod 16 * 4 + c div 64"
    unfolding e by simp
  show "(a * 2 ^ 16 + b * 2 ^ 8 + c) mod 64 = c mod 64"
    unfolding e using mod_mult_self3 [of "a * 1024" 64 v] v(4) by (simp add: mult.commute)
qed

lemma b64_spec_group:
  assumes "a < 256" "b < 256" "c < 256"
  shows "b64_spec (a # b # c # r) = b64_digit (a div 4) # b64_digit (a mod 4 * 16 + b div 16)
      # b64_digit (b mod 16 * 4 + c div 64) # b64_digit (c mod 64) # b64_spec r"
    and "b64_spec [a, b] = [b64_digit (a div 4), b64_digit (a mod 4 * 16 + b div 16),
      b64_digit (b mod 16 * 4), CHR ''='']"
    and "b64_spec [a] = [b64_digit (a div 4), b64_digit (a mod 4 * 16), CHR ''='', CHR ''='']"
proof -
  have z: "(0 :: nat) < 256" by simp
  note g2 = group_sextets [OF assms(1,2) z, unfolded add_0_right div_0 mod_0]
  note g1 = group_sextets [OF assms(1) z z, unfolded add_0_right div_0 mod_0 mult_zero_left]
  show "b64_spec (a # b # c # r) = b64_digit (a div 4) # b64_digit (a mod 4 * 16 + b div 16)
      # b64_digit (b mod 16 * 4 + c div 64) # b64_digit (c mod 64) # b64_spec r"
    by (simp only: b64_spec.simps Let_def group_sextets [OF assms] append.simps)
  show "b64_spec [a, b] = [b64_digit (a div 4), b64_digit (a mod 4 * 16 + b div 16),
      b64_digit (b mod 16 * 4), CHR ''='']"
    by (simp only: b64_spec.simps Let_def g2)
  show "b64_spec [a] = [b64_digit (a div 4), b64_digit (a mod 4 * 16), CHR ''='', CHR ''='']"
    by (simp only: b64_spec.simps Let_def g1)
qed

lemma div3_step: "(5 + n) div 3 = Suc (Suc (Suc n) div 3)"
  by presburger

lemma length_b64_spec: "length (b64_spec xs) = 4 * ((length xs + 2) div 3)"
  by (induction xs rule: b64_spec.induct) (auto simp: Let_def div3_step)

declare b64_spec.simps(1-3) [simp del]

section \<open>The code computes the reference\<close>

lemma byte_lt: "unat (x :: byte) < 256"
  using unsigned_less [of x, where ?'a = nat] by simp

lemma drop_Cons3:
  assumes "3 \<le> length (drop i s)"
  obtains a b c r where "drop i s = a # b # c # r" "s ! i = a" "s ! (i + 1) = b" "s ! (i + 2) = c"
    "drop (i + 3) s = r" "i + 2 < length s"
proof -
  obtain a b c r where d: "drop i s = a # b # c # r"
    using assms by (cases "drop i s" rule: remdups_adj.cases) (auto simp: Suc_le_length_iff numeral_3_eq_3)
  have "s ! (i + j) = drop i s ! j" for j
    using assms by (simp add: nth_drop)
  from this [of 0] this [of 1] this [of 2] have "s ! i = a" "s ! (i + 1) = b" "s ! (i + 2) = c"
    by (simp_all add: d)
  moreover have "drop (i + 3) s = drop 3 (drop i s)"
    by (simp add: add.commute)
  moreover have "i + 2 < length s"
    using assms by simp
  ultimately show thesis
    using that d by simp
qed

lemma b64_loop_spec:
  "length s = i + 3 * k + r \<Longrightarrow>
    b64_loop s i (i + 3 * k) = Some (b64_spec (map unat (take (3 * k) (drop i s))))"
proof (induction k arbitrary: i)
  case 0
  then show ?case by (simp add: b64_loop.simps)
next
  case (Suc k)
  then have "3 \<le> length (drop i s)" by simp
  then obtain a b c rest where d: "drop i s = a # b # c # rest" and
    n: "s ! i = a" "s ! (i + 1) = b" "s ! (i + 2) = c" and i: "i + 2 < length s" and
    rest: "drop (i + 3) s = rest"
    by (rule drop_Cons3) blast
  have "b64_loop s (i + 3) (i + 3 * Suc k) = Some (b64_spec (map unat (take (3 * k) rest)))"
    using Suc.IH [of "i + 3"] Suc.prems rest by (simp add: algebra_simps)
  moreover have "take (3 * Suc k) (drop i s) = a # b # c # take (3 * k) rest"
    by (simp add: d numeral_3_eq_3)
  ultimately show ?case
    using i n
    by (subst b64_loop.simps)
       (simp add: rd_src_def b64_char_def sextets(1) [of a] sextets(2) [of a b]
         sextets(3) [of b c] sextets(4) [of c]
         b64_spec_group(1) [OF byte_lt byte_lt byte_lt] b64_digit_def)
qed

lemma b64_spec_append: "length xs = 3 * k \<Longrightarrow> b64_spec (xs @ ys) = b64_spec xs @ b64_spec ys"
proof (induction xs arbitrary: k rule: b64_spec.induct)
  case (1 a b c r)
  then have "length r = 3 * (k - 1)" by simp
  with "1.IH" show ?case by (simp add: b64_spec.simps(1) Let_def)
next
  case (2 a b)
  then have "3 * k = 2" by simp
  then have False by presburger
  then show ?case ..
next
  case (3 a)
  then have "3 * k = 1" by simp
  then have False by presburger
  then show ?case ..
qed simp

lemma b64_tail_spec:
  assumes "r < 3" and "length s \<ge> i + r"
  shows "b64_tail s i (if r \<noteq> 0 then 3 - r else r) = Some (b64_spec (map unat (take r (drop i s))))"
proof -
  consider "r = 0" | "r = 1" | "r = 2"
    using assms(1) by linarith
  then show ?thesis
  proof cases
    case 1
    then show ?thesis by (simp add: b64_tail_def)
  next
    case 2
    then obtain a rest where d: "drop i s = a # rest"
      using assms(2) by (cases "drop i s") auto
    then have "s ! i = a" and "i < length s"
      using assms(2) 2 by (simp_all add: nth_via_drop)
    moreover have "replicate 2 CHR ''='' = ''==''"
      by (simp add: numeral_2_eq_2)
    ultimately show ?thesis
      using 2 d
      by (simp add: b64_spec_group(3) [OF byte_lt byte_lt byte_lt] b64_tail_def rd_src_def b64_char_def b64_digit_def sextets(1) [of a] sextets(5) [of a])
  next
    case 3
    then have "2 \<le> length (drop i s)"
      using assms(2) by simp
    then obtain a b rest where d: "drop i s = a # b # rest"
      by (cases "drop i s" rule: remdups_adj.cases) auto
    have "s ! (i + j) = drop i s ! j" for j
      using assms(2) by (simp add: nth_drop)
    from this [of 0] this [of 1] have "s ! i = a" "s ! Suc i = b"
      by (simp_all add: d)
    moreover have "Suc i < length s"
      using assms(2) 3 by simp
    ultimately show ?thesis
      using 3 d
      by (simp add: b64_spec_group(2) [OF byte_lt byte_lt byte_lt] b64_tail_def rd_src_def b64_char_def b64_digit_def sextets(1) [of a]
          sextets(2) [of a b] sextets(6) [of b])
  qed
qed

lemma needed_space_eq:
  assumes "n < 2 ^ 31"
  shows "b64_needed_space n = 4 * ((n + 2) div 3) + 1"
proof -
  define k r where "k = n div 3" and "r = n mod 3"
  then have n: "n = 3 * k + r" and "r < 3" by simp_all
  then consider "r = 0" | "r = 1" | "r = 2" by linarith
  moreover have "(4 + 12 * k) div 3 = 4 * k + 1" "(8 + 12 * k) div 3 = 4 * k + 2"
    "Suc (4 * k) mod 4 = 1" "Suc (Suc (4 * k)) mod 4 = 2"
    by presburger+
  moreover have "n * 4 mod 2 ^ 64 = n * 4"
    using assms by (intro mod_less) simp
  ultimately show ?thesis
    unfolding b64_needed_space_def by cases (simp_all add: n)
qed

text \<open>The encoder in full: too small a destination is refused and left alone, otherwise the
  reference encoding and a terminator are stored, inside the destination.\<close>

lemma base64_encode_spec:
  assumes "n \<le> length s" and "m \<le> length d" and "n < 2 ^ 31" and "m < 2 ^ 31"
  defines "e \<equiv> b64_spec (map unat (take n s))"
  shows "base64_encode (Some s) (int n) (Some d) (int m) =
    (if m < length e + 1 then Some (- 2, Some d)
     else Some (0, Some (e @ NUL # drop (length e + 1) d)))"
proof -
  define r where "r = n mod 3"
  define k where "k = n div 3"
  have n: "n = 3 * k + r" and r: "r < 3"
    by (simp_all add: k_def r_def)
  have e: "length e = 4 * ((n + 2) div 3)"
    using assms(1) by (simp add: e_def length_b64_spec)
  have wrap: "nat (int n mod 18446744073709551616) = n" "nat (int m mod 18446744073709551616) = m"
    using assms(3,4) by simp_all
  have len: "(if r \<noteq> 0 then n - r else n) = 3 * k"
    by (auto simp: n)
  have body: "b64_loop s 0 (3 * k) = Some (b64_spec (map unat (take (3 * k) s)))"
    using b64_loop_spec [of s 0 k "length s - 3 * k"] assms(1) n by simp
  have tail: "b64_tail s (3 * k) (if r \<noteq> 0 then 3 - r else r) =
      Some (b64_spec (map unat (take r (drop (3 * k) s))))"
    using assms(1) n r by (intro b64_tail_spec) auto
  have "take n s = take (3 * k) s @ take r (drop (3 * k) s)"
    by (simp add: n take_add)
  then have split: "b64_spec (map unat (take (3 * k) s)) @ b64_spec (map unat (take r (drop (3 * k) s))) = e"
    unfolding e_def using assms(1) n by (simp add: b64_spec_append [where k = k])
  have whole: "b64_spec (map unat (take (3 * k) s)) @ (b64_spec (map unat (take r (drop (3 * k) s))) @ [NUL])
      = e @ [NUL]"
    using split by simp
  show ?thesis
  proof (cases "m < length e + 1")
    case True
    then show ?thesis
      using needed_space_eq [OF assms(3)] e unfolding base64_encode_def
      by (simp add: wrap Let_def split del: if_split)
  next
    case False
    then have "mem_write d 0 (e @ [NUL]) = Some (e @ NUL # drop (length e + 1) d)"
      using assms(2) by (simp add: mem_write_fits)
    from this [folded whole] show ?thesis
      using False needed_space_eq [OF assms(3)] e body tail len unfolding base64_encode_def
      by (simp add: wrap Let_def r_def [symmetric] split del: if_split)
  qed
qed

section \<open>Decoding\<close>

lemma index_in_nth: "distinct xs \<Longrightarrow> i < length xs \<Longrightarrow> index_in (xs ! i) xs = i"
  by (induction xs arbitrary: i) (auto simp: nth_Cons split: nat.splits)

lemma B64_facts: "distinct B64" "length B64 = 64" "CHR ''='' \<notin> set B64" "NUL \<notin> set B64"
  by (simp_all add: B64_def)

lemma b64_value_digit [simp]: "n < 64 \<Longrightarrow> b64_value (b64_digit n) = n"
  by (simp add: b64_value_def b64_digit_def index_in_nth B64_facts)

lemma b64_digit_mem: "n < 64 \<Longrightarrow> b64_digit n \<in> set B64"
  by (simp add: b64_digit_def B64_facts)

lemma b64_digit_facts:
  assumes "n < 64"
  shows "b64_digit n \<noteq> CHR ''=''" and "b64_digit n \<noteq> NUL"
  using b64_digit_mem [OF assms] B64_facts(3,4) by auto

lemma sextet_bounds:
  fixes a b c :: nat
  assumes "a < 256" "b < 256" "c < 256"
  shows "a div 4 < 64" "a mod 4 * 16 + b div 16 < 64" "b mod 16 * 4 + c div 64 < 64" "c mod 64 < 64"
proof -
  have "b div 16 < 16" "a mod 4 < 4" "c div 64 < 4" "b mod 16 < 16"
    using assms by simp_all
  then show "a mod 4 * 16 + b div 16 < 64" "b mod 16 * 4 + c div 64 < 64"
    by linarith+
qed (use assms in simp_all)

lemma unpack:
  fixes a b c :: nat
  assumes "a < 256" "b < 256" "c < 256"
  shows "a div 4 * 4 + (a mod 4 * 16 + b div 16) div 16 = a"
    and "(a mod 4 * 16 + b div 16) mod 16 * 16 + (b mod 16 * 4 + c div 64) div 4 = b"
    and "(b mod 16 * 4 + c div 64) mod 4 * 64 + c mod 64 = c"
proof -
  have "b div 16 < 16" "c div 64 < 4"
    using assms by simp_all
  then have "(a mod 4 * 16 + b div 16) div 16 = a mod 4" "(a mod 4 * 16 + b div 16) mod 16 = b div 16"
    "(b mod 16 * 4 + c div 64) div 4 = b mod 16" "(b mod 16 * 4 + c div 64) mod 4 = c div 64"
    by simp_all
  then show "a div 4 * 4 + (a mod 4 * 16 + b div 16) div 16 = a"
    and "(a mod 4 * 16 + b div 16) mod 16 * 16 + (b mod 16 * 4 + c div 64) div 4 = b"
    and "(b mod 16 * 4 + c div 64) mod 4 * 64 + c mod 64 = c"
    by (simp_all add: div_mult_mod_eq)
qed

lemma b64_decode_spec: "(\<forall>x \<in> set xs. x < 256) \<Longrightarrow> b64_decode (b64_spec xs) = xs"
proof (induction xs rule: b64_spec.induct)
  case (1 a b c r)
  then have l: "a < 256" "b < 256" "c < 256" and r: "b64_decode (b64_spec r) = r" by simp_all
  note bd = sextet_bounds [OF l]
  show ?case
    by (simp only: b64_spec_group(1) [OF l] b64_decode.simps Let_def bd [THEN b64_value_digit]
        bd [THEN b64_digit_facts(1)] unpack [OF l] r if_False append.simps)
next
  case (2 a b)
  then have l: "a < 256" "b < 256" "(0::nat) < 256" by simp_all
  note bd = sextet_bounds [OF l, unfolded div_0 mod_0 add_0_right]
  note un = unpack [OF l, unfolded div_0 mod_0 add_0_right]
  show ?case
    by (simp only: b64_spec_group(2) [OF l] b64_decode.simps Let_def bd [THEN b64_value_digit]
        bd [THEN b64_digit_facts(1)] un simp_thms if_False if_True append.simps)
next
  case (3 a)
  then have l: "a < 256" "(0::nat) < 256" "(0::nat) < 256" by simp_all
  note bd = sextet_bounds [OF l, unfolded div_0 mod_0 add_0_right]
  note un = unpack [OF l, unfolded div_0 mod_0 add_0_right]
  show ?case
    by (simp only: b64_spec_group(3) [OF l] b64_decode.simps Let_def bd [THEN b64_value_digit]
        un simp_thms if_True)
qed simp

lemma b64_spec_chars: "(\<forall>x \<in> set xs. x < 256) \<Longrightarrow> set (b64_spec xs) \<subseteq> insert (CHR ''='') (set B64)"
proof (induction xs rule: b64_spec.induct)
  case (1 a b c r)
  then have l: "a < 256" "b < 256" "c < 256" by simp_all
  show ?case
    using 1 sextet_bounds [OF l, unfolded div_0 mod_0 add_0_right, THEN b64_digit_mem] by (simp add: b64_spec_group(1) [OF l])
next
  case (2 a b)
  then have l: "a < 256" "b < 256" "(0::nat) < 256" by simp_all
  show ?case
    using sextet_bounds [OF l, unfolded div_0 mod_0 add_0_right, THEN b64_digit_mem] by (simp add: b64_spec_group(2) [OF l])
next
  case (3 a)
  then have l: "a < 256" "(0::nat) < 256" "(0::nat) < 256" by simp_all
  show ?case
    using sextet_bounds [OF l, unfolded div_0 mod_0 add_0_right, THEN b64_digit_mem] by (simp add: b64_spec_group(3) [OF l])
qed simp

lemma b64_spec_no_NUL: "(\<forall>x \<in> set xs. x < 256) \<Longrightarrow> NUL \<notin> set (b64_spec xs)"
  using b64_spec_chars [of xs] B64_facts(4) by auto

section \<open>Properties\<close>

text \<open>C19: Encoding into a destination that is large enough succeeds without leaving the destination,
  and the C string it leaves there decodes to the source bytes.\<close>

theorem base64_roundtrip:
  assumes "n \<le> length s" and "n < 2 ^ 31" and "4 * ((n + 2) div 3) < m" and "m \<le> length d"
    and "m < 2 ^ 31"
  shows "\<exists>d' e. base64_encode (Some s) (int n) (Some d) (int m) = Some (0, Some d') \<and>
    length d' = length d \<and> c_str d' 0 = Some e \<and> b64_decode e = map unat (take n s)"
proof -
  define e where "e = b64_spec (map unat (take n s))"
  have le: "length e = 4 * ((n + 2) div 3)"
    using assms(1) by (simp add: e_def length_b64_spec)
  have "\<forall>x \<in> set (map unat (take n s)). x < 256"
    by (auto simp: byte_lt)
  then have e: "b64_decode e = map unat (take n s)" "NUL \<notin> set e"
    by (simp_all add: e_def b64_decode_spec b64_spec_no_NUL)
  have "base64_encode (Some s) (int n) (Some d) (int m) =
      Some (0, Some (e @ NUL # drop (length e + 1) d))"
    using base64_encode_spec [OF assms(1,4,2,5)] assms(3) le by (simp add: e_def)
  moreover have "length (e @ NUL # drop (length e + 1) d) = length d"
    using le assms(3,4) by simp
  ultimately show ?thesis
    using e by (metis c_str_append_NUL)
qed

theorem base64_roundtrip_witness:
  "\<exists>d' e. base64_encode (Some [77, 97]) 2 (Some (replicate 9 (CHR ''x''))) 9 = Some (0, Some d') \<and>
    length d' = 9 \<and> c_str d' 0 = Some e \<and> b64_decode e = [77, 97]"
  using base64_roundtrip [of 2 "[77, 97]" 9 "replicate 9 (CHR ''x'')"] by simp

text \<open>A destination without room for the padded encoding and its terminator is refused with -2
  and left as it was; a null pointer is refused with -1.\<close>

theorem base64_errors:
  assumes "n \<le> length s" and "n < 2 ^ 31" and "m \<le> 4 * ((n + 2) div 3)" and "m \<le> length d"
    and "m < 2 ^ 31"
  shows "base64_encode (Some s) (int n) (Some d) (int m) = Some (- 2, Some d) \<and>
    base64_encode None ssize dst dsize = Some (- 1, dst) \<and>
    base64_encode src ssize None dsize = Some (- 1, None)"
  using base64_encode_spec [OF assms(1,4,2,5)] assms(1,3)
  by (simp_all add: length_b64_spec base64_encode_def split: option.splits)

theorem base64_errors_witness:
  "base64_encode (Some [77, 97, 110]) 3 (Some ''xxxx'') 4 = Some (- 2, Some ''xxxx'')"
  using base64_errors [of 3 "[77, 97, 110]" 4 "''xxxx''"] by simp

end
