(* ===== verification/Sha1.thy ===== *)
theory Sha1
  imports Ducq_Prelude
begin

text \<open>
  SHA-1 of \<open>src/sha1.c\<close>: the context, \<open>SHA1Reset\<close>, \<open>SHA1Input\<close> with its byte loop and its 64-bit
  length counter in two words, \<open>SHA1ProcessMessageBlock\<close>, \<open>SHA1PadMessage\<close> and \<open>SHA1Result\<close>.
  The reference is FIPS 180 on whole messages (padding, message schedule, 80 rounds selected by
  their number); the incremental code is shown to compute it however the message is cut into
  calls of \<open>SHA1Input\<close>.

  The indices into the context's arrays are in range in every state the operations reach
  (\<open>sha1_inv\<close>), so the list updates below are the C stores.
\<close>

section \<open>The context\<close>

type_synonym u32 = "32 word"

record sha1_context =
  Intermediate_Hash :: "u32 list"
  Length_Low :: u32
  Length_High :: u32
  Message_Block_Index :: nat
  Message_Block :: "byte list"
  Computed :: int
  Corrupted :: int

definition shaSuccess :: int where "shaSuccess = 0"
definition shaNull :: int where "shaNull = 1"
definition shaInputTooLong :: int where "shaInputTooLong = 2"
definition shaStateError :: int where "shaStateError = 3"

definition SHA1CircularShift :: "nat \<Rightarrow> u32 \<Rightarrow> u32" where
  "SHA1CircularShift bits w = push_bit bits w OR drop_bit (32 - bits) w"

section \<open>SHA1ProcessMessageBlock\<close>

text \<open>\<open>W[0..15]\<close> from the block, then \<open>W[16..79]\<close>, each entry appended as the loop writes it.\<close>

definition block_word :: "byte list \<Rightarrow> nat \<Rightarrow> u32" where
  "block_word blk t =
     push_bit 24 (ucast (blk ! (t * 4))) OR push_bit 16 (ucast (blk ! (t * 4 + 1)))
     OR push_bit 8 (ucast (blk ! (t * 4 + 2))) OR ucast (blk ! (t * 4 + 3))"

definition expand_W :: "u32 list \<Rightarrow> nat \<Rightarrow> u32 list" where
  "expand_W W t =
     W @ [SHA1CircularShift 1 (W ! (t - 3) XOR W ! (t - 8) XOR W ! (t - 14) XOR W ! (t - 16))]"

definition sha1_W :: "byte list \<Rightarrow> u32 list" where
  "sha1_W blk = foldl expand_W (map (block_word blk) [0..<16]) [16..<80]"

type_synonym abcde = "u32 \<times> u32 \<times> u32 \<times> u32 \<times> u32"

text \<open>The body shared by the four loops: \<open>f\<close> is the loop's expression of B, C, D.\<close>

definition sha1_round :: "(u32 \<Rightarrow> u32 \<Rightarrow> u32 \<Rightarrow> u32) \<Rightarrow> u32 \<Rightarrow> u32 list \<Rightarrow> abcde \<Rightarrow> nat \<Rightarrow> abcde" where
  "sha1_round f k W = (\<lambda>(A, B, C, D, E) t.
     let temp = SHA1CircularShift 5 A + f B C D + E + W ! t + k
     in (temp, A, SHA1CircularShift 30 B, C, D))"

definition sha1_rounds :: "u32 list \<Rightarrow> abcde \<Rightarrow> abcde" where
  "sha1_rounds W s =
     (let s = foldl (sha1_round (\<lambda>B C D. (B AND C) OR (NOT B AND D)) 0x5A827999 W) s [0..<20];
          s = foldl (sha1_round (\<lambda>B C D. B XOR C XOR D) 0x6ED9EBA1 W) s [20..<40];
          s = foldl (sha1_round (\<lambda>B C D. (B AND C) OR (B AND D) OR (C AND D)) 0x8F1BBCDC W) s [40..<60]
      in foldl (sha1_round (\<lambda>B C D. B XOR C XOR D) 0xCA62C1D6 W) s [60..<80])"

definition add_hash :: "u32 list \<Rightarrow> abcde \<Rightarrow> u32 list" where
  "add_hash h = (\<lambda>(A, B, C, D, E). [h ! 0 + A, h ! 1 + B, h ! 2 + C, h ! 3 + D, h ! 4 + E])"

definition SHA1ProcessMessageBlock :: "sha1_context \<Rightarrow> sha1_context" where
  "SHA1ProcessMessageBlock context =
     (let h = Intermediate_Hash context;
          W = sha1_W (Message_Block context);
          s = sha1_rounds W (h ! 0, h ! 1, h ! 2, h ! 3, h ! 4)
      in context\<lparr>Intermediate_Hash := add_hash h s, Message_Block_Index := 0\<rparr>)"

section \<open>SHA1Reset, SHA1Input, SHA1PadMessage, SHA1Result\<close>

definition SHA1Reset :: "sha1_context option \<Rightarrow> int \<times> sha1_context option" where
  "SHA1Reset context =
     (case context of
        None \<Rightarrow> (shaNull, None)
      | Some c \<Rightarrow>
          (shaSuccess,
           Some (c\<lparr>Length_Low := 0, Length_High := 0, Message_Block_Index := 0,
                   Intermediate_Hash := [0x67452301, 0xEFCDAB89, 0x98BADCFE, 0x10325476, 0xC3D2E1F0],
                   Computed := 0, Corrupted := 0\<rparr>)))"

text \<open>Storing a byte at the block index, which moves on.\<close>

definition put_byte :: "sha1_context \<Rightarrow> byte \<Rightarrow> sha1_context" where
  "put_byte c b =
     c\<lparr>Message_Block := (Message_Block c)[Message_Block_Index c := b],
       Message_Block_Index := Message_Block_Index c + 1\<rparr>"

definition sha1_input_byte :: "sha1_context \<Rightarrow> byte \<Rightarrow> sha1_context" where
  "sha1_input_byte c b =
     (let c = put_byte c b;
          c = c\<lparr>Length_Low := Length_Low c + 8\<rparr>;
          c = (if Length_Low c = 0 then
                 (let c = c\<lparr>Length_High := Length_High c + 1\<rparr>
                  in if Length_High c = 0 then c\<lparr>Corrupted := 1\<rparr> else c)
               else c)
      in if Message_Block_Index c = 64 then SHA1ProcessMessageBlock c else c)"

fun sha1_input_loop :: "sha1_context \<Rightarrow> byte list \<Rightarrow> sha1_context" where
  "sha1_input_loop c [] = c"
| "sha1_input_loop c (b # bs) =
     (if Corrupted c \<noteq> 0 then c else sha1_input_loop (sha1_input_byte c b) bs)"

text \<open>\<open>SHA1Input\<close> reads \<open>length\<close> bytes, all of \<open>message_array\<close> here.\<close>

definition SHA1Input ::
  "sha1_context option \<Rightarrow> byte list option \<Rightarrow> nat \<Rightarrow> int \<times> sha1_context option" where
  "SHA1Input context message_array len =
     (if len = 0 then (shaSuccess, context)
      else
        case (context, message_array) of
          (Some c, Some m) \<Rightarrow>
            (if Computed c \<noteq> 0 then (shaStateError, Some (c\<lparr>Corrupted := shaStateError\<rparr>))
             else if Corrupted c \<noteq> 0 then (Corrupted c, Some c)
             else (shaSuccess, Some (sha1_input_loop c (take len m))))
        | _ \<Rightarrow> (shaNull, context))"

function fill_zeros :: "sha1_context \<Rightarrow> nat \<Rightarrow> sha1_context" where
  "fill_zeros c n = (if Message_Block_Index c < n then fill_zeros (put_byte c 0) n else c)"
  by pat_completeness auto
termination
  by (relation "measure (\<lambda>(c, n). n - Message_Block_Index c)") (auto simp: put_byte_def)

declare fill_zeros.simps [simp del]

definition length_bytes :: "u32 \<Rightarrow> byte list" where
  "length_bytes w = [ucast (drop_bit 24 w), ucast (drop_bit 16 w), ucast (drop_bit 8 w), ucast w]"

definition SHA1PadMessage :: "sha1_context \<Rightarrow> sha1_context" where
  "SHA1PadMessage c =
     (let c = (if Message_Block_Index c > 55 then
                 fill_zeros (SHA1ProcessMessageBlock (fill_zeros (put_byte c 0x80) 64)) 56
               else fill_zeros (put_byte c 0x80) 56);
          c = c\<lparr>Message_Block := take 56 (Message_Block c)
                @ length_bytes (Length_High c) @ length_bytes (Length_Low c)\<rparr>
      in SHA1ProcessMessageBlock c)"

definition digest_byte :: "u32 list \<Rightarrow> nat \<Rightarrow> byte" where
  "digest_byte h i = ucast (drop_bit (8 * (3 - i mod 4)) (h ! (i div 4)))"

text \<open>The error code, the context, and the digest when one is stored.\<close>

definition SHA1Result :: "sha1_context option \<Rightarrow> int \<times> sha1_context option \<times> byte list option" where
  "SHA1Result context =
     (case context of
        None \<Rightarrow> (shaNull, None, None)
      | Some c \<Rightarrow>
          if Corrupted c \<noteq> 0 then (Corrupted c, Some c, None)
          else
            let c = (if Computed c = 0 then
                       (SHA1PadMessage c)\<lparr>Message_Block := replicate 64 0, Length_Low := 0,
                         Length_High := 0, Computed := 1\<rparr>
                     else c)
            in (shaSuccess, Some c, Some (map (digest_byte (Intermediate_Hash c)) [0..<20])))"

section \<open>The reference: FIPS 180\<close>

definition ROTL :: "nat \<Rightarrow> u32 \<Rightarrow> u32" where
  "ROTL n x = word_rotl n x"

definition Ch :: "u32 \<Rightarrow> u32 \<Rightarrow> u32 \<Rightarrow> u32" where
  "Ch x y z = (x AND y) XOR (NOT x AND z)"

definition Parity :: "u32 \<Rightarrow> u32 \<Rightarrow> u32 \<Rightarrow> u32" where
  "Parity x y z = x XOR y XOR z"

definition Maj :: "u32 \<Rightarrow> u32 \<Rightarrow> u32 \<Rightarrow> u32" where
  "Maj x y z = (x AND y) XOR (x AND z) XOR (y AND z)"

definition f_t :: "nat \<Rightarrow> u32 \<Rightarrow> u32 \<Rightarrow> u32 \<Rightarrow> u32" where
  "f_t t = (if t < 20 then Ch else if t < 40 then Parity else if t < 60 then Maj else Parity)"

definition K_t :: "nat \<Rightarrow> u32" where
  "K_t t = (if t < 20 then 0x5A827999 else if t < 40 then 0x6ED9EBA1
            else if t < 60 then 0x8F1BBCDC else 0xCA62C1D6)"

definition be_word :: "byte list \<Rightarrow> u32" where
  "be_word bs = foldl (\<lambda>v b. push_bit 8 v OR ucast b) 0 bs"

fun W_t :: "byte list \<Rightarrow> nat \<Rightarrow> u32" where
  "W_t M t =
     (if t < 16 then be_word (take 4 (drop (4 * t) M))
      else ROTL 1 (W_t M (t - 3) XOR W_t M (t - 8) XOR W_t M (t - 14) XOR W_t M (t - 16)))"

declare W_t.simps [simp del]

definition fips_round :: "byte list \<Rightarrow> abcde \<Rightarrow> nat \<Rightarrow> abcde" where
  "fips_round M = (\<lambda>(a, b, c, d, e) t.
     (ROTL 5 a + f_t t b c d + e + K_t t + W_t M t, a, ROTL 30 b, c, d))"

definition fips_compress :: "u32 list \<Rightarrow> byte list \<Rightarrow> u32 list" where
  "fips_compress h M = add_hash h (foldl (fips_round M) (h ! 0, h ! 1, h ! 2, h ! 3, h ! 4) [0..<80])"

function fips_fold :: "u32 list \<Rightarrow> byte list \<Rightarrow> u32 list" where
  "fips_fold h m = (if length m < 64 then h else fips_fold (fips_compress h (take 64 m)) (drop 64 m))"
  by pat_completeness auto
termination
  by (relation "measure (\<lambda>(h, m). length m)") auto

declare fips_fold.simps [simp del]

definition be_bytes64 :: "nat \<Rightarrow> byte list" where
  "be_bytes64 n = map (\<lambda>i. of_nat (n div 256 ^ (7 - i))) [0..<8]"

definition fips_pad :: "byte list \<Rightarrow> byte list" where
  "fips_pad m = m @ [0x80] @ replicate ((119 - length m mod 64) mod 64) 0 @ be_bytes64 (8 * length m)"

definition H0 :: "u32 list" where
  "H0 = [0x67452301, 0xEFCDAB89, 0x98BADCFE, 0x10325476, 0xC3D2E1F0]"

definition fips_sha1 :: "byte list \<Rightarrow> byte list" where
  "fips_sha1 m = concat (map length_bytes (fips_fold H0 (fips_pad m)))"

section \<open>The rounds of the code are the rounds of the standard\<close>

lemma circular_shift_rotl: "0 < n \<Longrightarrow> n < 32 \<Longrightarrow> SHA1CircularShift n w = ROTL n w"
proof (rule bit_word_eqI)
  fix i assume n: "0 < n" "n < 32" and "i < LENGTH(32)"
  then have i: "i < 32" by simp
  have bnd: "bit w j \<Longrightarrow> j < 32" for j
    using bit_imp_le_length [of w j] by simp
  have shift: "bit (SHA1CircularShift n w) i \<longleftrightarrow> n \<le> i \<and> bit w (i - n) \<or> bit w (32 - n + i)"
    using n i by (auto simp: SHA1CircularShift_def bit_simps)
  have rot: "bit (ROTL n w) i \<longleftrightarrow> bit w ((i + (32 - n)) mod 32)"
    using n i by (simp add: ROTL_def bit_word_rotl_iff)
  show "bit (SHA1CircularShift n w) i = bit (ROTL n w) i"
  proof (cases "n \<le> i")
    case True
    then have "i + (32 - n) = (i - n) + 32"
      using n by arith
    then have "(i + (32 - n)) mod 32 = (i - n) mod 32"
      by (metis mod_add_self2)
    then have "(i + (32 - n)) mod 32 = i - n"
      using i by (metis less_imp_diff_less mod_less)
    moreover have "\<not> bit w (32 - n + i)"
      using True bnd [of "32 - n + i"] n by auto
    ultimately show ?thesis
      using True shift rot by simp
  next
    case False
    then have "(i + (32 - n)) mod 32 = 32 - n + i"
      using n i by simp
    then show ?thesis
      using False shift rot by simp
  qed
qed

lemma code_f:
  "(B AND C) OR (NOT B AND D) = Ch B C D"
  "(B AND C) OR (B AND D) OR (C AND D) = Maj B C D"
  "B XOR C XOR D = Parity B C D"
  by (auto simp: Ch_def Maj_def Parity_def bit_eq_iff bit_simps)

lemma block_word_be:
  assumes "length blk = 64" and "t < 16"
  shows "block_word blk t = be_word (take 4 (drop (4 * t) blk))"
proof -
  define xs where "xs = drop (4 * t) blk"
  have "4 \<le> length xs"
    using assms by (simp add: xs_def)
  then obtain a b c d r where xs: "xs = a # b # c # d # r"
    by (auto simp: numeral_eq_Suc Suc_le_length_iff)
  have "blk ! (4 * t + j) = xs ! j" for j
    using assms by (simp add: xs_def)
  from this [of 0] this [of 1] this [of 2] this [of 3]
  have "blk ! (t * 4) = a" "blk ! (t * 4 + 1) = b" "blk ! (t * 4 + 2) = c" "blk ! (t * 4 + 3) = d"
    by (simp_all add: xs mult.commute)
  then show ?thesis
    unfolding xs_def [symmetric] xs
    by (simp add: block_word_def be_word_def or.assoc)
qed

lemma expand_W_spec:
  assumes "length blk = 64"
  shows "16 \<le> n \<Longrightarrow> n \<le> 80 \<Longrightarrow>
    length (foldl expand_W (map (block_word blk) [0..<16]) [16..<n]) = n \<and>
    (\<forall>t < n. foldl expand_W (map (block_word blk) [0..<16]) [16..<n] ! t = W_t blk t)"
proof (induction n)
  case 0
  then show ?case by simp
next
  case (Suc n)
  show ?case
  proof (cases "n = 15")
    case True
    then show ?thesis
      using block_word_be [OF assms] by (simp add: W_t.simps)
  next
    case False
    define W where "W = foldl expand_W (map (block_word blk) [0..<16]) [16..<n]"
    have n: "16 \<le> n" "n \<le> 80" using Suc.prems False by simp_all
    then have W: "length W = n" "\<And>t. t < n \<Longrightarrow> W ! t = W_t blk t"
      using Suc.IH by (simp_all add: W_def)
    have step: "foldl expand_W (map (block_word blk) [0..<16]) [16..<Suc n] = expand_W W n"
      using n by (simp add: W_def)
    have "expand_W W n = W @ [W_t blk n]"
      using n W(2) [of "n - 3"] W(2) [of "n - 8"] W(2) [of "n - 14"] W(2) [of "n - 16"]
      by (subst W_t.simps) (simp add: expand_W_def circular_shift_rotl)
    then show ?thesis
      unfolding step using W by (auto simp: nth_append less_Suc_eq)
  qed
qed

lemma sha1_W_spec: "length blk = 64 \<Longrightarrow> t < 80 \<Longrightarrow> sha1_W blk ! t = W_t blk t"
  using expand_W_spec [of blk 80] by (simp add: sha1_W_def)

lemma sha1_round_fips:
  assumes "length blk = 64" and "t < 80" and "f = f_t t" and "k = K_t t"
  shows "sha1_round f k (sha1_W blk) s t = fips_round blk s t"
  using assms
  by (cases s) (simp add: sha1_round_def fips_round_def circular_shift_rotl sha1_W_spec algebra_simps)

lemma sha1_rounds_part:
  assumes "length blk = 64" and "\<And>t. t \<in> set ts \<Longrightarrow> t < 80 \<and> f_t t = f \<and> K_t t = k"
  shows "foldl (sha1_round f k (sha1_W blk)) s ts = foldl (fips_round blk) s ts"
  using assms(2)
proof (induction ts arbitrary: s)
  case Nil
  show ?case by simp
next
  case (Cons t ts)
  have "sha1_round f k (sha1_W blk) s t = fips_round blk s t"
    using sha1_round_fips [OF assms(1), of t f k s] Cons.prems [of t] by simp
  then show ?case
    using Cons.IH Cons.prems by simp
qed

lemma f_t_ranges:
  "t < 20 \<Longrightarrow> f_t t = Ch" "20 \<le> t \<Longrightarrow> t < 40 \<Longrightarrow> f_t t = Parity"
  "40 \<le> t \<Longrightarrow> t < 60 \<Longrightarrow> f_t t = Maj" "60 \<le> t \<Longrightarrow> f_t t = Parity"
  "t < 20 \<Longrightarrow> K_t t = 0x5A827999" "20 \<le> t \<Longrightarrow> t < 40 \<Longrightarrow> K_t t = 0x6ED9EBA1"
  "40 \<le> t \<Longrightarrow> t < 60 \<Longrightarrow> K_t t = 0x8F1BBCDC" "60 \<le> t \<Longrightarrow> K_t t = 0xCA62C1D6"
  by (simp_all add: f_t_def K_t_def)

lemma sha1_rounds_fips:
  assumes "length blk = 64"
  shows "sha1_rounds (sha1_W blk) s = foldl (fips_round blk) s [0..<80]"
proof -
  note part = sha1_rounds_part [OF assms]
  have eta: "(\<lambda>B C D. Ch B C D) = Ch" "(\<lambda>B C D. Parity B C D) = Parity" "(\<lambda>B C D. Maj B C D) = Maj"
    by (rule refl)+
  have "[0..<80] = [0..<20] @ [20..<40] @ [40..<60] @ [60..<80]"
    using upt_add_eq_append [of 0 20 60] upt_add_eq_append [of 20 40 40]
      upt_add_eq_append [of 40 60 20] by simp
  moreover have "foldl (sha1_round Ch 0x5A827999 (sha1_W blk)) s [0..<20] = foldl (fips_round blk) s [0..<20]" for s
    by (rule part) (auto simp: f_t_ranges simp del: upt_rec_numeral)
  moreover have "foldl (sha1_round Parity 0x6ED9EBA1 (sha1_W blk)) s [20..<40] = foldl (fips_round blk) s [20..<40]" for s
    by (rule part) (auto simp: f_t_ranges simp del: upt_rec_numeral)
  moreover have "foldl (sha1_round Maj 0x8F1BBCDC (sha1_W blk)) s [40..<60] = foldl (fips_round blk) s [40..<60]" for s
    by (rule part) (auto simp: f_t_ranges simp del: upt_rec_numeral)
  moreover have "foldl (sha1_round Parity 0xCA62C1D6 (sha1_W blk)) s [60..<80] = foldl (fips_round blk) s [60..<80]" for s
    by (rule part) (auto simp: f_t_ranges simp del: upt_rec_numeral)
  ultimately show ?thesis
    unfolding sha1_rounds_def Let_def code_f by (simp only: foldl_append)
qed

lemma process_block_fips:
  "length (Message_Block c) = 64 \<Longrightarrow>
    SHA1ProcessMessageBlock c =
      c\<lparr>Intermediate_Hash := fips_compress (Intermediate_Hash c) (Message_Block c), Message_Block_Index := 0\<rparr>"
  by (simp add: SHA1ProcessMessageBlock_def fips_compress_def sha1_rounds_fips Let_def)

section \<open>The context after a message has been fed\<close>

lemma fips_fold_append:
  "64 dvd length w \<Longrightarrow> fips_fold h (w @ r) = fips_fold (fips_fold h w) r"
proof (induction h w rule: fips_fold.induct)
  case (1 h w)
  show ?case
  proof (cases "length w < 64")
    case True
    then have "w = []"
      using "1.prems" by (auto simp: dvd_def)
    then show ?thesis by (simp add: fips_fold.simps [of h "[]"])
  next
    case False
    then have "64 dvd length (drop 64 w)"
      using "1.prems" by (simp add: dvd_diff_nat)
    then show ?thesis
      using "1.IH" [OF False] False
      by (simp add: fips_fold.simps [of h "w @ r"] fips_fold.simps [of h w])
  qed
qed

lemma fips_fold_short: "length r < 64 \<Longrightarrow> fips_fold h r = h"
  by (subst fips_fold.simps) simp

lemma fips_fold_block: "length r = 64 \<Longrightarrow> fips_fold h r = fips_compress h r"
  by (subst fips_fold.simps) (simp add: fips_fold_short)

lemma length_fips_compress [simp]: "length (fips_compress h M) = 5"
  by (simp add: fips_compress_def add_hash_def split: prod.split)

lemma length_fips_fold: "length h = 5 \<Longrightarrow> length (fips_fold h m) = 5"
proof (induction h m rule: fips_fold.induct)
  case (1 h m)
  then show ?case by (subst fips_fold.simps) simp
qed

text \<open>The whole blocks of \<open>m\<close> are in the hash, its remainder is the start of the block.\<close>

definition absorbed :: "byte list \<Rightarrow> sha1_context \<Rightarrow> bool" where
  "absorbed m c \<longleftrightarrow>
     Computed c = 0 \<and> Corrupted c = 0 \<and> length (Message_Block c) = 64 \<and>
     Message_Block_Index c = length m mod 64 \<and>
     take (length m mod 64) (Message_Block c) = drop (length m - length m mod 64) m \<and>
     Intermediate_Hash c = fips_fold H0 (take (length m - length m mod 64) m) \<and>
     unat (Length_High c) * 2 ^ 32 + unat (Length_Low c) = 8 * length m"

lemma put_byte_simps [simp]:
  "Message_Block_Index (put_byte c b) = Message_Block_Index c + 1"
  "Message_Block (put_byte c b) = (Message_Block c)[Message_Block_Index c := b]"
  "Intermediate_Hash (put_byte c b) = Intermediate_Hash c"
  "Length_Low (put_byte c b) = Length_Low c" "Length_High (put_byte c b) = Length_High c"
  "Computed (put_byte c b) = Computed c" "Corrupted (put_byte c b) = Corrupted c"
  by (simp_all add: put_byte_def)

lemma length_counter:
  fixes lo hi :: u32
  assumes "unat hi * 2 ^ 32 + unat lo = 8 * n" and "8 * (n + 1) < 2 ^ 64"
  shows "lo + 8 \<noteq> 0 \<Longrightarrow> unat hi * 2 ^ 32 + unat (lo + 8) = 8 * (n + 1)"
    and "lo + 8 = 0 \<Longrightarrow> hi + 1 \<noteq> 0 \<and> unat (hi + 1) * 2 ^ 32 = 8 * (n + 1)"
proof -
  have lo: "unat lo < 2 ^ 32" and hi: "unat hi < 2 ^ 32"
    using unsigned_less [of lo, where ?'a = nat] unsigned_less [of hi, where ?'a = nat] by simp_all
  have lo8: "unat (lo + 8) = (unat lo + 8) mod 2 ^ 32"
    by (simp add: unat_word_ariths)
  have hi1: "unat (hi + 1) = (unat hi + 1) mod 2 ^ 32"
    by (simp add: unat_word_ariths)
  have "8 dvd unat hi * 2 ^ 32"
    by simp
  then have "8 dvd unat lo"
    using assms(1) by (metis dvd_add_right_iff dvd_triv_left)
  then obtain k where "unat lo = 8 * k"
    by (elim dvdE)
  then have le: "unat lo + 8 \<le> 2 ^ 32"
    using lo by simp
  have zero: "lo + 8 = 0 \<longleftrightarrow> unat lo + 8 = 2 ^ 32"
  proof
    assume "lo + 8 = 0"
    then have "(unat lo + 8) mod 2 ^ 32 = 0" using lo8 by simp
    then show "unat lo + 8 = 2 ^ 32" using le by (cases "unat lo + 8 = 2 ^ 32") auto
  next
    assume "unat lo + 8 = 2 ^ 32"
    then have "unat (lo + 8) = 0" using lo8 by simp
    then show "lo + 8 = 0" by (metis unat_eq_zero)
  qed
  show "unat hi * 2 ^ 32 + unat (lo + 8) = 8 * (n + 1)" if "lo + 8 \<noteq> 0"
  proof -
    have "unat lo + 8 < 2 ^ 32" using le zero that by linarith
    then have "unat (lo + 8) = unat lo + 8" using lo8 by simp
    then show ?thesis using assms(1) by simp
  qed
  show "hi + 1 \<noteq> 0 \<and> unat (hi + 1) * 2 ^ 32 = 8 * (n + 1)" if "lo + 8 = 0"
  proof -
    have "unat lo + 8 = 2 ^ 32" using that zero by simp
    then have tot: "(unat hi + 1) * 2 ^ 32 = 8 * (n + 1)" using assms(1) by simp
    then have "(unat hi + 1) * 2 ^ 32 < 2 ^ 32 * 2 ^ 32" using assms(2) by simp
    then have "unat hi + 1 < 2 ^ 32" by simp
    then have "unat (hi + 1) = unat hi + 1" using hi1 by simp
    then show ?thesis using tot by (metis Suc_eq_plus1 nat.distinct(1) unsigned_0)
  qed
qed

text \<open>One byte.\<close>

lemma length_H0 [simp]: "length H0 = 5"
  by (simp add: H0_def)

lemma absorbed_byte:
  assumes abs: "absorbed m c" and len: "8 * (length m + 1) < 2 ^ 64"
  shows "absorbed (m @ [b]) (sha1_input_byte c b)"
proof -
  define n where "n = length m"
  define i where "i = n mod 64"
  define w where "w = take (n - i) m"
  define r where "r = drop (n - i) m"
  define blk where "blk = (Message_Block c)[i := b]"
  define hi where "hi = (if Length_Low c + 8 = 0 then Length_High c + 1 else Length_High c)"
  have i: "i < 64" "i \<le> n" by (simp_all add: i_def)
  have lr: "length r = i" using i by (simp add: r_def n_def)
  have m: "m = w @ r" by (simp add: w_def r_def)
  have "64 dvd n - i" by (simp add: i_def minus_mod_eq_mult_div)
  then have lw: "64 dvd length w" using i by (simp add: w_def n_def)
  have c: "Computed c = 0" "Corrupted c = 0" "length (Message_Block c) = 64"
      "Message_Block_Index c = i" "take i (Message_Block c) = r"
      "Intermediate_Hash c = fips_fold H0 w"
      "unat (Length_High c) * 2 ^ 32 + unat (Length_Low c) = 8 * n"
    using abs by (simp_all add: absorbed_def i_def n_def w_def r_def)
  have blk: "length blk = 64" "take (Suc i) blk = r @ [b]"
    using c i by (simp_all add: blk_def take_Suc_conv_app_nth)
  have ctr: "unat hi * 2 ^ 32 + unat (Length_Low c + 8) = 8 * (n + 1)"
      "Length_Low c + 8 = 0 \<Longrightarrow> hi \<noteq> 0"
    using length_counter [OF c(7)] len by (auto simp: hi_def n_def)
  let ?c = "c\<lparr>Message_Block := blk, Message_Block_Index := Suc i, Length_Low := Length_Low c + 8, Length_High := hi\<rparr>"
  have step: "sha1_input_byte c b = (if Suc i = 64 then SHA1ProcessMessageBlock ?c else ?c)"
    using ctr(2) c by (auto simp: sha1_input_byte_def put_byte_def Let_def blk_def hi_def)
  show ?thesis
  proof (cases "Suc i = 64")
    case True
    then have "Suc n mod 64 = 0" by (simp add: i_def mod_Suc)
    moreover have "blk = r @ [b]" using blk True by simp
    ultimately show ?thesis
      using step True c ctr m lw lr blk
      by (simp add: absorbed_def process_block_fips n_def fips_fold_append [OF lw]
          fips_fold_block [of "r @ [b]"])
  next
    case False
    then have sn: "Suc n mod 64 = Suc i" using i by (simp add: i_def mod_Suc)
    have "take (Suc n - Suc i) (m @ [b]) = w" "drop (Suc n - Suc i) (m @ [b]) = r @ [b]"
      using i by (simp_all add: w_def r_def n_def)
    then show ?thesis
      using step False c ctr blk sn by (simp add: absorbed_def n_def)
  qed
qed

lemma absorbed_loop:
  "absorbed m c \<Longrightarrow> 8 * length (m @ bs) < 2 ^ 64 \<Longrightarrow> absorbed (m @ bs) (sha1_input_loop c bs)"
proof (induction bs arbitrary: m c)
  case Nil
  then show ?case by simp
next
  case (Cons b bs)
  have "Corrupted c = 0" using Cons.prems by (simp add: absorbed_def)
  moreover have "absorbed ((m @ [b]) @ bs) (sha1_input_loop (sha1_input_byte c b) bs)"
    using Cons.prems by (intro Cons.IH absorbed_byte) simp_all
  ultimately show ?case by simp
qed

lemma absorbed_input:
  assumes "absorbed m c" and "8 * length (m @ bs) < 2 ^ 64"
  shows "\<exists>c'. SHA1Input (Some c) (Some bs) (length bs) = (shaSuccess, Some c') \<and> absorbed (m @ bs) c'"
  using absorbed_loop [OF assms] assms by (auto simp: SHA1Input_def absorbed_def)

lemma absorbed_reset:
  "length (Message_Block c) = 64 \<Longrightarrow>
    \<exists>c'. SHA1Reset (Some c) = (shaSuccess, Some c') \<and> absorbed [] c'"
  by (auto simp: SHA1Reset_def absorbed_def H0_def fips_fold_short)

section \<open>Padding\<close>

lemma fill_zeros_spec:
  "Message_Block_Index c \<le> n \<Longrightarrow> n \<le> length (Message_Block c) \<Longrightarrow>
    fill_zeros c n = c\<lparr>Message_Block := take (Message_Block_Index c) (Message_Block c)
        @ replicate (n - Message_Block_Index c) 0 @ drop n (Message_Block c),
      Message_Block_Index := n\<rparr>"
proof (induction c n rule: fill_zeros.induct)
  case (1 c n)
  show ?case
  proof (cases "Message_Block_Index c < n")
    case True
    then have "n - Message_Block_Index c = Suc (n - Suc (Message_Block_Index c))" by simp
    with True 1 show ?thesis
      by (simp add: fill_zeros.simps [of c] take_Suc_conv_app_nth)
  next
    case False
    then show ?thesis using "1.prems" by (simp add: fill_zeros.simps [of c])
  qed
qed

lemma ucast_drop_bit:
  fixes w :: u32
  shows "ucast (drop_bit k w) = (of_nat (unat w div 2 ^ k) :: byte)"
proof -
  have "unat w div 2 ^ k = unat (drop_bit k w)"
    by (metis unat_drop_bit_eq drop_bit_eq_div)
  then show ?thesis by (simp only: of_nat_unat)
qed

lemma length_bytes_nat:
  "length_bytes w = map (\<lambda>k. of_nat (unat w div 2 ^ k)) [24, 16, 8, 0]"
  using ucast_drop_bit [of 24 w] ucast_drop_bit [of 16 w] ucast_drop_bit [of 8 w] ucast_drop_bit [of 0 w]
  by (simp add: length_bytes_def)

lemma byte_of_nat_cong: "a mod 256 = b mod 256 \<Longrightarrow> (of_nat a :: byte) = of_nat b"
  by (simp add: word_of_nat_eq_iff take_bit_eq_mod)

lemma be_bytes64_words:
  fixes hi lo :: u32
  assumes "unat hi * 2 ^ 32 + unat lo = N"
  shows "length_bytes hi @ length_bytes lo = be_bytes64 N"
proof -
  have lo: "unat lo < 2 ^ 32"
    using unsigned_less [of lo, where ?'a = nat] by simp
  have high: "N div 2 ^ (32 + k) = unat hi div 2 ^ k" for k
  proof -
    have "N div 2 ^ 32 = unat hi + unat lo div 2 ^ 32"
      unfolding assms [symmetric] by (rule div_mult_self3) simp
    then have "N div 2 ^ 32 = unat hi"
      using div_less [OF lo] by (simp only: add_0_right)
    then show ?thesis by (simp only: power_add div_mult2_eq)
  qed
  have low: "N div 2 ^ k mod 256 = unat lo div 2 ^ k mod 256" if "k \<le> 24" for k
  proof -
    from le_Suc_ex [OF that] obtain j where j: "24 = k + j" ..
    have "(2::nat) ^ 24 = 2 ^ k * 2 ^ j"
      by (simp only: j power_add)
    then have "(2::nat) ^ 32 = 2 ^ j * 256 * 2 ^ k"
      by (simp add: mult.commute)
    then have "N = unat lo + (unat hi * 2 ^ j * 256) * 2 ^ k"
      using assms by (simp only: mult.assoc add.commute)
    then have "N div 2 ^ k = unat hi * 2 ^ j * 256 + unat lo div 2 ^ k"
      using div_mult_self1 [of "2 ^ k" "unat lo" "unat hi * 2 ^ j * 256"] by simp
    then show ?thesis by simp
  qed
  have hi_bytes: "length_bytes hi = map (\<lambda>k. of_nat (N div 2 ^ k)) [56, 48, 40, 32]"
    using high [of 24] high [of 16] high [of 8] high [of 0] by (simp add: length_bytes_nat)
  have lo_bytes: "length_bytes lo = map (\<lambda>k. of_nat (N div 2 ^ k)) [24, 16, 8, 0]"
    unfolding length_bytes_nat by (rule map_cong [OF refl], rule byte_of_nat_cong)
      (use low [of 24] low [of 16] low [of 8] low [of 0] in auto)
  have "[0..<8] = [0, 1, 2, 3, 4, 5, 6, 7]"
    by (simp add: upt_rec)
  then show ?thesis
    unfolding hi_bytes lo_bytes be_bytes64_def by simp
qed

lemma fips_pad_blocks:
  assumes "m = w @ r" and "64 dvd length w" and "length r = i" and "i < 64"
  shows "fips_pad m =
    (if i \<le> 55 then w @ (r @ 0x80 # replicate (55 - i) 0 @ be_bytes64 (8 * length m))
     else w @ (r @ 0x80 # replicate (63 - i) 0) @ (replicate 56 0 @ be_bytes64 (8 * length m)))"
proof -
  have i: "length m mod 64 = i"
    using assms by (auto simp: dvd_def)
  show ?thesis
  proof (cases "i \<le> 55")
    case True
    then have "(119 - i) mod 64 = 55 - i"
      using le_mod_geq [of 64 "119 - i"] by simp
    then show ?thesis using True i by (simp add: fips_pad_def assms(1))
  next
    case False
    then have "(119 - i) mod 64 = (63 - i) + 56" using assms(4) by simp
    then have "fips_pad m = m @ 0x80 # replicate ((63 - i) + 56) 0 @ be_bytes64 (8 * length m)"
      by (simp only: fips_pad_def i) simp
    then show ?thesis using False by (simp only: replicate_add) (simp add: assms(1))
  qed
qed

lemma length_be_bytes64 [simp]: "length (be_bytes64 n) = 8"
  by (simp add: be_bytes64_def)

lemma pad_hash:
  assumes abs: "absorbed m c"
  shows "Intermediate_Hash (SHA1PadMessage c) = fips_fold H0 (fips_pad m)"
    and "Computed (SHA1PadMessage c) = 0" and "Corrupted (SHA1PadMessage c) = 0"
    and "Message_Block_Index (SHA1PadMessage c) = 0" and "length (Message_Block (SHA1PadMessage c)) = 64"
proof -
  define i where "i = length m mod 64"
  define w where "w = take (length m - i) m"
  define r where "r = drop (length m - i) m"
  define be where "be = be_bytes64 (8 * length m)"
  define blk where "blk = (Message_Block c)[i := 0x80]"
  have i: "i < 64" "i \<le> length m" by (simp_all add: i_def)
  have lr: "length r = i" and m: "m = w @ r" using i by (simp_all add: r_def w_def)
  have "64 dvd length m - i" by (simp add: i_def minus_mod_eq_mult_div)
  then have lw: "64 dvd length w" using i by (simp add: w_def)
  have c: "Computed c = 0" "Corrupted c = 0" "length (Message_Block c) = 64"
      "Message_Block_Index c = i" "take i (Message_Block c) = r"
      "Intermediate_Hash c = fips_fold H0 w"
      "length_bytes (Length_High c) @ length_bytes (Length_Low c) = be"
    using abs be_bytes64_words [of "Length_High c" "Length_Low c"]
    by (simp_all add: absorbed_def i_def w_def r_def be_def)
  have blk: "length blk = 64" "take (Suc i) blk = r @ [0x80]"
    using c i by (simp_all add: blk_def take_Suc_conv_app_nth)
  have len: "length be = 8" by (simp add: be_def)
  define b2 where "b2 = (if i \<le> 55 then r @ 0x80 # replicate (55 - i) 0 else replicate 56 0) @ be"
  define h where "h = (if i \<le> 55 then fips_fold H0 w
      else fips_compress (fips_fold H0 w) (r @ 0x80 # replicate (63 - i) 0))"
  have l2: "length b2 = 64" using i lr len by (simp add: b2_def)
  have code: "SHA1PadMessage c =
      c\<lparr>Intermediate_Hash := fips_compress h b2, Message_Block := b2, Message_Block_Index := 0\<rparr>"
  proof (cases "i \<le> 55")
    case True
    have "fill_zeros (put_byte c 0x80) 56 =
        c\<lparr>Message_Block := r @ 0x80 # replicate (55 - i) 0 @ drop 56 blk, Message_Block_Index := 56\<rparr>"
      using True c blk by (subst fill_zeros_spec) (simp_all add: put_byte_def blk_def)
    moreover have "56 - i = Suc (55 - i)"
      using True by simp
    ultimately show ?thesis
      using True c lr len l2 by (simp add: SHA1PadMessage_def Let_def process_block_fips b2_def h_def)
  next
    case False
    let ?b1 = "r @ 0x80 # replicate (63 - i) 0"
    have l1: "length ?b1 = 64" using i lr by simp
    have "fill_zeros (put_byte c 0x80) 64 = c\<lparr>Message_Block := ?b1, Message_Block_Index := 64\<rparr>"
      using i c blk by (subst fill_zeros_spec) (simp_all add: put_byte_def blk_def)
    then have "SHA1ProcessMessageBlock (fill_zeros (put_byte c 0x80) 64) =
        c\<lparr>Intermediate_Hash := h, Message_Block := ?b1, Message_Block_Index := 0\<rparr>"
      using False c l1 by (simp add: process_block_fips h_def)
    then have "fill_zeros (SHA1ProcessMessageBlock (fill_zeros (put_byte c 0x80) 64)) 56 =
        c\<lparr>Intermediate_Hash := h, Message_Block := replicate 56 0 @ drop 56 ?b1, Message_Block_Index := 56\<rparr>"
      using l1 by (subst fill_zeros_spec) simp_all
    then show ?thesis
      using False c len l2 by (simp add: SHA1PadMessage_def Let_def process_block_fips b2_def)
  qed
  have "fips_compress h b2 = fips_fold H0 (fips_pad m)"
  proof (cases "i \<le> 55")
    case True
    then have "fips_pad m = w @ b2"
      using fips_pad_blocks [OF m lw lr i(1)] by (simp add: b2_def be_def)
    then show ?thesis
      using True l2 by (simp add: fips_fold_append [OF lw] fips_fold_block h_def)
  next
    case False
    let ?b1 = "r @ 0x80 # replicate (63 - i) 0"
    have l1: "length ?b1 = 64" using i lr by simp
    have "fips_pad m = w @ ?b1 @ b2"
      using fips_pad_blocks [OF m lw lr i(1)] False by (simp add: b2_def be_def)
    moreover have "fips_fold g (?b1 @ b2) = fips_compress (fips_compress g ?b1) b2" for g
      using fips_fold_append [of ?b1 g b2] l1 l2 by (simp only: fips_fold_block dvd_refl)
    ultimately show ?thesis
      using False by (simp only: fips_fold_append [OF lw] h_def) simp
  qed
  then show "Intermediate_Hash (SHA1PadMessage c) = fips_fold H0 (fips_pad m)"
    and "Computed (SHA1PadMessage c) = 0" and "Corrupted (SHA1PadMessage c) = 0"
    and "Message_Block_Index (SHA1PadMessage c) = 0" and "length (Message_Block (SHA1PadMessage c)) = 64"
    using c l2 by (simp_all add: code)
qed

lemma digest_bytes:
  assumes "length h = 5"
  shows "map (digest_byte h) [0..<20] = concat (map length_bytes h)"
proof -
  obtain a b c d e where h: "h = [a, b, c, d, e]"
    using assms by (auto simp: numeral_eq_Suc length_Suc_conv)
  have idx: "[0..<20] = concat (map (\<lambda>k. [4 * k, 4 * k + 1, 4 * k + 2, 4 * k + 3]) [0..<5])"
    by (simp add: upt_rec)
  have word: "map (digest_byte h) [4 * k, 4 * k + 1, 4 * k + 2, 4 * k + 3] = length_bytes (h ! k)" for k
  proof -
    have "(4 * k + 1) mod 4 = 1" "(4 * k + 2) mod 4 = 2" "(4 * k + 3) mod 4 = 3"
      by presburger+
    moreover have "(4 * k + 1) div 4 = k" "(4 * k + 2) div 4 = k" "(4 * k + 3) div 4 = k"
      by presburger+
    ultimately show ?thesis
      by (simp add: digest_byte_def length_bytes_def)
  qed
  have "map (digest_byte h) [0..<20] = concat (map (\<lambda>k. length_bytes (h ! k)) [0..<5])"
    unfolding idx map_concat map_map comp_def word ..
  then show ?thesis
    by (simp add: h upt_rec)
qed

lemma result_hash:
  assumes "absorbed m c"
  shows "\<exists>c'. SHA1Result (Some c) = (shaSuccess, Some c', Some (fips_sha1 m)) \<and>
    Computed c' = 1 \<and> Corrupted c' = 0 \<and> Intermediate_Hash c' = fips_fold H0 (fips_pad m)"
  using assms pad_hash [OF assms]
  by (simp add: SHA1Result_def absorbed_def Let_def digest_bytes length_fips_fold fips_sha1_def)

section \<open>The interface: a hash fed in pieces\<close>

text \<open>
  What a client of an incremental hash relies on.  \<open>rep m c\<close>: the context has been fed \<open>m\<close>;
  \<open>fits n\<close>: a message of \<open>n\<close> items may be hashed.
\<close>

primrec feed_pieces :: "('c \<Rightarrow> 'b list \<Rightarrow> 'c option) \<Rightarrow> 'c \<Rightarrow> 'b list list \<Rightarrow> 'c option" where
  "feed_pieces input c [] = Some c"
| "feed_pieces input c (bs # bss) = input c bs \<bind> (\<lambda>c. feed_pieces input c bss)"

locale hash_stream =
  fixes reset :: "'c \<Rightarrow> 'c option" and input :: "'c \<Rightarrow> 'b list \<Rightarrow> 'c option"
    and result :: "'c \<Rightarrow> 'd option"
    and rep :: "'b list \<Rightarrow> 'c \<Rightarrow> bool" and hash :: "'b list \<Rightarrow> 'd"
    and fits :: "nat \<Rightarrow> bool" and valid :: "'c \<Rightarrow> bool"
  assumes reset_rep: "valid c \<Longrightarrow> \<exists>c'. reset c = Some c' \<and> rep [] c'"
    and input_rep: "rep m c \<Longrightarrow> fits (length (m @ bs)) \<Longrightarrow> \<exists>c'. input c bs = Some c' \<and> rep (m @ bs) c'"
    and result_rep: "rep m c \<Longrightarrow> result c = Some (hash m)"
    and fits_le: "fits n \<Longrightarrow> k \<le> n \<Longrightarrow> fits k"
begin

lemma feed_rep:
  "rep m c \<Longrightarrow> fits (length (m @ concat bss)) \<Longrightarrow>
    \<exists>c'. feed_pieces input c bss = Some c' \<and> rep (m @ concat bss) c'"
proof (induction bss arbitrary: m c)
  case Nil
  then show ?case by simp
next
  case (Cons bs bss)
  have "fits (length (m @ bs))"
    using Cons.prems(2) by (rule fits_le) simp
  then obtain c1 where "input c bs = Some c1" and "rep (m @ bs) c1"
    using input_rep Cons.prems by blast
  then show ?case
    using Cons.IH [of "m @ bs" c1] Cons.prems by simp
qed

lemma digest_of_pieces:
  "valid c \<Longrightarrow> fits (length (concat bss)) \<Longrightarrow>
    reset c \<bind> (\<lambda>c. feed_pieces input c bss \<bind> result) = Some (hash (concat bss))"
  using reset_rep [of c] feed_rep [of "[]" _ bss] result_rep by force

end

text \<open>The calls of \<open>sha1.c\<close> that succeed, and the provider's proof.\<close>

definition sha1_reset_ok :: "sha1_context \<Rightarrow> sha1_context option" where
  "sha1_reset_ok c = (let (err, c') = SHA1Reset (Some c) in if err = shaSuccess then c' else None)"

definition sha1_input_ok :: "sha1_context \<Rightarrow> byte list \<Rightarrow> sha1_context option" where
  "sha1_input_ok c bs =
     (let (err, c') = SHA1Input (Some c) (Some bs) (length bs) in if err = shaSuccess then c' else None)"

definition sha1_result_ok :: "sha1_context \<Rightarrow> byte list option" where
  "sha1_result_ok c = (let (err, c', d) = SHA1Result (Some c) in if err = shaSuccess then d else None)"

interpretation sha1: hash_stream sha1_reset_ok sha1_input_ok sha1_result_ok absorbed fips_sha1
    "\<lambda>n. 8 * n < 2 ^ 64" "\<lambda>c. length (Message_Block c) = 64"
proof unfold_locales
  fix c :: sha1_context
  assume "length (Message_Block c) = 64"
  then show "\<exists>c'. sha1_reset_ok c = Some c' \<and> absorbed [] c'"
    using absorbed_reset by (force simp: sha1_reset_ok_def)
next
  fix m bs :: "byte list" and c :: sha1_context
  assume "absorbed m c" and "8 * length (m @ bs) < 2 ^ 64"
  then show "\<exists>c'. sha1_input_ok c bs = Some c' \<and> absorbed (m @ bs) c'"
    using absorbed_input by (force simp: sha1_input_ok_def)
next
  fix m :: "byte list" and c :: sha1_context
  assume "absorbed m c"
  then show "sha1_result_ok c = Some (fips_sha1 m)"
    using result_hash by (force simp: sha1_result_ok_def)
qed simp

definition sha1_of_pieces :: "sha1_context \<Rightarrow> byte list list \<Rightarrow> byte list option" where
  "sha1_of_pieces c bss =
     sha1_reset_ok c \<bind> (\<lambda>c. feed_pieces sha1_input_ok c bss \<bind> sha1_result_ok)"

section \<open>Properties\<close>

text \<open>C18: SHA1Reset, any sequence of SHA1Input calls and SHA1Result compute the FIPS 180 SHA-1 digest
  of the concatenated inputs, however the message is cut, for every message whose bit length
  fits the 64-bit counter and whatever the context held before.\<close>

theorem sha1_digest_fips:
  assumes "length (Message_Block c) = 64" and "8 * length (concat bss) < 2 ^ 64"
  shows "sha1_of_pieces c bss = Some (fips_sha1 (concat bss))"
  unfolding sha1_of_pieces_def using assms by (rule sha1.digest_of_pieces)

definition some_context :: sha1_context where
  "some_context = \<lparr>Intermediate_Hash = replicate 5 7, Length_Low = 1, Length_High = 2,
     Message_Block_Index = 3, Message_Block = replicate 64 0, Computed = 1, Corrupted = 2\<rparr>"

theorem sha1_digest_fips_witness:
  "sha1_of_pieces some_context [[0x61], [], [0x62, 0x63]] = Some (fips_sha1 [0x61, 0x62, 0x63])"
  using sha1_digest_fips [of some_context "[[0x61], [], [0x62, 0x63]]"]
  by (simp add: some_context_def)

text \<open>The indices of the context's arrays.\<close>

definition sha1_inv :: "sha1_context \<Rightarrow> bool" where
  "sha1_inv c \<longleftrightarrow>
     length (Intermediate_Hash c) = 5 \<and> length (Message_Block c) = 64 \<and> Message_Block_Index c < 64"

lemma sha1_inv_block: "length (Message_Block c) = 64 \<Longrightarrow> sha1_inv (SHA1ProcessMessageBlock c)"
  by (simp add: sha1_inv_def process_block_fips)

lemma sha1_inv_byte: "sha1_inv c \<Longrightarrow> sha1_inv (sha1_input_byte c b)"
  by (auto simp: sha1_inv_def sha1_input_byte_def Let_def process_block_fips put_byte_def)

lemma sha1_inv_loop: "sha1_inv c \<Longrightarrow> sha1_inv (sha1_input_loop c bs)"
  by (induction c bs rule: sha1_input_loop.induct) (auto intro: sha1_inv_byte)

lemma sha1_inv_pad:
  assumes "sha1_inv c"
  shows "sha1_inv (SHA1PadMessage c)"
proof -
  define c1 where "c1 = (if Message_Block_Index c > 55
      then SHA1ProcessMessageBlock (fill_zeros (put_byte c 0x80) 64) else put_byte c 0x80)"
  define c2 where "c2 = fill_zeros c1 56"
  have pad: "SHA1PadMessage c = SHA1ProcessMessageBlock (c2\<lparr>Message_Block := take 56 (Message_Block c2)
      @ length_bytes (Length_High c2) @ length_bytes (Length_Low c2)\<rparr>)"
    by (simp only: SHA1PadMessage_def c2_def c1_def Let_def if_distrib [where f = "\<lambda>c. fill_zeros c 56"])
  have idx: "Message_Block_Index c1 \<le> 56"
    by (simp add: c1_def SHA1ProcessMessageBlock_def Let_def)
  have "Message_Block_Index c < 64" and blk: "length (Message_Block c) = 64"
    using assms by (simp_all add: sha1_inv_def)
  then have "length (Message_Block (fill_zeros (put_byte c 0x80) 64)) = 64"
    by (subst fill_zeros_spec) simp_all
  then have "length (Message_Block c1) = 64"
    using blk by (simp add: c1_def process_block_fips)
  then have "length (Message_Block c2) = 64"
    using idx unfolding c2_def by (subst fill_zeros_spec) simp_all
  then show ?thesis
    unfolding pad by (intro sha1_inv_block) (simp add: length_bytes_def)
qed

text \<open>No store of SHA1Input or SHA1Result leaves the context's arrays: the block index is below 64
  between calls for every input, also when the length counter overflows.\<close>

theorem sha1_stores_in_range:
  assumes "sha1_inv c"
  shows "(\<exists>c'. snd (SHA1Input (Some c) m n) = Some c' \<and> sha1_inv c') \<and>
    (\<exists>c'. fst (snd (SHA1Result (Some c))) = Some c' \<and> sha1_inv c')"
  using assms sha1_inv_loop [OF assms] sha1_inv_pad [OF assms]
  by (auto simp: SHA1Input_def SHA1Result_def Let_def sha1_inv_def split: option.splits)

theorem sha1_stores_in_range_witness:
  "sha1_inv some_context \<and>
   (\<exists>c'. snd (SHA1Input (Some some_context) (Some [1, 2]) 2) = Some c' \<and> sha1_inv c')"
  using sha1_stores_in_range [of some_context "Some [1, 2]" 2]
  by (simp add: some_context_def sha1_inv_def)

text \<open>The error states: a context that has produced its digest gives the same digest again, refuses
  input with \<open>shaStateError\<close> and from then on has no digest; a NULL array is \<open>shaNull\<close>, an empty
  input succeeds and changes nothing.\<close>

theorem sha1_error_states:
  assumes "absorbed m c"
  shows "\<exists>c1. SHA1Result (Some c) = (shaSuccess, Some c1, Some (fips_sha1 m)) \<and>
    SHA1Result (Some c1) = (shaSuccess, Some c1, Some (fips_sha1 m)) \<and>
    (\<exists>c2. SHA1Input (Some c1) (Some (b # bs)) (length (b # bs)) = (shaStateError, Some c2) \<and>
      SHA1Result (Some c2) = (shaStateError, Some c2, None)) \<and>
    SHA1Input (Some c1) None (Suc n) = (shaNull, Some c1) \<and> SHA1Input (Some c1) arr 0 = (shaSuccess, Some c1)"
proof -
  from assms obtain c1 where c1: "SHA1Result (Some c) = (shaSuccess, Some c1, Some (fips_sha1 m))"
      "Computed c1 = 1" "Corrupted c1 = 0" "Intermediate_Hash c1 = fips_fold H0 (fips_pad m)"
    using result_hash by blast
  moreover have "SHA1Result (Some c1) = (shaSuccess, Some c1, Some (fips_sha1 m))"
    using c1 by (simp add: SHA1Result_def digest_bytes length_fips_fold fips_sha1_def)
  moreover have "SHA1Input (Some c1) (Some (b # bs)) (length (b # bs)) =
      (shaStateError, Some (c1\<lparr>Corrupted := shaStateError\<rparr>))"
    using c1 by (simp add: SHA1Input_def)
  moreover have "SHA1Result (Some (c1\<lparr>Corrupted := shaStateError\<rparr>)) =
      (shaStateError, Some (c1\<lparr>Corrupted := shaStateError\<rparr>), None)"
    by (simp add: SHA1Result_def shaStateError_def)
  moreover have "SHA1Input (Some c1) None (Suc n) = (shaNull, Some c1)" "SHA1Input (Some c1) arr 0 = (shaSuccess, Some c1)"
    by (simp_all add: SHA1Input_def)
  ultimately show ?thesis
    by blast
qed

lemma absorbed_initial: "absorbed [] (some_context\<lparr>Intermediate_Hash := H0, Length_Low := 0, Length_High := 0,
    Message_Block_Index := 0, Computed := 0, Corrupted := 0\<rparr>)"
  by (simp add: absorbed_def some_context_def fips_fold_short)

theorem sha1_error_states_witness:
  "\<exists>c c1. SHA1Result (Some c) = (shaSuccess, Some c1, Some (fips_sha1 [])) \<and>
      SHA1Result (Some c1) = (shaSuccess, Some c1, Some (fips_sha1 []))"
  using sha1_error_states [OF absorbed_initial, of 0 "[]"] by blast

end
