(* ===== verification/Inet_Ws.thy ===== *)
theory Inet_Ws
  imports Inet_Socket Base64 Sha1
begin

text \<open>
  The WebSocket frame header and handshake keys of \<open>src/inet_ws.c\<close>: byte ordering through the
  bytes in memory (the host is little-endian, as the code assumes), the getters and setters of the
  14-byte header, masking, and the two handshake keys.

  The main results: the length written into a header is read back and the other header fields
  survive, the encoding is that of RFC 6455 (network order, shortest form), masking is an
  involution, and the accept key is the Base64 form of the SHA-1 digest of key and GUID.
\<close>

section \<open>Byte ordering\<close>

text \<open>An integer in the memory of a little-endian host.\<close>

definition le_store :: "nat \<Rightarrow> 'a::len word \<Rightarrow> byte list" where
  "le_store k x = map (\<lambda>i. ucast (drop_bit (8 * i) x)) [0..<k]"

definition le_load :: "byte list \<Rightarrow> 'a::len word" where
  "le_load bs = foldr (\<lambda>b v. push_bit 8 v OR ucast b) bs 0"

text \<open>\<open>((char)0x00FF) == 0x00\<close> is false on every host, so the bytes are always swapped.\<close>

definition WS_IS_NETWORK_BYTE_ORDER :: bool where
  "WS_IS_NETWORK_BYTE_ORDER \<longleftrightarrow> (ucast (0x00FF :: 32 word) :: byte) = 0"

definition swap_bytes :: "byte list \<Rightarrow> nat \<Rightarrow> nat \<Rightarrow> byte list" where
  "swap_bytes ptr i j = (let tmp = ptr ! i in ptr[i := ptr ! j, j := tmp])"

definition ws_reorder_16 :: "16 word \<Rightarrow> 16 word" where
  "ws_reorder_16 x =
     (if WS_IS_NETWORK_BYTE_ORDER then x else le_load (swap_bytes (le_store 2 x) 0 1))"

definition ws_reorder_64 :: "64 word \<Rightarrow> 64 word" where
  "ws_reorder_64 x =
     (if WS_IS_NETWORK_BYTE_ORDER then x
      else le_load (foldl (\<lambda>ptr i. swap_bytes ptr i (7 - i)) (le_store 8 x) [0..<4]))"

section \<open>The header\<close>

text \<open>\<open>ws_header_t\<close>: 14 bytes.  A pointer into it is an index.\<close>

type_synonym ws_header = "byte list"

definition WS_FIN :: byte where "WS_FIN = 0x80"
definition WS_OPCODE :: byte where "WS_OPCODE = 0x0F"
definition WS_MASK :: byte where "WS_MASK = 0x80"
definition WS_LEN :: byte where "WS_LEN = 0x7F"

definition WS_CONTINUATION :: byte where "WS_CONTINUATION = 0"
definition WS_TEXT :: byte where "WS_TEXT = 1"
definition WS_BINARY :: byte where "WS_BINARY = 2"
definition WS_CLOSE :: byte where "WS_CLOSE = 8"
definition WS_PING :: byte where "WS_PING = 9"
definition WS_PONG :: byte where "WS_PONG = 10"

definition put_at :: "byte list \<Rightarrow> nat \<Rightarrow> byte list \<Rightarrow> byte list" where
  "put_at hdr i bs = take i hdr @ bs @ drop (i + length bs) hdr"

definition ws_get_msk :: "ws_header \<Rightarrow> nat" where
  "ws_get_msk hdr =
     (let len = hdr ! 1 AND WS_LEN in if len = 127 then 2 + 8 else if len = 126 then 2 + 2 else 2)"

definition mask_at :: "ws_header \<Rightarrow> nat \<Rightarrow> byte list" where
  "mask_at hdr i = take 4 (drop i hdr)"

definition ws_set_msk :: "ws_header \<Rightarrow> byte list \<Rightarrow> ws_header" where
  "ws_set_msk hdr msk = (let hdr = hdr[1 := hdr ! 1 OR WS_MASK] in put_at hdr (ws_get_msk hdr) msk)"

definition ws_get_len :: "ws_header \<Rightarrow> 64 word" where
  "ws_get_len hdr =
     (let len = hdr ! 1 AND WS_LEN in
      if len = 126 then ucast (ws_reorder_16 (le_load (take 2 (drop 2 hdr))))
      else if len = 127 then ws_reorder_64 (le_load (take 8 (drop 2 hdr)))
      else ucast len)"

definition ws_set_len :: "ws_header \<Rightarrow> 64 word \<Rightarrow> ws_header" where
  "ws_set_len hdr len =
     (let is_masked = hdr ! 1 AND WS_MASK \<noteq> 0;
          msk = mask_at hdr (ws_get_msk hdr);
          hdr = (if 0xFFFF < len then put_at (hdr[1 := 127]) 2 (le_store 8 (ws_reorder_64 len))
                 else if 125 < len then put_at (hdr[1 := 126]) 2 (le_store 2 (ws_reorder_16 (ucast len)))
                 else hdr[1 := ucast len])
      in if is_masked then ws_set_msk hdr msk else hdr)"

definition ws_get_hdr_len :: "ws_header \<Rightarrow> nat" where
  "ws_get_hdr_len hdr =
     (let len = 2;
          len = (if hdr ! 1 AND WS_LEN = 126 then len + 2 else if hdr ! 1 AND WS_LEN = 127 then len + 8 else len)
      in if hdr ! 1 AND WS_MASK \<noteq> 0 then len + 4 else len)"

section \<open>Texts\<close>

definition ws_opcode_tostring :: "nat \<Rightarrow> string" where
  "ws_opcode_tostring opcode =
     (if opcode = 0 \<or> opcode > 0xF then ''invalid''
      else if opcode = 0 then ''continuation''
      else if opcode = 1 then ''text''
      else if opcode = 2 then ''binary''
      else if opcode = 8 then ''close''
      else if opcode = 9 then ''ping''
      else if opcode = 10 then ''pong''
      else ''reserved'')"

datatype ws_error = WS_OK | WS_BASE64_NULL | WS_BASE64_OUT_LEN | WS_SHA1_NULL | WS_SHA1_IN_LEN
  | WS_SHA1_STATE | WS_NULL_PARAM | WS_IN_LEN | WS_OUT_LEN | WS_ERROR_COUNT

fun ws_error_tostring :: "ws_error \<Rightarrow> string" where
  "ws_error_tostring WS_OK = ''success''"
| "ws_error_tostring WS_BASE64_NULL = ''base64 null pointer parameter''"
| "ws_error_tostring WS_BASE64_OUT_LEN = ''base64 output buffer to short''"
| "ws_error_tostring WS_SHA1_NULL = ''sha1 null pointer parameter''"
| "ws_error_tostring WS_SHA1_IN_LEN = ''sha1 input data too long''"
| "ws_error_tostring WS_SHA1_STATE = ''sha1 called Input after Result''"
| "ws_error_tostring WS_NULL_PARAM = ''output buffer is null''"
| "ws_error_tostring WS_OUT_LEN = ''output buffer to short''"
| "ws_error_tostring _ = ''unknown''"

section \<open>Masking\<close>

definition xor_char :: "char \<Rightarrow> byte \<Rightarrow> char" where
  "xor_char c b = char_of_byte (byte_of c XOR b)"

definition ws_mask_message :: "byte list \<Rightarrow> char list \<Rightarrow> nat \<Rightarrow> char list" where
  "ws_mask_message msk buf len =
     foldl (\<lambda>buf i. buf[i := xor_char (buf ! i) (msk ! (i mod 4))]) buf [0..<len]"

text \<open>\<open>rand\<close> after \<open>srand (seed)\<close>: the values of the C library's generator, in order.\<close>

definition ws_make_mask :: "int \<Rightarrow> os \<Rightarrow> byte list" where
  "ws_make_mask seed s = map (\<lambda>i. word_of_int (os_rand s seed i)) [0..<4]"

section \<open>Handshake keys\<close>

definition WS_GUID :: string where
  "WS_GUID = ''258EAFA5-E914-47DA-95CA-C5AB0DC85B11''"

definition sha1err_to_ws_err :: "int \<Rightarrow> ws_error" where
  "sha1err_to_ws_err e =
     (if e = shaNull then WS_SHA1_NULL
      else if e = shaInputTooLong then WS_SHA1_IN_LEN
      else if e = shaStateError then WS_SHA1_STATE
      else WS_OK)"

definition base64err_to_ws_err :: "int \<Rightarrow> ws_error" where
  "base64err_to_ws_err e =
     (if e = - 1 then WS_BASE64_NULL else if e = - 2 then WS_BASE64_OUT_LEN else WS_OK)"

definition ws_make_connection_key ::
  "int \<Rightarrow> char list option \<Rightarrow> nat \<Rightarrow> os \<Rightarrow> (ws_error \<times> char list option) option" where
  "ws_make_connection_key seed result len s =
     (case result of
        None \<Rightarrow> Some (WS_NULL_PARAM, None)
      | Some r \<Rightarrow>
          let nonce = map (\<lambda>i. word_of_int (os_rand s seed i)) [0..<16] in
          do {
            (err, d) \<leftarrow> base64_encode (Some nonce) 16 (Some r) (int len);
            Some (if err \<noteq> 0 then base64err_to_ws_err err else WS_OK, d)
          })"

definition zero_context :: sha1_context where
  "zero_context = \<lparr>Intermediate_Hash = replicate 5 0, Length_Low = 0, Length_High = 0,
     Message_Block_Index = 0, Message_Block = replicate 64 0, Computed = 0, Corrupted = 0\<rparr>"

text \<open>The local buffer holds a key of 24 characters, the GUID and a terminator: 62 bytes, 60 of them
  hashed.\<close>

definition ws_make_accept_key ::
  "string option \<Rightarrow> char list option \<Rightarrow> nat \<Rightarrow> (ws_error \<times> char list option) option" where
  "ws_make_accept_key client_key result len =
     (case (client_key, result) of
        (Some key, Some r) \<Rightarrow>
          let (str, n) = snprintf 62 (key @ WS_GUID); buffer_size = 60 in
          if n \<noteq> buffer_size then Some (WS_IN_LEN, result)
          else
            let buffer = map byte_of str;
                (err, c) = SHA1Reset (Some zero_context) in
            if err \<noteq> 0 then Some (sha1err_to_ws_err err, result)
            else
              let (err, c) = SHA1Input c (Some buffer) buffer_size in
              if err \<noteq> 0 then Some (sha1err_to_ws_err err, result)
              else
                let (err, c, digest) = SHA1Result c in
                if err \<noteq> 0 then Some (sha1err_to_ws_err err, result)
                else
                  do {
                    (err, d) \<leftarrow> base64_encode digest 20 (Some r) (int len);
                    Some (if err \<noteq> 0 then base64err_to_ws_err err else WS_OK, d)
                  }
      | _ \<Rightarrow> Some (WS_NULL_PARAM, result))"

section \<open>Byte ordering is network order\<close>

lemma not_network_order [simp]: "\<not> WS_IS_NETWORK_BYTE_ORDER"
  by (simp add: WS_IS_NETWORK_BYTE_ORDER_def)

text \<open>Network order: the most significant byte first.\<close>

definition be_store :: "nat \<Rightarrow> nat \<Rightarrow> byte list" where
  "be_store k n = map (\<lambda>i. of_nat (n div 256 ^ (k - 1 - i))) [0..<k]"

lemma length_le_store [simp]: "length (le_store k x) = k"
  by (simp add: le_store_def)

lemma length_be_store [simp]: "length (be_store k n) = k"
  by (simp add: be_store_def)

lemma le_load_Cons: "le_load (b # bs) = push_bit 8 (le_load bs) OR ucast b"
  by (simp add: le_load_def)

lemma le_store_Suc: "le_store (Suc k) x = ucast x # le_store k (drop_bit 8 x)"
proof -
  have "[0..<Suc k] = 0 # map Suc [0..<k]"
    by (simp add: map_Suc_upt upt_conv_Cons del: upt_Suc)
  then show ?thesis
    by (simp add: le_store_def drop_bit_drop_bit add.commute)
qed

lemma le_load_store_take: "le_load (le_store k x) = take_bit (8 * k) x"
proof (induction k arbitrary: x)
  case 0
  then show ?case by (simp add: le_store_def le_load_def)
next
  case (Suc k)
  have "push_bit 8 (take_bit (8 * k) (drop_bit 8 x)) OR ucast (ucast x :: byte) = take_bit (8 * Suc k) x"
    by (rule bit_word_eqI) (auto simp: bit_simps)
  then show ?case
    by (simp only: le_store_Suc le_load_Cons Suc)
qed

lemma bit_le_load: "bit (le_load bs) n \<Longrightarrow> n < 8 * length bs"
proof (induction bs arbitrary: n)
  case Nil
  then show ?case by (simp add: le_load_def)
next
  case (Cons b bs)
  then show ?case
    by (cases "n < 8") (auto simp: le_load_Cons bit_simps dest: bit_imp_le_length Cons.IH [of "n - 8"])
qed

lemma le_store_load:
  "8 * length bs \<le> LENGTH('a::len) \<Longrightarrow> le_store (length bs) (le_load bs :: 'a word) = bs"
proof (induction bs)
  case Nil
  then show ?case by (simp add: le_store_def)
next
  case (Cons b bs)
  have "ucast (push_bit 8 (le_load bs :: 'a word) OR ucast b) = b"
    using Cons.prems by (intro bit_word_eqI) (auto simp: bit_simps)
  moreover have "drop_bit 8 (push_bit 8 (le_load bs) OR ucast b) = (le_load bs :: 'a word)"
    using Cons.prems bit_le_load [of bs, where ?'a = 'a]
    by (intro bit_word_eqI) (fastforce simp: bit_simps dest: bit_imp_le_length)
  ultimately show ?case
    using Cons by (simp add: le_store_Suc le_load_Cons)
qed

lemma reorder_16_rev: "ws_reorder_16 x = le_load (rev (le_store 2 x))"
  by (simp add: ws_reorder_16_def swap_bytes_def numeral_2_eq_2 le_store_Suc) (simp add: le_store_def)

lemma reorder_64_rev: "ws_reorder_64 x = le_load (rev (le_store 8 x))"
proof -
  obtain a b c d e f g h where s: "le_store 8 x = [a, b, c, d, e, f, g, h]"
    by (simp add: numeral_eq_Suc le_store_Suc) (simp add: le_store_def)
  have "[0..<4] = [0, 1, 2, 3]"
    by (simp add: upt_rec)
  then have "foldl (\<lambda>ptr i. swap_bytes ptr i (7 - i)) (le_store 8 x) [0..<4] = rev (le_store 8 x)"
    unfolding s by (simp add: swap_bytes_def numeral_eq_Suc)
  then show ?thesis
    by (simp add: ws_reorder_64_def)
qed

lemma store_reorder:
  "le_store 2 (ws_reorder_16 x) = rev (le_store 2 x)" "le_store 8 (ws_reorder_64 y) = rev (le_store 8 y)"
  using le_store_load [of "rev (le_store 2 x)", where ?'a = 16]
    le_store_load [of "rev (le_store 8 y)", where ?'a = 64]
  by (simp_all add: reorder_16_rev reorder_64_rev)

lemma reorder_load:
  "ws_reorder_16 (le_load (rev (le_store 2 x))) = x" "ws_reorder_64 (le_load (rev (le_store 8 y))) = y"
  unfolding reorder_16_rev [of x, symmetric] reorder_64_rev [of y, symmetric]
  using le_load_store_take [of 2 x] le_load_store_take [of 8 y]
  by (simp_all add: reorder_16_rev [of "ws_reorder_16 x"] reorder_64_rev [of "ws_reorder_64 y"] store_reorder
      take_bit_word_eq_self)

lemma rev_le_store: "rev (le_store k x) = be_store k (unat x)"
proof (rule nth_equalityI)
  fix i assume "i < length (rev (le_store k x))"
  then have i: "i < k" by simp
  have "(256::nat) ^ j = 2 ^ (8 * j)" for j
    by (simp add: power_mult)
  moreover have "ucast (drop_bit j x) = (of_nat (unat x div 2 ^ j) :: byte)" for j
  proof -
    have "unat x div 2 ^ j = unat (drop_bit j x)"
      by (metis unat_drop_bit_eq drop_bit_eq_div)
    then show ?thesis by (simp only: of_nat_unat)
  qed
  ultimately show "rev (le_store k x) ! i = be_store k (unat x) ! i"
    using i by (simp add: rev_nth le_store_def be_store_def)
qed simp

section \<open>The second header byte\<close>

lemma bit_80: "bit (0x80 :: byte) n \<longleftrightarrow> n = 7"
proof -
  have "(0x80 :: byte) = 2 ^ 7" by simp
  then show ?thesis by (simp only: bit_exp_iff) auto
qed

lemma bit_WS_MASK: "bit WS_MASK n \<longleftrightarrow> n = 7"
  unfolding WS_MASK_def by (rule bit_80)

lemma put_at_append: "put_at (a @ b) (length a) m = a @ m @ drop (length m) b"
  by (simp add: put_at_def)

lemma WS_LEN_mask: "x AND WS_LEN = take_bit 7 x"
  by (simp add: WS_LEN_def take_bit_eq_mask mask_eq_exp_minus_1)

lemma len_bits [simp]:
  "(x OR WS_MASK) AND WS_LEN = x AND WS_LEN" "(x OR WS_MASK) AND WS_MASK = WS_MASK"
  unfolding WS_LEN_mask WS_MASK_def
  by (auto simp: bit_eq_iff bit_simps bit_80 bit_1_iff)

lemma WS_MASK_nonzero [simp]: "WS_MASK \<noteq> 0"
  by (simp add: WS_MASK_def)

lemma small_len:
  fixes x :: byte
  assumes "x < 128"
  shows "x AND WS_LEN = x" and "x AND WS_MASK = 0"
proof -
  have "unat x < 128"
    using assms by (simp add: word_less_nat_alt)
  then have "take_bit 7 (unat x) = unat x"
    by (simp add: take_bit_eq_mod)
  then have "unat (take_bit 7 x) = unat x"
    by (simp only: unsigned_take_bit_eq)
  then have t: "take_bit 7 x = x"
    by (rule unsigned_word_eqI)
  then show "x AND WS_LEN = x"
    unfolding WS_LEN_mask .
  have "\<not> bit x 7"
    using t by (metis bit_take_bit_iff less_irrefl)
  then have "\<not> bit (x AND WS_MASK) n" for n
    unfolding bit_and_iff WS_MASK_def bit_80 by auto
  then show "x AND WS_MASK = 0"
    by (intro bit_word_eqI) simp
qed

lemma length_put_at [simp]: "i + length bs \<le> length hdr \<Longrightarrow> length (put_at hdr i bs) = length hdr"
  by (simp add: put_at_def)

lemma put_at_nth: "j < i \<Longrightarrow> i \<le> length hdr \<Longrightarrow> put_at hdr i bs ! j = hdr ! j"
  by (simp add: put_at_def nth_append)

lemma take_put_at:
  assumes "i + length bs \<le> length hdr"
  shows "take (i + length bs) (put_at hdr i bs) = take i hdr @ bs"
    and "take (length bs) (drop i (put_at hdr i bs)) = bs"
  using assms by (simp_all add: put_at_def)

section \<open>The header as RFC 6455 defines it\<close>

definition rfc_len :: "nat \<Rightarrow> byte \<times> byte list" where
  "rfc_len n = (if n \<le> 125 then (of_nat n, [])
     else if n \<le> 0xFFFF then (126, be_store 2 n) else (127, be_store 8 n))"

definition rfc_header :: "byte \<Rightarrow> byte list option \<Rightarrow> nat \<Rightarrow> byte list" where
  "rfc_header b0 msk n =
     (let (l, ext) = rfc_len n in
      case msk of None \<Rightarrow> [b0, l] @ ext | Some m \<Rightarrow> [b0, l OR WS_MASK] @ ext @ m)"

text \<open>A header area that starts with such a header.\<close>

definition encodes :: "ws_header \<Rightarrow> byte \<Rightarrow> byte list option \<Rightarrow> nat \<Rightarrow> bool" where
  "encodes hdr b0 msk n \<longleftrightarrow>
     (\<exists>rest. hdr = rfc_header b0 msk n @ rest) \<and> n < 2 ^ 64 \<and> (case msk of None \<Rightarrow> True | Some m \<Rightarrow> length m = 4)"

lemma rfc_len_props:
  assumes "rfc_len n = (l, ext)"
  shows "l < 128" and "length ext = (if n \<le> 125 then 0 else if n \<le> 0xFFFF then 2 else 8)"
    and "l = 126 \<longleftrightarrow> 125 < n \<and> n \<le> 0xFFFF" and "l = 127 \<longleftrightarrow> 0xFFFF < n"
    and "n \<le> 125 \<Longrightarrow> l = of_nat n"
proof -
  have small: "n \<le> 125 \<Longrightarrow> (of_nat n :: byte) < 126"
    by (simp add: word_less_nat_alt unat_of_nat)
  have small2: "n \<le> 125 \<Longrightarrow> (of_nat n :: byte) < 128"
    by (simp add: word_less_nat_alt unat_of_nat)
  show "l < 128" and "length ext = (if n \<le> 125 then 0 else if n \<le> 0xFFFF then 2 else 8)"
    and "l = 126 \<longleftrightarrow> 125 < n \<and> n \<le> 0xFFFF" and "l = 127 \<longleftrightarrow> 0xFFFF < n"
    and "n \<le> 125 \<Longrightarrow> l = of_nat n"
    using assms small small2 by (auto simp: rfc_len_def split: if_splits)
qed

lemma rfc_header_Cons:
  "rfc_header b0 msk n = b0 # (case msk of None \<Rightarrow> fst (rfc_len n) | Some m \<Rightarrow> fst (rfc_len n) OR WS_MASK)
     # snd (rfc_len n) @ (case msk of None \<Rightarrow> [] | Some m \<Rightarrow> m)"
  by (simp add: rfc_header_def split: prod.split option.split)

text \<open>What the getters answer on such a header.\<close>

lemma encodes_bits:
  assumes "encodes hdr b0 msk n"
  shows "hdr ! 0 = b0" and "hdr ! 1 AND WS_LEN = fst (rfc_len n)"
    and "hdr ! 1 AND WS_MASK \<noteq> 0 \<longleftrightarrow> msk \<noteq> None"
proof -
  have "fst (rfc_len n) < 128"
    by (rule rfc_len_props(1)) (rule prod.collapse [symmetric])
  then show "hdr ! 0 = b0" and "hdr ! 1 AND WS_LEN = fst (rfc_len n)"
    and "hdr ! 1 AND WS_MASK \<noteq> 0 \<longleftrightarrow> msk \<noteq> None"
    using assms small_len [of "fst (rfc_len n)"]
    by (auto simp: encodes_def rfc_header_Cons split: option.splits)
qed

lemma rfc_len_cases:
  obtains (short) "n \<le> 125" "rfc_len n = (of_nat n, [])"
    | (medium) "125 < n" "n \<le> 0xFFFF" "rfc_len n = (126, be_store 2 n)"
    | (long) "0xFFFF < n" "rfc_len n = (127, be_store 8 n)"
  by (cases "n \<le> 125"; cases "n \<le> 0xFFFF") (auto simp: rfc_len_def)

lemma be_store_word:
  "n < 2 ^ 16 \<Longrightarrow> be_store 2 n = rev (le_store 2 (of_nat n :: 16 word))"
  "n < 2 ^ 64 \<Longrightarrow> be_store 8 n = rev (le_store 8 (of_nat n :: 64 word))"
  by (simp_all add: rev_le_store unat_of_nat)

lemma encodes_len:
  assumes "encodes hdr b0 msk n"
  shows "ws_get_len hdr = of_nat n"
proof -
  obtain rest where hdr: "hdr = rfc_header b0 msk n @ rest" and n: "n < 2 ^ 64"
    using assms by (auto simp: encodes_def)
  have ext: "drop 2 hdr = snd (rfc_len n) @ (case msk of None \<Rightarrow> [] | Some m \<Rightarrow> m) @ rest"
    by (simp add: hdr rfc_header_Cons)
  note l = encodes_bits(2) [OF assms]
  show ?thesis
  proof (cases n rule: rfc_len_cases)
    case short
    then have "(of_nat n :: byte) \<noteq> 126" "(of_nat n :: byte) \<noteq> 127"
      using rfc_len_props(3,4) [OF short(2)] by auto
    moreover have "ucast (of_nat n :: byte) = (of_nat n :: 64 word)"
      using short(1) by (intro unsigned_word_eqI [where ?'a = nat])
        (simp add: unsigned_ucast_eq unat_of_nat take_bit_eq_mod)
    ultimately show ?thesis
      using l short by (simp add: ws_get_len_def)
  next
    case medium
    have "take 2 (drop 2 hdr) = rev (le_store 2 (of_nat n :: 16 word))"
      using medium be_store_word(1) [of n] by (simp add: ext)
    moreover have "ucast (of_nat n :: 16 word) = (of_nat n :: 64 word)"
      using medium by (intro unsigned_word_eqI [where ?'a = nat])
        (simp add: unsigned_ucast_eq unat_of_nat take_bit_eq_mod)
    ultimately show ?thesis
      using l medium by (simp add: ws_get_len_def reorder_load)
  next
    case long
    have "take 8 (drop 2 hdr) = rev (le_store 8 (of_nat n :: 64 word))"
      using long be_store_word(2) [OF n] by (simp add: ext)
    then show ?thesis
      using l long by (simp add: ws_get_len_def reorder_load)
  qed
qed

lemma encodes_hdr_len:
  assumes "encodes hdr b0 msk n"
  shows "ws_get_hdr_len hdr = length (rfc_header b0 msk n)"
  using assms encodes_bits [OF assms]
  by (cases n rule: rfc_len_cases) (auto simp: ws_get_hdr_len_def Let_def rfc_header_Cons encodes_def
      rfc_len_props(3,4) [of n "of_nat n" "[]"] split: option.splits)

lemma encodes_mask:
  assumes "encodes hdr b0 (Some m) n"
  shows "mask_at hdr (ws_get_msk hdr) = m"
proof -
  have "ws_get_msk hdr = length (snd (rfc_len n)) + 2"
    using encodes_bits(2) [OF assms] rfc_len_props(3,4) [of n "of_nat n" "[]"]
    by (cases n rule: rfc_len_cases) (auto simp: ws_get_msk_def Let_def)
  then show ?thesis
    using assms by (auto simp: encodes_def rfc_header_Cons mask_at_def)
qed

text \<open>What the setters make of it.\<close>

lemma encodesE:
  assumes "encodes hdr b0 msk n" and "length hdr = 14"
  obtains x ext tl where "hdr = b0 # x # ext @ tl" "ext = snd (rfc_len n)" "4 \<le> length tl"
    "x = (case msk of None \<Rightarrow> fst (rfc_len n) | Some m \<Rightarrow> fst (rfc_len n) OR WS_MASK)"
    "length tl = 12 - length ext" "length ext \<le> 8"
proof -
  obtain rest where r: "hdr = rfc_header b0 msk n @ rest"
    using assms(1) by (auto simp: encodes_def)
  have le: "length (snd (rfc_len n)) \<le> 8"
    by (cases n rule: rfc_len_cases) auto
  let ?tl = "(case msk of None \<Rightarrow> [] | Some m \<Rightarrow> m) @ rest"
  have len: "length (snd (rfc_len n)) + length ?tl = 12"
    using assms(2) by (simp add: r rfc_header_Cons)
  show thesis
  proof (rule that [of _ _ ?tl])
    show "hdr = b0 # (case msk of None \<Rightarrow> fst (rfc_len n) | Some m \<Rightarrow> fst (rfc_len n) OR WS_MASK)
        # snd (rfc_len n) @ ?tl"
      by (simp add: r rfc_header_Cons)
    show "4 \<le> length ?tl" and "length ?tl = 12 - length (snd (rfc_len n))"
      using le len by linarith+
  qed (simp_all add: le)
qed

lemma set_msk_encodes:
  assumes "encodes hdr b0 msk n" and "length hdr = 14" and "length m = 4"
  shows "encodes (ws_set_msk hdr m) b0 (Some m) n" and "length (ws_set_msk hdr m) = 14"
proof -
  obtain x ext tl where h: "hdr = b0 # x # ext @ tl" "ext = snd (rfc_len n)" "4 \<le> length tl"
    "x = (case msk of None \<Rightarrow> fst (rfc_len n) | Some m \<Rightarrow> fst (rfc_len n) OR WS_MASK)"
    using encodesE [OF assms(1,2)] by blast
  define h2 where "h2 = b0 # (fst (rfc_len n) OR WS_MASK) # ext @ tl"
  have n: "n < 2 ^ 64" using assms(1) by (simp add: encodes_def)
  have e2: "encodes h2 b0 (Some (take 4 tl)) n"
    unfolding encodes_def rfc_header_Cons using h(2,3) n
    by (auto simp: h2_def min_def intro!: exI [of _ "drop 4 tl"])
  have "hdr[1 := hdr ! 1 OR WS_MASK] = h2"
    by (cases msk) (simp_all add: h h2_def or.assoc)
  moreover have "ws_get_msk h2 = 2 + length ext"
    using encodes_bits(2) [OF e2] rfc_len_props(3,4) [of n "of_nat n" "[]"]
    by (cases n rule: rfc_len_cases) (auto simp: ws_get_msk_def Let_def h(2))
  ultimately have "ws_set_msk hdr m = b0 # (fst (rfc_len n) OR WS_MASK) # ext @ m @ drop 4 tl"
    using assms(3) put_at_append [of "b0 # (fst (rfc_len n) OR WS_MASK) # ext" tl m]
    by (simp add: ws_set_msk_def Let_def h2_def)
  then show "encodes (ws_set_msk hdr m) b0 (Some m) n" and "length (ws_set_msk hdr m) = 14"
    using n assms(2,3) h by (auto simp: encodes_def rfc_header_Cons)
qed

lemma clear_msk_encodes:
  assumes "encodes hdr b0 msk n" and "length hdr = 14"
  shows "encodes (hdr[1 := hdr ! 1 AND NOT WS_MASK]) b0 None n"
proof -
  obtain x ext tl where h: "hdr = b0 # x # ext @ tl" "ext = snd (rfc_len n)"
    "x = (case msk of None \<Rightarrow> fst (rfc_len n) | Some m \<Rightarrow> fst (rfc_len n) OR WS_MASK)"
    using encodesE [OF assms] by blast
  have l: "fst (rfc_len n) AND WS_MASK = 0"
    by (rule small_len(2), rule rfc_len_props(1)) (rule prod.collapse [symmetric])
  then have b7: "\<not> bit (fst (rfc_len n)) 7"
    by (metis WS_MASK_def bit_80 bit_and_iff bit_0_eq bot_apply bot_bool_def)
  have "x AND NOT WS_MASK = fst (rfc_len n)"
    unfolding h(3) using b7
    by (intro bit_word_eqI) (auto simp: bit_and_iff bit_or_iff bit_not_iff bit_WS_MASK split: option.splits)
  then show ?thesis
    using assms(1) h by (simp add: encodes_def rfc_header_Cons)
qed

lemma ws_get_msk_le: "ws_get_msk hdr \<le> 10"
  by (simp add: ws_get_msk_def Let_def)

lemma set_len_encodes:
  assumes "length hdr = 14"
  shows "encodes (ws_set_len hdr len) (hdr ! 0)
      (if hdr ! 1 AND WS_MASK \<noteq> 0 then Some (mask_at hdr (ws_get_msk hdr)) else None) (unat len)"
    and "length (ws_set_len hdr len) = 14"
proof -
  define b0 where "b0 = hdr ! 0"
  obtain x tl where hdr: "hdr = b0 # x # tl" "length tl = 12"
    using assms by (auto simp: b0_def numeral_eq_Suc length_Suc_conv)
  define m where "m = mask_at hdr (ws_get_msk hdr)"
  have m: "length m = 4"
    using assms ws_get_msk_le [of hdr] by (simp add: m_def mask_at_def)
  define h1 where "h1 = (if 0xFFFF < len then put_at (hdr[1 := 127]) 2 (le_store 8 (ws_reorder_64 len))
       else if 125 < len then put_at (hdr[1 := 126]) 2 (le_store 2 (ws_reorder_16 (ucast len)))
       else hdr[1 := ucast len])"
  have n: "unat len < 2 ^ 64"
    using unsigned_less [of len, where ?'a = nat] by simp
  have "encodes h1 b0 None (unat len) \<and> length h1 = 14"
  proof (cases "unat len" rule: rfc_len_cases)
    case short
    then have "h1 = b0 # of_nat (unat len) # tl"
      by (simp add: h1_def hdr word_less_nat_alt)
    then show ?thesis
      using short n hdr(2) by (simp add: encodes_def rfc_header_Cons)
  next
    case medium
    have "be_store 2 (unat (ucast len :: 16 word)) = be_store 2 (unat len)"
      using medium by (simp add: unsigned_ucast_eq take_bit_eq_mod)
    then have "h1 = b0 # 126 # be_store 2 (unat len) @ drop 2 tl"
      using medium hdr(2) by (simp add: h1_def hdr word_less_nat_alt store_reorder rev_le_store put_at_def)
    then show ?thesis
      using medium n hdr(2) by (simp add: encodes_def rfc_header_Cons)
  next
    case long
    then have "h1 = b0 # 127 # be_store 8 (unat len) @ drop 8 tl"
      using hdr(2) by (simp add: h1_def hdr word_less_nat_alt store_reorder rev_le_store put_at_def)
    then show ?thesis
      using long n hdr(2) by (simp add: encodes_def rfc_header_Cons)
  qed
  moreover have "ws_set_len hdr len = (if hdr ! 1 AND WS_MASK \<noteq> 0 then ws_set_msk h1 m else h1)"
    by (simp add: ws_set_len_def h1_def m_def Let_def)
  ultimately show "encodes (ws_set_len hdr len) (hdr ! 0)
      (if hdr ! 1 AND WS_MASK \<noteq> 0 then Some (mask_at hdr (ws_get_msk hdr)) else None) (unat len)"
    and "length (ws_set_len hdr len) = 14"
    using set_msk_encodes [OF _ _ m, of h1 b0 None "unat len"] unfolding b0_def [symmetric] m_def [symmetric]
    by auto
qed

section \<open>Masking is an involution\<close>

lemma xor_char_twice [simp]: "xor_char (xor_char c b) b = c"
  by (simp add: xor_char_def xor.assoc)

definition masked :: "byte list \<Rightarrow> char list \<Rightarrow> char list" where
  "masked msk bs = map (\<lambda>i. xor_char (bs ! i) (msk ! (i mod 4))) [0..<length bs]"

lemma length_masked [simp]: "length (masked msk bs) = length bs"
  by (simp add: masked_def)

lemma masked_twice [simp]: "masked msk (masked msk bs) = bs"
  by (rule nth_equalityI) (simp_all add: masked_def)

lemma mask_message_masked:
  "len \<le> length buf \<Longrightarrow> ws_mask_message msk buf len = masked msk (take len buf) @ drop len buf"
proof (induction len)
  case 0
  then show ?case by (simp add: ws_mask_message_def masked_def)
next
  case (Suc len)
  define b where "b = ws_mask_message msk buf len"
  have b: "b = masked msk (take len buf) @ drop len buf"
    using Suc by (simp add: b_def)
  have len: "len < length buf"
    using Suc.prems by simp
  have "ws_mask_message msk buf (Suc len) = b[len := xor_char (b ! len) (msk ! (len mod 4))]"
    by (simp add: ws_mask_message_def b_def)
  also have "b ! len = buf ! len"
    using len by (simp add: b nth_append)
  also have "b[len := xor_char (buf ! len) (msk ! (len mod 4))] =
      masked msk (take len buf) @ xor_char (buf ! len) (msk ! (len mod 4)) # drop (Suc len) buf"
    using len by (simp add: b list_update_append Cons_nth_drop_Suc [symmetric])
  also have "masked msk (take (Suc len) buf) = masked msk (take len buf) @ [xor_char (buf ! len) (msk ! (len mod 4))]"
    using len by (simp add: masked_def nth_append)
  ultimately show ?case
    by simp
qed

section \<open>Handshake keys\<close>

lemma length_fips_sha1: "length (fips_sha1 m) = 20"
proof -
  have "length (concat (map length_bytes h)) = 4 * length h" for h
    by (induction h) (simp_all add: length_bytes_def)
  then show ?thesis
    by (simp add: fips_sha1_def length_fips_fold)
qed

definition accept_value :: "string \<Rightarrow> string" where
  "accept_value key = b64_spec (map unat (fips_sha1 (map byte_of (key @ WS_GUID))))"

lemma sha1_run:
  assumes "length m < 2 ^ 60"
  shows "\<exists>c1 c2 c3. SHA1Reset (Some zero_context) = (0, Some c1) \<and>
    SHA1Input (Some c1) (Some m) (length m) = (0, Some c2) \<and>
    SHA1Result (Some c2) = (0, Some c3, Some (fips_sha1 m))"
proof -
  obtain c1 where c1: "SHA1Reset (Some zero_context) = (shaSuccess, Some c1)" "absorbed [] c1"
    using absorbed_reset [of zero_context] by (auto simp: zero_context_def)
  obtain c2 where c2: "SHA1Input (Some c1) (Some m) (length m) = (shaSuccess, Some c2)" "absorbed m c2"
    using absorbed_input [OF c1(2), of m] assms by auto
  show ?thesis
    using c1 c2 result_hash [OF c2(2)] by (auto simp: shaSuccess_def)
qed

lemma accept_key_run:
  assumes "length key = 24" and "len \<le> length r" and "len < 2 ^ 31"
  shows "ws_make_accept_key (Some key) (Some r) len =
    (if len < 29 then Some (WS_BASE64_OUT_LEN, Some r)
     else Some (WS_OK, Some (accept_value key @ NUL # drop 29 r)))"
proof -
  define m where "m = map byte_of (key @ WS_GUID)"
  have lm: "length (key @ WS_GUID) = 60" "length m = 60"
    using assms(1) by (simp_all add: m_def WS_GUID_def)
  obtain c1 c2 c3 where run: "SHA1Reset (Some zero_context) = (0, Some c1)"
      "SHA1Input (Some c1) (Some m) 60 = (0, Some c2)" "SHA1Result (Some c2) = (0, Some c3, Some (fips_sha1 m))"
    using sha1_run [of m] lm by auto
  have str: "snprintf 62 (key @ WS_GUID) = (key @ WS_GUID, 60)"
    using snprintf_fits [of "key @ WS_GUID" 62] lm by simp
  have le: "length (b64_spec (map unat (fips_sha1 m))) = 28"
    by (simp add: length_b64_spec length_fips_sha1)
  have b64: "base64_encode (Some (fips_sha1 m)) 20 (Some r) (int len) =
      (if len < 29 then Some (- 2, Some r) else Some (0, Some (accept_value key @ NUL # drop 29 r)))"
    using base64_encode_spec [of 20 "fips_sha1 m" len r] assms(2,3) le
    by (simp add: length_fips_sha1 accept_value_def m_def)
  have "map byte_of key @ map byte_of WS_GUID = m"
    by (simp add: m_def)
  then show ?thesis
    using run b64 by (simp add: ws_make_accept_key_def str base64err_to_ws_err_def)
qed

lemma accept_value_props: "length (accept_value key) = 28" "NUL \<notin> set (accept_value key)"
proof -
  have "\<forall>x \<in> set (map unat (fips_sha1 m)). x < 256" for m
    using unsigned_less [where ?'b = 8 and ?'a = nat] by fastforce
  then show "NUL \<notin> set (accept_value key)"
    unfolding accept_value_def by (rule b64_spec_no_NUL)
qed (simp add: accept_value_def length_b64_spec length_fips_sha1)

section \<open>Properties\<close>

text \<open>C34: Whatever a header area held, ws_set_len makes its first ws_get_hdr_len bytes the RFC 6455 header
  of that length (shortest form, network order) with the first byte, the mask bit and the mask of
  before, also when the length field changes its size and the mask has to move; the getters read
  all of it back.\<close>

theorem ws_set_len_rfc:
  assumes "length hdr = 14"
  shows "\<exists>msk. msk = (if hdr ! 1 AND WS_MASK \<noteq> 0 then Some (mask_at hdr (ws_get_msk hdr)) else None) \<and>
    take (ws_get_hdr_len (ws_set_len hdr len)) (ws_set_len hdr len) = rfc_header (hdr ! 0) msk (unat len) \<and>
    ws_get_len (ws_set_len hdr len) = len \<and> length (ws_set_len hdr len) = 14 \<and>
    (case msk of None \<Rightarrow> ws_set_len hdr len ! 1 AND WS_MASK = 0
     | Some m \<Rightarrow> ws_set_len hdr len ! 1 AND WS_MASK \<noteq> 0 \<and>
         mask_at (ws_set_len hdr len) (ws_get_msk (ws_set_len hdr len)) = m)"
proof -
  define msk where "msk = (if hdr ! 1 AND WS_MASK \<noteq> 0 then Some (mask_at hdr (ws_get_msk hdr)) else None)"
  have e: "encodes (ws_set_len hdr len) (hdr ! 0) msk (unat len)"
    using set_len_encodes(1) [OF assms] by (simp add: msk_def)
  obtain rest where "ws_set_len hdr len = rfc_header (hdr ! 0) msk (unat len) @ rest"
    using e by (auto simp: encodes_def)
  then have "take (ws_get_hdr_len (ws_set_len hdr len)) (ws_set_len hdr len) = rfc_header (hdr ! 0) msk (unat len)"
    unfolding encodes_hdr_len [OF e] by simp
  moreover have "ws_get_len (ws_set_len hdr len) = len"
    using encodes_len [OF e] by simp
  ultimately show ?thesis
    using encodes_bits(3) [OF e] encodes_mask [of "ws_set_len hdr len" "hdr ! 0" _ "unat len"] e
      set_len_encodes(2) [OF assms]
    unfolding msk_def [symmetric] by (cases msk) auto
qed

theorem ws_set_len_rfc_witness:
  "take (ws_get_hdr_len (ws_set_len ([0x81, 0x80, 1, 2, 3, 4] @ replicate 8 0) 300)) (ws_set_len ([0x81, 0x80, 1, 2, 3, 4] @ replicate 8 0) 300)
     = [0x81, 0xFE, 0x01, 0x2C, 1, 2, 3, 4]"
proof -
  define h where "h = [0x81, 0x80, 1, 2, 3, 4] @ replicate 8 (0 :: byte)"
  have facts: "h ! 1 AND WS_MASK \<noteq> 0" "mask_at h (ws_get_msk h) = [1, 2, 3, 4]" "h ! 0 = 0x81" "length h = 14"
    unfolding h_def by code_simp+
  have rfc: "rfc_header 0x81 (Some [1, 2, 3, 4]) 300 = [0x81, 0xFE, 0x01, 0x2C, 1, 2, 3, 4]"
    by (simp add: rfc_header_def rfc_len_def be_store_def WS_MASK_def upt_rec)
  have "unat (300 :: 64 word) = 300" by simp
  then show ?thesis
    using ws_set_len_rfc [OF facts(4), of 300] facts(1-3) rfc unfolding h_def [symmetric] by simp
qed

text \<open>Masking a message twice with the same mask gives the message back, touches only its first
  \<open>len\<close> bytes, and works byte by byte with the mask repeated every four bytes.\<close>

theorem ws_mask_involution:
  assumes "len \<le> length buf"
  shows "ws_mask_message msk (ws_mask_message msk buf len) len = buf \<and>
    (\<forall>i < len. byte_of (ws_mask_message msk buf len ! i) = byte_of (buf ! i) XOR msk ! (i mod 4)) \<and>
    drop len (ws_mask_message msk buf len) = drop len buf"
proof (intro conjI allI impI)
  show "ws_mask_message msk (ws_mask_message msk buf len) len = buf"
    using assms by (simp add: mask_message_masked)
  show "drop len (ws_mask_message msk buf len) = drop len buf"
    using assms by (simp add: mask_message_masked)
  show "byte_of (ws_mask_message msk buf len ! i) = byte_of (buf ! i) XOR msk ! (i mod 4)" if "i < len" for i
    using assms that by (simp add: mask_message_masked masked_def nth_append xor_char_def)
qed

theorem ws_mask_involution_witness:
  "ws_mask_message [1, 2, 3, 4] (ws_mask_message [1, 2, 3, 4] ''hello!'' 5) 5 = ''hello!'' \<and>
   byte_of (ws_mask_message [1, 2, 3, 4] ''hello!'' 5 ! 4) = byte_of CHR ''o'' XOR 1"
  using ws_mask_involution [of 5 "''hello!''" "[1, 2, 3, 4]"] by (auto dest: spec [of _ 4])

text \<open>The accept key of a 24-character client key is the Base64 text, with terminator, of the SHA-1
  digest of key and GUID (RFC 6455 4.2.2); a result buffer below 29 bytes is refused and left alone,
  as is a client key of any other length.\<close>

theorem ws_accept_key_rfc:
  assumes "len \<le> length r" and "len < 2 ^ 31"
  shows "if length key \<noteq> 24 then ws_make_accept_key (Some key) (Some r) len = Some (WS_IN_LEN, Some r)
    else if len < 29 then ws_make_accept_key (Some key) (Some r) len = Some (WS_BASE64_OUT_LEN, Some r)
    else \<exists>d. ws_make_accept_key (Some key) (Some r) len = Some (WS_OK, Some d) \<and> length d = length r \<and>
      c_str d 0 = Some (accept_value key) \<and>
      b64_decode (accept_value key) = map unat (fips_sha1 (map byte_of (key @ WS_GUID)))"
proof -
  have lt: "\<forall>x \<in> set (map unat (fips_sha1 m)). x < 256" for m
    using unsigned_less [where ?'b = 8 and ?'a = nat] by fastforce
  have ok: "\<exists>d. ws_make_accept_key (Some key) (Some r) len = Some (WS_OK, Some d) \<and> length d = length r \<and>
        c_str d 0 = Some (accept_value key) \<and>
        b64_decode (accept_value key) = map unat (fips_sha1 (map byte_of (key @ WS_GUID)))"
    if "length key = 24" "29 \<le> len"
    using accept_key_run [OF that(1) assms] that(2) assms accept_value_props [of key] b64_decode_spec [OF lt]
    by (auto simp: accept_value_def)
  have room: "ws_make_accept_key (Some key) (Some r) len = Some (WS_BASE64_OUT_LEN, Some r)"
    if "length key = 24" "len < 29"
    using accept_key_run [OF that(1) assms] that(2) by simp
  have "length WS_GUID = 36" by (simp add: WS_GUID_def)
  then have "ws_make_accept_key (Some key) (Some r) len = Some (WS_IN_LEN, Some r)" if "length key \<noteq> 24"
    using that by (auto simp: ws_make_accept_key_def snprintf_def)
  with ok room show ?thesis
    by (metis not_less)
qed

theorem ws_accept_key_rfc_witness:
  "\<exists>d. ws_make_accept_key (Some ''dGhlIHNhbXBsZSBub25jZQ=='') (Some (replicate 29 NUL)) 29 = Some (WS_OK, Some d) \<and>
     c_str d 0 = Some (accept_value ''dGhlIHNhbXBsZSBub25jZQ=='')"
  using ws_accept_key_rfc [of 29 "replicate 29 NUL" "''dGhlIHNhbXBsZSBub25jZQ==''"] by auto

end
