(* ===== verification/Inet_Http.thy ===== *)
theory Inet_Http
  imports Inet_Socket
begin

text \<open>
  Reading an HTTP header and finding a field in it, \<open>src/inet_http.c\<close>.

  A C string is the \<open>string\<close> before its terminator and a pointer into it an index.  The while loop
  of \<open>inet_find_http_header\<close> that skips the blanks has no semicolon of its own, so the assignment
  of \<open>*end\<close> is its body: the model follows the code, and \<open>find_header_without_blank\<close> shows
  what that means for a field written without a blank.
\<close>

section \<open>strstr\<close>

fun strstr :: "string \<Rightarrow> string \<Rightarrow> nat option" where
  "strstr s p = (if take (length p) s = p then Some 0
     else case s of [] \<Rightarrow> None | _ # r \<Rightarrow> map_option Suc (strstr r p))"

declare strstr.simps [simp del]

definition CRLF :: string where "CRLF = [CR, LF]"

text \<open>The character a pointer reads, the terminator at the end.\<close>

definition char_at :: "string \<Rightarrow> nat \<Rightarrow> char" where
  "char_at s i = (if i < length s then s ! i else NUL)"

definition HTTP_BAD_REQUEST_400 :: string where
  "HTTP_BAD_REQUEST_400 = ''HTTP/1.1 400 Bad Request'' @ CRLF @ CRLF"

section \<open>inet_get_http_header\<close>

text \<open>The bytes read so far are in the first \<open>pos\<close> of the buffer.  \<open>strstr\<close> needs a terminator somewhere
  in the buffer, which the function does not store.  The answer: the count or -1, and \<open>*end\<close>.\<close>

function http_header_loop ::
  "int \<Rightarrow> char list \<Rightarrow> nat \<Rightarrow> nat \<Rightarrow> os \<Rightarrow> (int \<times> nat option \<times> char list \<times> os) option" where
  "http_header_loop fd buf pos sz s =
     (if pos < sz then
        let (n, bs, s') = sys_read fd (sz - pos) s in
        if n \<le> 0 then
          if n = 0 then Some (int pos, None, buf, s')
          else if os_errno s' = EWOULDBLOCK then Some (int pos, None, buf, s')
          else if os_errno s' = EINTR then http_header_loop fd buf pos sz s'
          else Some (- 1, None, buf, s')
        else
          do {
            buf \<leftarrow> mem_write buf pos bs;
            str \<leftarrow> c_str buf 0;
            case strstr str (CRLF @ CRLF) of
              Some e \<Rightarrow> Some (int pos + n, Some (e + 2), buf, s')
            | None \<Rightarrow> http_header_loop fd buf (pos + nat n) sz s'
          }
      else Some (int pos, None, buf, s))"
  by pat_completeness auto
termination
  by (relation "measure (\<lambda>(fd, buf, pos, sz, s). (sz - pos) + length (os_in s fd))")
     (auto simp: sys_read_def split: list.splits rd_ev.splits if_splits)

declare http_header_loop.simps [simp del]

definition inet_get_http_header ::
  "int \<Rightarrow> char list \<Rightarrow> nat \<Rightarrow> os \<Rightarrow> (int \<times> nat option \<times> char list \<times> os) option" where
  "inet_get_http_header fd buf sz s = http_header_loop fd buf 0 sz s"

section \<open>inet_find_http_header\<close>

function skip_blanks :: "string \<Rightarrow> nat \<Rightarrow> nat option \<Rightarrow> nat \<times> nat option" where
  "skip_blanks s found e =
     (if char_at s (found + 1) = SP then
        skip_blanks s (found + 1) (map_option (\<lambda>i. found + 1 + i) (strstr (drop (found + 1) s) CRLF))
      else (found + 1, e))"
  by pat_completeness auto
termination
  by (relation "measure (\<lambda>(s, found, e). length s - found)") (auto simp: char_at_def split: if_splits)

declare skip_blanks.simps [simp del]

text \<open>The search loop does not end when \<open>header\<close> is empty and occurs: then the value is None.\<close>

partial_function (option) find_loop :: "string \<Rightarrow> string \<Rightarrow> nat \<Rightarrow> (nat option \<times> nat option) option" where
  "find_loop s header found =
     (case strstr (drop found s) header of
        None \<Rightarrow> Some (None, None)
      | Some i \<Rightarrow>
          if char_at s (found + i + length header) \<noteq> CHR '':'' then find_loop s header (found + i + length header)
          else let (f, e) = skip_blanks s (found + i + length header) None in Some (Some f, e))"

text \<open>The pointer answered and \<open>*end\<close>, which the caller has set to NULL.\<close>

definition inet_find_http_header :: "string \<Rightarrow> string \<Rightarrow> (nat option \<times> nat option) option" where
  "inet_find_http_header http_header header =
     map_option (\<lambda>(found, e). (if e = None then None else found, e)) (find_loop http_header header 0)"

section \<open>What strstr finds\<close>

lemma strstr_Some:
  "strstr s p = Some i \<longleftrightarrow>
    i + length p \<le> length s \<and> take (length p) (drop i s) = p \<and>
    (\<forall>j < i. take (length p) (drop j s) \<noteq> p)"
proof (induction s p arbitrary: i rule: strstr.induct)
  case (1 s p)
  show ?case
  proof (cases "take (length p) s = p")
    case True
    then have "length p \<le> length s"
      by (metis length_take min.cobounded1)
    then show ?thesis
      using True by (subst strstr.simps) (auto simp: gr0_conv_Suc intro!: Nat.gr0I)
  next
    case False
    show ?thesis
    proof (cases s)
      case Nil
      then show ?thesis using False by (subst strstr.simps) auto
    next
      case (Cons c r)
      have step: "strstr s p = map_option Suc (strstr r p)"
        using False Cons by (subst strstr.simps) simp
      show ?thesis
      proof (cases i)
        case 0
        then show ?thesis using False step by (cases "strstr r p") auto
      next
        case (Suc k)
        have "strstr s p = Some i \<longleftrightarrow> strstr r p = Some k"
          using step Suc by (cases "strstr r p") auto
        also have "\<dots> \<longleftrightarrow> k + length p \<le> length r \<and> take (length p) (drop k r) = p \<and>
            (\<forall>j < k. take (length p) (drop j r) \<noteq> p)"
          using "1.IH" [OF False Cons] .
        also have "\<dots> \<longleftrightarrow> i + length p \<le> length s \<and> take (length p) (drop i s) = p \<and>
            (\<forall>j < i. take (length p) (drop j s) \<noteq> p)"
          using False Suc Cons by (auto simp: All_less_Suc2)
        finally show ?thesis .
      qed
    qed
  qed
qed

lemma strstr_after:
  assumes "c \<notin> set v" and "p = c # q"
  shows "strstr (v @ p @ r) p = Some (length v)"
  unfolding strstr_Some
proof (intro conjI allI impI)
  fix j assume j: "j < length v"
  then have "drop j (v @ p @ r) = v ! j # drop (Suc j) v @ p @ r"
    by (simp add: Cons_nth_drop_Suc)
  moreover have "v ! j \<noteq> c"
    using j assms(1) by auto
  ultimately show "take (length p) (drop j (v @ p @ r)) \<noteq> p"
    using assms(2) by simp
qed simp_all

lemma skip_blanks_run:
  assumes "v = [] \<or> hd v \<noteq> SP" and "CR \<notin> set v" and "length p = found + 1"
  shows "skip_blanks (p @ replicate b SP @ v @ CRLF @ r) found e =
    (found + 1 + b, if b = 0 then e else Some (found + 1 + b + length v))"
  using assms(3)
proof (induction b arbitrary: p found e)
  case 0
  have "char_at (p @ v @ CRLF @ r) (found + 1) \<noteq> SP"
    using 0 assms(1) by (cases v) (auto simp: char_at_def nth_append CRLF_def)
  then show ?case
    by (subst skip_blanks.simps) simp
next
  case (Suc b)
  let ?s = "p @ replicate (Suc b) SP @ v @ CRLF @ r"
  have at: "char_at ?s (found + 1) = SP"
    using Suc.prems by (simp add: char_at_def nth_append)
  have "strstr (drop (found + 1) ?s) CRLF = Some (Suc b + length v)"
    using strstr_after [of CR "replicate (Suc b) SP @ v" CRLF "[LF]" r] assms(2) Suc.prems
    by (simp add: CRLF_def)
  then have "skip_blanks ?s found e = skip_blanks ?s (found + 1) (Some (found + 1 + (Suc b + length v)))"
    using at by (subst skip_blanks.simps) simp
  also have "?s = (p @ [SP]) @ replicate b SP @ v @ CRLF @ r"
    by simp
  finally show ?case
    using Suc.IH [of "p @ [SP]" "found + 1"] Suc.prems by (cases b) (auto simp: add.assoc)
qed

lemma find_header_run:
  assumes "strstr (pre @ header @ CHR '':'' # replicate b SP @ v @ CRLF @ r) header = Some (length pre)"
    and "v = [] \<or> hd v \<noteq> SP" and "CR \<notin> set v"
  shows "inet_find_http_header (pre @ header @ CHR '':'' # replicate b SP @ v @ CRLF @ r) header =
    Some (if b = 0 then (None, None)
      else (Some (length pre + length header + 1 + b), Some (length pre + length header + 1 + b + length v)))"
proof -
  let ?s = "pre @ header @ CHR '':'' # replicate b SP @ v @ CRLF @ r"
  let ?f = "length pre + length header"
  have "?s = (pre @ header @ [CHR '':'']) @ replicate b SP @ v @ CRLF @ r"
    by simp
  then have "skip_blanks ?s ?f None = (?f + 1 + b, if b = 0 then None else Some (?f + 1 + b + length v))"
    using skip_blanks_run [OF assms(2,3), of "pre @ header @ [CHR '':'']" ?f b r None]
    by (simp add: add.assoc)
  moreover have "char_at ?s ?f = CHR '':''"
    by (simp add: char_at_def nth_append)
  ultimately show ?thesis
    using assms(1) by (simp add: inet_find_http_header_def find_loop.simps)
qed

section \<open>Properties\<close>

text \<open>C39: The search for a header field ends for every text and every non-empty field name.\<close>

theorem find_header_terminates:
  assumes "header \<noteq> []"
  shows "\<exists>found e. inet_find_http_header s header = Some (found, e)"
proof -
  have "\<exists>found e. find_loop s header k = Some (found, e)" for k
  proof (induction "length s - k" arbitrary: k rule: less_induct)
    case less
    show ?case
    proof (cases "strstr (drop k s) header")
      case None
      then show ?thesis by (subst find_loop.simps) simp
    next
      case (Some i)
      then have "i + length header \<le> length s - k"
        by (simp add: strstr_Some)
      then have "length s - (k + i + length header) < length s - k"
        using assms by (cases header) auto
      then show ?thesis
        using less [of "k + i + length header"] Some by (subst find_loop.simps) (auto split: prod.splits)
    qed
  qed
  then show ?thesis
    by (fastforce simp: inet_find_http_header_def)
qed

theorem find_header_terminates_witness:
  "\<exists>found e. inet_find_http_header ''Key Key Key'' ''Key'' = Some (found, e)"
  using find_header_terminates [of "''Key''" "''Key Key Key''"] by simp

text \<open>When the first occurrence of the name is a field, followed by a colon and at least one blank, the
  pointer answered is the start of its value and \<open>*end\<close> the line end behind it.\<close>

theorem find_header_value:
  assumes "strstr (pre @ header @ CHR '':'' # replicate (Suc b) SP @ v @ CRLF @ r) header = Some (length pre)"
    and "v = [] \<or> hd v \<noteq> SP" and "CR \<notin> set v"
  shows "\<exists>found e. inet_find_http_header (pre @ header @ CHR '':'' # replicate (Suc b) SP @ v @ CRLF @ r) header =
      Some (Some found, Some e) \<and>
    take (e - found) (drop found (pre @ header @ CHR '':'' # replicate (Suc b) SP @ v @ CRLF @ r)) = v"
  using find_header_run [OF assms] by simp

theorem find_header_value_witness:
  "\<exists>found e. inet_find_http_header (''GET /'' @ CRLF @ ''Key:  abc'' @ CRLF) ''Key'' = Some (Some found, Some e) \<and>
     take (e - found) (drop found (''GET /'' @ CRLF @ ''Key:  abc'' @ CRLF)) = ''abc''"
  using find_header_value [of "''GET /'' @ CRLF" "''Key''" 1 "''abc''" "[]"]
  by (simp add: CRLF_def strstr.simps)

text \<open>A field written without a blank behind the colon, which HTTP allows, is not found: the pointer
  answered is NULL.\<close>

theorem find_header_without_blank:
  assumes "strstr (pre @ header @ CHR '':'' # v @ CRLF @ r) header = Some (length pre)"
    and "v \<noteq> []" and "hd v \<noteq> SP" and "CR \<notin> set v"
  shows "inet_find_http_header (pre @ header @ CHR '':'' # v @ CRLF @ r) header = Some (None, None)"
  using find_header_run [of pre header 0 v r] assms by simp

theorem find_header_without_blank_witness:
  "inet_find_http_header (''GET /'' @ CRLF @ ''Key:abc'' @ CRLF) ''Key'' = Some (None, None)"
  using find_header_without_blank [of "''GET /'' @ CRLF" "''Key''" "''abc''" "[]"]
  by (simp add: CRLF_def strstr.simps)

end
