(* ===== verification/Ducq_Ws.thy ===== *)
theory Ducq_Ws
  imports Ducq_Tcp Inet_Ws Inet_Http
begin

text \<open>
  The WebSocket client of \<open>src/ducq_ws.c\<close>: one frame per message, masked by a client and unmasked
  by a server, control frames, the close handshake, and the upgrade of an HTTP connection.

  \<open>buf\<close> is kept as its two parts, the 14 header bytes and the \<open>DUCQ_MSGSZ\<close> bytes behind them; the
  header survives from call to call, as in the code.  None is a store outside the caller's buffer,
  or a failed assertion.
\<close>

section \<open>The client\<close>

text \<open>\<open>ws_state_t\<close>; \<open>_close\<close> stores the opcode \<open>WS_CLOSE\<close> in it, so it is kept as a number.\<close>

definition WS_CONNECTING :: nat where "WS_CONNECTING = 0"
definition WS_OPEN :: nat where "WS_OPEN = 1"
definition WS_FAILED :: nat where "WS_FAILED = 2"
definition WS_CLOSING :: nat where "WS_CLOSING = 3"
definition WS_CLOSED :: nat where "WS_CLOSED = 4"

record ws =
  ws_fd :: int
  ws_reuse :: bool
  ws_id :: string
  ws_hdr :: ws_header
  ws_payload :: "char list"
  ws_st :: nat
  ws_is_client :: bool
  ws_host :: "string option"
  ws_port :: "string option"

definition ws_get_id :: "ws \<Rightarrow> os \<Rightarrow> string \<times> ws" where
  "ws_get_id ws s =
     (if ws_id ws \<noteq> [] then (ws_id ws, ws)
      else
        let (t, n) = snprintf 99 ''WS:'';
            addr = (case snd (inet_socket_tostring (ws_fd ws) False (99 - n) s) of None \<Rightarrow> [] | Some a \<Rightarrow> a)
        in (t @ addr, ws\<lparr>ws_id := t @ addr\<rparr>))"

definition ws_timeout :: "ws \<Rightarrow> nat \<Rightarrow> os \<Rightarrow> ducq_state \<times> os" where
  "ws_timeout ws timeout s =
     (let (rc, s) = inet_set_read_timeout (ws_fd ws) timeout s
      in (if rc \<noteq> 0 then DUCQ_ECOMMLAYER else DUCQ_OK, s))"

definition ws_reuseaddr :: "ws \<Rightarrow> ducq_state \<times> ws" where
  "ws_reuseaddr ws = (DUCQ_OK, ws\<lparr>ws_reuse := True\<rparr>)"

text \<open>What the table of a WebSocket does not implement.\<close>

definition ws_conn :: "ws \<Rightarrow> ducq_state" where [simp]: "ws_conn ws = DUCQ_ENOIMPL"
definition ws_parts :: "ws \<Rightarrow> ducq_state" where [simp]: "ws_parts ws = DUCQ_ENOIMPL"
definition ws_end :: "ws \<Rightarrow> ducq_state" where [simp]: "ws_end ws = DUCQ_ENOIMPL"
definition ws_copy :: "ws \<Rightarrow> ws option" where [simp]: "ws_copy ws = None"

section \<open>Sending and receiving\<close>

definition ws_send :: "ws \<Rightarrow> char list \<Rightarrow> os \<Rightarrow> ducq_state \<times> ws \<times> os" where
  "ws_send ws bs s =
     (let hdr = ws_set_len (ws_hdr ws) (of_nat (length bs));
          hdr = hdr[1 := hdr ! 1 AND NOT WS_MASK];
          ws = ws\<lparr>ws_hdr := hdr\<rparr>
      in if ws_is_client ws \<and> 256 < length bs then (DUCQ_EMSGSIZE, ws, s)
         else
           let (ws, payload) =
                 (if ws_is_client ws then
                    let msk = ws_make_mask (os_time s) s;
                        area = bs @ drop (length bs) (ws_payload ws);
                        area = ws_mask_message msk area (length bs)
                    in (ws\<lparr>ws_hdr := ws_set_msk (ws_hdr ws) msk, ws_payload := area\<rparr>, take (length bs) area)
                  else (ws, bs));
               hdr = ws_hdr ws;
               (n, s) = writen (ws_fd ws) (map char_of_byte (take (ws_get_hdr_len hdr) hdr)) s
           in if n \<noteq> int (ws_get_hdr_len hdr) then (DUCQ_EWRITE, ws, s)
              else
                let (n, s) = writen (ws_fd ws) payload s
                in if n \<noteq> int (length bs) then (DUCQ_EWRITE, ws, s) else (DUCQ_OK, ws, s))"

text \<open>\<open>readn\<close> into the header area at an index; at most 14 bytes are asked for in all.\<close>

definition read_hdr :: "ws \<Rightarrow> nat \<Rightarrow> nat \<Rightarrow> os \<Rightarrow> int \<times> ws \<times> os" where
  "read_hdr ws i n s =
     (let (r, bs, s) = readn_loop (ws_fd ws) n [] s
      in (r, ws\<lparr>ws_hdr := put_at (ws_hdr ws) i (map byte_of bs)\<rparr>, s))"

text \<open>The state, what is left in \<open>*count\<close>, the caller's buffer and the client.  First the part of
  \<open>_recv\<close> behind the length check: get the packet, unmask it, look at the opcode.\<close>

definition ws_recv_packet ::
  "ws \<Rightarrow> char list \<Rightarrow> nat \<Rightarrow> os \<Rightarrow> (ducq_state \<times> nat \<times> char list \<times> ws \<times> os) option" where
  "ws_recv_packet ws buf msg_len s =
     do {
       (n, buf, s) \<leftarrow> readn (ws_fd ws) buf 0 msg_len s;
       let count = nat (n mod 2 ^ 64) in
       if count \<noteq> msg_len then Some (DUCQ_EREAD, count, buf, ws, s)
       else
         let hdr = ws_hdr ws;
             buf = (if \<not> ws_is_client ws
                    then ws_mask_message (mask_at hdr (ws_get_msk hdr)) buf count else buf)
         in do {
           buf \<leftarrow> mem_write buf count [NUL];
           if hdr ! 0 AND WS_OPCODE = WS_CLOSE then
             Some (DUCQ_ECONNCLOSED, count, buf, ws\<lparr>ws_st := WS_CLOSING\<rparr>, s)
           else if hdr ! 0 AND WS_OPCODE = WS_PING then
             let (state, ws, s) = ws_send (ws\<lparr>ws_hdr := hdr[0 := WS_FIN OR WS_PONG]\<rparr>) (take count buf) s
             in Some (if state \<noteq> DUCQ_OK then state else DUCQ_PROTOCOL, count, buf, ws, s)
           else if hdr ! 0 \<noteq> WS_FIN OR WS_TEXT then Some (DUCQ_ENOIMPL, count, buf, ws, s)
           else Some (DUCQ_OK, count, buf, ws, s)
         }
     }"

definition ws_recv ::
  "ws \<Rightarrow> char list \<Rightarrow> nat \<Rightarrow> os \<Rightarrow> (ducq_state \<times> nat \<times> char list \<times> ws \<times> os) option" where
  "ws_recv ws buf count s =
     (let (n, ws, s) = read_hdr ws 0 2 s in
      if n < 2 then Some (DUCQ_EREAD, count, buf, ws, s)
      else
        let hdr_len = ws_get_hdr_len (ws_hdr ws);
            (n, ws, s) = (if 2 < hdr_len then read_hdr ws 2 (hdr_len - 2) s else (0, ws, s))
        in
        if 2 < hdr_len \<and> n < int (hdr_len - 2) then Some (DUCQ_EREAD, count, buf, ws, s)
        else
          let msg_len = unat (ws_get_len (ws_hdr ws)) in
          if count + 1 < msg_len then Some (DUCQ_EMSGSIZE, count, buf, ws, s)
          else ws_recv_packet ws buf msg_len s)"

definition ws_send_text :: "ws \<Rightarrow> char list \<Rightarrow> os \<Rightarrow> ducq_state \<times> ws \<times> os" where
  "ws_send_text ws bs s = ws_send (ws\<lparr>ws_hdr := (ws_hdr ws)[0 := WS_FIN OR WS_TEXT]\<rparr>) bs s"

section \<open>Closing\<close>

text \<open>The wait for the peer: \<open>max_read\<close> is decremented after each read that delivered something.\<close>

function ws_drain :: "ws \<Rightarrow> int \<Rightarrow> os \<Rightarrow> ws \<times> os" where
  "ws_drain ws max_read s =
     (let (n, bs, s) = readn_loop (ws_fd ws) 256 [] s;
          ws = ws\<lparr>ws_payload := bs @ drop (length bs) (ws_payload ws)\<rparr>
      in if n > 0 then
           if max_read < 0 then (ws, s) else ws_drain ws (max_read - 1) s
         else (ws, s))"
  by pat_completeness auto
termination
  by (relation "measure (\<lambda>(ws, max_read, s). nat (max_read + 1))") auto

declare ws_drain.simps [simp del]

definition ws_close :: "ws \<Rightarrow> os \<Rightarrow> ducq_state \<times> ws \<times> os" where
  "ws_close ws s =
     (let we_inited_close = ws_st ws \<noteq> WS_CLOSING;
          status_code = (if \<not> ws_is_client ws \<and> we_inited_close then 1001 else 1000 :: 16 word);
          body = map char_of_byte (le_store 2 (ws_reorder_16 status_code));
          ws = ws\<lparr>ws_hdr := (ws_hdr ws)[0 := WS_FIN OR WS_CLOSE],
                  ws_payload := body @ drop 2 (ws_payload ws)\<rparr>;
          (_, ws, s) = ws_send ws body s;
          (ws, s) =
            (if we_inited_close then
               let s = inet_shutdown_write (ws_fd ws) s;
                   (_, s) = ws_timeout ws 3 s
               in ws_drain ws 3 s
             else (ws, s));
          (_, s) = inet_close (ws_fd ws) s
      in (DUCQ_OK, ws\<lparr>ws_fd := - 1, ws_st := unat WS_CLOSE\<rparr>, s))"

section \<open>Making clients\<close>

definition ducq_new_ws_client :: "string option \<Rightarrow> string option \<Rightarrow> os \<Rightarrow> ws option \<times> os" where
  "ducq_new_ws_client host port s =
     (let (ok, s) = sys_malloc s in
      (if ok then Some \<lparr>ws_fd = - 1, ws_reuse = False, ws_id = [], ws_hdr = replicate 14 0,
         ws_payload = replicate 256 NUL, ws_st = WS_CLOSED, ws_is_client = True, ws_host = host, ws_port = port\<rparr>
       else None, s))"

definition ducq_new_ws_connection :: "int \<Rightarrow> os \<Rightarrow> ws option \<times> os" where
  "ducq_new_ws_connection fd s =
     (let (ok, s) = sys_malloc s in
      (if ok then Some \<lparr>ws_fd = fd, ws_reuse = False, ws_id = [], ws_hdr = replicate 14 0,
         ws_payload = replicate 256 NUL, ws_st = WS_CLOSED, ws_is_client = False, ws_host = None, ws_port = None\<rparr>
       else None, s))"

definition SEC_WEBSOCKET_KEY :: string where
  "SEC_WEBSOCKET_KEY = ''Sec-WebSocket-Key''"

definition ws_upgrade_reply :: "string \<Rightarrow> string" where
  "ws_upgrade_reply accept_key =
     ''HTTP/1.1 101 Switching Protocols'' @ CRLF @ ''Upgrade: websocket'' @ CRLF @
     ''Connection: Upgrade'' @ CRLF @ ''Sec-WebSocket-Accept: '' @ accept_key @ CRLF @ CRLF"

text \<open>The state, the new client, and the array that held the HTTP header.\<close>

definition ducq_new_ws_upgrade_from_http ::
  "int \<Rightarrow> char list \<Rightarrow> os \<Rightarrow> (ducq_state \<times> ws option \<times> char list \<times> os) option" where
  "ducq_new_ws_upgrade_from_http fd http_header s =
     do {
       text \<leftarrow> c_str http_header 0;
       (client_key, e) \<leftarrow> inet_find_http_header text SEC_WEBSOCKET_KEY;
       case client_key of
         None \<Rightarrow> let (_, s) = writen fd HTTP_BAD_REQUEST_400 s in Some (DUCQ_EMSGINV, None, http_header, s)
       | Some key_at \<Rightarrow>
           do {
             end \<leftarrow> e;
             http_header \<leftarrow> mem_write http_header end [NUL];
             key \<leftarrow> c_str http_header key_at;
             (error, accept) \<leftarrow> ws_make_accept_key (Some key) (Some (replicate 29 NUL)) 29;
             if error \<noteq> WS_OK then None
             else
               do {
                 area \<leftarrow> accept;
                 accept_key \<leftarrow> c_str area 0;
                 let (reply, n) = snprintf 256 (ws_upgrade_reply accept_key) in
                 if 256 \<le> n then Some (DUCQ_EMSGSIZE, None, http_header, s)
                 else
                   let (w, s) = writen fd (take n reply) s in
                   if w \<le> 0 then Some (DUCQ_EWRITE, None, http_header, s)
                   else
                     let (ws, s) = ducq_new_ws_connection fd s in
                     case ws of
                       None \<Rightarrow> Some (DUCQ_EMEMFAIL, None, http_header, s)
                     | Some ws \<Rightarrow> Some (DUCQ_PROTOCOL, Some (ws\<lparr>ws_st := WS_OPEN\<rparr>), http_header, s)
               }
           }
     }"

section \<open>Frames\<close>

definition wf_ws :: "ws \<Rightarrow> bool" where
  "wf_ws ws \<longleftrightarrow> length (ws_hdr ws) = 14 \<and> length (ws_payload ws) = 256"

definition ws_frame :: "byte \<Rightarrow> byte list option \<Rightarrow> char list \<Rightarrow> char list" where
  "ws_frame b0 msk m =
     map char_of_byte (rfc_header b0 msk (length m)) @ (case msk of None \<Rightarrow> m | Some k \<Rightarrow> masked k m)"

lemma length_rfc_header:
  "case msk of None \<Rightarrow> True | Some m \<Rightarrow> length m = 4 \<Longrightarrow>
    2 \<le> length (rfc_header b0 msk n) \<and> length (rfc_header b0 msk n) \<le> 14"
  by (cases n rule: rfc_len_cases) (auto simp: rfc_header_Cons split: option.splits)

text \<open>The header length needs only the first two bytes.\<close>

lemma hdr_len_byte1: "h ! 1 = h' ! 1 \<Longrightarrow> ws_get_hdr_len h = ws_get_hdr_len h'"
  by (simp add: ws_get_hdr_len_def)

lemma read_hdr_fluent:
  assumes "fluent (os_in s (ws_fd ws))" and "stream (ws_fd ws) s = map char_of_byte bs @ r" and "n = length bs"
  shows "\<exists>s'. read_hdr ws i n s = (int n, ws\<lparr>ws_hdr := put_at (ws_hdr ws) i bs\<rparr>, s') \<and>
    only_read (ws_fd ws) s s' \<and> fluent (os_in s' (ws_fd ws)) \<and> stream (ws_fd ws) s' = r"
  using readn_fluent [OF assms(1), of n "[]"] assms(2,3)
  by (auto simp: read_hdr_def comp_def)

lemma char_byte_map [simp]: "map byte_of (map char_of_byte bs) = bs"
  by (simp add: comp_def)

lemma ws_recv_header:
  assumes fl: "fluent (os_in s (ws_fd ws))"
    and st: "stream (ws_fd ws) s = map char_of_byte (rfc_header b0 msk n) @ r"
    and n: "n < 2 ^ 64" and wf: "length (ws_hdr ws) = 14"
    and msk: "case msk of None \<Rightarrow> True | Some m \<Rightarrow> length m = 4"
  shows "\<exists>hdr t. encodes hdr b0 msk n \<and> length hdr = 14 \<and> only_read (ws_fd ws) s t \<and>
    fluent (os_in t (ws_fd ws)) \<and> stream (ws_fd ws) t = r \<and>
    (\<forall>buf count. ws_recv ws buf count s =
      (if count + 1 < n then Some (DUCQ_EMSGSIZE, count, buf, ws\<lparr>ws_hdr := hdr\<rparr>, t)
       else ws_recv_packet (ws\<lparr>ws_hdr := hdr\<rparr>) buf n t))"
proof -
  define fd where "fd = ws_fd ws"
  define H where "H = rfc_header b0 msk n"
  define k where "k = length H"
  define hdr where "hdr = H @ drop k (ws_hdr ws)"
  have k: "2 \<le> k" "k \<le> 14"
    using length_rfc_header [OF msk, of b0 n] by (simp_all add: k_def H_def)
  have enc: "encodes hdr b0 msk n" and len: "length hdr = 14"
    using msk n k wf by (auto simp: encodes_def hdr_def H_def k_def)
  have klen: "ws_get_hdr_len hdr = k"
    using encodes_hdr_len [OF enc] by (simp add: k_def H_def)
  define hdr1 where "hdr1 = put_at (ws_hdr ws) 0 (take 2 H)"
  have hdr1: "hdr1 = take 2 H @ drop 2 (ws_hdr ws)"
    using k by (simp add: hdr1_def put_at_def k_def numeral_2_eq_2)
  have "hdr1 ! 1 = hdr ! 1"
    using k by (simp add: hdr1 hdr_def nth_append k_def)
  then have klen1: "ws_get_hdr_len hdr1 = k"
    using hdr_len_byte1 klen by metis
  have "stream fd s = map char_of_byte (take 2 H) @ map char_of_byte (drop 2 H) @ r"
    unfolding fd_def st H_def [symmetric] by (metis append_assoc append_take_drop_id map_append)
  then obtain s1 where s1: "read_hdr ws 0 2 s = (2, ws\<lparr>ws_hdr := hdr1\<rparr>, s1)" "only_read fd s s1"
      "fluent (os_in s1 fd)" "stream fd s1 = map char_of_byte (drop 2 H) @ r"
    using read_hdr_fluent [OF fl, of "take 2 H" _ 2 0] k by (auto simp: fd_def k_def hdr1_def)
  obtain n2 s2 where s2: "(if 2 < k then read_hdr (ws\<lparr>ws_hdr := hdr1\<rparr>) 2 (k - 2) s1
        else (0, ws\<lparr>ws_hdr := hdr1\<rparr>, s1)) = (n2, ws\<lparr>ws_hdr := hdr\<rparr>, s2)" "2 < k \<longrightarrow> n2 = int (k - 2)"
      "only_read fd s1 s2" "fluent (os_in s2 fd)" "stream fd s2 = r"
  proof (cases "2 < k")
    case True
    from le_Suc_ex [OF k(1)] obtain j where "length H = 2 + j"
      by (auto simp: k_def)
    then have "length (take 2 H) = 2" and "drop (length (drop 2 H)) (drop 2 (ws_hdr ws)) = drop k (ws_hdr ws)"
      by (simp_all add: k_def)
    then have "put_at hdr1 2 (drop 2 H) = take 2 H @ drop 2 H @ drop k (ws_hdr ws)"
      using put_at_append [of "take 2 H" "drop 2 (ws_hdr ws)" "drop 2 H"] by (simp only: hdr1)
    then have "put_at hdr1 2 (drop 2 H) = hdr"
      unfolding hdr_def by (metis append_assoc append_take_drop_id)
    then show thesis
      using read_hdr_fluent [of s1 "ws\<lparr>ws_hdr := hdr1\<rparr>" "drop 2 H" r "k - 2" 2] s1 True that
      by (auto simp: fd_def k_def)
  next
    case False
    then have "hdr1 = hdr" and "drop 2 H = []"
      using k by (simp_all add: hdr1 hdr_def k_def)
    then show thesis
      using s1 False that [of 0 s1] by simp
  qed
  have ml: "unat (ws_get_len hdr) = n"
    using encodes_len [OF enc] n by (simp add: unat_of_nat)
  have cmp: "((2::int) < 2) = False" "(2 < k \<and> n2 < int (k - 2)) = False"
    using s2(2) by auto
  have upd: "ws_hdr (ws\<lparr>ws_hdr := h\<rparr>) = h" for h
    by simp
  have "ws_recv ws buf count s =
      (if count + 1 < n then Some (DUCQ_EMSGSIZE, count, buf, ws\<lparr>ws_hdr := hdr\<rparr>, s2)
       else ws_recv_packet (ws\<lparr>ws_hdr := hdr\<rparr>) buf n s2)" for buf count
    by (simp only: ws_recv_def s1(1) Let_def prod.case cmp if_False upd klen1 s2(1) ml)
  then show ?thesis
    using enc len only_read_trans [OF s1(2) s2(3)] s2(4,5) unfolding fd_def by blast
qed

lemma ws_recv_frame:
  assumes fl: "fluent (os_in s (ws_fd ws))"
    and st: "stream (ws_fd ws) s = map char_of_byte (rfc_header b0 msk n) @ data @ r"
    and n: "length data = n" "n \<le> count + 1" "n < length buf" "n < 2 ^ 64"
    and wf: "length (ws_hdr ws) = 14" and msk: "case msk of None \<Rightarrow> ws_is_client ws | Some m \<Rightarrow> length m = 4"
    and body: "body = (case msk of None \<Rightarrow> data | Some m \<Rightarrow> if ws_is_client ws then data else masked m data)"
  shows "\<exists>hdr s'. encodes hdr b0 msk n \<and> length hdr = 14 \<and> only_read (ws_fd ws) s s' \<and>
    fluent (os_in s' (ws_fd ws)) \<and> stream (ws_fd ws) s' = r \<and>
    ws_recv ws buf count s =
      (if b0 AND WS_OPCODE = WS_CLOSE then
         Some (DUCQ_ECONNCLOSED, n, body @ NUL # drop (n + 1) buf, ws\<lparr>ws_hdr := hdr, ws_st := WS_CLOSING\<rparr>, s')
       else if b0 AND WS_OPCODE = WS_PING then
         let (state, ws, s) = ws_send (ws\<lparr>ws_hdr := hdr[0 := WS_FIN OR WS_PONG]\<rparr>) body s'
         in Some (if state \<noteq> DUCQ_OK then state else DUCQ_PROTOCOL, n, body @ NUL # drop (n + 1) buf, ws, s)
       else if b0 \<noteq> WS_FIN OR WS_TEXT then
         Some (DUCQ_ENOIMPL, n, body @ NUL # drop (n + 1) buf, ws\<lparr>ws_hdr := hdr\<rparr>, s')
       else Some (DUCQ_OK, n, body @ NUL # drop (n + 1) buf, ws\<lparr>ws_hdr := hdr\<rparr>, s'))"
proof -
  define fd where "fd = ws_fd ws"
  have msk4: "case msk of None \<Rightarrow> True | Some m \<Rightarrow> length m = 4"
    using msk by (auto split: option.splits)
  obtain hdr s2 where enc: "encodes hdr b0 msk n" and len: "length hdr = 14" and only2: "only_read fd s s2"
    and fl2: "fluent (os_in s2 fd)" and st2: "stream fd s2 = data @ r"
    and run: "ws_recv ws buf count s = ws_recv_packet (ws\<lparr>ws_hdr := hdr\<rparr>) buf n s2"
    using ws_recv_header [OF fl st n(4) wf msk4] n(2) unfolding fd_def by fastforce
  obtain s3 where s3: "readn fd buf 0 n s2 = Some (int n, data @ drop n buf, s3)" "only_read fd s2 s3"
      "fluent (os_in s3 fd)" "stream fd s3 = r"
    using readn_in_buffer [OF fl2, of 0 n buf] st2 n by auto
  have un: "(if \<not> ws_is_client ws then ws_mask_message (mask_at hdr (ws_get_msk hdr)) (data @ drop n buf) n
      else data @ drop n buf) = body @ drop n buf"
    using encodes_mask [of hdr b0 _ n] enc msk body n(1,3)
    by (cases msk) (auto simp: mask_message_masked)
  have lb: "length body = n"
    using body n(1) by (auto split: option.splits)
  then have w: "mem_write (body @ drop n buf) n [NUL] = Some (body @ NUL # drop (n + 1) buf)"
    using n(3) by (simp add: mem_write_def)
  have cnt: "nat (int n mod 2 ^ 64) = n"
    using n(4) by simp
  have tk: "take n (body @ NUL # drop (n + 1) buf) = body"
    using lb by simp
  have h0: "hdr ! 0 = b0"
    using encodes_bits(1) [OF enc] .
  have upd: "ws_hdr (ws\<lparr>ws_hdr := h\<rparr>) = h" "ws_fd (ws\<lparr>ws_hdr := h\<rparr>) = fd" "ws_is_client (ws\<lparr>ws_hdr := h\<rparr>) = ws_is_client ws"
    "ws\<lparr>ws_hdr := hdr\<rparr>\<lparr>ws_hdr := h\<rparr> = ws\<lparr>ws_hdr := h\<rparr>" for h
    by (simp_all add: fd_def)
  note packet = run [unfolded ws_recv_packet_def, unfolded upd s3(1) bind.bind_lunit Let_def prod.case cnt, unfolded un w h0 tk]
  show ?thesis
    unfolding fd_def [symmetric]
    by (rule exI [of _ hdr], rule exI [of _ s3])
       (intro conjI enc len only_read_trans [OF only2 s3(2)] s3(3,4),
        simp only: packet bind.bind_lunit simp_thms if_False upd Let_def tk)
qed

lemma length_make_mask [simp]: "length (ws_make_mask seed s) = 4"
  by (simp add: ws_make_mask_def)

definition ws_send_mask :: "ws \<Rightarrow> os \<Rightarrow> byte list option" where
  "ws_send_mask ws s = (if ws_is_client ws then Some (ws_make_mask (os_time s) s) else None)"

text \<open>Two writes in a row, the second when the first wrote all.\<close>

definition write_both :: "int \<Rightarrow> char list \<Rightarrow> char list \<Rightarrow> 'a \<Rightarrow> os \<Rightarrow> ducq_state \<times> 'a \<times> os" where
  "write_both fd h p w s =
     (let (n, s) = writen fd h s
      in if n \<noteq> int (length h) then (DUCQ_EWRITE, w, s)
         else
           let (n, s) = writen fd p s
           in if n \<noteq> int (length p) then (DUCQ_EWRITE, w, s) else (DUCQ_OK, w, s))"

lemma write_both_cases:
  assumes "write_both fd h p w s = (st, w1, t)"
  shows "w1 = w \<and> (st = DUCQ_OK \<and> only_wrote fd (h @ p) s t \<or>
    st = DUCQ_EWRITE \<and> (\<exists>a b. h @ p = a @ b \<and> b \<noteq> [] \<and> only_wrote fd a s t))"
proof -
  obtain n u where w1: "writen fd h s = (n, u)" by (metis surj_pair)
  obtain n' v where w2: "writen fd p u = (n', v)" by (metis surj_pair)
  have run: "(if n \<noteq> int (length h) then (DUCQ_EWRITE, w, u)
      else if n' \<noteq> int (length p) then (DUCQ_EWRITE, w, v) else (DUCQ_OK, w, v)) = (st, w1, t)"
    using assms unfolding write_both_def w1 Let_def prod.case w2 .
  from writen_cases [OF w1] show ?thesis
  proof (elim disjE conjE exE)
    fix a b assume "n = - 1" "h = a @ b" "b \<noteq> []" "only_wrote fd a s u"
    then show ?thesis
      using run by (intro conjI disjI2 exI [of _ a] exI [of _ "b @ p"]) auto
  next
    assume n: "n = int (length h)" "only_wrote fd h s u"
    from writen_cases [OF w2] show ?thesis
    proof (elim disjE conjE exE)
      assume "n' = int (length p)" "only_wrote fd p u v"
      then show ?thesis
        using run n only_wrote_trans [OF n(2)] by auto
    next
      fix a b assume "n' = - 1" "p = a @ b" "b \<noteq> []" "only_wrote fd a u v"
      then show ?thesis
        using run n only_wrote_trans [OF n(2)]
        by (intro conjI disjI2 exI [of _ "h @ a"] exI [of _ b]) auto
    qed
  qed
qed

lemma write_both_writable:
  assumes "writable (os_wr s fd)"
  shows "\<exists>t. write_both fd h p w s = (DUCQ_OK, w, t) \<and> only_wrote fd (h @ p) s t \<and> writable (os_wr t fd)"
proof -
  obtain u where u: "writen fd h s = (int (length h), u)" "only_wrote fd h s u" "writable (os_wr u fd)"
    using writen_loop_writable [OF assms] unfolding writen_def by blast
  obtain v where v: "writen fd p u = (int (length p), v)" "only_wrote fd p u v" "writable (os_wr v fd)"
    using writen_loop_writable [OF u(3)] unfolding writen_def by blast
  show ?thesis
    using u v only_wrote_trans [OF u(2) v(2)] by (simp add: write_both_def)
qed

text \<open>What \<open>ws_send\<close> does before it writes: the header area then starts with the frame's header.\<close>

lemma ws_send_prepared:
  fixes s :: os
  assumes wf: "wf_ws ws" and len: "length bs < 2 ^ 64" and fits: "ws_is_client ws \<longrightarrow> length bs \<le> 256"
  defines "msk \<equiv> ws_send_mask ws s"
  defines "h \<equiv> map char_of_byte (rfc_header (ws_hdr ws ! 0) msk (length bs))"
  defines "p \<equiv> (case msk of None \<Rightarrow> bs | Some m \<Rightarrow> masked m bs)"
  shows "\<exists>ws'. wf_ws ws' \<and> encodes (ws_hdr ws') (ws_hdr ws ! 0) msk (length bs) \<and>
    ws_fd ws' = ws_fd ws \<and> ws_is_client ws' = ws_is_client ws \<and> ws_st ws' = ws_st ws \<and> ws_id ws' = ws_id ws \<and>
    ws_send ws bs s = write_both (ws_fd ws) h p ws' s"
proof -
  define b0 where "b0 = ws_hdr ws ! 0"
  have l14: "length (ws_hdr ws) = 14" "length (ws_payload ws) = 256"
    using wf by (simp_all add: wf_ws_def)
  define hdr0 where "hdr0 = ws_set_len (ws_hdr ws) (of_nat (length bs))"
  define hdr1 where "hdr1 = hdr0[1 := hdr0 ! 1 AND NOT WS_MASK]"
  have un: "unat (of_nat (length bs) :: 64 word) = length bs"
    using len by (simp add: unat_of_nat)
  obtain m0 where e0: "encodes hdr0 b0 m0 (length bs)" "length hdr0 = 14"
    using set_len_encodes [OF l14(1), of "of_nat (length bs)"] unfolding un hdr0_def b0_def by blast
  have e1: "encodes hdr1 b0 None (length bs)" "length hdr1 = 14"
    using clear_msk_encodes [OF e0] e0(2) by (simp_all add: hdr1_def)
  have lh: "int (ws_get_hdr_len hdr) = int (length (rfc_header b0 mm (length bs)))"
      "map char_of_byte (take (ws_get_hdr_len hdr) hdr) = map char_of_byte (rfc_header b0 mm (length bs))"
    if "encodes hdr b0 mm (length bs)" for hdr mm
    using encodes_hdr_len [OF that] that by (auto simp: encodes_def)
  show ?thesis
  proof (cases "ws_is_client ws")
    case True
    define m where "m = ws_make_mask (os_time s) s"
    have mm: "msk = Some m"
      using True by (simp add: msk_def ws_send_mask_def m_def)
    have e2: "encodes (ws_set_msk hdr1 m) b0 msk (length bs)" "length (ws_set_msk hdr1 m) = 14"
      using set_msk_encodes [OF e1, of m] by (simp_all add: m_def mm)
    define area where "area = ws_mask_message m (bs @ drop (length bs) (ws_payload ws)) (length bs)"
    have area: "take (length bs) area = masked m bs" "length area = 256"
      using True fits l14(2) by (simp_all add: area_def mask_message_masked)
    define ws' where "ws' = ws\<lparr>ws_hdr := ws_set_msk hdr1 m, ws_payload := area\<rparr>"
    have "ws_send ws bs s = write_both (ws_fd ws) h p ws' s"
      using True fits lh [OF e2(1)] area(1)
      unfolding ws_send_def Let_def hdr0_def [symmetric] hdr1_def [symmetric] m_def [symmetric]
      by (simp add: area_def [symmetric] write_both_def ws'_def h_def p_def mm b0_def Let_def cong: if_cong)
    moreover have "wf_ws ws'"
      using e2(2) area(2) by (simp add: wf_ws_def ws'_def)
    ultimately show ?thesis
      using e2(1) by (intro exI [of _ ws']) (simp add: ws'_def b0_def)
  next
    case False
    have mm: "msk = None"
      using False by (simp add: msk_def ws_send_mask_def)
    define ws' where "ws' = ws\<lparr>ws_hdr := hdr1\<rparr>"
    have "ws_send ws bs s = write_both (ws_fd ws) h p ws' s"
      using False lh [OF e1(1)]
      unfolding ws_send_def Let_def hdr0_def [symmetric] hdr1_def [symmetric]
      by (simp add: write_both_def ws'_def h_def p_def mm b0_def Let_def cong: if_cong)
    moreover have "wf_ws ws'"
      using e1(2) l14(2) by (simp add: wf_ws_def ws'_def)
    ultimately show ?thesis
      using e1(1) mm by (intro exI [of _ ws']) (simp add: ws'_def b0_def)
  qed
qed

lemma ws_send_cases:
  assumes "wf_ws ws" and "length bs < 2 ^ 64" and "ws_is_client ws \<longrightarrow> length bs \<le> 256"
    and run: "ws_send ws bs s = (st, ws', t)"
  shows "wf_ws ws' \<and> ws_fd ws' = ws_fd ws \<and> ws_is_client ws' = ws_is_client ws \<and> ws_st ws' = ws_st ws \<and>
    ws_id ws' = ws_id ws \<and>
    (st = DUCQ_OK \<and> only_wrote (ws_fd ws) (ws_frame (ws_hdr ws ! 0) (ws_send_mask ws s) bs) s t \<or>
     st = DUCQ_EWRITE \<and> (\<exists>a b. ws_frame (ws_hdr ws ! 0) (ws_send_mask ws s) bs = a @ b \<and> b \<noteq> [] \<and>
       only_wrote (ws_fd ws) a s t))"
proof -
  define h where "h = map char_of_byte (rfc_header (ws_hdr ws ! 0) (ws_send_mask ws s) (length bs))"
  define p where "p = (case ws_send_mask ws s of None \<Rightarrow> bs | Some m \<Rightarrow> masked m bs)"
  obtain w where w: "wf_ws w" "ws_fd w = ws_fd ws" "ws_is_client w = ws_is_client ws" "ws_st w = ws_st ws"
    "ws_id w = ws_id ws" and eq: "ws_send ws bs s = write_both (ws_fd ws) h p w s"
    using ws_send_prepared [OF assms(1-3), of s] unfolding h_def p_def by blast
  have "ws_frame (ws_hdr ws ! 0) (ws_send_mask ws s) bs = h @ p"
    by (simp add: ws_frame_def h_def p_def)
  then show ?thesis
    using w write_both_cases [of "ws_fd ws" h p w s st ws' t] run unfolding eq by auto
qed

lemma ws_send_writable:
  assumes "wf_ws ws" and "length bs < 2 ^ 64" and "ws_is_client ws \<longrightarrow> length bs \<le> 256"
    and "writable (os_wr s (ws_fd ws))"
  shows "\<exists>ws' t. ws_send ws bs s = (DUCQ_OK, ws', t) \<and> writable (os_wr t (ws_fd ws)) \<and>
    only_wrote (ws_fd ws) (ws_frame (ws_hdr ws ! 0) (ws_send_mask ws s) bs) s t"
proof -
  define h where "h = map char_of_byte (rfc_header (ws_hdr ws ! 0) (ws_send_mask ws s) (length bs))"
  define p where "p = (case ws_send_mask ws s of None \<Rightarrow> bs | Some m \<Rightarrow> masked m bs)"
  obtain w where eq: "ws_send ws bs s = write_both (ws_fd ws) h p w s"
    using ws_send_prepared [OF assms(1-3), of s] unfolding h_def p_def by blast
  have "ws_frame (ws_hdr ws ! 0) (ws_send_mask ws s) bs = h @ p"
    by (simp add: ws_frame_def h_def p_def)
  then show ?thesis
    using write_both_writable [OF assms(4), of h p w] unfolding eq by auto
qed

section \<open>The framed transport over WebSocket\<close>

text \<open>The server's side: masked text frames, received into a buffer of \<open>DUCQ_MSGSZ\<close> bytes.  The client
  object changes with every call, so it is part of the state.\<close>

definition ws_recv_msg :: "ws \<times> os \<Rightarrow> (char list \<times> ws \<times> os) option" where
  "ws_recv_msg = (\<lambda>(ws, s).
     do {
       (state, n, buf, ws, s) \<leftarrow> ws_recv ws (replicate 256 NUL) 256 s;
       if state = DUCQ_OK then Some (take n buf, ws, s) else None
     })"

definition ws_text_frame :: "byte list \<Rightarrow> char list \<Rightarrow> char list" where
  "ws_text_frame msk m = ws_frame (WS_FIN OR WS_TEXT) (Some msk) m"

definition ws_ready :: "ws \<times> os \<Rightarrow> bool" where
  "ws_ready = (\<lambda>(ws, s). wf_ws ws \<and> \<not> ws_is_client ws \<and> fluent (os_in s (ws_fd ws)))"

definition ws_pending :: "ws \<times> os \<Rightarrow> char list" where
  "ws_pending = (\<lambda>(ws, s). stream (ws_fd ws) s)"

lemma opcode_text: "(WS_FIN OR WS_TEXT) AND WS_OPCODE \<noteq> WS_CLOSE" "(WS_FIN OR WS_TEXT) AND WS_OPCODE \<noteq> WS_PING"
  by (simp_all add: WS_FIN_def WS_TEXT_def WS_OPCODE_def WS_CLOSE_def WS_PING_def)

definition ws_frames :: "char list \<Rightarrow> char list \<Rightarrow> bool" where
  "ws_frames m f \<longleftrightarrow> length m < 256 \<and> (\<exists>msk. length msk = 4 \<and> f = ws_text_frame msk m)"

lemma ws_recv_text:
  assumes "wf_ws ws" and "fluent (os_in s (ws_fd ws))" and "length m < length buf" and "length m \<le> count + 1"
    and "length m < 2 ^ 64" and "case msk of None \<Rightarrow> ws_is_client ws | Some k \<Rightarrow> \<not> ws_is_client ws \<and> length k = 4"
    and "stream (ws_fd ws) s = ws_frame (WS_FIN OR WS_TEXT) msk m @ r"
  shows "\<exists>hdr s'. ws_recv ws buf count s =
      Some (DUCQ_OK, length m, m @ NUL # drop (length m + 1) buf, ws\<lparr>ws_hdr := hdr\<rparr>, s') \<and>
    length hdr = 14 \<and> only_read (ws_fd ws) s s' \<and> fluent (os_in s' (ws_fd ws)) \<and> stream (ws_fd ws) s' = r"
proof -
  define data where "data = (case msk of None \<Rightarrow> m | Some k \<Rightarrow> masked k m)"
  have st: "stream (ws_fd ws) s = map char_of_byte (rfc_header (WS_FIN OR WS_TEXT) msk (length m)) @ data @ r"
    using assms(7) by (simp add: ws_frame_def data_def)
  have l: "length data = length m"
    by (simp add: data_def split: option.splits)
  have mk: "case msk of None \<Rightarrow> ws_is_client ws | Some k \<Rightarrow> length k = 4"
    using assms(6) by (auto split: option.splits)
  have body: "m = (case msk of None \<Rightarrow> data | Some k \<Rightarrow> if ws_is_client ws then data else masked k data)"
    using assms(6) by (auto simp: data_def split: option.splits)
  have wf: "length (ws_hdr ws) = 14"
    using assms(1) by (simp add: wf_ws_def)
  show ?thesis
    using ws_recv_frame [OF assms(2) st l assms(4,3,5) wf mk body] opcode_text by auto
qed

interpretation ws: framing ws_frames ws_recv_msg ws_pending ws_ready
proof unfold_locales
  fix st :: "ws \<times> os" and m f r :: "char list"
  assume a: "ws_ready st" "ws_frames m f" "ws_pending st = f @ r"
  obtain ws s where st: "st = (ws, s)" by (cases st)
  obtain k where k: "length k = 4" "f = ws_frame (WS_FIN OR WS_TEXT) (Some k) m" "length m < 256"
    using a(2) by (auto simp: ws_frames_def ws_text_frame_def)
  have "wf_ws ws" "fluent (os_in s (ws_fd ws))" "\<not> ws_is_client ws"
    using a(1) by (simp_all add: ws_ready_def st)
  moreover have "stream (ws_fd ws) s = ws_frame (WS_FIN OR WS_TEXT) (Some k) m @ r"
    using a(3) k(2) by (simp add: ws_pending_def st)
  ultimately obtain hdr s' where "ws_recv ws (replicate 256 NUL) 256 s =
        Some (DUCQ_OK, length m, m @ NUL # drop (length m + 1) (replicate 256 NUL), ws\<lparr>ws_hdr := hdr\<rparr>, s')"
      "length hdr = 14" "fluent (os_in s' (ws_fd ws))" "stream (ws_fd ws) s' = r"
    using ws_recv_text [of ws s m "replicate 256 NUL" 256 "Some k" r] k by auto
  then show "\<exists>s'. ws_recv_msg st = Some (m, s') \<and> ws_ready s' \<and> ws_pending s' = r"
    using a(1) by (auto simp: ws_recv_msg_def ws_ready_def ws_pending_def wf_ws_def st)
qed

section \<open>Properties\<close>

text \<open>C20: A text message sent by one end is received unchanged by the other end, from client to server
  with any mask the client draws and from server to client without one, in every fragmentation, for
  every length up to the receiver's buffer less the terminator.\<close>

theorem ws_send_recv_roundtrip:
  assumes "wf_ws a" and "wf_ws b" and "ws_is_client a \<noteq> ws_is_client b"
    and "writable (os_wr s (ws_fd a))" and "fluent (os_in t (ws_fd b))"
    and "length m \<le> 256" and "length m < length buf" and "length m \<le> count"
    and "stream (ws_fd b) t =
      drop (length (os_out s (ws_fd a))) (os_out (snd (snd (ws_send_text a m s))) (ws_fd a)) @ r"
  shows "(\<exists>a' s'. ws_send_text a m s = (DUCQ_OK, a', s')) \<and>
    (\<exists>b' t'. ws_recv b buf count t = Some (DUCQ_OK, length m, m @ NUL # drop (length m + 1) buf, b', t') \<and>
      fluent (os_in t' (ws_fd b)) \<and> stream (ws_fd b) t' = r)"
proof -
  define a0 where "a0 = a\<lparr>ws_hdr := (ws_hdr a)[0 := WS_FIN OR WS_TEXT]\<rparr>"
  have a0: "wf_ws a0" "ws_hdr a0 ! 0 = WS_FIN OR WS_TEXT" "ws_fd a0 = ws_fd a" "ws_is_client a0 = ws_is_client a"
    using assms(1) by (auto simp: a0_def wf_ws_def)
  obtain a' s' where s': "ws_send a0 m s = (DUCQ_OK, a', s')"
      "only_wrote (ws_fd a) (ws_frame (WS_FIN OR WS_TEXT) (ws_send_mask a0 s) m) s s'"
    using ws_send_writable [of a0 m s] a0 assms(4,6) by auto
  have sent: "\<exists>a' s'. ws_send_text a m s = (DUCQ_OK, a', s')"
    using s'(1) by (simp add: ws_send_text_def a0_def)
  have st: "stream (ws_fd b) t = ws_frame (WS_FIN OR WS_TEXT) (ws_send_mask a0 s) m @ r"
    using assms(9) s' only_wroteD(1) [OF s'(2)] by (simp add: ws_send_text_def a0_def)
  have msk: "case ws_send_mask a0 s of None \<Rightarrow> ws_is_client b | Some k \<Rightarrow> \<not> ws_is_client b \<and> length k = 4"
    using assms(3) a0(4) by (simp add: ws_send_mask_def)
  have len: "length m \<le> count + 1" "length m < 2 ^ 64"
    using assms(6,8) by simp_all
  show ?thesis
    using sent ws_recv_text [OF assms(2,5,7) len msk st] by blast
qed

definition server_ws :: ws where
  "server_ws = \<lparr>ws_fd = 5, ws_reuse = False, ws_id = [], ws_hdr = replicate 14 0,
     ws_payload = replicate 256 NUL, ws_st = 1, ws_is_client = False, ws_host = None, ws_port = None\<rparr>"

definition client_ws :: ws where
  "client_ws = server_ws\<lparr>ws_is_client := True, ws_fd := 6\<rparr>"

theorem ws_send_recv_roundtrip_witness:
  "\<exists>t b' t'. ws_recv server_ws (replicate 9 NUL) 8 t =
     Some (DUCQ_OK, length ''hello'', ''hello'' @ NUL # drop 6 (replicate 9 NUL), b', t')"
proof -
  define sent where "sent = os_out (snd (snd (ws_send_text client_ws ''hello'' quiet_os))) (ws_fd client_ws)"
  define t where "t = quiet_os\<lparr>os_in := (\<lambda>_. map (\<lambda>c. RData [c]) sent)\<rparr>"
  have wf: "wf_ws client_ws" "wf_ws server_ws" "ws_is_client client_ws \<noteq> ws_is_client server_ws"
    by (simp_all add: wf_ws_def server_ws_def client_ws_def)
  have one: "fluent (map (\<lambda>c. RData [c]) cs) \<and> rd_bytes (map (\<lambda>c. RData [c]) cs) = cs" for cs
    by (induction cs) simp_all
  have os: "writable (os_wr quiet_os (ws_fd client_ws))" "fluent (os_in t (ws_fd server_ws))"
    "os_out quiet_os (ws_fd client_ws) = []"
    using one by (simp_all add: t_def quiet_os_def)
  have st: "stream (ws_fd server_ws) t = drop (length (os_out quiet_os (ws_fd client_ws))) sent @ []"
    using one by (simp add: stream_def t_def os(3))
  show ?thesis
    using ws_send_recv_roundtrip [OF wf os(1,2) _ _ _ st [unfolded sent_def], of "replicate 9 NUL" 8] by auto
qed

text \<open>C17: A stream of masked text frames, each with a mask of its own, is received as the sequence of its
  messages, and what is behind the last frame stays.\<close>

theorem ws_messages_in_order:
  assumes "wf_ws b" and "\<not> ws_is_client b" and "fluent (os_in s (ws_fd b))"
    and "list_all2 ws_frames ms fs" and "stream (ws_fd b) s = concat fs @ r"
  shows "\<exists>b' s'. receive_many ws_recv_msg (length ms) (b, s) = Some (ms, b', s') \<and> stream (ws_fd b') s' = r"
  using ws.recv_frames [OF assms(4), of "(b, s)" r] assms(1-3,5)
  by (auto simp: ws_ready_def ws_pending_def)

theorem ws_messages_in_order_witness:
  "\<exists>b' s'. receive_many ws_recv_msg (length [''hi'']) (server_ws,
     quiet_os\<lparr>os_in := (\<lambda>_. [RData (ws_text_frame [1, 2, 3, 4] ''hi''), RErr EINTR, RData ''x''])\<rparr>) = Some ([''hi''], b', s') \<and>
   stream (ws_fd b') s' = ''x''"
proof -
  have ne: "ws_text_frame [1, 2, 3, 4] ''hi'' \<noteq> []"
    by (simp add: ws_text_frame_def ws_frame_def rfc_header_Cons)
  have fr: "ws_frames ''hi'' (ws_text_frame [1, 2, 3, 4] ''hi'')"
    unfolding ws_frames_def by (intro conjI exI [of _ "[1, 2, 3, 4]"]) simp_all
  show ?thesis
    using ws_messages_in_order [of server_ws
        "quiet_os\<lparr>os_in := (\<lambda>_. [RData (ws_text_frame [1, 2, 3, 4] ''hi''), RErr EINTR, RData ''x''])\<rparr>"
        "[''hi'']" "[ws_text_frame [1, 2, 3, 4] ''hi'']" "''x''"] ne fr
    by (auto simp: server_ws_def wf_ws_def stream_def)
qed

lemma read_hdr_client:
  "read_hdr ws i n s = (r, ws', s') \<Longrightarrow> i + n \<le> 14 \<Longrightarrow> length (ws_hdr ws) = 14 \<Longrightarrow>
    length (ws_hdr ws') = 14 \<and> ws_fd ws' = ws_fd ws \<and> ws_is_client ws' = ws_is_client ws"
  using readn_loop_bounds [of "ws_fd ws" n "[]" s]
  by (auto simp: read_hdr_def split: prod.splits)

lemma ws_get_hdr_len_le: "ws_get_hdr_len hdr \<le> 14"
  by (simp add: ws_get_hdr_len_def Let_def)

lemma ws_recv_packet_defined:
  assumes "n + 1 \<le> length buf"
  shows "ws_recv_packet ws buf n s \<noteq> None"
proof -
  obtain r bs s' where r: "readn (ws_fd ws) buf 0 n s = Some (r, bs @ drop (length bs) buf, s')"
    and lb: "length bs \<le> n"
    using readn_fits [of 0 n buf "ws_fd ws" s] assms by auto
  define b where "b = bs @ drop (length bs) buf"
  have b: "length b = length buf" using lb assms by (simp add: b_def)
  define b2 where "b2 = (if \<not> ws_is_client ws
      then ws_mask_message (mask_at (ws_hdr ws) (ws_get_msk (ws_hdr ws))) b n else b)"
  have "length b2 = length buf"
    using b assms by (simp add: b2_def mask_message_masked)
  then obtain b3 where b3: "mem_write b2 n [NUL] = Some b3"
    using assms by (simp add: mem_write_def)
  show ?thesis
  proof (cases "nat (r mod 2 ^ 64) = n")
    case True
    show ?thesis
      unfolding ws_recv_packet_def r b_def [symmetric] bind.bind_lunit prod.case Let_def True
        b2_def [symmetric] b3
      by (auto split: prod.splits)
  next
    case False
    then show ?thesis
      unfolding ws_recv_packet_def r by simp
  qed
qed

text \<open>C40: Memory safety of _recv: with two bytes to spare behind the announced size, no script of the
  network makes it store outside the buffer.  One byte, the terminator's, is not enough: a frame
  of a length between the buffer's and the announced size plus one overflows it.\<close>

theorem ws_recv_bounds:
  assumes "wf_ws w"
  shows "(count + 2 \<le> length buf \<longrightarrow> ws_recv w buf count s \<noteq> None) \<and>
    (fluent (os_in s (ws_fd w)) \<and> length k = 4 \<and> stream (ws_fd w) s = ws_frame b0 (Some k) m @ r \<and>
      length buf \<le> length m \<and> length m \<le> count + 1 \<and> length m < 2 ^ 64 \<longrightarrow>
      ws_recv w buf count s = None)"
proof (intro conjI impI)
  assume cnt: "count + 2 \<le> length buf"
  obtain n w1 s1 where r1: "read_hdr w 0 2 s = (n, w1, s1)" by (metis prod_cases3)
  define h where "h = ws_get_hdr_len (ws_hdr w1)"
  obtain n2 w2 s2 where r2: "(if 2 < h then read_hdr w1 2 (h - 2) s1 else (0, w1, s1)) = (n2, w2, s2)"
    by (metis prod_cases3)
  have "ws_recv_packet w2 buf k s2 \<noteq> None" if "k \<le> count + 1" for k
    using that cnt by (intro ws_recv_packet_defined) simp
  then show "ws_recv w buf count s \<noteq> None"
    unfolding ws_recv_def r1 Let_def prod.case h_def [symmetric] r2 by auto
next
  assume "fluent (os_in s (ws_fd w)) \<and> length k = 4 \<and> stream (ws_fd w) s = ws_frame b0 (Some k) m @ r \<and>
      length buf \<le> length m \<and> length m \<le> count + 1 \<and> length m < 2 ^ 64"
  with assms have a: "wf_ws w" "fluent (os_in s (ws_fd w))" "length k = 4"
      "stream (ws_fd w) s = ws_frame b0 (Some k) m @ r" "length buf \<le> length m"
      "length m \<le> count + 1" "length m < 2 ^ 64"
    by simp_all
  have st: "stream (ws_fd w) s = map char_of_byte (rfc_header b0 (Some k) (length m)) @ masked k m @ r"
    using a(4) by (simp add: ws_frame_def)
  obtain hdr t where t: "fluent (os_in t (ws_fd w))" "stream (ws_fd w) t = masked k m @ r"
      "ws_recv w buf count s = ws_recv_packet (w\<lparr>ws_hdr := hdr\<rparr>) buf (length m) t"
    using ws_recv_header [OF a(2) st a(7)] a(1,3,6) by (fastforce simp: wf_ws_def)
  obtain t' where "readn_loop (ws_fd w) (length m) [] t = (int (length m), masked k m, t')"
    using readn_fluent [OF t(1), of "length m" "[]"] t(2) by auto
  then have "readn (ws_fd w) buf 0 (length m) t =
      (if length buf < length m then None else Some (int (length m), masked k m, t'))"
    using a(5) by (auto simp: readn_eq mem_write_def)
  then have "ws_recv_packet (w\<lparr>ws_hdr := hdr\<rparr>) buf (length m) t = None"
    using a(5,7) by (auto simp: ws_recv_packet_def Let_def mem_write_def mask_message_masked split: if_splits)
  then show "ws_recv w buf count s = None"
    using t(3) by simp
qed

theorem ws_recv_bounds_witness:
  "ws_recv server_ws ''....'' 2 quiet_os \<noteq> None \<and>
   ws_recv server_ws ''....'' 4 (quiet_os\<lparr>os_in := (\<lambda>_. [RData (ws_frame 0x81 (Some [1, 2, 3, 4]) ''hello'')])\<rparr>) = None"
proof -
  have ne: "ws_frame 0x81 (Some [1, 2, 3, 4]) ''hello'' \<noteq> []"
    by (simp add: ws_frame_def rfc_header_Cons)
  show ?thesis
    using ws_recv_bounds [of server_ws 2 "''....''" quiet_os] ne
      ws_recv_bounds [of server_ws 4 "''....''" "quiet_os\<lparr>os_in := (\<lambda>_. [RData (ws_frame 0x81 (Some [1, 2, 3, 4]) ''hello'')])\<rparr>"
        "[1, 2, 3, 4]" "0x81" "''hello''" "[]"]
    by (simp add: server_ws_def wf_ws_def stream_def)
qed

text \<open>Control frames at a server: a PING is answered by one PONG frame with the same payload and
  reported as protocol traffic, a CLOSE moves the client to the closing state and is reported as a closed
  connection, every frame that is not an unfragmented text is refused; the payload is unmasked in the
  caller's buffer in each case.\<close>

theorem ws_control_frames:
  assumes "wf_ws w" and "\<not> ws_is_client w" and "fluent (os_in s (ws_fd w))" and "writable (os_wr s (ws_fd w))"
    and "length k = 4" and "stream (ws_fd w) s = ws_frame b0 (Some k) m @ r"
    and "length m < length buf" and "length m \<le> count + 1" and "length m < 2 ^ 64"
    and "b0 \<noteq> WS_FIN OR WS_TEXT"
  shows "\<exists>st w' s'. ws_recv w buf count s = Some (st, length m, m @ NUL # drop (length m + 1) buf, w', s') \<and>
    (if b0 AND WS_OPCODE = WS_CLOSE then
       st = DUCQ_ECONNCLOSED \<and> ws_st w' = WS_CLOSING \<and> os_out s' = os_out s
     else if b0 AND WS_OPCODE = WS_PING then
       st = DUCQ_PROTOCOL \<and> ws_st w' = ws_st w \<and>
       os_out s' (ws_fd w) = os_out s (ws_fd w) @ ws_frame (WS_FIN OR WS_PONG) None m
     else st = DUCQ_ENOIMPL \<and> ws_st w' = ws_st w \<and> os_out s' = os_out s)"
proof -
  have st: "stream (ws_fd w) s = map char_of_byte (rfc_header b0 (Some k) (length m)) @ masked k m @ r"
    using assms(6) by (simp add: ws_frame_def)
  have body: "m = (case Some k of None \<Rightarrow> masked k m | Some j \<Rightarrow> if ws_is_client w then masked k m else masked j (masked k m))"
    using assms(2) by simp
  have "length (ws_hdr w) = 14" and mk: "case Some k of None \<Rightarrow> ws_is_client w | Some j \<Rightarrow> length j = 4"
    using assms(1,5) by (simp_all add: wf_ws_def)
  from ws_recv_frame [OF assms(3) st _ assms(8,7,9) this body] obtain hdr t where
    t: "length hdr = 14" "only_read (ws_fd w) s t" and
    run: "ws_recv w buf count s =
      (if b0 AND WS_OPCODE = WS_CLOSE then
         Some (DUCQ_ECONNCLOSED, length m, m @ NUL # drop (length m + 1) buf, w\<lparr>ws_hdr := hdr, ws_st := WS_CLOSING\<rparr>, t)
       else if b0 AND WS_OPCODE = WS_PING then
         let (state, ws, s) = ws_send (w\<lparr>ws_hdr := hdr[0 := WS_FIN OR WS_PONG]\<rparr>) m t
         in Some (if state \<noteq> DUCQ_OK then state else DUCQ_PROTOCOL, length m, m @ NUL # drop (length m + 1) buf, ws, s)
       else Some (DUCQ_ENOIMPL, length m, m @ NUL # drop (length m + 1) buf, w\<lparr>ws_hdr := hdr\<rparr>, t))"
    using assms(10) by auto
  define w1 where "w1 = w\<lparr>ws_hdr := hdr[0 := WS_FIN OR WS_PONG]\<rparr>"
  have w1: "wf_ws w1" "ws_hdr w1 ! 0 = WS_FIN OR WS_PONG" "ws_fd w1 = ws_fd w" "\<not> ws_is_client w1"
      "ws_send_mask w1 t = None" "ws_st w1 = ws_st w"
    using assms(1,2) t(1) by (auto simp: w1_def wf_ws_def ws_send_mask_def)
  have "os_wr t = os_wr s" "os_out t = os_out s"
    using only_readD [OF t(2)] by simp_all
  then obtain w2 u where u: "ws_send w1 m t = (DUCQ_OK, w2, u)"
      "only_wrote (ws_fd w) (ws_frame (WS_FIN OR WS_PONG) None m) t u"
    using ws_send_writable [of w1 m t] w1 assms(4,9) by auto
  moreover have "ws_st w2 = ws_st w"
    using ws_send_cases [OF w1(1) assms(9) _ u(1)] w1(4,6) by simp
  ultimately show ?thesis
    using run only_wroteD(1) [OF u(2)] \<open>os_out t = os_out s\<close> unfolding w1_def by auto
qed

theorem ws_control_frames_witness:
  "\<exists>w' s'. ws_recv server_ws ''....'' 2 (quiet_os\<lparr>os_in := (\<lambda>_. [RData (ws_frame 0x89 (Some [1, 2, 3, 4]) ''hi'')])\<rparr>) =
     Some (DUCQ_PROTOCOL, length ''hi'', ''hi'' @ NUL # drop (length ''hi'' + 1) ''....'', w', s') \<and>
     os_out s' 5 = ws_frame (WS_FIN OR WS_PONG) None ''hi''"
proof -
  have ne: "ws_frame 0x89 (Some [1, 2, 3, 4]) ''hi'' \<noteq> []"
    by (simp add: ws_frame_def rfc_header_Cons)
  define s where "s = quiet_os\<lparr>os_in := (\<lambda>_. [RData (ws_frame 0x89 (Some [1, 2, 3, 4]) ''hi'')])\<rparr>"
  have s: "fluent (os_in s (ws_fd server_ws))" "writable (os_wr s (ws_fd server_ws))"
      "stream (ws_fd server_ws) s = ws_frame 0x89 (Some [1, 2, 3, 4]) ''hi'' @ []" "os_out s 5 = []"
      "wf_ws server_ws" "\<not> ws_is_client server_ws" "ws_fd server_ws = 5"
    using ne by (simp_all add: s_def quiet_os_def stream_def server_ws_def wf_ws_def)
  have op: "0x89 AND WS_OPCODE \<noteq> WS_CLOSE" "0x89 AND WS_OPCODE = WS_PING" "0x89 \<noteq> WS_FIN OR WS_TEXT"
    by (simp_all add: WS_OPCODE_def WS_CLOSE_def WS_PING_def WS_FIN_def WS_TEXT_def)
  show ?thesis
    using ws_control_frames [OF s(5,6,1,2) _ s(3), of "''....''" 2] op s(4,7) unfolding s_def [symmetric] by auto
qed

section \<open>The close handshake\<close>

lemma ws_drain_props:
  "ws_drain w k s = (w', s') \<Longrightarrow> only_read (ws_fd w) s s' \<and> ws_fd w' = ws_fd w"
proof (induction w k s rule: ws_drain.induct)
  case (1 w k s)
  obtain n bs t where rd: "readn_loop (ws_fd w) 256 [] s = (n, bs, t)" by (metis prod_cases3)
  define w1 where "w1 = w\<lparr>ws_payload := bs @ drop (length bs) (ws_payload w)\<rparr>"
  have w1: "ws_fd w1 = ws_fd w" by (simp add: w1_def)
  note only = readn_loop_only [OF rd]
  have step: "ws_drain w k s = (if n > 0 then if k < 0 then (w1, t) else ws_drain w1 (k - 1) t else (w1, t))"
    by (subst ws_drain.simps) (simp add: rd w1_def)
  show ?case
  proof (cases "n > 0 \<and> \<not> k < 0")
    case True
    then have "ws_drain w1 (k - 1) t = (w', s')"
      using "1.prems" step by simp
    then show ?thesis
      using "1.IH" [OF rd [symmetric] refl refl w1_def] True only w1 by (auto intro: only_read_trans)
  next
    case False
    then show ?thesis
      using "1.prems" step only w1 by (auto split: if_splits)
  qed
qed

lemma opcode_close: "be_store 2 1001 = [0x03, 0xE9]" "be_store 2 1000 = [0x03, 0xE8]"
  by (simp_all add: be_store_def upt_rec)

lemma status_chars: "char_of (3::nat) = CHR 0x03" "char_of (232::nat) = CHR 0xE8" "char_of (233::nat) = CHR 0xE9"
  by code_simp+

text \<open>Closing: one CLOSE frame with the status code (1001 from a server that starts the close, 1000
  otherwise), then, when this side starts it, the write side is shut down and the peer is drained under a
  time limit of three seconds, and in every case the descriptor is closed and forgotten.  The state
  stored is the opcode 8 and not \<open>WS_CLOSED\<close>, so a second close sends again.\<close>

theorem ws_close_handshake:
  assumes "wf_ws w" and "writable (os_wr s (ws_fd w))"
  shows "\<exists>w' s'. ws_close w s = (DUCQ_OK, w', s') \<and> ws_fd w' = - 1 \<and> ws_st w' = 8 \<and> ws_st w' \<noteq> WS_CLOSED \<and>
    os_out s' (ws_fd w) = os_out s (ws_fd w) @ ws_frame (WS_FIN OR WS_CLOSE) (ws_send_mask w s)
      (if \<not> ws_is_client w \<and> ws_st w \<noteq> WS_CLOSING then [CHR 0x03, CHR 0xE9] else [CHR 0x03, CHR 0xE8]) \<and>
    os_calls s' = os_calls s @
      (if ws_st w \<noteq> WS_CLOSING then [CShutdownWr (ws_fd w), CRcvTimeout (ws_fd w) 3] else []) @ [CClose (ws_fd w)]"
proof -
  define code where "code = (if \<not> ws_is_client w \<and> ws_st w \<noteq> WS_CLOSING then 1001 else 1000 :: 16 word)"
  define body where "body = map char_of_byte (le_store 2 (ws_reorder_16 code))"
  have body: "body = (if \<not> ws_is_client w \<and> ws_st w \<noteq> WS_CLOSING then [CHR 0x03, CHR 0xE9] else [CHR 0x03, CHR 0xE8])"
    by (simp add: body_def store_reorder rev_le_store code_def opcode_close char_of_byte_def status_chars)
  define w0 where "w0 = w\<lparr>ws_hdr := (ws_hdr w)[0 := WS_FIN OR WS_CLOSE], ws_payload := body @ drop 2 (ws_payload w)\<rparr>"
  have lb: "length body = 2" by (simp add: body_def)
  have w0: "wf_ws w0" "ws_hdr w0 ! 0 = WS_FIN OR WS_CLOSE" "ws_fd w0 = ws_fd w" "ws_is_client w0 = ws_is_client w"
      "ws_send_mask w0 s = ws_send_mask w s"
    using assms(1) lb by (auto simp: w0_def wf_ws_def ws_send_mask_def)
  obtain w1 t where t: "ws_send w0 body s = (DUCQ_OK, w1, t)"
      "only_wrote (ws_fd w) (ws_frame (WS_FIN OR WS_CLOSE) (ws_send_mask w s) body) s t"
    using ws_send_writable [of w0 body s] w0 lb assms(2) by auto
  have fd1: "ws_fd w1 = ws_fd w"
    using ws_send_cases [OF w0(1) _ _ t(1)] w0(3) lb by simp
  define t2 where "t2 = snd (ws_timeout w1 3 (inet_shutdown_write (ws_fd w1) t))"
  have t2: "os_out t2 = os_out t" "os_calls t2 = os_calls t @ [CShutdownWr (ws_fd w), CRcvTimeout (ws_fd w) 3]"
    by (simp_all add: t2_def ws_timeout_def inet_set_read_timeout_def sys_setsockopt_def log_call_def
        inet_shutdown_write_def fd1 Let_def)
  obtain w3 t3 where t3: "ws_drain w1 3 t2 = (w3, t3)" by (metis surj_pair)
  have d: "only_read (ws_fd w) t2 t3" "ws_fd w3 = ws_fd w"
    using ws_drain_props [OF t3] fd1 by simp_all
  obtain w4 t4 where w4: "(if ws_st w \<noteq> WS_CLOSING then (w3, t3) else (w1, t)) = (w4, t4)" by (metis surj_pair)
  have fd4: "ws_fd w4 = ws_fd w" and out4: "os_out t4 = os_out t" and
    calls4: "os_calls t4 = os_calls s @ (if ws_st w \<noteq> WS_CLOSING then [CShutdownWr (ws_fd w), CRcvTimeout (ws_fd w) 3] else [])"
    using w4 fd1 d t2 only_readD [OF d(1)] only_wroteD(5) [OF t(2)] by (auto split: if_splits)
  have "ws_close w s = (DUCQ_OK, w4\<lparr>ws_fd := - 1, ws_st := unat WS_CLOSE\<rparr>, snd (inet_close (ws_fd w) t4))"
    using t(1) t3 w4 fd4 unfolding ws_close_def Let_def code_def [symmetric] body_def [symmetric] w0_def [symmetric]
    by (auto simp: t2_def split: prod.splits)
  moreover have "os_out (snd (inet_close (ws_fd w) t4)) = os_out t4"
      "os_calls (snd (inet_close (ws_fd w) t4)) = os_calls t4 @ [CClose (ws_fd w)]"
    by (simp_all add: inet_close_def sys_close_def log_call_def)
  ultimately show ?thesis
    using only_wroteD(1) [OF t(2)] out4 calls4 body by (simp add: WS_CLOSE_def WS_CLOSED_def)
qed

theorem ws_close_handshake_witness:
  "\<exists>w' s'. ws_close server_ws quiet_os = (DUCQ_OK, w', s') \<and> ws_st w' = 8 \<and>
     os_calls s' = [CShutdownWr 5, CRcvTimeout 5 3, CClose 5]"
  using ws_close_handshake [of server_ws quiet_os]
  by (auto simp: server_ws_def wf_ws_def quiet_os_def WS_CLOSING_def)

section \<open>The upgrade from HTTP\<close>

lemma length_upgrade_reply: "length (ws_upgrade_reply (accept_value key)) = 129"
  by (simp add: ws_upgrade_reply_def CRLF_def accept_value_props)

text \<open>A header whose first mention of the key field is the field itself, its value behind \<open>b\<close> blanks.\<close>

definition key_header :: "string \<Rightarrow> nat \<Rightarrow> string \<Rightarrow> string \<Rightarrow> string" where
  "key_header pre b key rest = pre @ SEC_WEBSOCKET_KEY @ CHR '':'' # replicate b SP @ key @ CRLF @ rest"

lemma upgrade_key:
  assumes "strstr (key_header pre (Suc b) key rest) SEC_WEBSOCKET_KEY = Some (length pre)"
    and "key = [] \<or> hd key \<noteq> SP" and "CR \<notin> set key" and "NUL \<notin> set (key_header pre (Suc b) key rest)"
  shows "\<exists>arr. ducq_new_ws_upgrade_from_http fd (key_header pre (Suc b) key rest @ NUL # junk) s =
     do {
       (error, accept) \<leftarrow> ws_make_accept_key (Some key) (Some (replicate 29 NUL)) 29;
       if error \<noteq> WS_OK then None
       else
         do {
           area \<leftarrow> accept;
           accept_key \<leftarrow> c_str area 0;
           let (reply, n) = snprintf 256 (ws_upgrade_reply accept_key) in
           if 256 \<le> n then Some (DUCQ_EMSGSIZE, None, arr, s)
           else
             let (w, s) = writen fd (take n reply) s in
             if w \<le> 0 then Some (DUCQ_EWRITE, None, arr, s)
             else
               let (ws, s) = ducq_new_ws_connection fd s in
               case ws of
                 None \<Rightarrow> Some (DUCQ_EMEMFAIL, None, arr, s)
               | Some ws \<Rightarrow> Some (DUCQ_PROTOCOL, Some (ws\<lparr>ws_st := WS_OPEN\<rparr>), arr, s)
         }
     }"
proof -
  define h where "h = key_header pre (Suc b) key rest"
  define f where "f = length pre + length SEC_WEBSOCKET_KEY + 1 + Suc b"
  define p where "p = pre @ SEC_WEBSOCKET_KEY @ CHR '':'' # replicate (Suc b) SP"
  have h: "h = p @ key @ CRLF @ rest" "length p = f"
    by (simp_all add: h_def key_header_def p_def f_def)
  have hstr: "c_str (h @ NUL # junk) 0 = Some h"
    using assms(4) by (simp add: h_def)
  have fnd: "inet_find_http_header h SEC_WEBSOCKET_KEY = Some (Some f, Some (f + length key))"
    using find_header_run [of pre SEC_WEBSOCKET_KEY "Suc b" key rest] assms(1-3)
    by (simp add: h_def key_header_def f_def)
  define arr where "arr = p @ key @ NUL # LF # rest @ NUL # junk"
  have wr: "mem_write (h @ NUL # junk) (f + length key) [NUL] = Some arr"
    using h(2) by (simp add: mem_write_def h(1) arr_def CRLF_def)
  have "NUL \<notin> set (p @ key)"
    using assms(4) by (auto simp: h_def [symmetric] h(1))
  then have ky: "c_str arr f = Some key"
    using c_str_append_later [of "p @ key" f "LF # rest @ NUL # junk"] h(2) by (simp add: arr_def)
  show ?thesis
    unfolding h_def [symmetric]
    by (rule exI [of _ arr])
       (simp only: ducq_new_ws_upgrade_from_http_def hstr fnd wr ky bind.bind_lunit prod.case option.case)
qed

lemma upgrade_accepts:
  assumes "strstr (key_header pre (Suc b) key rest) SEC_WEBSOCKET_KEY = Some (length pre)"
    and "length key = 24" and "hd key \<noteq> SP" and "CR \<notin> set key"
    and "NUL \<notin> set (key_header pre (Suc b) key rest)"
    and "writable (os_wr s fd)" and "answer True (os_malloc s)"
  shows "\<exists>w arr t. ducq_new_ws_upgrade_from_http fd (key_header pre (Suc b) key rest @ NUL # junk) s =
      Some (DUCQ_PROTOCOL, Some w, arr, t\<lparr>os_malloc := tl (os_malloc t)\<rparr>) \<and>
    wf_ws w \<and> ws_fd w = fd \<and> ws_st w = WS_OPEN \<and> \<not> ws_is_client w \<and> ws_id w = [] \<and>
    only_wrote fd (ws_upgrade_reply (accept_value key)) s t \<and> writable (os_wr t fd)"
proof -
  have k: "key = [] \<or> hd key \<noteq> SP" using assms(3) by simp
  have acc: "ws_make_accept_key (Some key) (Some (replicate 29 NUL)) 29 = Some (WS_OK, Some (accept_value key @ NUL # []))"
    using accept_key_run [OF assms(2), of 29 "replicate 29 NUL"] by simp
  have str: "c_str (accept_value key @ NUL # []) 0 = Some (accept_value key)"
    using accept_value_props(2) by simp
  define reply where "reply = ws_upgrade_reply (accept_value key)"
  have sn: "snprintf 256 reply = (reply, 129)" "take 129 reply = reply" "length reply = 129"
    using snprintf_fits [of reply 256] length_upgrade_reply [of key] by (simp_all add: reply_def)
  obtain t where t: "writen fd reply s = (129, t)" "only_wrote fd reply s t" "writable (os_wr t fd)"
    using writen_loop_writable [OF assms(6), of reply "length reply"] sn(3) unfolding writen_def by auto
  have "os_malloc t = os_malloc s"
    using only_wroteD(7) [OF t(2)] .
  then obtain w where w: "ducq_new_ws_connection fd t = (Some w, t\<lparr>os_malloc := tl (os_malloc t)\<rparr>)" "wf_ws w" "ws_fd w = fd"
      "\<not> ws_is_client w" "ws_id w = []"
    using assms(7) by (auto simp: ducq_new_ws_connection_def sys_malloc_def wf_ws_def)
  obtain arr where run: "ducq_new_ws_upgrade_from_http fd (key_header pre (Suc b) key rest @ NUL # junk) s =
      Some (DUCQ_PROTOCOL, Some (w\<lparr>ws_st := WS_OPEN\<rparr>), arr, t\<lparr>os_malloc := tl (os_malloc t)\<rparr>)"
    using upgrade_key [OF assms(1) k assms(4,5), of fd junk s] acc str sn t(1) w(1)
    by (auto simp: reply_def [symmetric])
  show ?thesis
    using w t(2,3) unfolding run reply_def
    by (intro exI [of _ "w\<lparr>ws_st := WS_OPEN\<rparr>"] exI [of _ arr] exI [of _ t]) (simp add: wf_ws_def)
qed

text \<open>C38: The upgrade of an HTTP connection: a header with a key of 24 characters is answered with the
  101 reply that carries the accept value of that key, and the connection becomes a WebSocket server
  connection in the open state on the same descriptor.\<close>

theorem ws_upgrade_accepts:
  assumes "strstr (key_header pre (Suc b) key rest) SEC_WEBSOCKET_KEY = Some (length pre)"
    and "length key = 24" and "hd key \<noteq> SP" and "CR \<notin> set key"
    and "NUL \<notin> set (key_header pre (Suc b) key rest)"
    and "writable (os_wr s fd)" and "answer True (os_malloc s)"
  shows "\<exists>w arr s'. ducq_new_ws_upgrade_from_http fd (key_header pre (Suc b) key rest @ NUL # junk) s =
      Some (DUCQ_PROTOCOL, Some w, arr, s') \<and>
    wf_ws w \<and> ws_fd w = fd \<and> ws_st w = WS_OPEN \<and> \<not> ws_is_client w \<and>
    os_out s' fd = os_out s fd @ ws_upgrade_reply (accept_value key)"
proof -
  obtain w arr t where w: "ducq_new_ws_upgrade_from_http fd (key_header pre (Suc b) key rest @ NUL # junk) s =
      Some (DUCQ_PROTOCOL, Some w, arr, t\<lparr>os_malloc := tl (os_malloc t)\<rparr>)" "wf_ws w" "ws_fd w = fd" "ws_st w = WS_OPEN"
      "\<not> ws_is_client w" "only_wrote fd (ws_upgrade_reply (accept_value key)) s t"
    using upgrade_accepts [OF assms, of junk] by blast
  show ?thesis
    using w(2-5) only_wroteD(1) [OF w(6)] unfolding w(1) by auto
qed

theorem ws_upgrade_accepts_witness:
  "\<exists>w arr s'. ducq_new_ws_upgrade_from_http 5
     (key_header (''GET /'' @ CRLF) 1 ''dGhlIHNhbXBsZSBub25jZQ=='' CRLF @ NUL # ''junk'') quiet_os =
     Some (DUCQ_PROTOCOL, Some w, arr, s') \<and> ws_st w = WS_OPEN"
proof -
  have f: "strstr (key_header (''GET /'' @ CRLF) (Suc 0) ''dGhlIHNhbXBsZSBub25jZQ=='' CRLF) SEC_WEBSOCKET_KEY =
      Some (length (''GET /'' @ CRLF))"
    by (simp add: key_header_def SEC_WEBSOCKET_KEY_def CRLF_def strstr.simps)
  show ?thesis
    using ws_upgrade_accepts [OF f, of quiet_os 5 "''junk''"]
    by (auto simp: key_header_def SEC_WEBSOCKET_KEY_def CRLF_def quiet_os_def answer_def)
qed

text \<open>A client can stop the server: a key of any other length makes ws_make_accept_key fail, and the
  failed assertion behind it ends the process.\<close>

theorem ws_upgrade_bad_key_aborts:
  assumes "strstr (key_header pre (Suc b) key rest) SEC_WEBSOCKET_KEY = Some (length pre)"
    and "key = [] \<or> hd key \<noteq> SP" and "CR \<notin> set key" and "length key \<noteq> 24"
    and "NUL \<notin> set (key_header pre (Suc b) key rest)"
  shows "ducq_new_ws_upgrade_from_http fd (key_header pre (Suc b) key rest @ NUL # junk) s = None"
proof -
  have "length WS_GUID = 36" by (simp add: WS_GUID_def)
  then have "ws_make_accept_key (Some key) (Some (replicate 29 NUL)) 29 = Some (WS_IN_LEN, Some (replicate 29 NUL))"
    using assms(4) by (auto simp: ws_make_accept_key_def snprintf_def)
  then show ?thesis
    using upgrade_key [OF assms(1-3,5), of fd junk s] by auto
qed

theorem ws_upgrade_bad_key_aborts_witness:
  "ducq_new_ws_upgrade_from_http 5 (key_header (''GET /'' @ CRLF) 1 ''short'' CRLF @ NUL # ''junk'') quiet_os = None"
proof -
  have f: "strstr (key_header (''GET /'' @ CRLF) (Suc 0) ''short'' CRLF) SEC_WEBSOCKET_KEY =
      Some (length (''GET /'' @ CRLF))"
    by (simp add: key_header_def SEC_WEBSOCKET_KEY_def CRLF_def strstr.simps)
  show ?thesis
    using ws_upgrade_bad_key_aborts [OF f, of 5 "''junk''" quiet_os]
    by (simp add: key_header_def SEC_WEBSOCKET_KEY_def CRLF_def)
qed

end
