(* ===== verification/Ducq_Http.thy ===== *)
theory Ducq_Http
  imports Ducq_Ws
begin

text \<open>
  The HTTP client of \<open>src/ducq_http.c\<close>: a connection that reads one HTTP header and is upgraded to
  a WebSocket; from then on every operation goes to the WebSocket client it owns.

  The header array is not initialised by the constructors: its contents are a parameter.
  \<open>_eq\<close> and \<open>_copy\<close>, which mention other kinds of client, are in \<open>Ducq_Client\<close>.
\<close>

record http =
  http_fd :: int
  http_id :: string
  http_host :: "string option"
  http_port :: "string option"
  http_header :: "char list"
  http_ws :: "ws option"

definition DUCQ_HTTP_TIMEOUT :: nat where "DUCQ_HTTP_TIMEOUT = 5"

definition http_get_id :: "http \<Rightarrow> os \<Rightarrow> string \<times> http" where
  "http_get_id http s =
     (case http_ws http of
        Some ws \<Rightarrow> let (t, ws) = ws_get_id ws s in (t, http\<lparr>http_ws := Some ws\<rparr>)
      | None \<Rightarrow>
          if http_id http \<noteq> [] then (http_id http, http)
          else
            let (t, n) = snprintf 99 ''HTTP:'';
                addr = (case snd (inet_socket_tostring (http_fd http) False (99 - n) s) of None \<Rightarrow> [] | Some a \<Rightarrow> a)
            in (t @ addr, http\<lparr>http_id := t @ addr\<rparr>))"

definition http_timeout :: "http \<Rightarrow> nat \<Rightarrow> os \<Rightarrow> ducq_state \<times> os" where
  "http_timeout http timeout s =
     (case http_ws http of
        Some ws \<Rightarrow> ws_timeout ws timeout s
      | None \<Rightarrow>
          let (rc, s) = inet_set_read_timeout (http_fd http) timeout s
          in (if rc \<noteq> 0 then DUCQ_ECOMMLAYER else DUCQ_OK, s))"

text \<open>The text searched for has a semicolon where the header has a colon, and the test is for its
  absence.\<close>

definition http_conn :: "http \<Rightarrow> ducq_state" where [simp]: "http_conn http = DUCQ_ENOIMPL"
definition http_parts :: "http \<Rightarrow> ducq_state" where [simp]: "http_parts http = DUCQ_ENOIMPL"
definition http_end :: "http \<Rightarrow> ducq_state" where [simp]: "http_end http = DUCQ_ENOIMPL"

definition http_recv ::
  "http \<Rightarrow> char list \<Rightarrow> nat \<Rightarrow> os \<Rightarrow> (ducq_state \<times> nat \<times> char list \<times> http \<times> os) option" where
  "http_recv http buf count s =
     (case http_ws http of
        Some ws \<Rightarrow>
          do {
            (st, count, buf, ws, s) \<leftarrow> ws_recv ws buf count s;
            Some (st, count, buf, http\<lparr>http_ws := Some ws\<rparr>, s)
          }
      | None \<Rightarrow>
          do {
            (n, e, header, s) \<leftarrow> inet_get_http_header (http_fd http) (http_header http) (length (http_header http)) s;
            case e of
              None \<Rightarrow>
                let (_, s) = writen (http_fd http) HTTP_BAD_REQUEST_400 s
                in Some (DUCQ_EMSGINV, count, buf, http\<lparr>http_header := header\<rparr>, s)
            | Some e \<Rightarrow>
                do {
                  header \<leftarrow> mem_write header e [NUL];
                  str \<leftarrow> c_str header 0;
                  if strstr str (CRLF @ ''Upgrade; websocket'' @ CRLF) = None then
                    do {
                      (st, ws, header, s) \<leftarrow> ducq_new_ws_upgrade_from_http (http_fd http) header s;
                      Some (st, count, buf, http\<lparr>http_header := header, http_ws := ws\<rparr>, s)
                    }
                  else Some (DUCQ_ENOIMPL, count, buf, http\<lparr>http_header := header\<rparr>, s)
                }
          })"

definition http_send :: "http \<Rightarrow> char list \<Rightarrow> os \<Rightarrow> ducq_state \<times> http \<times> os" where
  "http_send http bs s =
     (case http_ws http of
        Some ws \<Rightarrow> let (st, ws, s) = ws_send_text ws bs s in (st, http\<lparr>http_ws := Some ws\<rparr>, s)
      | None \<Rightarrow> (DUCQ_ENOIMPL, http, s))"

text \<open>Without a WebSocket the descriptor is closed but kept.\<close>

definition http_close :: "http \<Rightarrow> os \<Rightarrow> ducq_state \<times> http \<times> os" where
  "http_close http s =
     (case http_ws http of
        Some ws \<Rightarrow> let (st, ws, s) = ws_close ws s in (st, http\<lparr>http_ws := Some ws\<rparr>, s)
      | None \<Rightarrow>
          let (rc, s) = inet_close (http_fd http) s
          in (if rc = - 1 then DUCQ_ECLOSE else DUCQ_OK, http, s))"

definition ducq_new_http_client :: "char list \<Rightarrow> string option \<Rightarrow> string option \<Rightarrow> os \<Rightarrow> http option \<times> os" where
  "ducq_new_http_client uninit host port s =
     (let (ok, s) = sys_malloc s in
      (if ok then Some \<lparr>http_fd = - 1, http_id = [], http_host = host, http_port = port,
         http_header = uninit, http_ws = None\<rparr>
       else None, s))"

definition ducq_new_http_connection :: "char list \<Rightarrow> int \<Rightarrow> os \<Rightarrow> http option \<times> os" where
  "ducq_new_http_connection uninit fd s =
     (let (ok, s) = sys_malloc s in
      if ok then
        let (_, s) = inet_set_read_timeout fd DUCQ_HTTP_TIMEOUT s in
        (Some \<lparr>http_fd = fd, http_id = [], http_host = None, http_port = None,
           http_header = uninit, http_ws = None\<rparr>, s)
      else (None, s))"

end
