(* ===== verification/Ducq_Client.thy ===== *)
theory Ducq_Client
  imports Ducq_Parse Ducq_Http
begin

text \<open>
  The client interface of \<open>src/ducq.c\<close>: the virtual table (\<open>src/ducq_vtbl.h\<close>) over the three kinds of
  client, the heap of clients, and the operations above it: \<open>ducq_emit\<close>, \<open>ducq_send_ack\<close>,
  \<open>ducq_receive\<close>, \<open>ducq_listen\<close>, \<open>ducq_pub\<close>.

  A \<open>ducq_i *\<close> is a natural number, 0 for NULL; the heap maps the allocated ones to their
  clients, so a pointer that is not NULL and not in the heap is dangling and its use is None.
\<close>

section \<open>The virtual table\<close>

datatype client = Tcp tcp | Ws ws | Http http

fun client_fd :: "client \<Rightarrow> int" where
  "client_fd (Tcp c) = tcp_fd c"
| "client_fd (Ws c) = ws_fd c"
| "client_fd (Http c) = http_fd c"

fun vt_conn :: "client \<Rightarrow> os \<Rightarrow> (ducq_state \<times> client \<times> os) option" where
  "vt_conn (Tcp c) s = map_option (\<lambda>(st, c, s). (st, Tcp c, s)) (tcp_conn c s)"
| "vt_conn (Ws c) s = Some (ws_conn c, Ws c, s)"
| "vt_conn (Http c) s = Some (http_conn c, Http c, s)"

fun vt_send :: "char list \<Rightarrow> client \<Rightarrow> os \<Rightarrow> (ducq_state \<times> client \<times> os) option" where
  "vt_send bs (Tcp c) s = map_option (\<lambda>(st, s). (st, Tcp c, s)) (tcp_send c bs s)"
| "vt_send bs (Ws c) s = (let (st, c, s) = ws_send_text c bs s in Some (st, Ws c, s))"
| "vt_send bs (Http c) s = (let (st, c, s) = http_send c bs s in Some (st, Http c, s))"

fun vt_parts :: "client \<Rightarrow> os \<Rightarrow> (ducq_state \<times> client \<times> os) option" where
  "vt_parts (Tcp c) s = map_option (\<lambda>(st, s). (st, Tcp c, s)) (tcp_parts c s)"
| "vt_parts (Ws c) s = Some (ws_parts c, Ws c, s)"
| "vt_parts (Http c) s = Some (http_parts c, Http c, s)"

fun vt_end :: "client \<Rightarrow> os \<Rightarrow> (ducq_state \<times> client \<times> os) option" where
  "vt_end (Tcp c) s = map_option (\<lambda>(st, s). (st, Tcp c, s)) (tcp_end c s)"
| "vt_end (Ws c) s = Some (ws_end c, Ws c, s)"
| "vt_end (Http c) s = Some (http_end c, Http c, s)"

fun vt_recv ::
  "char list \<Rightarrow> nat \<Rightarrow> client \<Rightarrow> os \<Rightarrow> ((ducq_state \<times> nat \<times> char list) \<times> client \<times> os) option" where
  "vt_recv buf n (Tcp c) s = map_option (\<lambda>(st, n, buf, s). ((st, n, buf), Tcp c, s)) (tcp_recv c buf n s)"
| "vt_recv buf n (Ws c) s = map_option (\<lambda>(st, n, buf, c, s). ((st, n, buf), Ws c, s)) (ws_recv c buf n s)"
| "vt_recv buf n (Http c) s = map_option (\<lambda>(st, n, buf, c, s). ((st, n, buf), Http c, s)) (http_recv c buf n s)"

fun vt_id :: "client \<Rightarrow> os \<Rightarrow> (string option \<times> client \<times> os) option" where
  "vt_id (Tcp c) s = (let (t, c) = tcp_get_id c s in Some (Some t, Tcp c, s))"
| "vt_id (Ws c) s = (let (t, c) = ws_get_id c s in Some (Some t, Ws c, s))"
| "vt_id (Http c) s = (let (t, c) = http_get_id c s in Some (Some t, Http c, s))"

fun vt_timeout :: "nat \<Rightarrow> client \<Rightarrow> os \<Rightarrow> (ducq_state \<times> client \<times> os) option" where
  "vt_timeout t (Tcp c) s = (let (st, s) = tcp_timeout c t s in Some (st, Tcp c, s))"
| "vt_timeout t (Ws c) s = (let (st, s) = ws_timeout c t s in Some (st, Ws c, s))"
| "vt_timeout t (Http c) s = (let (st, s) = http_timeout c t s in Some (st, Http c, s))"

text \<open>The HTTP table has no \<open>reuseaddr\<close>: a call through NULL.\<close>

fun vt_reuseaddr :: "client \<Rightarrow> os \<Rightarrow> (ducq_state \<times> client \<times> os) option" where
  "vt_reuseaddr (Tcp c) s = (let (st, c) = tcp_reuseaddr c in Some (st, Tcp c, s))"
| "vt_reuseaddr (Ws c) s = (let (st, c) = ws_reuseaddr c in Some (st, Ws c, s))"
| "vt_reuseaddr (Http c) s = None"

fun vt_close :: "client \<Rightarrow> os \<Rightarrow> (ducq_state \<times> client \<times> os) option" where
  "vt_close (Tcp c) s = (let (st, c, s) = tcp_close c s in Some (st, Tcp c, s))"
| "vt_close (Ws c) s = (let (st, c, s) = ws_close c s in Some (st, Ws c, s))"
| "vt_close (Http c) s = (let (st, c, s) = http_close c s in Some (st, Http c, s))"

text \<open>\<open>_eq\<close>: same table and same descriptor.  TCP reads the other client without a test for NULL;
  an upgraded HTTP client lets its WebSocket compare itself with the other.\<close>

fun ws_eq :: "ws \<Rightarrow> client option \<Rightarrow> bool" where
  "ws_eq a (Some (Ws b)) \<longleftrightarrow> ws_fd a = ws_fd b"
| "ws_eq a _ \<longleftrightarrow> False"

fun tcp_eq :: "tcp \<Rightarrow> client option \<Rightarrow> bool option" where
  "tcp_eq a None = None"
| "tcp_eq a (Some (Tcp b)) = Some (tcp_fd a = tcp_fd b)"
| "tcp_eq a (Some _) = Some False"

definition http_eq :: "http \<Rightarrow> client option \<Rightarrow> bool" where
  "http_eq a b =
     (case http_ws a of
        Some w \<Rightarrow> ws_eq w b
      | None \<Rightarrow> (case b of Some (Http b) \<Rightarrow> http_fd a = http_fd b | _ \<Rightarrow> False))"

fun vt_eq :: "client \<Rightarrow> client option \<Rightarrow> bool option" where
  "vt_eq (Tcp a) b = tcp_eq a b"
| "vt_eq (Ws a) b = Some (ws_eq a b)"
| "vt_eq (Http a) b = Some (http_eq a b)"

text \<open>\<open>_copy\<close>: the copy, NULL from a WebSocket; the result of the constructor is not tested.\<close>

definition http_copy :: "char list \<Rightarrow> http \<Rightarrow> os \<Rightarrow> (http option \<times> os) option" where
  "http_copy uninit c s =
     (case http_ws c of
        Some w \<Rightarrow> Some (None, s)
      | None \<Rightarrow>
          let (copy, s) = ducq_new_http_client uninit (http_host c) (http_port c) s
          in map_option (\<lambda>copy. (Some (copy\<lparr>http_fd := http_fd c\<rparr>), s)) copy)"

fun vt_copy :: "char list \<Rightarrow> client \<Rightarrow> os \<Rightarrow> (client option \<times> os) option" where
  "vt_copy uninit (Tcp c) s = map_option (\<lambda>(c, s). (Some (Tcp c), s)) (tcp_copy c s)"
| "vt_copy uninit (Ws c) s = Some (map_option Ws (ws_copy c), s)"
| "vt_copy uninit (Http c) s = map_option (\<lambda>(c, s). (map_option Http c, s)) (http_copy uninit c s)"

text \<open>\<open>ducq_buffer\<close>: the header area with the payload behind it, NULL for a client with another table.\<close>

fun ducq_buffer :: "client \<Rightarrow> char list option" where
  "ducq_buffer (Ws c) = Some (map char_of_byte (ws_hdr c) @ ws_payload c)"
| "ducq_buffer c = None"

section \<open>The heap and the calls through it\<close>

record world =
  w_os :: os
  w_heap :: "nat \<Rightarrow> client option"

definition deref ::
  "nat \<Rightarrow> 'a \<Rightarrow> (client \<Rightarrow> os \<Rightarrow> ('a \<times> client \<times> os) option) \<Rightarrow> world \<Rightarrow> ('a \<times> world) option" where
  "deref ducq null f w =
     (if ducq = 0 then Some (null, w)
      else
        do {
          c \<leftarrow> w_heap w ducq;
          (r, c, s) \<leftarrow> f c (w_os w);
          Some (r, w\<lparr>w_os := s, w_heap := (w_heap w)(ducq \<mapsto> c)\<rparr>)
        })"

definition ducq_conn :: "nat \<Rightarrow> world \<Rightarrow> (ducq_state \<times> world) option" where
  "ducq_conn ducq w = deref ducq DUCQ_ENULL vt_conn w"

definition ducq_send :: "nat \<Rightarrow> char list \<Rightarrow> world \<Rightarrow> (ducq_state \<times> world) option" where
  "ducq_send ducq bs w = deref ducq DUCQ_ENULL (vt_send bs) w"

definition ducq_parts :: "nat \<Rightarrow> world \<Rightarrow> (ducq_state \<times> world) option" where
  "ducq_parts ducq w = deref ducq DUCQ_ENULL vt_parts w"

definition ducq_end :: "nat \<Rightarrow> world \<Rightarrow> (ducq_state \<times> world) option" where
  "ducq_end ducq w = deref ducq DUCQ_ENULL vt_end w"

definition ducq_recv :: "nat \<Rightarrow> char list \<Rightarrow> nat \<Rightarrow> world \<Rightarrow> ((ducq_state \<times> nat \<times> char list) \<times> world) option" where
  "ducq_recv ducq buf n w = deref ducq (DUCQ_ENULL, n, buf) (vt_recv buf n) w"

definition ducq_id :: "nat \<Rightarrow> world \<Rightarrow> (string option \<times> world) option" where
  "ducq_id ducq w = deref ducq None vt_id w"

definition ducq_copy :: "char list \<Rightarrow> nat \<Rightarrow> world \<Rightarrow> (client option \<times> world) option" where
  "ducq_copy uninit ducq w =
     (if ducq = 0 then Some (None, w)
      else
        do {
          c \<leftarrow> w_heap w ducq;
          (copy, s) \<leftarrow> vt_copy uninit c (w_os w);
          Some (copy, w\<lparr>w_os := s\<rparr>)
        })"

definition ducq_eq :: "nat \<Rightarrow> nat \<Rightarrow> world \<Rightarrow> bool option" where
  "ducq_eq a b w =
     (if a = 0 then Some False
      else
        do {
          c \<leftarrow> w_heap w a;
          if b = 0 then vt_eq c None else do { d \<leftarrow> w_heap w b; vt_eq c (Some d) }
        })"

definition ducq_timeout :: "nat \<Rightarrow> nat \<Rightarrow> world \<Rightarrow> (ducq_state \<times> world) option" where
  "ducq_timeout ducq t w = deref ducq DUCQ_ENULL (vt_timeout t) w"

definition ducq_reuseaddr :: "nat \<Rightarrow> world \<Rightarrow> (ducq_state \<times> world) option" where
  "ducq_reuseaddr ducq w = deref ducq DUCQ_ENULL vt_reuseaddr w"

definition ducq_close :: "nat \<Rightarrow> world \<Rightarrow> (ducq_state \<times> world) option" where
  "ducq_close ducq w = deref ducq DUCQ_ENULL vt_close w"

definition ducq_free :: "nat \<Rightarrow> world \<Rightarrow> world option" where
  "ducq_free ducq w =
     (if ducq = 0 then Some w
      else do { _ \<leftarrow> w_heap w ducq; Some (w\<lparr>w_heap := (w_heap w)(ducq := None)\<rparr>) })"

end
