(* ===== verification/Ducq_Api.thy ===== *)
theory Ducq_Api
  imports Ducq_Client
begin

text \<open>
  The operations of \<open>src/ducq.c\<close> above the virtual table: \<open>ducq_emit\<close>, \<open>ducq_send_ack\<close>,
  \<open>ducq_receive\<close> with the keep-alive and the protocol messages, \<open>ducq_listen\<close>, \<open>ducq_pub\<close>.

  \<open>ducq_listen\<close> is a loop that may run for ever: its value is None then, and \<open>Some None\<close> for
  undefined behaviour.  The callbacks are parameters.
\<close>

section \<open>Messages\<close>

text \<open>\<open>%.*s\<close> of an array: at most \<open>prec\<close> characters, all of the C string when \<open>prec\<close> is negative.\<close>

definition fmt_prec :: "int \<Rightarrow> char list \<Rightarrow> string option" where
  "fmt_prec prec p =
     (if prec < 0 then c_str p 0
      else if NUL \<in> set (take (nat prec) p) then Some (takeWhile (\<lambda>c. c \<noteq> NUL) (take (nat prec) p))
      else if nat prec \<le> length p then Some (take (nat prec) p)
      else None)"

definition ducq_emit ::
  "nat \<Rightarrow> string \<Rightarrow> string \<Rightarrow> char list \<Rightarrow> nat \<Rightarrow> world \<Rightarrow> (ducq_state \<times> world) option" where
  "ducq_emit ducq command route payload sz w =
     do {
       p \<leftarrow> fmt_prec (to_int32 (int sz)) payload;
       let (msg, n) = snprintf 256 (message_text command route p) in
       if 256 \<le> n then Some (DUCQ_EMSGSIZE, w)
       else ducq_send ducq (take n msg) w
     }"

definition ack_text :: "ducq_state \<Rightarrow> string" where
  "ack_text state =
     (if state = DUCQ_OK then ''ACK''
      else ''NACK *'' @ LF # dec_int (state_code state) @ LF # state_msg state)"

definition ducq_send_ack :: "nat \<Rightarrow> ducq_state \<Rightarrow> world \<Rightarrow> (ducq_state \<times> world) option" where
  "ducq_send_ack ducq state w =
     (let (msg, n) = snprintf 128 (ack_text state) in
      if length msg < n then None else ducq_send ducq msg w)"

text \<open>\<open>strncmp (msg, lit, strlen (lit)) == 0\<close> in a buffer.\<close>

definition starts_with :: "char list \<Rightarrow> string \<Rightarrow> bool" where
  "starts_with msg lit \<longleftrightarrow> take (length lit) msg = lit"

definition ping_text :: string where
  "ping_text = ''PING _'' @ LF # ''ping''"

text \<open>Sending the first \<open>n\<close> bytes of the buffer: they have to be in it.\<close>

definition send_buf :: "nat \<Rightarrow> char list \<Rightarrow> nat \<Rightarrow> world \<Rightarrow> (ducq_state \<times> world) option" where
  "send_buf ducq msg n w = (if n \<le> length msg then ducq_send ducq (take n msg) w else None)"

definition ducq_receive ::
  "nat \<Rightarrow> char list \<Rightarrow> nat \<Rightarrow> world \<Rightarrow> ((ducq_state \<times> nat \<times> char list) \<times> world) option" where
  "ducq_receive ducq msg sz w =
     do {
       ((state, n, msg), w) \<leftarrow> ducq_recv ducq msg sz w;
       if state = DUCQ_ETIMEOUT then
         if 4 \<le> sz \<and> starts_with msg ''PING'' then Some ((DUCQ_ETIMEOUT, n, msg), w)
         else
           let (txt, n) = snprintf sz ping_text in
           do {
             msg \<leftarrow> (if sz = 0 then Some msg else mem_write msg 0 (txt @ [NUL]));
             (st, w) \<leftarrow> send_buf ducq msg n w;
             Some ((if st \<noteq> DUCQ_OK then st else DUCQ_PROTOCOL, n, msg), w)
           }
       else if state \<noteq> DUCQ_OK then Some ((state, n, msg), w)
       else if starts_with msg ''ACK'' then Some ((DUCQ_PROTOCOL, n, msg), w)
       else if starts_with msg ''PARTS'' then Some ((DUCQ_PROTOCOL, n, msg), w)
       else if starts_with msg ''END'' then Some ((DUCQ_PROTOCOL, n, msg), w)
       else if starts_with msg ''NACK'' then Some ((DUCQ_NACK, n, msg), w)
       else if starts_with msg ''PING'' then
         do {
           msg \<leftarrow> mem_write msg 1 ''O'';
           (st, w) \<leftarrow> send_buf ducq msg n w;
           Some ((if st \<noteq> DUCQ_OK then st else DUCQ_PROTOCOL, n, msg), w)
         }
       else if starts_with msg ''PONG'' then Some ((DUCQ_PROTOCOL, n, msg), w)
       else Some ((DUCQ_OK, n, msg), w)
     }"

section \<open>Listening\<close>

text \<open>A callback gets the client, the buffer and the size; it may change the buffer, the world and its own
  context, and answers an \<open>int\<close>.\<close>

type_synonym 'x on_msg = "nat \<Rightarrow> char list \<Rightarrow> nat \<Rightarrow> 'x \<Rightarrow> world \<Rightarrow> (int \<times> char list \<times> 'x \<times> world) option"
type_synonym 'x on_err = "nat \<Rightarrow> ducq_state \<Rightarrow> 'x \<Rightarrow> world \<Rightarrow> (int \<times> 'x \<times> world) option"

record 'x listen_ctx =
  on_message :: "'x on_msg option"
  on_protocol :: "'x on_msg option"
  on_nack :: "'x on_msg option"
  on_error :: "'x on_err option"
  recv_raw :: bool

text \<open>One turn of the loop: the state answered when it ends the loop, and the buffer, context and world.\<close>

definition listen_turn ::
  "nat \<Rightarrow> 'x listen_ctx \<Rightarrow> char list \<Rightarrow> 'x \<Rightarrow> world \<Rightarrow> (ducq_state option \<times> char list \<times> 'x \<times> world) option" where
  "listen_turn ducq ctx msg x w =
     do {
       ((state, n, msg), w) \<leftarrow> (if recv_raw ctx then ducq_recv ducq msg 256 w else ducq_receive ducq msg 256 w);
       if DUCQ_ERROR \<le> state then
         case on_error ctx of
           None \<Rightarrow> Some (None, msg, x, w)
         | Some f \<Rightarrow>
             do {
               (r, x, w) \<leftarrow> f ducq state x w;
               Some (if r \<noteq> 0 then Some state else None, msg, x, w)
             }
       else
         let callback = (if state = DUCQ_OK then on_message ctx
                         else if state = DUCQ_PROTOCOL then on_protocol ctx
                         else if state = DUCQ_NACK then on_nack ctx else None)
         in case callback of
              None \<Rightarrow> Some (None, msg, x, w)
            | Some f \<Rightarrow>
                do {
                  (r, msg, x, w) \<leftarrow> f ducq msg n x w;
                  Some (if r \<noteq> 0 then Some state else None, msg, x, w)
                }
     }"

partial_function (option) listen_loop ::
  "nat \<Rightarrow> 'x listen_ctx \<Rightarrow> char list \<Rightarrow> 'x \<Rightarrow> world \<Rightarrow> (ducq_state \<times> 'x \<times> world) option option" where
  "listen_loop ducq ctx msg x w =
     (case listen_turn ducq ctx msg x w of
        None \<Rightarrow> Some None
      | Some (st, msg, x, w) \<Rightarrow>
          (case st of Some state \<Rightarrow> Some (Some (state, x, w)) | None \<Rightarrow> listen_loop ducq ctx msg x w))"

definition ducq_listen ::
  "nat \<Rightarrow> 'x listen_ctx \<Rightarrow> 'x \<Rightarrow> world \<Rightarrow> (ducq_state \<times> 'x \<times> world) option option" where
  "ducq_listen ducq ctx x w = listen_loop ducq ctx (replicate 256 NUL) x w"

section \<open>Publishing\<close>

definition ducq_pub ::
  "nat \<Rightarrow> string \<Rightarrow> char list \<Rightarrow> nat \<Rightarrow> world \<Rightarrow> (ducq_state \<times> world) option" where
  "ducq_pub ducq route payload sz w =
     do {
       (st, w) \<leftarrow> ducq_emit ducq ''pub'' route payload sz w;
       if st \<noteq> DUCQ_OK then Some (st, w)
       else
         do {
           ((state, n, msg), w) \<leftarrow> ducq_receive ducq (replicate 256 NUL) 256 w;
           Some (if state \<le> DUCQ_PROTOCOL then DUCQ_OK else state, w)
         }
     }"

section \<open>Calls on a TCP client\<close>

lemma deref_null [simp]: "deref 0 null f w = Some (null, w)"
  by (simp add: deref_def)

lemma deref_dangling: "p \<noteq> 0 \<Longrightarrow> w_heap w p = None \<Longrightarrow> deref p null f w = None"
  by (simp add: deref_def)

lemma deref_run:
  "p \<noteq> 0 \<Longrightarrow> w_heap w p = Some c \<Longrightarrow> f c (w_os w) = Some (r, c', s) \<Longrightarrow>
    deref p null f w = Some (r, w\<lparr>w_os := s, w_heap := (w_heap w)(p \<mapsto> c')\<rparr>)"
  by (simp add: deref_def)

lemma deref_same:
  assumes "p \<noteq> 0" and "w_heap w p = Some c" and "f c (w_os w) = Some (r, c, s)"
  shows "deref p null f w = Some (r, w\<lparr>w_os := s\<rparr>)"
proof -
  have "(w_heap w)(p \<mapsto> c) = w_heap w"
    using assms(2) by (auto simp: fun_upd_idem)
  then show ?thesis
    using deref_run [OF assms(1,2), of f, OF assms(3)] by simp
qed

text \<open>A TCP client behind the pointer, with a stream that only delivers and only accepts.\<close>

definition tcp_up :: "nat \<Rightarrow> tcp \<Rightarrow> world \<Rightarrow> bool" where
  "tcp_up p c w \<longleftrightarrow> p \<noteq> 0 \<and> w_heap w p = Some (Tcp c) \<and>
     fluent (os_in (w_os w) (tcp_fd c)) \<and> writable (os_wr (w_os w) (tcp_fd c))"

lemma send_tcp:
  assumes "tcp_up p c w" and "int (length bs) \<le> INT_MAX"
  shows "\<exists>t. ducq_send p bs w = Some (DUCQ_OK, w\<lparr>w_os := t\<rparr>) \<and>
    only_wrote (tcp_fd c) (tcp_frame bs) (w_os w) t \<and> tcp_up p c (w\<lparr>w_os := t\<rparr>)"
proof -
  obtain t where t: "ducq_tcp_send (tcp_fd c) bs (w_os w) = Some (Inr (length bs), t)"
      "only_wrote (tcp_fd c) (tcp_frame bs) (w_os w) t" "writable (os_wr t (tcp_fd c))"
    using tcp_send_writable assms unfolding tcp_up_def by blast
  have "vt_send bs (Tcp c) (w_os w) = Some (DUCQ_OK, Tcp c, t)"
    by (simp add: tcp_send_def t(1))
  then have "ducq_send p bs w = Some (DUCQ_OK, w\<lparr>w_os := t\<rparr>)"
    using assms(1) unfolding ducq_send_def tcp_up_def by (intro deref_same) auto
  then show ?thesis
    using t assms(1) only_wroteD(3) [OF t(2)] by (auto simp: tcp_up_def)
qed

lemma recv_tcp:
  assumes "tcp_up p c w" and "stream (tcp_fd c) (w_os w) = tcp_frame m @ r" and "tcp_sendable m"
    and "length buf = 256"
  shows "\<exists>t. ducq_recv p buf 256 w = Some ((DUCQ_OK, length m, m @ NUL # drop (length m + 1) buf), w\<lparr>w_os := t\<rparr>) \<and>
    only_read (tcp_fd c) (w_os w) t \<and> stream (tcp_fd c) t = r \<and> tcp_up p c (w\<lparr>w_os := t\<rparr>)"
proof -
  obtain t where t: "ducq_tcp_recv (tcp_fd c) buf 256 (w_os w) =
        Some (Inr (length m), m @ NUL # drop (length m + 1) buf, t)"
      "only_read (tcp_fd c) (w_os w) t" "fluent (os_in t (tcp_fd c))" "stream (tcp_fd c) t = r"
    using tcp_recv_fluent [of "w_os w" "tcp_fd c" m r 256 buf] assms
    by (auto simp: tcp_up_def tcp_sendable_def INT_MAX_def)
  have "vt_recv buf 256 (Tcp c) (w_os w) = Some ((DUCQ_OK, length m, m @ NUL # drop (length m + 1) buf), Tcp c, t)"
    by (simp add: tcp_recv_def t(1))
  then have "ducq_recv p buf 256 w = Some ((DUCQ_OK, length m, m @ NUL # drop (length m + 1) buf), w\<lparr>w_os := t\<rparr>)"
    using assms(1) unfolding ducq_recv_def tcp_up_def by (intro deref_same) auto
  then show ?thesis
    using t assms(1) only_readD(2) [OF t(2)] by (auto simp: tcp_up_def)
qed

section \<open>Acknowledgements and emitted commands\<close>

lemma ack_text_fits: "length (ack_text s) < 128"
proof -
  have "nat (state_code s) < 10 ^ 2"
    using state_code_range [of s] by (simp add: nat_less_iff)
  then have "length (dec_nat (nat (state_code s))) \<le> 2"
    by (rule length_dec_nat) simp
  then have "length (dec_int (state_code s)) \<le> 2"
    using state_code_range [of s] by (simp add: dec_int_def)
  then show ?thesis
    using state_msg_facts [of s] by (simp add: ack_text_def)
qed

lemma send_ack_text: "ducq_send_ack p s w = ducq_send p (ack_text s) w"
  using snprintf_fits [OF ack_text_fits [of s]] by (simp add: ducq_send_ack_def)

text \<open>The acknowledgement of every state is sent whole, as ACK or as NACK with the code and the message,
  and ducq_ack_to_state reads that state back from it.\<close>

theorem ack_roundtrip:
  "ducq_send_ack p s w = ducq_send p (ack_text s) w \<and> ducq_ack_to_state (ack_text s) = state_val s"
proof
  show "ducq_send_ack p s w = ducq_send p (ack_text s) w"
    by (rule send_ack_text)
  show "ducq_ack_to_state (ack_text s) = state_val s"
  proof (cases "s = DUCQ_OK")
    case True
    then show ?thesis
      by (simp add: ack_text_def ducq_ack_to_state_def strncmp_eq_def)
  next
    case False
    define n where "n = nat (state_code s)"
    have n: "state_code s = int n" "n < 24"
      using state_code_range [of s] by (simp_all add: n_def nat_less_iff)
    have "n \<noteq> 0"
      using False state_code_inj [of s DUCQ_OK] n(1) by auto
    have dec: "dec_int (state_code s) = dec_nat n"
      using n by (simp add: dec_int_def)
    have pay: "ducq_parse_payload (ack_text s) = Some 7"
      using parse_payload_text [of "''NACK *''" "dec_nat n @ LF # state_msg s"] False
      by (simp add: ack_text_def dec)
    have "strtol (dec_nat n @ LF # state_msg s) = int n"
      using strtol_digits [of "dec_nat n" "LF # state_msg s"] n(2)
      by (simp add: dec_nat_digits clamp_long_def)
    then have "strtol (drop 7 (ack_text s)) = int n"
      using False by (simp add: ack_text_def dec)
    then show ?thesis
      using False pay \<open>n \<noteq> 0\<close> n(1) by (simp add: ducq_ack_to_state_def ack_text_def strncmp_eq_def state_val_def)
  qed
qed

lemma fmt_prec_fits: "NUL \<notin> set q \<Longrightarrow> fmt_prec (int (length q)) (q @ rest) = Some q"
  by (simp add: fmt_prec_def)

text \<open>A concrete world for the witnesses: one TCP client behind the pointer 9.\<close>

definition tcp_five :: tcp where
  "tcp_five = \<lparr>tcp_fd = 5, tcp_reuse = False, tcp_host = None, tcp_port = None, tcp_id = []\<rparr>"

definition world_five :: "rd_ev list \<Rightarrow> world" where
  "world_five es = \<lparr>w_os = quiet_os\<lparr>os_in := (\<lambda>_. es)\<rparr>, w_heap = (\<lambda>p. if p = 9 then Some (Tcp tcp_five) else None)\<rparr>"

lemma tcp_up_five: "fluent es \<Longrightarrow> tcp_up 9 tcp_five (world_five es)"
  by (simp add: tcp_up_def world_five_def tcp_five_def quiet_os_def)

text \<open>ducq_emit sends exactly "command route\npayload", and the receiver's parsers find the three parts
  again; when that text with its terminator does not fit into \<open>DUCQ_MSGSZ\<close> bytes it answers
  \<open>DUCQ_EMSGSIZE\<close> and nothing is sent.\<close>

theorem emit_message:
  assumes "NUL \<notin> set q" and "int (length q) \<le> INT_MAX"
  shows "ducq_emit p cmd route (q @ rest) (length q) w =
      (if length (message_text cmd route q) < 256 then ducq_send p (message_text cmd route q) w
       else Some (DUCQ_EMSGSIZE, w)) \<and>
    (parts_ok cmd route \<and> route \<noteq> [] \<longrightarrow> ducq_parse_msg (message_text cmd route q) =
      \<lparr>msg_command = Some cmd, msg_route = Some route, msg_payload = (if q = [] then None else Some q)\<rparr>)"
proof -
  have "to_int32 (int (length q)) = int (length q)"
    using assms(2) by (intro to_int32_id) (simp_all add: INT_MAX_def)
  then have q: "fmt_prec (to_int32 (int (length q))) (q @ rest) = Some q"
    using fmt_prec_fits [OF assms(1)] by simp
  then have "ducq_emit p cmd route (q @ rest) (length q) w =
      (if length (message_text cmd route q) < 256 then ducq_send p (message_text cmd route q) w
       else Some (DUCQ_EMSGSIZE, w))"
    by (simp add: ducq_emit_def snprintf_def)
  then show ?thesis
    using parse_msg_text by blast
qed

theorem emit_message_witness:
  "ducq_emit 7 ''pub'' ''a/b'' (''hello'' @ [NUL]) (length ''hello'') (world_five []) = ducq_send 7 (message_text ''pub'' ''a/b'' ''hello'') (world_five []) \<and>
   ducq_emit 7 ''pub'' ''a/b'' (replicate 300 (CHR ''x'')) 300 (world_five []) = Some (DUCQ_EMSGSIZE, world_five [])"
  using emit_message [of "''hello''" 7 "''pub''" "''a/b''" "[NUL]" "world_five []"]
    emit_message [of "replicate 300 (CHR ''x'')" 7 "''pub''" "''a/b''" "[]" "world_five []"]
  by (simp add: INT_MAX_def message_text_def)

section \<open>Protocol messages\<close>

definition protocol_state :: "string \<Rightarrow> ducq_state" where
  "protocol_state m =
     (if starts_with m ''ACK'' \<or> starts_with m ''PARTS'' \<or> starts_with m ''END'' then DUCQ_PROTOCOL
      else if starts_with m ''NACK'' then DUCQ_NACK
      else if starts_with m ''PING'' \<or> starts_with m ''PONG'' then DUCQ_PROTOCOL
      else DUCQ_OK)"

lemma starts_with_buffer: "NUL \<notin> set lit \<Longrightarrow> starts_with (m @ NUL # rest) lit = starts_with m lit"
proof (cases "length lit \<le> length m")
  case True
  then show ?thesis by (simp add: starts_with_def)
next
  case False
  assume "NUL \<notin> set lit"
  moreover have "NUL \<in> set (take (length lit) (m @ NUL # rest))"
    using False by (cases "length lit - length m") auto
  moreover have "length (take (length lit) m) < length lit"
    using False by simp
  ultimately show ?thesis
    unfolding starts_with_def by (metis less_irrefl)
qed

definition pong_of :: "string \<Rightarrow> string" where
  "pong_of m = m[1 := CHR ''O'']"

lemma starts_with_length: "starts_with m lit \<Longrightarrow> length lit \<le> length m"
  unfolding starts_with_def by (metis length_take min.cobounded1)

lemma starts_with_split: "starts_with m lit \<Longrightarrow> \<exists>x. m = lit @ x"
  unfolding starts_with_def by (metis append_take_drop_id)

lemma receive_tcp:
  assumes "tcp_up p c w" and "stream (tcp_fd c) (w_os w) = tcp_frame m @ r" and "tcp_sendable m"
    and "length buf = 256"
  shows "\<exists>t. ducq_receive p buf 256 w =
      Some ((protocol_state m, length m,
        (if starts_with m ''PING'' then pong_of m else m) @ NUL # drop (length m + 1) buf), w\<lparr>w_os := t\<rparr>) \<and>
    stream (tcp_fd c) t = r \<and> tcp_up p c (w\<lparr>w_os := t\<rparr>) \<and>
    os_out t = (os_out (w_os w))(tcp_fd c := os_out (w_os w) (tcp_fd c) @
      (if starts_with m ''PING'' then tcp_frame (pong_of m) else []))"
proof -
  define b where "b = m @ NUL # drop (length m + 1) buf"
  obtain t where t: "ducq_recv p buf 256 w = Some ((DUCQ_OK, length m, b), w\<lparr>w_os := t\<rparr>)"
      "only_read (tcp_fd c) (w_os w) t" "stream (tcp_fd c) t = r" "tcp_up p c (w\<lparr>w_os := t\<rparr>)"
    using recv_tcp [OF assms] unfolding b_def by blast
  have out: "os_out t = os_out (w_os w)"
    using only_readD(1) [OF t(2)] .
  have sw: "starts_with b ''ACK'' = starts_with m ''ACK''" "starts_with b ''PARTS'' = starts_with m ''PARTS''"
    "starts_with b ''END'' = starts_with m ''END''" "starts_with b ''NACK'' = starts_with m ''NACK''"
    "starts_with b ''PING'' = starts_with m ''PING''" "starts_with b ''PONG'' = starts_with m ''PONG''"
    unfolding b_def by (rule starts_with_buffer, simp)+
  show ?thesis
  proof (cases "starts_with m ''PING''")
    case False
    then have "ducq_receive p buf 256 w = Some ((protocol_state m, length m, b), w\<lparr>w_os := t\<rparr>)"
      by (simp add: ducq_receive_def t(1) sw protocol_state_def)
    then show ?thesis
      using False t out by (auto simp: b_def)
  next
    case True
    have len: "4 \<le> length m" "length m < 256"
      using starts_with_length [OF True] assms(3) by (simp_all add: tcp_sendable_def)
    have others: "\<not> starts_with m ''ACK''" "\<not> starts_with m ''PARTS''" "\<not> starts_with m ''END''"
        "\<not> starts_with m ''NACK''"
      using starts_with_split [OF True] by (auto simp: starts_with_def)
    define b' where "b' = pong_of m @ NUL # drop (length m + 1) buf"
    have w1: "mem_write b 1 ''O'' = Some b'"
      using starts_with_split [OF True] by (auto simp: mem_write_def b_def b'_def pong_of_def)
    have tk: "take (length m) b' = pong_of m" "length m \<le> length b'"
      by (simp_all add: b'_def pong_of_def)
    obtain u where u: "ducq_send p (pong_of m) (w\<lparr>w_os := t\<rparr>) = Some (DUCQ_OK, w\<lparr>w_os := t\<rparr>\<lparr>w_os := u\<rparr>)"
        "only_wrote (tcp_fd c) (tcp_frame (pong_of m)) t u" "tcp_up p c (w\<lparr>w_os := t\<rparr>\<lparr>w_os := u\<rparr>)"
      using send_tcp [OF t(4), of "pong_of m"] len by (auto simp: pong_of_def INT_MAX_def)
    have run: "ducq_receive p buf 256 w = Some ((protocol_state m, length m, b'), w\<lparr>w_os := u\<rparr>)"
      using True others tk u(1) by (simp add: ducq_receive_def t(1) sw w1 [unfolded One_nat_def] send_buf_def protocol_state_def)
    have "stream (tcp_fd c) u = r" "os_out u = (os_out t)(tcp_fd c := os_out t (tcp_fd c) @ tcp_frame (pong_of m))"
      using only_wroteD(3) [OF u(2)] u(2) t(3) by (auto simp: stream_def only_wrote_def)
    then show ?thesis
      using True run u(3) out by (auto simp: b'_def)
  qed
qed

text \<open>What ducq_receive makes of a message that arrives over TCP: acknowledgements, parts, ends and
  pongs are protocol traffic, NACK is its own state, a PING is answered with the same message as a PONG,
  every other message is handed to the caller; nothing else is sent and nothing else is consumed.\<close>

theorem receive_protocol:
  assumes "tcp_up p c w" and "stream (tcp_fd c) (w_os w) = tcp_frame m @ r" and "tcp_sendable m"
    and "length buf = 256"
  shows "\<exists>t. ducq_receive p buf 256 w =
      Some ((protocol_state m, length m,
        (if starts_with m ''PING'' then pong_of m else m) @ NUL # drop (length m + 1) buf), w\<lparr>w_os := t\<rparr>) \<and>
    stream (tcp_fd c) t = r \<and> tcp_up p c (w\<lparr>w_os := t\<rparr>) \<and>
    os_out t = (os_out (w_os w))(tcp_fd c := os_out (w_os w) (tcp_fd c) @
      (if starts_with m ''PING'' then tcp_frame (pong_of m) else []))"
  using assms by (rule receive_tcp)

theorem receive_protocol_witness:
  "\<exists>t. ducq_receive 9 (replicate 256 NUL) 256 (world_five [RData (tcp_frame ''PING _'')]) =
     Some ((DUCQ_PROTOCOL, length ''PING _'', ''PONG _'' @ NUL # drop (length ''PING _'' + 1) (replicate 256 NUL)),
       (world_five [RData (tcp_frame ''PING _'')])\<lparr>w_os := t\<rparr>) \<and>
     os_out t 5 = tcp_frame ''PONG _''"
proof -
  let ?w = "world_five [RData (tcp_frame ''PING _'')]"
  have up: "tcp_up 9 tcp_five ?w"
    by (rule tcp_up_five) (simp add: tcp_frame_def)
  have st: "stream (tcp_fd tcp_five) (w_os ?w) = tcp_frame ''PING _'' @ []"
    by (simp add: stream_def world_five_def)
  have m: "protocol_state ''PING _'' = DUCQ_PROTOCOL" "starts_with ''PING _'' ''PING''" "pong_of ''PING _'' = ''PONG _''"
      "os_out (w_os ?w) 5 = []" "tcp_fd tcp_five = 5"
    by (simp_all add: protocol_state_def starts_with_def pong_of_def world_five_def quiet_os_def tcp_five_def)
  show ?thesis
    using receive_protocol [OF up st, of "replicate 256 NUL"] m by (auto simp: tcp_sendable_def)
qed

lemma timeout_tcp:
  assumes "p \<noteq> 0" and "w_heap w p = Some (Tcp c)" and "os_in (w_os w) (tcp_fd c) = RErr EWOULDBLOCK # es"
    and "length buf = 256"
  shows "\<exists>t. ducq_recv p buf 256 w = Some ((DUCQ_ETIMEOUT, 256, buf), w\<lparr>w_os := t\<rparr>) \<and>
    t = (w_os w)\<lparr>os_in := (os_in (w_os w))(tcp_fd c := es), os_errno := EWOULDBLOCK\<rparr>"
proof -
  define t where "t = (w_os w)\<lparr>os_in := (os_in (w_os w))(tcp_fd c := es), os_errno := EWOULDBLOCK\<rparr>"
  have "readn_loop (tcp_fd c) 1 [] (w_os w) = (- 1, [], t)"
    by (subst readn_loop.simps) (simp add: sys_read_def assms(3) t_def)
  then have "readn (tcp_fd c) buf 0 1 (w_os w) = Some (- 1, buf, t)"
    by (simp add: readn_def mem_write_def)
  then have "tcp_header (tcp_fd c) 256 buf 0 (w_os w) = Some (Inr (- 1, 0), buf, t)"
    by (simp add: tcp_header_step)
  then have "vt_recv buf 256 (Tcp c) (w_os w) = Some ((DUCQ_ETIMEOUT, 256, buf), Tcp c, t)"
    by (simp add: tcp_recv_def ducq_tcp_recv_def t_def)
  then have "ducq_recv p buf 256 w = Some ((DUCQ_ETIMEOUT, 256, buf), w\<lparr>w_os := t\<rparr>)"
    unfolding ducq_recv_def using assms(1,2) by (intro deref_same) auto
  then show ?thesis
    using t_def by blast
qed

text \<open>The keep-alive over TCP: when nothing arrives in time, ducq_receive sends one PING and reports
  protocol traffic; when nothing arrives in time again, with the PING still in the buffer, it reports
  the timeout and sends nothing.\<close>

theorem receive_keep_alive:
  assumes "p \<noteq> 0" and "w_heap w p = Some (Tcp c)" and "writable (os_wr (w_os w) (tcp_fd c))"
    and "os_in (w_os w) (tcp_fd c) = RErr EWOULDBLOCK # RErr EWOULDBLOCK # es"
    and "length buf = 256" and "\<not> starts_with buf ''PING''"
  shows "\<exists>buf1 w1 w2. ducq_receive p buf 256 w = Some ((DUCQ_PROTOCOL, 11, buf1), w1) \<and>
    os_out (w_os w1) (tcp_fd c) = os_out (w_os w) (tcp_fd c) @ tcp_frame ping_text \<and>
    ducq_receive p buf1 256 w1 = Some ((DUCQ_ETIMEOUT, 256, buf1), w2) \<and>
    os_out (w_os w2) = os_out (w_os w1)"
proof -
  obtain t where t: "ducq_recv p buf 256 w = Some ((DUCQ_ETIMEOUT, 256, buf), w\<lparr>w_os := t\<rparr>)"
      "t = (w_os w)\<lparr>os_in := (os_in (w_os w))(tcp_fd c := RErr EWOULDBLOCK # es), os_errno := EWOULDBLOCK\<rparr>"
    using timeout_tcp [OF assms(1,2,4,5)] by blast
  define buf1 where "buf1 = ping_text @ NUL # drop 12 buf"
  have lp: "length ping_text = 11" by (simp add: ping_text_def)
  have b1: "mem_write buf 0 (ping_text @ [NUL]) = Some buf1" "take 11 buf1 = ping_text" "length buf1 = 256"
    using lp assms(5) by (simp_all add: buf1_def mem_write_def)
  have sp: "snprintf 256 ping_text = (ping_text, 11)"
    using snprintf_fits [of ping_text 256] lp by simp
  have ping: "starts_with buf1 ''PING''"
    by (simp add: starts_with_def buf1_def ping_text_def)
  define s where "s = w\<lparr>w_os := t\<rparr>"
  obtain u where wr: "ducq_tcp_send (tcp_fd c) ping_text t = Some (Inr (length ping_text), u)"
      "only_wrote (tcp_fd c) (tcp_frame ping_text) t u"
    using tcp_send_writable [of t "tcp_fd c" ping_text] assms(3) lp t(2) by (auto simp: INT_MAX_def)
  have "vt_send ping_text (Tcp c) (w_os s) = Some (DUCQ_OK, Tcp c, u)"
    by (simp add: tcp_send_def s_def wr(1))
  then have "ducq_send p ping_text s = Some (DUCQ_OK, s\<lparr>w_os := u\<rparr>)"
    unfolding ducq_send_def using assms(1,2) by (intro deref_same) (auto simp: s_def)
  then have first: "ducq_receive p buf 256 w = Some ((DUCQ_PROTOCOL, 11, buf1), w\<lparr>w_os := u\<rparr>)"
    using assms(6) b1 by (simp add: ducq_receive_def t(1) sp send_buf_def s_def)
  have u: "os_in u (tcp_fd c) = RErr EWOULDBLOCK # es"
      "os_out u (tcp_fd c) = os_out (w_os w) (tcp_fd c) @ tcp_frame ping_text"
    using only_wroteD(1,3) [OF wr(2)] t(2) by simp_all
  obtain v where v: "ducq_recv p buf1 256 (w\<lparr>w_os := u\<rparr>) = Some ((DUCQ_ETIMEOUT, 256, buf1), (w\<lparr>w_os := u\<rparr>)\<lparr>w_os := v\<rparr>)"
      "v = u\<lparr>os_in := (os_in u)(tcp_fd c := es), os_errno := EWOULDBLOCK\<rparr>"
    using timeout_tcp [of p "w\<lparr>w_os := u\<rparr>" c es buf1] assms(1,2) u(1) b1(3) by auto
  have "ducq_receive p buf1 256 (w\<lparr>w_os := u\<rparr>) = Some ((DUCQ_ETIMEOUT, 256, buf1), w\<lparr>w_os := v\<rparr>)"
    using ping by (simp add: ducq_receive_def v(1))
  then show ?thesis
    using first u(2) v(2)
    by (intro exI [of _ buf1] exI [of _ "w\<lparr>w_os := u\<rparr>"] exI [of _ "w\<lparr>w_os := v\<rparr>"]) simp
qed

theorem receive_keep_alive_witness:
  "\<exists>buf1 w1 w2. ducq_receive 9 (replicate 256 NUL) 256 (world_five [RErr EWOULDBLOCK, RErr EWOULDBLOCK]) =
      Some ((DUCQ_PROTOCOL, 11, buf1), w1) \<and>
    ducq_receive 9 buf1 256 w1 = Some ((DUCQ_ETIMEOUT, 256, buf1), w2)"
proof -
  have "take 4 (replicate 256 NUL) = [NUL, NUL, NUL, NUL]"
    by (simp add: numeral_eq_Suc)
  then show ?thesis
    using receive_keep_alive [of 9 "world_five [RErr EWOULDBLOCK, RErr EWOULDBLOCK]" tcp_five "[]" "replicate 256 NUL"]
    by (auto simp: world_five_def tcp_five_def quiet_os_def starts_with_def)
qed

section \<open>The listening loop\<close>

text \<open>A callback that only looks at the message and its own context, and the run of it over the messages
  meant for it: the context when it first answers something else than 0.\<close>

definition pure_callback :: "('x \<Rightarrow> string \<Rightarrow> int \<times> 'x) \<Rightarrow> 'x on_msg" where
  "pure_callback g p buf n x w = (let (r, x) = g x (take n buf) in Some (r, buf, x, w))"

primrec deliver :: "('x \<Rightarrow> string \<Rightarrow> int \<times> 'x) \<Rightarrow> 'x \<Rightarrow> string list \<Rightarrow> 'x option" where
  "deliver g x [] = None"
| "deliver g x (m # ms) =
     (if protocol_state m = DUCQ_OK then
        let (r, x) = g x m in if r \<noteq> 0 then Some x else deliver g x ms
      else deliver g x ms)"

definition message_ctx :: "('x \<Rightarrow> string \<Rightarrow> int \<times> 'x) \<Rightarrow> 'x listen_ctx" where
  "message_ctx g = \<lparr>on_message = Some (pure_callback g), on_protocol = None, on_nack = None, on_error = None,
     recv_raw = False\<rparr>"

lemma protocol_state_cases: "protocol_state m = DUCQ_OK \<or> protocol_state m = DUCQ_PROTOCOL \<or> protocol_state m = DUCQ_NACK"
  by (simp add: protocol_state_def)

lemma listen_turn_tcp:
  assumes "tcp_up p c w" and "stream (tcp_fd c) (w_os w) = tcp_frame m @ r" and "tcp_sendable m"
    and "length buf = 256"
  shows "\<exists>buf' w'. listen_turn p (message_ctx g) buf x w =
      (if protocol_state m = DUCQ_OK then
         Some (if fst (g x m) \<noteq> 0 then Some DUCQ_OK else None, buf', snd (g x m), w')
       else Some (None, buf', x, w')) \<and>
    length buf' = 256 \<and> tcp_up p c w' \<and> stream (tcp_fd c) (w_os w') = r"
proof -
  define buf' where "buf' = (if starts_with m ''PING'' then pong_of m else m) @ NUL # drop (length m + 1) buf"
  have lp: "length (pong_of m) = length m"
    by (simp add: pong_of_def)
  have lb: "length buf' = 256"
    using assms(3,4) lp by (simp add: buf'_def tcp_sendable_def)
  obtain t where t: "ducq_receive p buf 256 w = Some ((protocol_state m, length m, buf'), w\<lparr>w_os := t\<rparr>)"
      "stream (tcp_fd c) t = r" "tcp_up p c (w\<lparr>w_os := t\<rparr>)"
    using receive_tcp [OF assms] unfolding buf'_def by blast
  have notping: "\<not> starts_with m ''PING''" if "protocol_state m = DUCQ_OK"
    using that by (auto simp: protocol_state_def split: if_splits)
  then have "take (length m) buf' = m" if "protocol_state m = DUCQ_OK"
    using that by (simp add: buf'_def)
  moreover have "\<not> DUCQ_ERROR \<le> protocol_state m"
    by (simp add: protocol_state_def state_order)
  ultimately have "listen_turn p (message_ctx g) buf x w =
      (if protocol_state m = DUCQ_OK then
         Some (if fst (g x m) \<noteq> 0 then Some DUCQ_OK else None, buf', snd (g x m), w\<lparr>w_os := t\<rparr>)
       else Some (None, buf', x, w\<lparr>w_os := t\<rparr>))"
    using protocol_state_cases [of m]
    by (auto simp: listen_turn_def message_ctx_def t(1) pure_callback_def split: prod.splits)
  then show ?thesis
    using lb t(2,3) by (intro exI [of _ buf'] exI [of _ "w\<lparr>w_os := t\<rparr>"]) simp
qed

lemma listen_delivers:
  "list_all tcp_sendable ms \<Longrightarrow> tcp_up p c w \<Longrightarrow> length buf = 256 \<Longrightarrow>
    stream (tcp_fd c) (w_os w) = concat (map tcp_frame ms) @ r \<Longrightarrow> deliver g x ms = Some x' \<Longrightarrow>
    \<exists>w'. listen_loop p (message_ctx g) buf x w = Some (Some (DUCQ_OK, x', w'))"
proof (induction ms arbitrary: buf x w)
  case Nil
  then show ?case by simp
next
  case (Cons m ms)
  have st: "stream (tcp_fd c) (w_os w) = tcp_frame m @ concat (map tcp_frame ms) @ r" and m: "tcp_sendable m"
    using Cons.prems by simp_all
  obtain buf' w' where turn: "listen_turn p (message_ctx g) buf x w =
      (if protocol_state m = DUCQ_OK then
         Some (if fst (g x m) \<noteq> 0 then Some DUCQ_OK else None, buf', snd (g x m), w')
       else Some (None, buf', x, w'))"
    and w': "length buf' = 256" "tcp_up p c w'" "stream (tcp_fd c) (w_os w') = concat (map tcp_frame ms) @ r"
    using listen_turn_tcp [where g = g and x = x, OF Cons.prems(2) st m Cons.prems(3)] by blast
  have ms: "list_all tcp_sendable ms"
    using Cons.prems(1) by simp
  note ih = Cons.IH [OF ms w'(2,1,3)]
  show ?case
  proof (cases "protocol_state m = DUCQ_OK")
    case True
    show ?thesis
    proof (cases "fst (g x m) = 0")
      case zero: True
      then have "deliver g (snd (g x m)) ms = Some x'"
        using Cons.prems(5) True by (auto split: prod.splits)
      then show ?thesis
        using ih [of "snd (g x m)"] turn True zero by (subst listen_loop.simps) simp
    next
      case False
      then have "snd (g x m) = x'"
        using Cons.prems(5) True by (auto split: prod.splits)
      then show ?thesis
        using turn True False by (subst listen_loop.simps) simp
    qed
  next
    case False
    then have "deliver g x ms = Some x'"
      using Cons.prems(5) by simp
    then show ?thesis
      using ih [of x] turn False by (subst listen_loop.simps) simp
  qed
qed

text \<open>C37: ducq_listen over TCP hands the callback the messages, in order and unchanged, without the
  protocol messages between them, and returns with the callback's context when the callback first asks
  it to stop.\<close>

theorem listen_in_order:
  assumes "tcp_up p c w" and "list_all tcp_sendable ms"
    and "stream (tcp_fd c) (w_os w) = concat (map tcp_frame ms) @ r" and "deliver g x ms = Some x'"
  shows "\<exists>w'. ducq_listen p (message_ctx g) x w = Some (Some (DUCQ_OK, x', w'))"
  unfolding ducq_listen_def using assms by (intro listen_delivers) simp_all

theorem listen_in_order_witness:
  "\<exists>w'. ducq_listen 9 (message_ctx (\<lambda>x m. (if m = ''stop'' then 1 else 0, x @ [m]))) []
     (world_five [RData (tcp_frame ''one'' @ tcp_frame ''PING _''), RErr EINTR, RData (tcp_frame ''stop'')]) =
     Some (Some (DUCQ_OK, [''one'', ''stop''], w'))"
proof -
  let ?es = "[RData (tcp_frame ''one'' @ tcp_frame ''PING _''), RErr EINTR, RData (tcp_frame ''stop'')]"
  have up: "tcp_up 9 tcp_five (world_five ?es)"
    by (rule tcp_up_five) (simp add: tcp_frame_def)
  have st: "stream (tcp_fd tcp_five) (w_os (world_five ?es)) =
      concat (map tcp_frame [''one'', ''PING _'', ''stop'']) @ []"
    by (simp add: stream_def world_five_def)
  show ?thesis
    by (rule listen_in_order [OF up _ st])
       (simp_all add: tcp_sendable_def protocol_state_def starts_with_def)
qed

text \<open>A closed TCP peer: the end of the stream is reported, and nothing changes.\<close>

lemma recv_tcp_closed:
  assumes "p \<noteq> 0" and "w_heap w p = Some (Tcp c)" and "os_in (w_os w) (tcp_fd c) = []"
  shows "ducq_recv p buf 256 w = Some ((DUCQ_ECONNCLOSED, 256, buf), w)"
proof -
  have "readn_loop (tcp_fd c) 1 [] (w_os w) = (0, [], w_os w)"
    by (subst readn_loop.simps) (simp add: sys_read_def assms(3))
  then have rd: "readn (tcp_fd c) buf 0 1 (w_os w) = Some (0, buf, w_os w)"
    by (simp add: readn_def mem_write_def)
  have "tcp_header (tcp_fd c) 256 buf 0 (w_os w) = Some (Inr (0, 0), buf, w_os w)"
    using tcp_header_step [OF rd] by simp
  then have "vt_recv buf 256 (Tcp c) (w_os w) = Some ((DUCQ_ECONNCLOSED, 256, buf), Tcp c, w_os w)"
    by (simp add: tcp_recv_def ducq_tcp_recv_def)
  then show ?thesis
    unfolding ducq_recv_def using deref_same [OF assms(1,2), of "vt_recv buf 256"] by simp
qed

text \<open>Without an error callback ducq_listen never returns once the TCP peer has closed: every turn ends
  in \<open>DUCQ_ECONNCLOSED\<close> and the loop goes on.\<close>

theorem listen_spins_when_closed:
  assumes "p \<noteq> 0" and "w_heap w p = Some (Tcp c)" and "os_in (w_os w) (tcp_fd c) = []" and "on_error ctx = None"
  shows "ducq_listen p ctx x w = None"
proof -
  have "ducq_recv p buf 256 w = Some ((DUCQ_ECONNCLOSED, 256, buf), w)" for buf
    by (rule recv_tcp_closed [OF assms(1-3)])
  then have turn: "listen_turn p ctx buf x w = Some (None, buf, x, w)" for buf x
    using assms(4) by (simp add: listen_turn_def ducq_receive_def state_order)
  have spin: "\<not> (q = p \<and> k = ctx \<and> u = w)" if "listen_loop q k b y u = Some z" for q k b y u z
  proof (rule listen_loop.raw_induct [of "\<lambda>q k b y u z. \<not> (q = p \<and> k = ctx \<and> u = w)"
        "((((q, k), b), y), u)" z, unfolded prod.case])
    show "listen_loop q k b y u = Some z"
      by (rule that)
  next
    fix loop q k b y u z
    assume ih: "\<And>q k b y u z. loop q k b y u = Some z \<Longrightarrow> \<not> (q = p \<and> k = ctx \<and> u = w)"
      and step: "(case listen_turn q k b y u of None \<Rightarrow> Some None
        | Some (st, msg, x, w) \<Rightarrow>
            (case st of Some state \<Rightarrow> Some (Some (state, x, w)) | None \<Rightarrow> loop q k msg x w)) = Some z"
    show "\<not> (q = p \<and> k = ctx \<and> u = w)"
    proof
      assume eq: "q = p \<and> k = ctx \<and> u = w"
      then have "loop p ctx b y w = Some z"
        using step turn by simp
      then show False
        using ih by blast
    qed
  qed
  show ?thesis
    unfolding ducq_listen_def
  proof (rule ccontr)
    assume "listen_loop p ctx (replicate 256 NUL) x w \<noteq> None"
    then obtain z where "listen_loop p ctx (replicate 256 NUL) x w = Some z"
      by blast
    then show False
      using spin by blast
  qed
qed

theorem listen_spins_when_closed_witness:
  "ducq_listen 9 (message_ctx (\<lambda>x m. (1, x))) () (world_five []) = None"
  by (rule listen_spins_when_closed) (simp_all add: world_five_def tcp_five_def message_ctx_def)

section \<open>Publishing, and the contract of the pointer\<close>

text \<open>ducq_pub over TCP sends one pub message and takes the next message of the server as its answer:
  every message but a NACK counts as success.\<close>

theorem pub_outcome:
  assumes "tcp_up p c w" and "NUL \<notin> set q" and "length (message_text ''pub'' route q) < 256"
    and "stream (tcp_fd c) (w_os w) = tcp_frame m @ r" and "tcp_sendable m" and "\<not> starts_with m ''PING''"
  shows "\<exists>w'. ducq_pub p route (q @ rest) (length q) w =
      Some (if starts_with m ''NACK'' then DUCQ_NACK else DUCQ_OK, w') \<and>
    os_out (w_os w') (tcp_fd c) = os_out (w_os w) (tcp_fd c) @ tcp_frame (message_text ''pub'' route q) \<and>
    stream (tcp_fd c) (w_os w') = r"
proof -
  have "length q < 256" "length (message_text ''pub'' route q) < 256"
    using assms(3) by (simp_all add: message_text_def)
  then have fit: "int (length q) \<le> INT_MAX" "int (length (message_text ''pub'' route q)) \<le> INT_MAX"
    by (simp_all add: INT_MAX_def)
  have "to_int32 (int (length q)) = int (length q)"
    using fit(1) by (intro to_int32_id) (simp_all add: INT_MAX_def)
  then have emit: "ducq_emit p ''pub'' route (q @ rest) (length q) w = ducq_send p (message_text ''pub'' route q) w"
    using assms(2,3) by (simp add: ducq_emit_def snprintf_def fmt_prec_fits)
  obtain t where t: "ducq_send p (message_text ''pub'' route q) w = Some (DUCQ_OK, w\<lparr>w_os := t\<rparr>)"
      "only_wrote (tcp_fd c) (tcp_frame (message_text ''pub'' route q)) (w_os w) t" "tcp_up p c (w\<lparr>w_os := t\<rparr>)"
    using send_tcp [OF assms(1) fit(2)] by blast
  have st: "stream (tcp_fd c) (w_os (w\<lparr>w_os := t\<rparr>)) = tcp_frame m @ r"
    using only_wroteD(3) [OF t(2)] assms(4) by (simp add: stream_def)
  obtain u msg where u: "ducq_receive p (replicate 256 NUL) 256 (w\<lparr>w_os := t\<rparr>) =
        Some ((protocol_state m, length m, msg), w\<lparr>w_os := t\<rparr>\<lparr>w_os := u\<rparr>)"
      "stream (tcp_fd c) u = r" "os_out u (tcp_fd c) = os_out t (tcp_fd c)"
    using receive_tcp [OF t(3) st assms(5), of "replicate 256 NUL"] assms(6) by auto
  have "(if protocol_state m \<le> DUCQ_PROTOCOL then DUCQ_OK else protocol_state m) =
      (if starts_with m ''NACK'' then DUCQ_NACK else DUCQ_OK)"
    using starts_with_split [of m "''NACK''"]
    by (auto simp: protocol_state_def state_order starts_with_def)
  then have "ducq_pub p route (q @ rest) (length q) w =
      Some (if starts_with m ''NACK'' then DUCQ_NACK else DUCQ_OK, w\<lparr>w_os := u\<rparr>)"
    using emit t(1) u(1) by (simp add: ducq_pub_def)
  then show ?thesis
    using u(2,3) only_wroteD(1) [OF t(2)] by simp
qed

theorem pub_outcome_witness:
  "\<exists>w'. ducq_pub 9 ''a'' (''hello'' @ []) (length ''hello'') (world_five [RData (tcp_frame ''ACK'')]) = Some (DUCQ_OK, w')"
proof -
  have up: "tcp_up 9 tcp_five (world_five [RData (tcp_frame ''ACK'')])"
    by (rule tcp_up_five) (simp add: tcp_frame_def)
  have st: "stream (tcp_fd tcp_five) (w_os (world_five [RData (tcp_frame ''ACK'')])) = tcp_frame ''ACK'' @ []"
    by (simp add: stream_def world_five_def)
  have "\<not> starts_with ''ACK'' ''NACK''"
    by (simp add: starts_with_def)
  then show ?thesis
    using pub_outcome [OF up _ _ st, of "''hello''" "''a''" "[]"]
    by (auto simp: message_text_def tcp_sendable_def starts_with_def)
qed

text \<open>Every operation answers a NULL client (DUCQ_ENULL, no id, not equal) without touching anything,
  and is undefined on a client that has been freed.\<close>

theorem null_and_freed_clients:
  shows "ducq_conn 0 w = Some (DUCQ_ENULL, w) \<and> ducq_send 0 bs w = Some (DUCQ_ENULL, w) \<and>
      ducq_parts 0 w = Some (DUCQ_ENULL, w) \<and> ducq_end 0 w = Some (DUCQ_ENULL, w) \<and>
      ducq_recv 0 buf n w = Some ((DUCQ_ENULL, n, buf), w) \<and> ducq_id 0 w = Some (None, w) \<and>
      ducq_eq 0 q w = Some False \<and> ducq_copy u 0 w = Some (None, w) \<and>
      ducq_timeout 0 k w = Some (DUCQ_ENULL, w) \<and> ducq_reuseaddr 0 w = Some (DUCQ_ENULL, w) \<and>
      ducq_close 0 w = Some (DUCQ_ENULL, w) \<and> ducq_free 0 w = Some w"
    and "p \<noteq> 0 \<Longrightarrow> ducq_free p w = Some w' \<Longrightarrow>
      ducq_send p bs w' = None \<and> ducq_recv p buf n w' = None \<and> ducq_id p w' = None \<and>
      ducq_close p w' = None \<and> ducq_free p w' = None"
  by (simp_all add: ducq_conn_def ducq_send_def ducq_parts_def ducq_end_def ducq_recv_def ducq_id_def ducq_eq_def
      ducq_copy_def ducq_timeout_def ducq_reuseaddr_def ducq_close_def ducq_free_def deref_def bind_Some_conv)
    (auto simp: ducq_send_def ducq_recv_def ducq_id_def ducq_close_def ducq_free_def deref_def)

theorem null_and_freed_clients_witness:
  "\<exists>w'. ducq_free 9 (world_five []) = Some w' \<and> ducq_send 9 ''x'' w' = None"
proof -
  have "ducq_free 9 (world_five []) \<noteq> None"
    by (simp add: ducq_free_def world_five_def)
  then obtain w' where w': "ducq_free 9 (world_five []) = Some w'"
    by blast
  then show ?thesis
    using null_and_freed_clients(2) [of 9 "world_five []" w' "''x''"] by auto
qed

text \<open>An HTTP client that has been upgraded is not equal to itself, because its WebSocket compares
  its own table with that of the HTTP client; before the upgrade it is.\<close>

theorem upgraded_client_not_equal:
  assumes "p \<noteq> 0" and "w_heap w p = Some (Http h)"
  shows "ducq_eq p p w = Some (http_ws h = None)"
  using assms by (cases "http_ws h") (simp_all add: ducq_eq_def http_eq_def)

theorem upgraded_client_not_equal_witness:
  "ducq_eq 9 9 ((world_five [])\<lparr>w_heap := [9 \<mapsto> Http \<lparr>http_fd = 5, http_id = [], http_host = None, http_port = None,
     http_header = [], http_ws = Some server_ws\<rparr>]\<rparr>) = Some False"
  using upgraded_client_not_equal [of 9 "(world_five [])\<lparr>w_heap := [9 \<mapsto> Http \<lparr>http_fd = 5, http_id = [],
     http_host = None, http_port = None, http_header = [], http_ws = Some server_ws\<rparr>]\<rparr>"] by simp

end
