(* ===== verification/Ducq_Log.thy ===== *)
theory Ducq_Log
  imports Ducq_Prelude
begin

text \<open>
  Logging: the levels and the time stamp of \<open>src/ducq_log.c\<close>, and the file logger of
  \<open>src/ducq_reactor.c\<close> (\<open>_map_color\<close>, \<open>ducq_log_tofile\<close>).

  A call of the log function is an entry: its level, the name of the calling function, the sender's
  id (a \<open>char *\<close> that may be NULL) and the text its format makes.  \<open>printf\<close> is the GNU one, the
  server being built for Linux only: \<open>%s\<close> of NULL is the text \<open>(null)\<close>.  The time zone is not
  in the repository: \<open>localtime\<close> is a parameter.
\<close>

section \<open>Levels and entries\<close>

datatype ducq_log_level = DUCQ_LOG_DEBUG | DUCQ_LOG_INFO | DUCQ_LOG_WARNING | DUCQ_LOG_ERROR

fun ducq_level_tostr :: "ducq_log_level \<Rightarrow> string" where
  "ducq_level_tostr DUCQ_LOG_DEBUG = ''debug''"
| "ducq_level_tostr DUCQ_LOG_INFO = ''info''"
| "ducq_level_tostr DUCQ_LOG_WARNING = ''warning''"
| "ducq_level_tostr DUCQ_LOG_ERROR = ''error''"

record log_entry =
  le_level :: ducq_log_level
  le_function :: string
  le_sender :: "string option"
  le_text :: string

definition fmt_str :: "string option \<Rightarrow> string" where
  "fmt_str p = (case p of None \<Rightarrow> ''(null)'' | Some s \<Rightarrow> s)"

text \<open>A text of the caller used as a format without arguments: only \<open>%%\<close> is a directive that needs
  none; any other reads an argument that is not there.\<close>

fun fmt_no_args :: "string \<Rightarrow> string option" where
  "fmt_no_args [] = Some []"
| "fmt_no_args (c # s) =
     (if c \<noteq> CHR ''%'' then map_option (Cons c) (fmt_no_args s)
      else case s of
             [] \<Rightarrow> None
           | d # t \<Rightarrow> if d = CHR ''%'' then map_option (Cons CHR ''%'') (fmt_no_args t) else None)"

section \<open>The time stamp\<close>

record tm =
  tm_year :: int
  tm_mon :: int
  tm_mday :: int
  tm_hour :: int
  tm_min :: int
  tm_sec :: int

definition two_digits :: "int \<Rightarrow> string" where
  "two_digits n = (if 0 \<le> n \<and> n < 10 then CHR ''0'' # dec_int n else dec_int n)"

text \<open>\<open>strftime (.., "%FT%T", ..)\<close>.\<close>

definition iso_time :: "tm \<Rightarrow> string" where
  "iso_time t =
     dec_int (tm_year t + 1900) @ ''-'' @ two_digits (tm_mon t + 1) @ ''-'' @ two_digits (tm_mday t) @ ''T'' @
     two_digits (tm_hour t) @ '':'' @ two_digits (tm_min t) @ '':'' @ two_digits (tm_sec t)"

definition DUCQ_TIMESTAMP_SIZE :: nat where "DUCQ_TIMESTAMP_SIZE = 20"

text \<open>The C string left in the buffer; what \<open>strftime\<close> leaves when the text does not fit is not
  specified.\<close>

definition ducq_getnow :: "(int \<Rightarrow> tm) \<Rightarrow> int \<Rightarrow> nat \<Rightarrow> string option" where
  "ducq_getnow localtime time sz =
     (let t = iso_time (localtime time) in if length t < sz then Some t else None)"

section \<open>The file logger\<close>

definition ESC :: char where "ESC = CHR 0x1B"

definition FG_NORMAL :: string where "FG_NORMAL = ESC # ''[39m''"
definition FG_LITE_BLACK :: string where "FG_LITE_BLACK = ESC # ''[90m''"
definition FG_LITE_RED :: string where "FG_LITE_RED = ESC # ''[91m''"
definition FG_LITE_YELLOW :: string where "FG_LITE_YELLOW = ESC # ''[93m''"

fun map_color :: "ducq_log_level \<Rightarrow> string" where
  "map_color DUCQ_LOG_DEBUG = FG_LITE_BLACK"
| "map_color DUCQ_LOG_INFO = FG_NORMAL"
| "map_color DUCQ_LOG_WARNING = FG_LITE_YELLOW"
| "map_color DUCQ_LOG_ERROR = FG_LITE_RED"

text \<open>The logger is NULL, or a file with a flag for colours; the text printed to the file, which is
  the standard output when there is no logger.\<close>

definition ducq_log_tofile :: "(int \<Rightarrow> tm) \<Rightarrow> int \<Rightarrow> bool option \<Rightarrow> log_entry \<Rightarrow> (int \<times> string) option" where
  "ducq_log_tofile localtime time logger e =
     do {
       now \<leftarrow> ducq_getnow localtime time DUCQ_TIMESTAMP_SIZE;
       let color = (case logger of None \<Rightarrow> True | Some c \<Rightarrow> c);
       Some (0, (if color then map_color (le_level e) else [])
              @ now @ '' '' @ le_function e @ '' '' @ fmt_str (le_sender e) @ '' ''
              @ le_text e @ [LF] @ (if color then FG_NORMAL else []))
     }"

section \<open>Facts\<close>

lemma length_dec_nat_1: "n < 10 \<Longrightarrow> length (dec_nat n) = 1"
  by (subst dec_nat.simps) simp

lemma length_two_digits: "0 \<le> n \<Longrightarrow> n < 100 \<Longrightarrow> length (two_digits n) = 2"
proof -
  assume n: "0 \<le> n" "n < 100"
  then obtain k where k: "n = int k" "k < 100"
    using zero_le_imp_eq_int by fastforce
  have "length (dec_nat k) = 2" if "\<not> k < 10"
  proof -
    have "k div 10 < 10"
      using k(2) by (simp add: less_mult_imp_div_less)
    then show ?thesis
      using that by (subst dec_nat.simps) (simp add: length_dec_nat_1)
  qed
  then show ?thesis
    using k length_dec_nat_1 [of k] by (auto simp: two_digits_def dec_int_def)
qed

lemma length_iso_time:
  assumes "- 900 \<le> tm_year t" and "tm_year t \<le> 8099" and "0 \<le> tm_mon t" and "tm_mon t < 12"
    and "0 \<le> tm_mday t" and "tm_mday t < 32" and "0 \<le> tm_hour t" and "tm_hour t < 24"
    and "0 \<le> tm_min t" and "tm_min t < 60" and "0 \<le> tm_sec t" and "tm_sec t < 61"
  shows "length (iso_time t) < DUCQ_TIMESTAMP_SIZE"
proof -
  have "nat (tm_year t + 1900) < 10 ^ 4"
    using assms(2) by simp
  then have "length (dec_nat (nat (tm_year t + 1900))) \<le> 4"
    by (rule length_dec_nat) simp
  then have "length (dec_int (tm_year t + 1900)) \<le> 4"
    using assms(1) by (simp add: dec_int_def)
  then show ?thesis
    using assms length_two_digits by (simp add: iso_time_def DUCQ_TIMESTAMP_SIZE_def)
qed

text \<open>The buffer of \<open>DUCQ_TIMESTAMP_SIZE\<close> bytes holds every time stamp of the years 1000 to 9999.\<close>

lemma getnow_fits:
  assumes "- 900 \<le> tm_year (localtime time)" and "tm_year (localtime time) \<le> 8099"
    and "0 \<le> tm_mon (localtime time)" and "tm_mon (localtime time) < 12"
    and "0 \<le> tm_mday (localtime time)" and "tm_mday (localtime time) < 32"
    and "0 \<le> tm_hour (localtime time)" and "tm_hour (localtime time) < 24"
    and "0 \<le> tm_min (localtime time)" and "tm_min (localtime time) < 60"
    and "0 \<le> tm_sec (localtime time)" and "tm_sec (localtime time) < 61"
  shows "ducq_getnow localtime time DUCQ_TIMESTAMP_SIZE = Some (iso_time (localtime time))"
  using length_iso_time [OF assms] by (simp add: ducq_getnow_def)

lemma fmt_no_args_plain: "CHR ''%'' \<notin> set s \<Longrightarrow> fmt_no_args s = Some s"
  by (induction s rule: fmt_no_args.induct) auto

end
