(* ===== verification/Ducq_Channels.thy ===== *)
theory Ducq_Channels
  imports Ducq_Parse
begin

text \<open>
  The last message of each route: \<open>struct last_msg\<close> and the loops of \<open>ducq_get_last_msg\<close> and
  \<open>ducq_set_last_msg\<close> in \<open>src/ducq_reactor.c\<close>, and their contract: a map from routes to messages
  with a bound on its size.

  An entry is the pair of its two char arrays.  A route without a terminator in its array is read
  past it: the value is None then.
\<close>

section \<open>The store\<close>

abbreviation DUCQ_MSGSZ :: nat where "DUCQ_MSGSZ \<equiv> 256"
abbreviation DUCQ_MAX_ROUTE_LEN :: nat where "DUCQ_MAX_ROUTE_LEN \<equiv> 100"
abbreviation DUCQ_MAX_CHANNELS :: nat where "DUCQ_MAX_CHANNELS \<equiv> 25"

fun get_last :: "(char list \<times> char list) list \<Rightarrow> string \<Rightarrow> string option" where
  "get_last [] route = Some (''ACK'' @ LF # ''_'')"
| "get_last ((last_route, last_msg) # rest) route =
     do {
       s \<leftarrow> c_str last_route 0;
       if s = [] then Some ''ACK''
       else if s = route then c_str last_msg 0
       else get_last rest route
     }"

fun set_last ::
  "(char list \<times> char list) list \<Rightarrow> string \<Rightarrow> string \<Rightarrow> (ducq_state \<times> (char list \<times> char list) list) option" where
  "set_last [] route msg = Some (DUCQ_EMAX, [])"
| "set_last ((last_route, last_msg) # rest) route msg =
     do {
       s \<leftarrow> c_str last_route 0;
       if s = [] \<or> s = route then
         Some (DUCQ_OK, (strncpy route DUCQ_MAX_ROUTE_LEN, strncpy msg DUCQ_MSGSZ) # rest)
       else
         do { (st, rest) \<leftarrow> set_last rest route msg; Some (st, (last_route, last_msg) # rest) }
     }"


section \<open>The contract\<close>

text \<open>A bounded map: \<open>put\<close> answers \<open>DUCQ_OK\<close> and updates the content, or \<open>DUCQ_EMAX\<close> and changes
  nothing when the key is new and the store full.  The client's lemma: after any run of \<open>put\<close>s over
  no more keys than fit, the content is the last message of each key.\<close>

primrec put_all :: "('s \<Rightarrow> 'k \<Rightarrow> 'm \<Rightarrow> (ducq_state \<times> 's) option) \<Rightarrow> 's \<Rightarrow> ('k \<times> 'm) list \<Rightarrow> (ducq_state list \<times> 's) option" where
  "put_all put s [] = Some ([], s)"
| "put_all put s (km # kms) =
     do {
       (st, s) \<leftarrow> put s (fst km) (snd km);
       (sts, s) \<leftarrow> put_all put s kms;
       Some (st # sts, s)
     }"

locale bounded_map =
  fixes content :: "'s \<Rightarrow> 'k \<rightharpoonup> 'm"
    and put :: "'s \<Rightarrow> 'k \<Rightarrow> 'm \<Rightarrow> (ducq_state \<times> 's) option"
    and wf :: "'s \<Rightarrow> bool"
    and fits :: "'k \<Rightarrow> 'm \<Rightarrow> bool"
    and room :: "'s \<Rightarrow> nat"
  assumes finite_content: "wf s \<Longrightarrow> finite (dom (content s))"
    and put_room: "wf s \<Longrightarrow> fits k m \<Longrightarrow> k \<in> dom (content s) \<or> card (dom (content s)) < room s \<Longrightarrow>
      \<exists>t. put s k m = Some (DUCQ_OK, t) \<and> wf t \<and> room t = room s \<and> content t = (content s)(k \<mapsto> m)"
    and put_full: "wf s \<Longrightarrow> fits k m \<Longrightarrow> k \<notin> dom (content s) \<Longrightarrow> room s \<le> card (dom (content s)) \<Longrightarrow>
      put s k m = Some (DUCQ_EMAX, s)"
begin

lemma put_many:
  assumes "wf s" and "\<forall>(k, m) \<in> set kms. fits k m"
    and "card (dom (content s) \<union> fst ` set kms) \<le> room s"
  shows "\<exists>t. put_all put s kms = Some (map (\<lambda>_. DUCQ_OK) kms, t) \<and> wf t \<and> room t = room s \<and>
    content t = content s ++ map_of (rev kms)"
  using assms
proof (induction kms arbitrary: s)
  case Nil
  then show ?case by simp
next
  case (Cons km kms)
  obtain k m where km: "km = (k, m)" by (cases km)
  let ?D = "dom (content s)"
  have fin: "finite (?D \<union> fst ` set (km # kms))"
    using finite_content [OF Cons.prems(1)] by simp
  have "k \<in> ?D \<or> card ?D < room s"
  proof (cases "k \<in> ?D")
    case False
    have "card (insert k ?D) \<le> card (?D \<union> fst ` set (km # kms))"
      using fin km by (intro card_mono) auto
    then show ?thesis
      using False finite_content [OF Cons.prems(1)] Cons.prems(3) by simp
  qed simp
  then obtain t where t: "put s k m = Some (DUCQ_OK, t)" "wf t" "room t = room s" "content t = (content s)(k \<mapsto> m)"
    using put_room Cons.prems(1,2) km by (metis (no_types, lifting) case_prodD list.set_intros(1))
  have "dom (content t) \<union> fst ` set kms = ?D \<union> fst ` set (km # kms)"
    using t(4) km by auto
  then obtain u where "put_all put t kms = Some (map (\<lambda>_. DUCQ_OK) kms, u)" "wf u" "room u = room t"
      "content u = content t ++ map_of (rev kms)"
    using Cons.IH [OF t(2)] Cons.prems(2,3) t(3) by auto
  note u = this
  have upd: "(content s)(k \<mapsto> m) ++ map_of (rev kms) = content s ++ map_of (rev (km # kms))"
    by (simp only: km rev.simps map_of_append map_add_assoc map_of.simps fst_conv snd_conv map_add_upd map_add_empty)
  have "put_all put s (km # kms) = Some (map (\<lambda>_. DUCQ_OK) (km # kms), u)"
    using t(1) u(1) by (simp add: km)
  moreover have "room u = room s" "content u = content s ++ map_of (rev (km # kms))"
    using u(3,4) t(3,4) upd by simp_all
  ultimately show ?case
    using u(2) by blast
qed

end

section \<open>The store keeps the contract\<close>

fun last_map :: "(char list \<times> char list) list \<Rightarrow> string \<rightharpoonup> string" where
  "last_map [] = Map.empty"
| "last_map ((last_route, last_msg) # rest) =
     (case c_str last_route 0 of
        None \<Rightarrow> Map.empty
      | Some s \<Rightarrow> if s = [] then Map.empty else (last_map rest)(s := c_str last_msg 0))"

text \<open>Every string is terminated, no route occurs twice, and the free entries are the last ones.\<close>

fun wf_last :: "(char list \<times> char list) list \<Rightarrow> bool" where
  "wf_last [] = True"
| "wf_last ((last_route, last_msg) # rest) =
     (case c_str last_route 0 of
        None \<Rightarrow> False
      | Some s \<Rightarrow>
          if s = [] then \<forall>(r, m) \<in> set rest. c_str r 0 = Some []
          else c_str last_msg 0 \<noteq> None \<and> s \<notin> dom (last_map rest) \<and> wf_last rest)"

definition storable :: "string \<Rightarrow> string \<Rightarrow> bool" where
  "storable route msg \<longleftrightarrow> route \<noteq> [] \<and> NUL \<notin> set route \<and> length route < DUCQ_MAX_ROUTE_LEN \<and>
     NUL \<notin> set msg \<and> length msg < DUCQ_MSGSZ"

lemma all_free:
  assumes "\<forall>(r, m) \<in> set lms. c_str r 0 = Some []"
  shows "last_map lms = Map.empty" and "wf_last lms"
proof -
  show "last_map lms = Map.empty"
    using assms by (cases lms) auto
  show "wf_last lms"
    using assms by (cases lms) (auto simp: case_prod_beta)
qed

lemma last_map_card: "wf_last lms \<Longrightarrow> finite (dom (last_map lms)) \<and> card (dom (last_map lms)) \<le> length lms"
proof (induction lms)
  case (Cons e lms)
  obtain r m where e: "e = (r, m)" by (cases e)
  show ?case
    using Cons by (auto simp: e card_insert_if split: option.splits if_splits)
qed simp

text \<open>The first entry of a store that holds a route.\<close>

lemma wf_last_ConsD:
  assumes "wf_last ((r, m) # lms)" and "c_str r 0 = Some s" and "s \<noteq> []"
  obtains y where "c_str m 0 = Some y" and "last_map ((r, m) # lms) = (last_map lms)(s \<mapsto> y)"
    and "wf_last lms" and "s \<notin> dom (last_map lms)"
    and "card (dom (last_map ((r, m) # lms))) = Suc (card (dom (last_map lms)))"
proof -
  have wf: "wf_last lms" "s \<notin> dom (last_map lms)"
    using assms by auto
  obtain y where y: "c_str m 0 = Some y"
    using assms by auto
  have "last_map ((r, m) # lms) = (last_map lms)(s \<mapsto> y)"
    using assms y by simp
  moreover from this have "card (dom (last_map ((r, m) # lms))) = Suc (card (dom (last_map lms)))"
    using wf last_map_card [OF wf(1)] by (simp only: dom_fun_upd) simp
  ultimately show thesis
    using that y wf by blast
qed

lemma stored: "storable route msg \<Longrightarrow>
    c_str (strncpy route DUCQ_MAX_ROUTE_LEN) 0 = Some route \<and> c_str (strncpy msg DUCQ_MSGSZ) 0 = Some msg"
  by (simp add: storable_def c_str_strncpy)

lemma set_last_spec:
  assumes "wf_last lms" and "storable route msg"
  shows "if route \<in> dom (last_map lms) \<or> card (dom (last_map lms)) < length lms
    then \<exists>t. set_last lms route msg = Some (DUCQ_OK, t) \<and> wf_last t \<and> length t = length lms \<and>
      last_map t = (last_map lms)(route \<mapsto> msg)
    else set_last lms route msg = Some (DUCQ_EMAX, lms)"
  using assms(1)
proof (induction lms)
  case (Cons e lms)
  obtain r m where e: "e = (r, m)" by (cases e)
  from Cons.prems obtain s where s: "c_str r 0 = Some s"
    by (auto simp: e split: option.splits)
  note st = stored [OF assms(2)]
  have ne: "route \<noteq> []"
    using assms(2) by (simp add: storable_def)
  consider "s = []" | "s \<noteq> []" "s = route" | "s \<noteq> []" "s \<noteq> route" by blast
  then show ?case
  proof cases
    case 1
    then show ?thesis
      using Cons.prems s st ne all_free [of lms] by (auto simp: e)
  next
    case 2
    then show ?thesis
      using Cons.prems s st by (auto simp: e)
  next
    case 3
    obtain y where y: "c_str m 0 = Some y" "last_map (e # lms) = (last_map lms)(s \<mapsto> y)" "wf_last lms"
        "s \<notin> dom (last_map lms)" "card (dom (last_map (e # lms))) = Suc (card (dom (last_map lms)))"
      using wf_last_ConsD [of r m lms s] Cons.prems s 3(1) e by metis
    have rt: "route \<in> dom (last_map (e # lms)) \<longleftrightarrow> route \<in> dom (last_map lms)"
      using y(2) 3(2) by auto
    show ?thesis
    proof (cases "route \<in> dom (last_map lms) \<or> card (dom (last_map lms)) < length lms")
      case True
      then obtain t where t: "set_last lms route msg = Some (DUCQ_OK, t)" "wf_last t" "length t = length lms"
          "last_map t = (last_map lms)(route \<mapsto> msg)"
        using Cons.IH [OF y(3)] by auto
      have "last_map ((r, m) # t) = (last_map (e # lms))(route \<mapsto> msg)"
        using s 3 y(1,2) t(4) by (simp add: fun_upd_twist)
      moreover have "wf_last ((r, m) # t)"
        using s 3 y(1,4) t(2,4) by simp
      moreover have "set_last (e # lms) route msg = Some (DUCQ_OK, (r, m) # t)"
        using s 3 t(1) by (simp add: e)
      moreover have "route \<in> dom (last_map (e # lms)) \<or> card (dom (last_map (e # lms))) < length (e # lms)"
        using True rt y(5) by simp
      ultimately show ?thesis
        using t(3) by (auto intro!: exI [of _ "(r, m) # t"])
    next
      case False
      then have "set_last (e # lms) route msg = Some (DUCQ_EMAX, e # lms)"
        using Cons.IH [OF y(3)] s 3 by (simp add: e)
      then show ?thesis
        using False rt y(5) by (simp del: last_map.simps)
    qed
  qed
qed simp

interpretation last_msgs: bounded_map last_map set_last wf_last storable length
proof unfold_locales
  fix lms :: "(char list \<times> char list) list" and route msg :: string
  assume wf: "wf_last lms"
  then show "finite (dom (last_map lms))"
    using last_map_card by blast
  assume st: "storable route msg"
  show "\<exists>t. set_last lms route msg = Some (DUCQ_OK, t) \<and> wf_last t \<and> length t = length lms \<and>
      last_map t = (last_map lms)(route \<mapsto> msg)"
    if "route \<in> dom (last_map lms) \<or> card (dom (last_map lms)) < length lms"
    using set_last_spec [OF wf st] that by simp
  show "set_last lms route msg = Some (DUCQ_EMAX, lms)"
    if "route \<notin> dom (last_map lms)" and "length lms \<le> card (dom (last_map lms))"
    using set_last_spec [OF wf st] that by simp
qed

text \<open>What the lookup answers: the message, \<open>ACK\<close> when there is none and an entry is free, and another
  acknowledgement when the store is full.\<close>

lemma get_last_spec:
  assumes "wf_last lms" and "route \<noteq> []"
  shows "get_last lms route =
    Some (case last_map lms route of
            Some m \<Rightarrow> m
          | None \<Rightarrow> if card (dom (last_map lms)) < length lms then ''ACK'' else ''ACK'' @ LF # ''_'')"
  using assms(1)
proof (induction lms)
  case (Cons e lms)
  obtain r m where e: "e = (r, m)" by (cases e)
  from Cons.prems obtain s where s: "c_str r 0 = Some s"
    by (auto simp: e split: option.splits)
  show ?case
  proof (cases "s = []")
    case False
    obtain y where y: "c_str m 0 = Some y" "last_map (e # lms) = (last_map lms)(s \<mapsto> y)" "wf_last lms"
        "s \<notin> dom (last_map lms)" "card (dom (last_map (e # lms))) = Suc (card (dom (last_map lms)))"
      using wf_last_ConsD [of r m lms s] Cons.prems s False e by metis
    have "get_last (e # lms) route = (if s = route then Some y else get_last lms route)"
      using s y(1) False by (simp add: e)
    then show ?thesis
      using Cons.IH [OF y(3)] y(2,5) by (simp del: last_map.simps get_last.simps)
  qed (use s in \<open>simp add: e\<close>)
qed simp

text \<open>An unused store: what \<open>ducq_reactor_new_with_log\<close> makes of any memory.\<close>

definition cleared :: "(char list \<times> char list) list \<Rightarrow> (char list \<times> char list) list" where
  "cleared uninit = map (\<lambda>(route, msg). (route[0 := NUL], msg[0 := NUL])) uninit"

lemma cleared_free:
  assumes "\<forall>(r, m) \<in> set uninit. r \<noteq> []"
  shows "\<forall>(r, m) \<in> set (cleared uninit). c_str r 0 = Some []"
  using assms by (auto simp: cleared_def c_str_def neq_Nil_conv)

section \<open>Properties\<close>

text \<open>C11: the store is the map from routes to their last messages.  From a new store, any sequence of
  messages over no more routes than it has entries is accepted, and a lookup then answers the last
  message of the route, or an acknowledgement when there was none.\<close>

theorem last_messages_refine:
  assumes "\<forall>(r, m) \<in> set uninit. r \<noteq> []" and "\<forall>(route, msg) \<in> set kms. storable route msg"
    and "card (fst ` set kms) \<le> length uninit" and "route \<noteq> []"
  shows "\<exists>t. put_all set_last (cleared uninit) kms = Some (map (\<lambda>_. DUCQ_OK) kms, t) \<and>
    get_last t route = Some (case map_of (rev kms) route of
        Some m \<Rightarrow> m
      | None \<Rightarrow> if card (fst ` set kms) < length uninit then ''ACK'' else ''ACK'' @ LF # ''_'')"
proof -
  have fresh: "last_map (cleared uninit) = Map.empty" "wf_last (cleared uninit)" "length (cleared uninit) = length uninit"
    using all_free cleared_free [OF assms(1)] by (simp_all add: cleared_def)
  obtain t where t: "put_all set_last (cleared uninit) kms = Some (map (\<lambda>_. DUCQ_OK) kms, t)" "wf_last t"
      "length t = length (cleared uninit)" "last_map t = last_map (cleared uninit) ++ map_of (rev kms)"
    using last_msgs.put_many [OF fresh(2) assms(2)] assms(3) fresh(1,3) by auto
  have m: "last_map t = map_of (rev kms)"
    using t(4) fresh(1) by simp
  moreover have "dom (last_map t) = fst ` set kms"
    by (simp add: m dom_map_of_conv_image_fst)
  ultimately show ?thesis
    using get_last_spec [OF t(2) assms(4)] t(1,3) fresh(3) by auto
qed

theorem last_messages_refine_witness:
  "\<exists>t. put_all set_last (cleared (replicate 2 (replicate 100 NUL, replicate 256 NUL))) [(''a'', ''one''), (''b'', ''x''), (''a'', ''two'')] =
      Some ([DUCQ_OK, DUCQ_OK, DUCQ_OK], t) \<and> get_last t ''a'' = Some ''two''"
proof -
  have "{''a'', ''b'', ''a''} = {''a'', ''b'' :: string}"
    by auto
  then have "card (fst ` set [(''a'', ''one''), (''b'', ''x''), (''a'', ''two'')]) \<le> 2"
    by simp
  then show ?thesis
    using last_messages_refine [of "replicate 2 (replicate 100 NUL, replicate 256 NUL)" "[(''a'', ''one''), (''b'', ''x''), (''a'', ''two'')]" "''a''"]
    by (auto simp: storable_def simp del: put_all.simps)
qed

end
