(* ===== verification/Ducq_Reactor.thy ===== *)
theory Ducq_Reactor
  imports Ducq_Api Ducq_Log Ducq_Channels
begin

text \<open>
  The reactor of \<open>src/ducq_reactor.c\<close>: the table of connections, the last message of each
  route, the loops over the clients, the log route, and the main loop.

  A \<open>connection_t *\<close> is the index of its slot.  A slot is free when its descriptor is -1; freeing
  it leaves the other fields as they are, so a free slot may hold a dangling client pointer.  The
  union is a datatype: a slot that held a server has no client pointer (the address of a function is
  never that of a client).  The accept functions and their contexts are numbers, interpreted by the
  environment of the main loop together with \<open>select\<close>, \<open>strerror\<close> and the dispatcher.
  None is undefined behaviour throughout.
\<close>

section \<open>The state\<close>

abbreviation DUCQ_MAX_CONNECTIONS :: nat where "DUCQ_MAX_CONNECTIONS \<equiv> 25"

datatype conn_as = AsClient nat "char list" | AsServer nat nat

record connection =
  conn_fd :: int
  conn_as :: conn_as

record ('l, 'd) reactor =
  re_world :: world
  re_conns :: "connection list"
  re_dispatcher :: "'d option"
  re_allow_log_route :: bool
  re_logfunc :: "log_entry \<Rightarrow> 'l \<Rightarrow> int \<times> 'l"
  re_logger :: 'l
  re_last_msgs :: "(char list \<times> char list) list"

text \<open>An operation on clients, and a change of one slot.\<close>

definition on_world :: "(world \<Rightarrow> ('a \<times> world) option) \<Rightarrow> ('l, 'd) reactor \<Rightarrow> ('a \<times> ('l, 'd) reactor) option" where
  "on_world f r = map_option (\<lambda>(a, w). (a, r\<lparr>re_world := w\<rparr>)) (f (re_world r))"

definition set_conn :: "nat \<Rightarrow> connection \<Rightarrow> ('l, 'd) reactor \<Rightarrow> ('l, 'd) reactor" where
  "set_conn i c r = r\<lparr>re_conns := (re_conns r)[i := c]\<rparr>"

definition conn_client :: "connection \<Rightarrow> nat option" where
  "conn_client c = (case conn_as c of AsClient p _ \<Rightarrow> Some p | AsServer _ _ \<Rightarrow> None)"

definition conn_route :: "connection \<Rightarrow> char list" where
  "conn_route c = (case conn_as c of AsClient _ route \<Rightarrow> route | AsServer _ _ \<Rightarrow> replicate DUCQ_MAX_ROUTE_LEN NUL)"

definition route_at :: "nat \<Rightarrow> ('l, 'd) reactor \<Rightarrow> string option" where
  "route_at i r = c_str (conn_route (re_conns r ! i)) 0"

section \<open>Construction and destruction\<close>

definition no_log :: "log_entry \<Rightarrow> 'l \<Rightarrow> int \<times> 'l" where
  "no_log e l = (0, l)"

text \<open>The reactor before the dispatcher is made.  \<open>malloc\<close> leaves the message store as it finds it:
  only the first bytes are cleared.\<close>

definition fresh_reactor ::
  "(char list \<times> char list) list \<Rightarrow> 'l \<Rightarrow> (log_entry \<Rightarrow> 'l \<Rightarrow> int \<times> 'l) option \<Rightarrow> world \<Rightarrow> ('l, 'd) reactor" where
  "fresh_reactor uninit logger logfunc w =
     \<lparr>re_world = w,
      re_conns = replicate DUCQ_MAX_CONNECTIONS
        \<lparr>conn_fd = - 1, conn_as = AsClient 0 (replicate DUCQ_MAX_ROUTE_LEN NUL)\<rparr>,
      re_dispatcher = None,
      re_allow_log_route = True,
      re_logfunc = (case logfunc of None \<Rightarrow> no_log | Some f \<Rightarrow> f),
      re_logger = logger,
      re_last_msgs = map (\<lambda>(route, msg). (route[0 := NUL], msg[0 := NUL])) uninit\<rparr>"

text \<open>\<open>signal\<close> may fail, \<open>malloc\<close> too; \<open>ducq_dispatcher_new\<close> answers the dispatcher or NULL.\<close>

definition ducq_reactor_new_with_log ::
  "bool \<Rightarrow> (('l, 'd) reactor \<Rightarrow> ('d option \<times> ('l, 'd) reactor) option) \<Rightarrow> (char list \<times> char list) list \<Rightarrow> 'l \<Rightarrow>
   (log_entry \<Rightarrow> 'l \<Rightarrow> int \<times> 'l) option \<Rightarrow> world \<Rightarrow> ('l, 'd) reactor option option" where
  "ducq_reactor_new_with_log signal_ok dispatcher_new uninit logger logfunc w =
     (if \<not> signal_ok then Some None
      else
        let (ok, s) = sys_malloc (w_os w) in
        if \<not> ok then Some None
        else
          do {
            (dispatcher, r) \<leftarrow> dispatcher_new (fresh_reactor uninit logger logfunc (w\<lparr>w_os := s\<rparr>));
            Some (if dispatcher = None then None else Some (r\<lparr>re_dispatcher := dispatcher\<rparr>))
          })"

definition connection_free :: "nat \<Rightarrow> ('l, 'd) reactor \<Rightarrow> ('l, 'd) reactor option" where
  "connection_free i r =
     (let c = re_conns r ! i in
      if conn_fd c = - 1 then Some r
      else
        let r = set_conn i (c\<lparr>conn_fd := - 1\<rparr>) r in
        case conn_as c of
          AsServer _ _ \<Rightarrow> Some r
        | AsClient ducq _ \<Rightarrow>
            if ducq = 0 then Some r
            else
              do {
                (_, r) \<leftarrow> on_world (ducq_close ducq) r;
                w \<leftarrow> ducq_free ducq (re_world r);
                Some (r\<lparr>re_world := w\<rparr>)
              })"

text \<open>What is left of a freed reactor is the world; nothing happens to a NULL one.\<close>

definition ducq_reactor_free ::
  "(('l, 'd) reactor \<Rightarrow> ('l, 'd) reactor) \<Rightarrow> ('l, 'd) reactor option \<Rightarrow> world option option" where
  "ducq_reactor_free dispatcher_free reactor =
     (case reactor of
        None \<Rightarrow> Some None
      | Some r \<Rightarrow>
          do {
            r \<leftarrow> foldl (\<lambda>r i. r \<bind> connection_free i) (Some r) [0..<DUCQ_MAX_CONNECTIONS];
            Some (Some (re_world (dispatcher_free r)))
          })"

definition ducq_reactor_get_dispatcher :: "('l, 'd) reactor \<Rightarrow> 'd option" where
  "ducq_reactor_get_dispatcher r = re_dispatcher r"

section \<open>The last messages\<close>

definition ducq_get_last_msg :: "string \<Rightarrow> ('l, 'd) reactor \<Rightarrow> string option" where
  "ducq_get_last_msg route r = get_last (re_last_msgs r) route"

definition ducq_set_last_msg :: "string \<Rightarrow> string \<Rightarrow> ('l, 'd) reactor \<Rightarrow> (ducq_state \<times> ('l, 'd) reactor) option" where
  "ducq_set_last_msg route msg r =
     map_option (\<lambda>(st, lms). (st, r\<lparr>re_last_msgs := lms\<rparr>)) (set_last (re_last_msgs r) route msg)"

section \<open>Connections\<close>

fun free_slot :: "connection list \<Rightarrow> nat option" where
  "free_slot [] = None"
| "free_slot (c # cs) = (if conn_fd c = - 1 then Some 0 else map_option Suc (free_slot cs))"

definition ducq_reactor_add_server :: "int \<Rightarrow> nat \<Rightarrow> nat \<Rightarrow> ('l, 'd) reactor \<Rightarrow> ducq_state \<times> ('l, 'd) reactor" where
  "ducq_reactor_add_server fd accept_f ctx r =
     (case free_slot (re_conns r) of
        None \<Rightarrow> (DUCQ_EMAX, r)
      | Some i \<Rightarrow> (DUCQ_OK, set_conn i \<lparr>conn_fd = fd, conn_as = AsServer accept_f ctx\<rparr> r))"

definition ducq_reactor_add_client :: "int \<Rightarrow> nat \<Rightarrow> ('l, 'd) reactor \<Rightarrow> ducq_state \<times> ('l, 'd) reactor" where
  "ducq_reactor_add_client fd ducq r =
     (case free_slot (re_conns r) of
        None \<Rightarrow> (DUCQ_EMAX, r)
      | Some i \<Rightarrow>
          (DUCQ_OK,
           set_conn i \<lparr>conn_fd = fd, conn_as = AsClient ducq ((conn_route (re_conns r ! i))[0 := NUL])\<rparr> r))"

text \<open>The client pointer of every slot is compared, of the free ones too.\<close>

fun client_slot :: "nat \<Rightarrow> connection list \<Rightarrow> nat option" where
  "client_slot ducq [] = None"
| "client_slot ducq (c # cs) = (if conn_client c = Some ducq then Some 0 else map_option Suc (client_slot ducq cs))"

definition ducq_reactor_subscribe :: "nat \<Rightarrow> string \<Rightarrow> ('l, 'd) reactor \<Rightarrow> ducq_state \<times> ('l, 'd) reactor" where
  "ducq_reactor_subscribe ducq route r =
     (case client_slot ducq (re_conns r) of
        None \<Rightarrow> (DUCQ_ENOTFOUND, r)
      | Some i \<Rightarrow>
          (DUCQ_OK,
           set_conn i ((re_conns r ! i)\<lparr>conn_as := AsClient ducq (strncpy route DUCQ_MAX_ROUTE_LEN)\<rparr>) r))"

section \<open>Loops over the connections\<close>

definition DUCQ_LOOP_CONTINUE :: nat where "DUCQ_LOOP_CONTINUE = 0"
definition DUCQ_LOOP_BREAK :: nat where "DUCQ_LOOP_BREAK = 1"
definition DUCQ_LOOP_DELETE :: nat where "DUCQ_LOOP_DELETE = 2"

text \<open>A hook gets the slot, its own context and the reactor, and answers the control bits.\<close>

type_synonym ('x, 'l, 'd) loop_hook = "nat \<Rightarrow> 'x \<Rightarrow> ('l, 'd) reactor \<Rightarrow> (nat \<times> 'x \<times> ('l, 'd) reactor) option"

fun loop_slots ::
  "('x, 'l, 'd) loop_hook \<Rightarrow> nat list \<Rightarrow> nat \<Rightarrow> 'x \<Rightarrow> ('l, 'd) reactor \<Rightarrow> (nat \<times> 'x \<times> ('l, 'd) reactor) option" where
  "loop_slots hook [] control x r = Some (control, x, r)"
| "loop_slots hook (i # is) control x r =
     (if conn_fd (re_conns r ! i) = - 1 then loop_slots hook is control x r
      else
        do {
          (control, x, r) \<leftarrow> hook i x r;
          r \<leftarrow> (if control AND DUCQ_LOOP_DELETE \<noteq> 0 then connection_free i r else Some r);
          if control AND DUCQ_LOOP_BREAK \<noteq> 0 then Some (control, x, r)
          else loop_slots hook is control x r
        })"

definition connection_loop_template ::
  "('x, 'l, 'd) loop_hook \<Rightarrow> 'x \<Rightarrow> ('l, 'd) reactor \<Rightarrow> (nat \<times> 'x \<times> ('l, 'd) reactor) option" where
  "connection_loop_template hook x r = loop_slots hook [0..<DUCQ_MAX_CONNECTIONS] DUCQ_LOOP_CONTINUE x r"

text \<open>A client function gets the client and the slot its route is in.\<close>

type_synonym ('x, 'l, 'd) loop_fun = "nat \<Rightarrow> ('x, 'l, 'd) loop_hook"

definition loop_through_client :: "('x, 'l, 'd) loop_fun \<Rightarrow> ('x, 'l, 'd) loop_hook" where
  "loop_through_client apply i x r =
     (case conn_as (re_conns r ! i) of
        AsClient ducq _ \<Rightarrow> apply ducq i x r
      | AsServer _ _ \<Rightarrow> Some (DUCQ_LOOP_CONTINUE, x, r))"

definition ducq_reactor_loop ::
  "('x, 'l, 'd) loop_fun \<Rightarrow> 'x \<Rightarrow> ('l, 'd) reactor \<Rightarrow> (nat \<times> 'x \<times> ('l, 'd) reactor) option" where
  "ducq_reactor_loop apply x r = connection_loop_template (loop_through_client apply) x r"

definition delete_client :: "nat \<Rightarrow> (unit, 'l, 'd) loop_fun" where
  "delete_client ctx ducq i x r =
     Some (if ducq = ctx then DUCQ_LOOP_DELETE OR DUCQ_LOOP_BREAK else DUCQ_LOOP_CONTINUE, x, r)"

definition ducq_reactor_delete :: "nat \<Rightarrow> ('l, 'd) reactor \<Rightarrow> (bool \<times> ('l, 'd) reactor) option" where
  "ducq_reactor_delete ducq r =
     (if ducq = 0 then Some (False, r)
      else
        do {
          (control, _, r) \<leftarrow> ducq_reactor_loop (delete_client ducq) () r;
          Some (control AND DUCQ_LOOP_DELETE \<noteq> 0, r)
        })"

section \<open>The iterator\<close>

text \<open>The iterator is the index of the next slot; a client is answered with its slot, where the route
  is.  \<open>ducq_new_client_it\<close> does not test \<open>malloc\<close>.\<close>

definition ducq_new_client_it :: "('l, 'd) reactor \<Rightarrow> (nat \<times> ('l, 'd) reactor) option" where
  "ducq_new_client_it r =
     (let (ok, s) = sys_malloc (w_os (re_world r))
      in if ok then Some (0, r\<lparr>re_world := (re_world r)\<lparr>w_os := s\<rparr>\<rparr>) else None)"

function next_slot :: "connection list \<Rightarrow> nat \<Rightarrow> nat" where
  "next_slot cs i =
     (if i < DUCQ_MAX_CONNECTIONS \<and> \<not> (conn_fd (cs ! i) \<noteq> - 1 \<and> conn_client (cs ! i) \<noteq> None)
      then next_slot cs (i + 1) else i)"
  by pat_completeness auto
termination
  by (relation "measure (\<lambda>(cs, i). DUCQ_MAX_CONNECTIONS - i)") auto

declare next_slot.simps [simp del]

definition ducq_next :: "nat \<Rightarrow> ('l, 'd) reactor \<Rightarrow> (nat \<times> nat) option \<times> nat" where
  "ducq_next it r =
     (let i = next_slot (re_conns r) it in
      if DUCQ_MAX_CONNECTIONS \<le> i then (None, it)
      else
        case conn_client (re_conns r ! i) of
          Some ducq \<Rightarrow> (Some (ducq, i), i + 1)
        | None \<Rightarrow> (None, it))"

section \<open>Logging\<close>

definition DUCQ_LOG_ROUTE :: string where "DUCQ_LOG_ROUTE = ''LOG''"

definition do_send_to_log_route :: "char list \<Rightarrow> nat \<Rightarrow> (unit, 'l, 'd) loop_fun" where
  "do_send_to_log_route buffer sz ducq i x r =
     do {
       route \<leftarrow> route_at i r;
       if route \<noteq> DUCQ_LOG_ROUTE then Some (DUCQ_LOOP_CONTINUE, x, r)
       else
         do {
           (st, r) \<leftarrow> on_world (send_buf ducq buffer sz) r;
           Some (if st \<noteq> DUCQ_OK then DUCQ_LOOP_DELETE else DUCQ_LOOP_CONTINUE, x, r)
         }
     }"

text \<open>The two calls of \<open>snprintf\<close> into the buffer; the size is what they answer in all.\<close>

definition log_buffer :: "log_entry \<Rightarrow> (char list \<times> nat) option" where
  "log_buffer e =
     (let (b, n) = snprintf DUCQ_MSGSZ
        (ducq_level_tostr (le_level e) @ '','' @ le_function e @ '','' @ fmt_str (le_sender e) @ '','') in
      do {
        buffer \<leftarrow> mem_write (replicate DUCQ_MSGSZ NUL) 0 (b @ [NUL]);
        if DUCQ_MSGSZ < n then None
        else
          let (b, k) = snprintf (DUCQ_MSGSZ - n) (le_text e) in
          do {
            buffer \<leftarrow> (if n = DUCQ_MSGSZ then Some buffer else mem_write buffer n (b @ [NUL]));
            Some (buffer, n + k)
          }
      })"

definition ducq_reactor_log :: "log_entry \<Rightarrow> ('l, 'd) reactor \<Rightarrow> (int \<times> ('l, 'd) reactor) option" where
  "ducq_reactor_log e r =
     (let (rc, logger) = re_logfunc r e (re_logger r);
          r = r\<lparr>re_logger := logger\<rparr> in
      if \<not> re_allow_log_route r then Some (rc, r)
      else
        do {
          (buffer, sz) \<leftarrow> log_buffer e;
          (_, _, r) \<leftarrow> ducq_reactor_loop (do_send_to_log_route buffer sz) () r;
          Some (rc, r)
        })"

text \<open>The macro \<open>ducq_log\<close>: the sender is the id of the client.\<close>

definition ducq_log :: "ducq_log_level \<Rightarrow> string \<Rightarrow> nat \<Rightarrow> string \<Rightarrow> ('l, 'd) reactor \<Rightarrow> ('l, 'd) reactor option" where
  "ducq_log level function_name ducq txt r =
     do {
       (sender, r) \<leftarrow> on_world (ducq_id ducq) r;
       (_, r) \<leftarrow> ducq_reactor_log
         \<lparr>le_level = level, le_function = function_name, le_sender = sender, le_text = txt\<rparr> r;
       Some r
     }"

definition ducq_reactor_allow_log_route :: "bool \<Rightarrow> ('l, 'd) reactor \<Rightarrow> bool \<times> ('l, 'd) reactor" where
  "ducq_reactor_allow_log_route is_allowed r = (re_allow_log_route r, r\<lparr>re_allow_log_route := is_allowed\<rparr>)"

definition ducq_reactor_set_log :: "'l \<Rightarrow> (log_entry \<Rightarrow> 'l \<Rightarrow> int \<times> 'l) \<Rightarrow> ('l, 'd) reactor \<Rightarrow> ('l, 'd) reactor" where
  "ducq_reactor_set_log logger logfunc r = r\<lparr>re_logger := logger, re_logfunc := logfunc\<rparr>"

section \<open>The main loop\<close>

text \<open>\<open>select\<close> gets the first descriptor it does not look at and the descriptors to look at; it answers
  a count or -1, and the descriptors that are ready.\<close>

record ('l, 'd) loop_env =
  env_dispatch :: "nat \<Rightarrow> char list \<Rightarrow> nat \<Rightarrow> ('l, 'd) reactor \<Rightarrow> (ducq_state \<times> char list \<times> ('l, 'd) reactor) option"
  env_accept :: "nat \<Rightarrow> int \<Rightarrow> nat \<Rightarrow> ('l, 'd) reactor \<Rightarrow> ('l, 'd) reactor option"
  env_select :: "int \<Rightarrow> int list \<Rightarrow> ('l, 'd) reactor \<Rightarrow> int \<times> int list \<times> ('l, 'd) reactor"
  env_strerror :: "errno \<Rightarrow> string"

definition disconnect_text :: "(errno \<Rightarrow> string) \<Rightarrow> ducq_state \<Rightarrow> nat \<Rightarrow> char list \<Rightarrow> errno \<Rightarrow> string option" where
  "disconnect_text strerror state sz buffer e =
     do {
       p \<leftarrow> fmt_prec (to_int32 (int sz)) buffer;
       Some (''disconnecting: '' @ state_msg state @ '' ('' @ strerror e @ '') '' @
             ''buffer['' @ dec_int (sint (of_nat sz :: 64 word)) @ '']'' @ [CHR 0x22] @ p @ [CHR 0x22])
     }"

text \<open>The context is the buffer and the count of descriptors not yet served.\<close>

definition round_table :: "('l, 'd) loop_env \<Rightarrow> int list \<Rightarrow> (char list \<times> int, 'l, 'd) loop_hook" where
  "round_table env fds i x r =
     (let (buffer, nready) = x; c = re_conns r ! i in
      if conn_fd c \<notin> set fds then Some (DUCQ_LOOP_CONTINUE, x, r)
      else
        let nready = nready - 1;
            control = (if nready \<le> 0 then DUCQ_LOOP_BREAK else DUCQ_LOOP_CONTINUE) in
        case conn_as c of
          AsServer accept_f ctx \<Rightarrow>
            do { r \<leftarrow> env_accept env accept_f (conn_fd c) ctx r; Some (control, (buffer, nready), r) }
        | AsClient ducq _ \<Rightarrow>
            do {
              ((state, sz, buffer), r) \<leftarrow> on_world (ducq_recv ducq (replicate DUCQ_MSGSZ NUL) DUCQ_MSGSZ) r;
              if state = DUCQ_OK then
                do {
                  (_, buffer, r) \<leftarrow> env_dispatch env ducq buffer sz r;
                  Some (control, (buffer, nready), r)
                }
              else if state = DUCQ_PROTOCOL then Some (control, (buffer, nready), r)
              else
                do {
                  (_, r) \<leftarrow> on_world (ducq_send_ack ducq state) r;
                  (sender, r) \<leftarrow> on_world (ducq_id ducq) r;
                  txt \<leftarrow> disconnect_text (env_strerror env) state sz buffer (os_errno (w_os (re_world r)));
                  (_, r) \<leftarrow> ducq_reactor_log
                    \<lparr>le_level = (if state = DUCQ_ECONNCLOSED then DUCQ_LOG_INFO else DUCQ_LOG_WARNING),
                     le_function = ''round_table'', le_sender = sender, le_text = txt\<rparr> r;
                  Some (control OR DUCQ_LOOP_DELETE, (buffer, nready), r)
                }
            })"

text \<open>\<open>FD_SET\<close> is defined for the descriptors below \<open>FD_SETSIZE\<close> only.\<close>

definition FD_SETSIZE :: int where "FD_SETSIZE = 1024"

definition watched_fds :: "connection list \<Rightarrow> int list option" where
  "watched_fds cs =
     (let fds = filter (\<lambda>fd. fd \<noteq> - 1) (map conn_fd (take DUCQ_MAX_CONNECTIONS cs))
      in if \<forall>fd \<in> set fds. 0 \<le> fd \<and> fd < FD_SETSIZE then Some fds else None)"

definition ducq_loop_turn :: "('l, 'd) loop_env \<Rightarrow> char list \<Rightarrow> ('l, 'd) reactor \<Rightarrow> (char list \<times> ('l, 'd) reactor) option" where
  "ducq_loop_turn env buffer r =
     do {
       fds \<leftarrow> watched_fds (re_conns r);
       let (nready, ready, r) = env_select env (foldl max 1 fds + 1) fds r in
       if nready = - 1 then
         do {
           (_, r) \<leftarrow> ducq_reactor_log
             \<lparr>le_level = DUCQ_LOG_ERROR, le_function = ''ducq_loop'', le_sender = Some (''n'' @ [CHR 0x5C] @ ''a''),
              le_text = ''select() failed: '' @ env_strerror env (os_errno (w_os (re_world r))) @ [LF]\<rparr> r;
           Some (buffer, r)
         }
       else
         do {
           (_, (buffer, _), r) \<leftarrow> connection_loop_template (round_table env ready) (buffer, nready) r;
           Some (buffer, r)
         }
     }"

text \<open>The loop has no exit: its value is None while it runs, and Some for undefined behaviour.\<close>

partial_function (option) ducq_loop_from :: "('l, 'd) loop_env \<Rightarrow> char list \<Rightarrow> ('l, 'd) reactor \<Rightarrow> unit option" where
  "ducq_loop_from env buffer r =
     (case ducq_loop_turn env buffer r of
        None \<Rightarrow> Some ()
      | Some (buffer, r) \<Rightarrow> ducq_loop_from env buffer r)"

definition ducq_loop :: "('l, 'd) loop_env \<Rightarrow> ('l, 'd) reactor \<Rightarrow> unit option" where
  "ducq_loop env r = ducq_loop_from env (replicate DUCQ_MSGSZ NUL) r"

end
