(* ===== verification/Ducq_Commands.thy ===== *)
theory Ducq_Commands
  imports Ducq_Reactor
begin

text \<open>
  The commands of \<open>src/commands/\<close>: PING, PONG, epoch, time, list_subscriptions, lsconn, pub and
  publish, sub and subscribe, unsub.

  A command gets the client, the buffer with the message and the size of the message, and answers a
  state, the buffer and the reactor.  \<open>pub.c\<close> and \<open>publish.c\<close>, \<open>sub.c\<close> and \<open>subscribe.c\<close> differ in
  the name of the function only, which is logged: it is an argument here.
\<close>

type_synonym ('l, 'd) command =
  "nat \<Rightarrow> char list \<Rightarrow> nat \<Rightarrow> ('l, 'd) reactor \<Rightarrow> (ducq_state \<times> char list \<times> ('l, 'd) reactor) option"

section \<open>PING and PONG\<close>

text \<open>The payload is the format of the log entry.\<close>

definition log_payload :: "string \<Rightarrow> nat \<Rightarrow> char list \<Rightarrow> ('l, 'd) reactor \<Rightarrow> ('l, 'd) reactor option" where
  "log_payload function_name ducq message r =
     do {
       s \<leftarrow> c_str message 0;
       payload \<leftarrow> ducq_parse_payload s;
       txt \<leftarrow> fmt_no_args (drop payload s);
       ducq_log DUCQ_LOG_DEBUG function_name ducq txt r
     }"

definition PING :: "('l, 'd) command" where
  "PING ducq message sz r =
     do {
       r \<leftarrow> log_payload ''PING'' ducq message r;
       message \<leftarrow> mem_write message 1 ''O'';
       (st, r) \<leftarrow> on_world (send_buf ducq message sz) r;
       Some (st, message, r)
     }"

definition PONG :: "('l, 'd) command" where
  "PONG ducq message sz r =
     do {
       r \<leftarrow> log_payload ''PONG'' ducq message r;
       message \<leftarrow> mem_write message 1 ''O'';
       Some (DUCQ_OK, message, r)
     }"

section \<open>The time\<close>

definition epoch :: "('l, 'd) command" where
  "epoch ducq message sz r =
     (let (now, n) = snprintf 25 (dec_int (os_time (w_os (re_world r)))) in
      do {
        r \<leftarrow> ducq_log DUCQ_LOG_INFO ''epoch'' ducq now r;
        (st, r) \<leftarrow> on_world (send_buf ducq (now @ replicate (25 - length now) NUL) n) r;
        Some (st, message, r)
      })"

text \<open>The size of the whole buffer is sent, the terminator with it.\<close>

definition gettime :: "(int \<Rightarrow> tm) \<Rightarrow> ('l, 'd) command" where
  "gettime localtime ducq message sz r =
     do {
       now \<leftarrow> ducq_getnow localtime (os_time (w_os (re_world r))) DUCQ_TIMESTAMP_SIZE;
       r \<leftarrow> ducq_log DUCQ_LOG_INFO ''gettime'' ducq now r;
       (st, r) \<leftarrow> on_world (send_buf ducq (now @ replicate (DUCQ_TIMESTAMP_SIZE - length now) NUL) DUCQ_TIMESTAMP_SIZE) r;
       Some (st, message, r)
     }"

section \<open>Lists of connections\<close>

definition conn_line :: "string option \<Rightarrow> string \<Rightarrow> string" where
  "conn_line i route = fmt_str i @ '','' @ route @ [LF]"

text \<open>The context of \<open>_list\<close>: the payload, the position of \<open>buffer\<close> in it, and \<open>left\<close>, a \<open>size_t\<close>.\<close>

definition list_entry :: "(char list \<times> nat \<times> nat, 'l, 'd) loop_fun" where
  "list_entry ducq i x r =
     (let (payload, pos, left) = x in
      do {
        route \<leftarrow> route_at i r;
        (sender, r) \<leftarrow> on_world (ducq_id ducq) r;
        let (txt, len) = snprintf left (conn_line sender route) in
        do {
          payload \<leftarrow> (if left = 0 then Some payload else mem_write payload pos (txt @ [NUL]));
          let left = nat ((int left - int len) mod 2 ^ 64) in
          Some (if 0 < left then DUCQ_LOOP_CONTINUE else DUCQ_LOOP_BREAK, (payload, pos + len, left), r)
        }
      })"

definition list_subscriptions :: "('l, 'd) command" where
  "list_subscriptions ducq message sz r =
     do {
       r \<leftarrow> ducq_log DUCQ_LOG_INFO ''list_subscriptions'' ducq [] r;
       (_, (payload, pos, left), r) \<leftarrow>
         ducq_reactor_loop list_entry (replicate DUCQ_MSGSZ NUL, 0, DUCQ_MSGSZ) r;
       (_, r) \<leftarrow> on_world (send_buf ducq payload (nat ((int DUCQ_MSGSZ - int left) mod 2 ^ 64))) r;
       Some (DUCQ_OK, message, r)
     }"

definition send_entry :: "nat \<Rightarrow> (unit, 'l, 'd) loop_fun" where
  "send_entry ducq client i x r =
     do {
       route \<leftarrow> route_at i r;
       (sender, r) \<leftarrow> on_world (ducq_id client) r;
       let (txt, n) = snprintf DUCQ_MSGSZ (conn_line sender route) in
       do {
         (st, r) \<leftarrow> on_world (send_buf ducq (txt @ [NUL]) n) r;
         Some (if st \<noteq> DUCQ_OK then DUCQ_LOOP_BREAK else DUCQ_LOOP_CONTINUE, x, r)
       }
     }"

definition list_connections :: "nat \<Rightarrow> ('l, 'd) reactor \<Rightarrow> (ducq_state \<times> ('l, 'd) reactor) option" where
  "list_connections ducq r =
     do {
       (st, r) \<leftarrow> on_world (ducq_parts ducq) r;
       if st \<noteq> DUCQ_OK then Some (st, r)
       else
         do {
           (control, _, r) \<leftarrow> ducq_reactor_loop (send_entry ducq) () r;
           if control \<noteq> 0 then Some (DUCQ_EWRITE, r)
           else on_world (ducq_end ducq) r
         }
     }"

definition lsconn :: "('l, 'd) command" where
  "lsconn ducq message sz r =
     do {
       (state, r) \<leftarrow> list_connections ducq r;
       r \<leftarrow> ducq_log (if state \<noteq> DUCQ_OK then DUCQ_LOG_WARNING else DUCQ_LOG_INFO) ''lsconn'' ducq (state_msg state) r;
       Some (state, message, r)
     }"

section \<open>Publishing\<close>

definition publish_to :: "string \<Rightarrow> char list \<Rightarrow> nat \<Rightarrow> (nat, 'l, 'd) loop_fun" where
  "publish_to pub_route buffer sz ducq i count r =
     do {
       route \<leftarrow> route_at i r;
       if \<not> ducq_route_cmp (Some route) (Some pub_route) then Some (DUCQ_LOOP_CONTINUE, count, r)
       else
         do {
           (st, r) \<leftarrow> on_world (send_buf ducq buffer sz) r;
           Some (if st \<noteq> DUCQ_OK then (DUCQ_LOOP_DELETE, count, r) else (DUCQ_LOOP_CONTINUE, count + 1, r))
         }
     }"

text \<open>The route of the message, copied with \<open>strndup\<close>: the state, and the copy.\<close>

definition copy_route :: "string \<Rightarrow> ('l, 'd) reactor \<Rightarrow> (ducq_state \<times> string option \<times> ('l, 'd) reactor) option" where
  "copy_route s r =
     (case ducq_parse_route s None of
        (None, _) \<Rightarrow> Some (DUCQ_EMSGINV, None, r)
      | (Some route, e) \<Rightarrow>
          do {
            end \<leftarrow> e;
            let (ok, os) = sys_malloc (w_os (re_world r));
                r = r\<lparr>re_world := (re_world r)\<lparr>w_os := os\<rparr>\<rparr> in
            Some (if ok then (DUCQ_OK, Some (take (end - route) (drop route s)), r)
                  else (DUCQ_EMEMFAIL, None, r))
          })"

definition pub_as :: "string \<Rightarrow> ('l, 'd) command" where
  "pub_as function_name ducq buffer sz r =
     do {
       s \<leftarrow> c_str buffer 0;
       (route_state, route, r) \<leftarrow> copy_route s r;
       r \<leftarrow> (case route of
              Some route \<Rightarrow> map_option snd (ducq_set_last_msg route s r)
            | None \<Rightarrow> Some r);
       (ack_state, r) \<leftarrow> on_world (ducq_send_ack ducq route_state) r;
       let returned_state = (if route_state \<noteq> DUCQ_OK then route_state else ack_state) in
       do {
         r \<leftarrow> ducq_log (if returned_state \<noteq> DUCQ_OK then DUCQ_LOG_WARNING else DUCQ_LOG_INFO) function_name ducq
                (fmt_str route @ '',send: '' @ state_msg ack_state) r;
         if returned_state \<noteq> DUCQ_OK then
           do { (_, r) \<leftarrow> ducq_reactor_delete ducq r; Some (returned_state, buffer, r) }
         else
           do {
             route \<leftarrow> route;
             (_, count, r) \<leftarrow> ducq_reactor_loop (publish_to route buffer sz) 0 r;
             r \<leftarrow> ducq_log DUCQ_LOG_INFO function_name ducq (route @ '','' @ dec_nat count @ '' notified'') r;
             Some (returned_state, buffer, r)
           }
       }
     }"

definition pub :: "('l, 'd) command" where "pub = pub_as ''pub''"
definition publish :: "('l, 'd) command" where "publish = pub_as ''publish''"

section \<open>Subscribing\<close>

text \<open>The answer to the subscriber.\<close>

definition sub_answer :: "nat \<Rightarrow> ducq_state \<Rightarrow> string option \<Rightarrow> string \<Rightarrow> ('l, 'd) reactor \<Rightarrow> (ducq_state \<times> ('l, 'd) reactor) option" where
  "sub_answer ducq add_state payload route r =
     (if add_state \<noteq> DUCQ_OK then on_world (ducq_send_ack ducq add_state) r
      else if payload = Some ''last'' then
        do { last \<leftarrow> ducq_get_last_msg route r; on_world (ducq_send ducq last) r }
      else on_world (ducq_send_ack ducq DUCQ_OK) r)"

definition sub_as :: "string \<Rightarrow> ('l, 'd) command" where
  "sub_as function_name ducq buffer sz r =
     do {
       s \<leftarrow> c_str buffer 0;
       case ducq_parse_route s None of
         (None, _) \<Rightarrow>
           do {
             (_, r) \<leftarrow> on_world (ducq_send_ack ducq DUCQ_EMSGINV) r;
             r \<leftarrow> ducq_log DUCQ_LOG_WARNING function_name ducq (state_msg DUCQ_EMSGINV) r;
             Some (DUCQ_EMSGINV, buffer, r)
           }
       | (Some start, e) \<Rightarrow>
           do {
             end \<leftarrow> e;
             buffer \<leftarrow> mem_write buffer end [NUL];
             route \<leftarrow> c_str buffer start;
             payload \<leftarrow> (case ducq_parse_payload s of None \<Rightarrow> Some None | Some p \<Rightarrow> map_option Some (c_str buffer p));
             let (add_state, r) = ducq_reactor_subscribe ducq route r in
             do {
               r \<leftarrow> (if add_state \<noteq> DUCQ_OK then ducq_log DUCQ_LOG_ERROR function_name ducq (state_msg add_state) r
                     else Some r);
               (ack_state, r) \<leftarrow> sub_answer ducq add_state payload route r;
               r \<leftarrow> (if ack_state \<noteq> DUCQ_OK then
                       do {
                         r \<leftarrow> ducq_log DUCQ_LOG_WARNING function_name ducq (state_msg ack_state) r;
                         (_, r) \<leftarrow> ducq_reactor_delete ducq r;
                         Some r
                       }
                     else ducq_log DUCQ_LOG_INFO function_name ducq route r);
               buffer \<leftarrow> mem_write buffer end [LF];
               Some (if add_state \<noteq> DUCQ_OK then add_state else ack_state, buffer, r)
             }
           }
     }"

definition sub :: "('l, 'd) command" where "sub = sub_as ''sub''"
definition subscribe :: "('l, 'd) command" where "subscribe = sub_as ''subscribe''"

section \<open>Closing a client's connection\<close>

definition unsubscribe_id :: "string \<Rightarrow> (nat, 'l, 'd) loop_fun" where
  "unsubscribe_id i ducq slot count r =
     do {
       (client_id, r) \<leftarrow> on_world (ducq_id ducq) r;
       client_id \<leftarrow> client_id;
       Some (if i = client_id then (DUCQ_LOOP_DELETE OR DUCQ_LOOP_BREAK, count + 1, r)
             else (DUCQ_LOOP_CONTINUE, count, r))
     }"

definition unsub :: "('l, 'd) command" where
  "unsub ducq buffer sz r =
     do {
       s \<leftarrow> c_str buffer 0;
       let i = map_option (\<lambda>p. drop p s) (ducq_parse_payload s);
           finish = (\<lambda>level count state r.
             do {
               r \<leftarrow> ducq_log level ''unsub'' ducq (fmt_str i @ '','' @ dec_nat count @ '' unsubscribed'') r;
               (st, r) \<leftarrow> on_world (ducq_send_ack ducq state) r;
               Some (st, buffer, r)
             }) in
       if i = None \<or> i = Some [] then finish DUCQ_LOG_WARNING 0 DUCQ_EMSGINV r
       else
         do {
           (_, count, r) \<leftarrow> ducq_reactor_loop (unsubscribe_id (fmt_str i)) 0 r;
           if count = 0 then finish DUCQ_LOG_WARNING count DUCQ_ENOTFOUND r
           else finish DUCQ_LOG_INFO count DUCQ_OK r
         }
     }"

end
