(* ===== verification/Ducq_Dispatcher.thy ===== *)
theory Ducq_Dispatcher
  imports Ducq_Commands
begin

text \<open>
  The dispatcher of \<open>src/ducq_dispatcher.c\<close>: the loaded commands, the Lua extensions, and the search
  for the command of a message.

  The dynamic loader, the directories, \<open>stat\<close>, \<open>inotify\<close> and Lua are parameters, fields of
  \<open>disp_env\<close>.  A loaded command's function is a number that \<open>de_exec\<close> interprets.  The Lua state is
  what the parameters make of it, with the number of values the C code has left on its stack: pushing
  more than \<open>LUA_MINSTACK\<close> is undefined, as the manual of Lua says, and so is any use of the NULL
  state.  The dispatcher is the one of the reactor.
\<close>

section \<open>The state\<close>

record cmd_entry =
  cmd_name :: string
  cmd_doc :: string
  cmd_exec :: nat

record 's lua =
  lua_state :: 's
  lua_top :: nat

record extension =
  ext_wd :: int
  ext_path :: string

text \<open>\<open>di_cmds\<close> are the first \<open>ncmd\<close> entries, None when there is no array (\<open>ncmd\<close> is -1 then); the
  handles are as many.\<close>

record 's dispatcher =
  di_cmds :: "cmd_entry list option"
  di_lua :: "'s lua option"
  di_notifyfd :: int
  di_extensions :: "extension list"

type_synonym ('l, 's) server = "('l, 's dispatcher) reactor"

section \<open>The parameters\<close>

datatype dl_result = DlFailed string | DlNoSymbol "string option" | DlCommand cmd_entry

datatype file_kind = Regular | Directory | Other

text \<open>An entry of the Lua table \<open>commands\<close>: the text of its field \<open>doc\<close> when that is a string, and
  whether its field \<open>exec\<close> is a function; a value that is no table.\<close>

datatype lua_key = LuaString string | LuaNumber string | LuaKey

datatype lua_value = LuaTable "string option" bool | LuaValue

datatype lua_result = LuaError string | LuaState ducq_state | LuaOther

datatype notify_read = NotifyNothing | NotifyFailed errno int | NotifyEvents "(int \<times> string) list"

record ('l, 's) disp_env =
  de_exec :: "nat \<Rightarrow> ('l, 's dispatcher) command"
  de_readdir :: "string \<Rightarrow> string list option"
  de_closedir :: "string \<Rightarrow> bool"
  de_dlopen :: "string \<Rightarrow> dl_result"
  de_stat :: "string \<Rightarrow> file_kind option"
  de_watch :: "string \<Rightarrow> int"
  de_notify :: "('l, 's) server \<Rightarrow> notify_read"
  de_strerror :: "errno \<Rightarrow> string"
  de_lua_new :: "string option \<times> 's"
  de_lua_file :: "string \<Rightarrow> ('l, 's) server \<Rightarrow> (string option \<times> ('l, 's) server) option"
  de_lua_commands :: "'s \<Rightarrow> (lua_key \<times> lua_value) list option"
  de_lua_call :: "string \<Rightarrow> nat \<Rightarrow> ducq_msg \<Rightarrow> ('l, 's) server \<Rightarrow> (lua_result \<times> ('l, 's) server) option"

definition MAX_EXTENSIONS :: nat where "MAX_EXTENSIONS = 10"
definition PATH_MAX :: nat where "PATH_MAX = 4096"
definition LUA_MINSTACK :: nat where "LUA_MINSTACK = 20"
definition LUA_DUCQ_PACKAGE_NAME :: string where "LUA_DUCQ_PACKAGE_NAME = ''LuaDucq''"

definition errno_text :: "('l, 's) disp_env \<Rightarrow> ('l, 's) server \<Rightarrow> string" where
  "errno_text env r = de_strerror env (os_errno (w_os (re_world r)))"

text \<open>A log call, with its sender.\<close>

definition log_as :: "ducq_log_level \<Rightarrow> string \<Rightarrow> string \<Rightarrow> string \<Rightarrow> ('l, 'd) reactor \<Rightarrow> ('l, 'd) reactor option" where
  "log_as level function_name sender txt r =
     map_option snd (ducq_reactor_log
       \<lparr>le_level = level, le_function = function_name, le_sender = Some sender, le_text = txt\<rparr> r)"

text \<open>Access to the Lua state: room for \<open>k\<close> more values, and the height of its stack.\<close>

definition lua_of :: "('l, 's) server \<Rightarrow> 's lua option" where
  "lua_of r = re_dispatcher r \<bind> di_lua"

definition lua_room :: "nat \<Rightarrow> ('l, 's) server \<Rightarrow> 's lua option" where
  "lua_room k r = do { L \<leftarrow> lua_of r; if lua_top L + k \<le> LUA_MINSTACK then Some L else None }"

definition set_top :: "nat \<Rightarrow> ('l, 's) server \<Rightarrow> ('l, 's) server" where
  "set_top n r =
     r\<lparr>re_dispatcher := map_option (\<lambda>d. d\<lparr>di_lua := map_option (\<lambda>L. L\<lparr>lua_top := n\<rparr>) (di_lua d)\<rparr>) (re_dispatcher r)\<rparr>"

definition close_fd :: "int \<Rightarrow> ('l, 'd) reactor \<Rightarrow> ('l, 'd) reactor" where
  "close_fd fd r = r\<lparr>re_world := (re_world r)\<lparr>w_os := snd (sys_close fd (w_os (re_world r)))\<rparr>\<rparr>"

section \<open>Construction and destruction\<close>

text \<open>\<open>_make_lua\<close>: the parameter answers the error message of the script that loads the package.\<close>

definition make_lua :: "('l, 's) disp_env \<Rightarrow> ('l, 's) server \<Rightarrow> ('s lua option \<times> ('l, 's) server) option" where
  "make_lua env r =
     do {
       r \<leftarrow> log_as DUCQ_LOG_INFO ''_make_lua'' ''dispatcher'' (''loading: '' @ [CHR 0x27] @ LUA_DUCQ_PACKAGE_NAME @ [CHR 0x27, LF]) r;
       case de_lua_new env of
         (Some err, s) \<Rightarrow>
           do {
             r \<leftarrow> log_as DUCQ_LOG_ERROR ''_make_lua'' ''dispatcher''
               (''Ducq = require('' @ [CHR 0x27] @ LUA_DUCQ_PACKAGE_NAME @ [CHR 0x27] @ '') failed: '' @ err) r;
             Some (None, r)
           }
       | (None, s) \<Rightarrow> Some (Some \<lparr>lua_state = s, lua_top = 0\<rparr>, r)
     }"

text \<open>The notification callback is the server function number 0.\<close>

definition ACCEPT_NOTIFY :: nat where "ACCEPT_NOTIFY = 0"

definition ducq_dispatcher_new ::
  "('l, 's) disp_env \<Rightarrow> int \<Rightarrow> ('l, 's) server \<Rightarrow> ('s dispatcher option \<times> ('l, 's) server) option" where
  "ducq_dispatcher_new env fd r =
     (if fd = - 1 then Some (None, r)
      else
        let (ok, s) = sys_malloc (w_os (re_world r));
            r = r\<lparr>re_world := (re_world r)\<lparr>w_os := s\<rparr>\<rparr> in
        if \<not> ok then Some (None, r)
        else
          do {
            (L, r) \<leftarrow> make_lua env r;
            let d = \<lparr>di_cmds = None, di_lua = L, di_notifyfd = (if L = None then - 1 else fd),
                     di_extensions = replicate MAX_EXTENSIONS \<lparr>ext_wd = - 1, ext_path = []\<rparr>\<rparr> in
            Some (Some d, if L = None then close_fd fd r else snd (ducq_reactor_add_server fd ACCEPT_NOTIFY 0 r))
          })"

definition ducq_dispatcher_free :: "('l, 's) server \<Rightarrow> ('l, 's) server" where
  "ducq_dispatcher_free r =
     (case re_dispatcher r of
        None \<Rightarrow> r
      | Some d \<Rightarrow> (if di_notifyfd d \<noteq> - 1 then close_fd (di_notifyfd d) r else r)\<lparr>re_dispatcher := None\<rparr>)"

definition ducq_dispatcher_count_cmds :: "'s dispatcher \<Rightarrow> int" where
  "ducq_dispatcher_count_cmds d = (case di_cmds d of None \<Rightarrow> - 1 | Some cmds \<Rightarrow> int (length cmds))"

section \<open>Loading commands\<close>

text \<open>The part of a name from its last dot on.\<close>

definition strrchr_dot :: "string \<Rightarrow> string option" where
  "strrchr_dot s = (if CHR ''.'' \<in> set s then Some (CHR ''.'' # rev (takeWhile (\<lambda>c. c \<noteq> CHR ''.'') (rev s))) else None)"

text \<open>\<open>_count_commands\<close>: a name without a dot is compared through the NULL pointer.\<close>

fun count_names :: "string list \<Rightarrow> nat option" where
  "count_names [] = Some 0"
| "count_names (name # names) =
     do {
       ext \<leftarrow> strrchr_dot name;
       n \<leftarrow> count_names names;
       Some (if ext = ''.so'' then n + 1 else n)
     }"

definition count_commands :: "('l, 's) disp_env \<Rightarrow> string \<Rightarrow> int option" where
  "count_commands env path =
     (case de_readdir env path of
        None \<Rightarrow> Some (- 1)
      | Some names \<Rightarrow> do { n \<leftarrow> count_names names; Some (if de_closedir env path then int n else - 1) })"

definition full_path :: "string \<Rightarrow> string \<Rightarrow> string" where
  "full_path path name = fst (snprintf PATH_MAX (path @ ''/'' @ name))"

definition load_command :: "('l, 's) disp_env \<Rightarrow> string \<Rightarrow> string \<Rightarrow> ('l, 's) server \<Rightarrow> ('l, 's) server option" where
  "load_command env path name r =
     (if strrchr_dot name \<noteq> Some ''.so'' then Some r
      else
        case de_dlopen env (full_path path name) of
          DlFailed err \<Rightarrow> log_as DUCQ_LOG_ERROR ''_load_command'' ''server'' (''dlopen() failed for: '' @ err) r
        | DlNoSymbol err \<Rightarrow>
            log_as DUCQ_LOG_ERROR ''_load_command'' ''server'' (''dlsym() failed for '' @ name @ '': '' @ fmt_str err @ [LF]) r
        | DlCommand cmd \<Rightarrow>
            do {
              d \<leftarrow> re_dispatcher r;
              cmds \<leftarrow> di_cmds d;
              Some (r\<lparr>re_dispatcher := Some (d\<lparr>di_cmds := Some (cmds @ [cmd])\<rparr>)\<rparr>)
            })"

text \<open>\<open>ncmd\<close> at the head of the loop.\<close>

definition loaded :: "('l, 's) server \<Rightarrow> nat" where
  "loaded r = (case re_dispatcher r \<bind> di_cmds of None \<Rightarrow> 0 | Some cmds \<Rightarrow> length cmds)"

fun load_names :: "('l, 's) disp_env \<Rightarrow> string \<Rightarrow> nat \<Rightarrow> string list \<Rightarrow> ('l, 's) server \<Rightarrow> ('l, 's) server option" where
  "load_names env path ncmd [] r = Some r"
| "load_names env path ncmd (name # names) r =
     (if loaded r < ncmd then do { r \<leftarrow> load_command env path name r; load_names env path ncmd names r } else Some r)"

text \<open>The directory is read twice; \<open>again\<close> is what the second reading finds.\<close>

definition ducq_dispatcher_load_commands_path ::
  "('l, 's) disp_env \<Rightarrow> (string \<Rightarrow> string list option) \<Rightarrow> string option \<Rightarrow> ('l, 's) server \<Rightarrow> (ducq_state \<times> ('l, 's) server) option" where
  "ducq_dispatcher_load_commands_path env again path r =
     (let path = (case path of None \<Rightarrow> ''/usr/local/lib/ducq_commands'' | Some p \<Rightarrow> p) in
      do {
        ncmd \<leftarrow> count_commands env path;
        if ncmd < 0 then Some (DUCQ_EFILE, r)
        else
          let (ok, s) = sys_malloc (w_os (re_world r));
              r = r\<lparr>re_world := (re_world r)\<lparr>w_os := s\<rparr>\<rparr> in
          if \<not> ok then Some (DUCQ_EMEMFAIL, r)
          else
            do {
              d \<leftarrow> re_dispatcher r;
              let r = r\<lparr>re_dispatcher := Some (d\<lparr>di_cmds := Some []\<rparr>)\<rparr> in
              case again path of
                None \<Rightarrow> Some (DUCQ_EFILE, r)
              | Some names \<Rightarrow>
                  do {
                    r \<leftarrow> load_names env path (nat ncmd) names r;
                    Some (if de_closedir env path then DUCQ_OK else DUCQ_EFILE, r)
                  }
            }
      })"

section \<open>Loading Lua files\<close>

text \<open>\<open>_load_lua_file\<close>: loading a file pushes a function, the error message takes its place.\<close>

definition load_lua_file :: "('l, 's) disp_env \<Rightarrow> string \<Rightarrow> ('l, 's) server \<Rightarrow> (ducq_state \<times> ('l, 's) server) option" where
  "load_lua_file env path r =
     do {
       r \<leftarrow> log_as DUCQ_LOG_INFO ''_load_lua_file'' ''dispatcher'' (''loading '' @ [CHR 0x27] @ path @ [CHR 0x27]) r;
       L \<leftarrow> lua_room 1 r;
       (err, r) \<leftarrow> de_lua_file env path r;
       let r = set_top (lua_top L) r in
       case err of
         None \<Rightarrow> Some (DUCQ_OK, r)
       | Some e \<Rightarrow> do { r \<leftarrow> log_as DUCQ_LOG_ERROR ''_load_lua_file'' ''dispatcher'' e r; Some (DUCQ_ELUA, r) }
     }"

fun load_lua_names ::
  "('l, 's) disp_env \<Rightarrow> string \<Rightarrow> string list \<Rightarrow> ('l, 's) server \<Rightarrow> (ducq_state \<times> ('l, 's) server) option" where
  "load_lua_names env path [] r = Some (if de_closedir env path then DUCQ_OK else DUCQ_EFILE, r)"
| "load_lua_names env path (name # names) r =
     (if strrchr_dot name \<noteq> Some ''.lua'' then load_lua_names env path names r
      else
        do {
          (st, r) \<leftarrow> load_lua_file env (full_path path name) r;
          if st \<noteq> DUCQ_OK then Some (st, r) else load_lua_names env path names r
        })"

definition load_lua :: "('l, 's) disp_env \<Rightarrow> string \<Rightarrow> ('l, 's) server \<Rightarrow> (ducq_state \<times> ('l, 's) server) option" where
  "load_lua env path r =
     (case de_stat env path of
        None \<Rightarrow>
          do { r \<leftarrow> log_as DUCQ_LOG_ERROR ''_load_lua'' ''dispatcher'' (''stat() failed: '' @ errno_text env r) r; Some (DUCQ_EFILE, r) }
      | Some Regular \<Rightarrow> load_lua_file env path r
      | Some _ \<Rightarrow>
          do {
            r \<leftarrow> log_as DUCQ_LOG_INFO ''_load_lua'' ''dispatcher'' (''loading '' @ [CHR 0x27] @ path @ [CHR 0x27]) r;
            case de_readdir env path of
              None \<Rightarrow> Some (DUCQ_EFILE, r)
            | Some names \<Rightarrow> load_lua_names env path names r
          })"

section \<open>Extensions\<close>

fun find_wd :: "int \<Rightarrow> extension list \<Rightarrow> nat option" where
  "find_wd wd [] = None"
| "find_wd wd (e # es) = (if ext_wd e = wd then Some 0 else map_option Suc (find_wd wd es))"

text \<open>\<open>_is_dir\<close>: whether it is a directory, -1 when \<open>stat\<close> fails.\<close>

definition is_dir :: "('l, 's) disp_env \<Rightarrow> string \<Rightarrow> int" where
  "is_dir env path = (case de_stat env path of None \<Rightarrow> - 1 | Some kind \<Rightarrow> if kind = Directory then 1 else 0)"

text \<open>The path as it is kept: with a slash behind a directory.  A path that fills the array has no
  terminator.\<close>

definition ext_name :: "('l, 's) disp_env \<Rightarrow> string \<Rightarrow> string option" where
  "ext_name env path =
     (if PATH_MAX \<le> length path then None
      else if length path + 2 < PATH_MAX \<and> is_dir env path = 1 then
        (if path = [] then None else if last path \<noteq> CHR ''/'' then Some (path @ ''/'') else Some path)
      else Some path)"

definition ducq_dispatcher_add :: "('l, 's) disp_env \<Rightarrow> string \<Rightarrow> ('l, 's) server \<Rightarrow> (ducq_state \<times> ('l, 's) server) option" where
  "ducq_dispatcher_add env path r =
     do {
       r \<leftarrow> log_as DUCQ_LOG_INFO ''ducq_dispatcher_add'' ''dispatcher'' (''request to add '' @ [CHR 0x27] @ path @ [CHR 0x27]) r;
       d \<leftarrow> re_dispatcher r;
       case find_wd (- 1) (di_extensions d) of
         None \<Rightarrow> Some (DUCQ_EMAX, r)
       | Some i \<Rightarrow>
           let wd = de_watch env path in
           if wd = - 1 then
             do {
               r \<leftarrow> log_as DUCQ_LOG_ERROR ''ducq_dispatcher_add'' ''dispatcher'' (''inotify_add_watch() failed: '' @ errno_text env r) r;
               Some (DUCQ_EFILE, r)
             }
           else
             do {
               name \<leftarrow> ext_name env path;
               let d = d\<lparr>di_extensions := (di_extensions d)[i := \<lparr>ext_wd = wd, ext_path = name\<rparr>]\<rparr>;
                   r = r\<lparr>re_dispatcher := Some d\<rparr> in
               do {
                 r \<leftarrow> log_as DUCQ_LOG_INFO ''ducq_dispatcher_add'' ''dispatcher''
                   (''adding '' @ [CHR 0x27] @ name @ [CHR 0x27] @ '' ('' @
                    (if is_dir env name \<noteq> 0 then ''dir'' else ''file'') @ '')'') r;
                 load_lua env name r
               }
             }
     }"

fun reload_events :: "('l, 's) disp_env \<Rightarrow> (int \<times> string) list \<Rightarrow> ('l, 's) server \<Rightarrow> ('l, 's) server option" where
  "reload_events env [] r = Some r"
| "reload_events env ((wd, name) # events) r =
     do {
       d \<leftarrow> re_dispatcher r;
       case find_wd wd (di_extensions d) of
         None \<Rightarrow> log_as DUCQ_LOG_ERROR ''ducq_dispatcher_accept_notify'' ''dispatcher''
                   (''wd not found for '' @ [CHR 0x27] @ name @ [CHR 0x27, LF]) r
       | Some i \<Rightarrow>
           let path = fst (snprintf PATH_MAX (ext_path (di_extensions d ! i) @ name)) in
           do {
             r \<leftarrow> log_as DUCQ_LOG_INFO ''ducq_dispatcher_accept_notify'' ''dispatcher'' (''reloading: '' @ [CHR 0x27] @ path @ [CHR 0x27]) r;
             (_, r) \<leftarrow> load_lua env path r;
             reload_events env events r
           }
     }"

definition ducq_dispatcher_accept_notify :: "('l, 's) disp_env \<Rightarrow> ('l, 's) server \<Rightarrow> ('l, 's) server option" where
  "ducq_dispatcher_accept_notify env r =
     (case de_notify env r of
        NotifyNothing \<Rightarrow> Some r
      | NotifyFailed e code \<Rightarrow>
          log_as DUCQ_LOG_ERROR ''ducq_dispatcher_accept_notify'' ''dispatcher''
            (''read() for inotify failed: '' @ de_strerror env e @ '' ('' @ dec_int code @ '')'') r
      | NotifyEvents events \<Rightarrow> reload_events env events r)"

section \<open>Commands of the dispatcher\<close>

text \<open>What the three calls of \<open>strtok\<close> in \<open>ducq_parse_msg\<close> write: a NUL behind the first token and one
  behind the second.\<close>

definition token_end :: "string \<Rightarrow> string \<Rightarrow> nat" where
  "token_end s delim =
     length (takeWhile (\<lambda>c. c \<in> set delim) s) + length (takeWhile (\<lambda>c. c \<notin> set delim) (dropWhile (\<lambda>c. c \<in> set delim) s))"

definition parsed_buffer :: "char list \<Rightarrow> string \<Rightarrow> char list" where
  "parsed_buffer buffer s =
     (let rest = snd (strtok s [SP])
      in buffer[token_end s [SP] := NUL, length s - length rest + token_end rest [LF] := NUL])"

definition unknown :: "('l, 'd) command" where
  "unknown ducq buffer sz r =
     do {
       s \<leftarrow> c_str buffer 0;
       let msg = ducq_parse_msg s in
       do {
         r \<leftarrow> ducq_log DUCQ_LOG_WARNING ''unknown'' ducq (fmt_str (msg_command msg) @ '','' @ fmt_str (msg_route msg)) r;
         (_, r) \<leftarrow> on_world (ducq_send_ack ducq DUCQ_ENOCMD) r;
         Some (DUCQ_ENOCMD, parsed_buffer buffer s, r)
       }
     }"

text \<open>The function is on top of the stack; the client, the message and a string of its fields are
  pushed above it.  The call takes the function and its arguments and leaves one value, which is
  popped at the end.\<close>

definition lua_command :: "('l, 's) disp_env \<Rightarrow> string \<Rightarrow> ('l, 's dispatcher) command" where
  "lua_command env name ducq buffer sz r =
     do {
       s \<leftarrow> c_str buffer 0;
       let msg = ducq_parse_msg s in
       do {
         r \<leftarrow> ducq_log DUCQ_LOG_INFO ''lua_command'' ducq (''runnning command '' @ [CHR 0x27] @ fmt_str (msg_command msg) @ [CHR 0x27]) r;
         L \<leftarrow> lua_room 3 r;
         (result, r) \<leftarrow> de_lua_call env name ducq msg r;
         (state, r) \<leftarrow> (case result of
             LuaError e \<Rightarrow>
               do {
                 r \<leftarrow> ducq_log DUCQ_LOG_ERROR ''lua_command'' ducq ([CHR 0x27] @ fmt_str (msg_command msg) @ [CHR 0x27] @ '': '' @ e) r;
                 Some (DUCQ_ELUA, r)
               }
           | LuaOther \<Rightarrow>
               do {
                 r \<leftarrow> ducq_log DUCQ_LOG_ERROR ''lua_command'' ducq
                   ([CHR 0x27] @ fmt_str (msg_command msg) @ [CHR 0x27] @ '' did not returned a state'') r;
                 Some (DUCQ_ELUA, r)
               }
           | LuaState st \<Rightarrow> Some (st, r));
         Some (state, parsed_buffer buffer s, set_top (lua_top L - 1) r)
       }
     }"

text \<open>A line of \<open>lscmd\<close>, sent from its buffer.\<close>

definition cmd_line :: "string \<Rightarrow> string \<Rightarrow> string" where
  "cmd_line name doc = [CHR 0x22] @ name @ [CHR 0x22, CHR '','', CHR 0x22] @ doc @ [CHR 0x22, LF]"

definition send_line :: "nat \<Rightarrow> string \<Rightarrow> ('l, 'd) reactor \<Rightarrow> (ducq_state \<times> ('l, 'd) reactor) option" where
  "send_line ducq line r =
     (let (txt, n) = snprintf DUCQ_MSGSZ line
      in on_world (send_buf ducq (txt @ replicate (DUCQ_MSGSZ - length txt) NUL) n) r)"

fun send_lines :: "nat \<Rightarrow> string list \<Rightarrow> ('l, 'd) reactor \<Rightarrow> (ducq_state \<times> ('l, 'd) reactor) option" where
  "send_lines ducq [] r = Some (DUCQ_OK, r)"
| "send_lines ducq (line # lines) r =
     do {
       (st, r) \<leftarrow> send_line ducq line r;
       if st \<noteq> DUCQ_OK then Some (st, r) else send_lines ducq lines r
     }"

text \<open>The loop over the Lua table.  \<open>n\<close> is the height of the stack below the key.  Making a string of
  a number key changes the key, and the next \<open>lua_next\<close> is undefined.\<close>

fun list_lua :: "nat \<Rightarrow> nat \<Rightarrow> (lua_key \<times> lua_value) list \<Rightarrow> ('l, 's) server \<Rightarrow> (ducq_state \<times> ('l, 's) server) option" where
  "list_lua n ducq [] r = Some (DUCQ_OK, set_top n r)"
| "list_lua n ducq ((key, value) # entries) r =
     do {
       _ \<leftarrow> (if n + 2 \<le> LUA_MINSTACK then Some () else None);
       case value of
         LuaValue \<Rightarrow> list_lua n ducq entries r
       | LuaTable doc _ \<Rightarrow>
           (case key of
              LuaKey \<Rightarrow> list_lua n ducq entries r
            | LuaNumber _ \<Rightarrow>
                (if n + 3 \<le> LUA_MINSTACK \<and> doc = None then list_lua n ducq entries r else None)
            | LuaString name \<Rightarrow>
                if LUA_MINSTACK < n + 3 then None
                else
                  case doc of
                    None \<Rightarrow> list_lua n ducq entries r
                  | Some d \<Rightarrow>
                      do {
                        (st, r) \<leftarrow> send_line ducq (cmd_line name d) r;
                        if st \<noteq> DUCQ_OK then Some (st, set_top (n + 3) r) else list_lua n ducq entries r
                      })
     }"

definition lscmd :: "('l, 's) disp_env \<Rightarrow> ('l, 's dispatcher) command" where
  "lscmd env ducq buffer sz r =
     do {
       r \<leftarrow> ducq_log DUCQ_LOG_INFO ''lscmd'' ducq [] r;
       d \<leftarrow> re_dispatcher r;
       (_, r) \<leftarrow> on_world (ducq_parts ducq) r;
       (st, r) \<leftarrow> send_lines ducq
         (cmd_line ''lscmd'' ''list all loaded commands as csv: <name>,<doc>'' #
          map (\<lambda>cmd. cmd_line (cmd_name cmd) (cmd_doc cmd)) (case di_cmds d of None \<Rightarrow> [] | Some cmds \<Rightarrow> cmds)) r;
       if st \<noteq> DUCQ_OK then Some (st, buffer, r)
       else
         do {
           L \<leftarrow> lua_room 1 r;
           case de_lua_commands env (lua_state L) of
             None \<Rightarrow> do { (st, r) \<leftarrow> on_world (ducq_end ducq) (set_top (lua_top L + 1) r); Some (st, buffer, r) }
           | Some entries \<Rightarrow>
               do {
                 _ \<leftarrow> lua_room 2 r;
                 (st, r) \<leftarrow> list_lua (lua_top L + 1) ducq entries r;
                 if st \<noteq> DUCQ_OK then Some (st, buffer, r)
                 else do { (st, r) \<leftarrow> on_world (ducq_end ducq) r; Some (st, buffer, r) }
               }
         }
     }"

section \<open>The search for a command\<close>

datatype command_f = Unknown | Lscmd | LuaCommand string | Loaded nat

text \<open>\<open>_find_lua_command\<close>: what it looks at stays on the stack.\<close>

definition find_lua_command :: "('l, 's) disp_env \<Rightarrow> string \<Rightarrow> ('l, 's) server \<Rightarrow> (command_f \<times> ('l, 's) server) option" where
  "find_lua_command env name r =
     do {
       L \<leftarrow> lua_room 1 r;
       case de_lua_commands env (lua_state L) of
         None \<Rightarrow> Some (Unknown, set_top (lua_top L + 1) r)
       | Some entries \<Rightarrow>
           do {
             _ \<leftarrow> lua_room 2 r;
             case map_of entries (LuaString name) of
               Some (LuaTable doc is_function) \<Rightarrow>
                 do {
                   _ \<leftarrow> lua_room 3 r;
                   Some (if is_function then LuaCommand name else Unknown, set_top (lua_top L + 3) r)
                 }
             | _ \<Rightarrow> Some (Unknown, set_top (lua_top L + 2) r)
           }
     }"

definition find_loaded :: "string \<Rightarrow> cmd_entry list \<Rightarrow> nat option" where
  "find_loaded name cmds = map_option cmd_exec (find (\<lambda>cmd. cmd_name cmd = name) cmds)"

text \<open>\<open>_find_command\<close> ends the command in the buffer with a NUL, and puts the blank back unless the
  command is \<open>lscmd\<close>.\<close>

definition find_command ::
  "('l, 's) disp_env \<Rightarrow> char list \<Rightarrow> ('l, 's) server \<Rightarrow> (command_f \<times> char list \<times> ('l, 's) server) option" where
  "find_command env buffer r =
     do {
       s \<leftarrow> c_str buffer 0;
       case ducq_parse_command s of
         (None, _) \<Rightarrow> Some (Unknown, buffer, r)
       | (Some name, e) \<Rightarrow>
           do {
             end \<leftarrow> e;
             cut \<leftarrow> mem_write buffer end [NUL];
             name \<leftarrow> c_str cut name;
             if name = ''lscmd'' \<or> name = ''help'' then Some (Lscmd, cut, r)
             else
               do {
                 d \<leftarrow> re_dispatcher r;
                 (f, r) \<leftarrow> (case find_loaded name (case di_cmds d of None \<Rightarrow> [] | Some cmds \<Rightarrow> cmds) of
                     Some exec \<Rightarrow> Some (Loaded exec, r)
                   | None \<Rightarrow> find_lua_command env name r);
                 buffer \<leftarrow> mem_write cut end [SP];
                 Some (f, buffer, r)
               }
           }
     }"

definition run_command :: "('l, 's) disp_env \<Rightarrow> command_f \<Rightarrow> ('l, 's dispatcher) command" where
  "run_command env f =
     (case f of
        Unknown \<Rightarrow> unknown
      | Lscmd \<Rightarrow> lscmd env
      | LuaCommand name \<Rightarrow> lua_command env name
      | Loaded exec \<Rightarrow> de_exec env exec)"

definition ducq_dispatch :: "('l, 's) disp_env \<Rightarrow> ('l, 's dispatcher) command" where
  "ducq_dispatch env ducq buffer sz r =
     do {
       (f, buffer, r) \<leftarrow> find_command env buffer r;
       run_command env f ducq buffer sz r
     }"

end
