(* ===== verification/Reactor_Invariant.thy ===== *)
theory Reactor_Invariant
  imports Ducq_Reactor
begin

text \<open>
  The invariant of the reactor and what its operations do to it: live slots hold allocated clients,
  no slot before a live one holds the same pointer (not even a free one, whose pointer is stale), and
  every route is a string.  With it the loops, the log and the removal of clients are defined, and a
  search for a client finds its own slot.
\<close>

section \<open>Ids fit their arrays\<close>

text \<open>\<open>MAX_ID\<close> of each file, the size of its array.\<close>

fun id_room :: "client \<Rightarrow> nat" where
  "id_room (Tcp c) = 100"
| "id_room (Ws c) = 99"
| "id_room (Http c) = 99"

fun client_ok :: "client \<Rightarrow> bool" where
  "client_ok (Tcp c) = (length (tcp_id c) < 100)"
| "client_ok (Ws c) = (length (ws_id c) < 99)"
| "client_ok (Http c) = (length (http_id c) < 99 \<and> (case http_ws c of None \<Rightarrow> True | Some w \<Rightarrow> length (ws_id w) < 99))"

lemma address_fits: "inet_address_tostring a n = (b, Some t) \<Longrightarrow> length t < n"
  by (auto simp: inet_address_tostring_def snprintf_def Let_def split: sockaddr.splits if_splits)

lemma socket_fits: "snd (inet_socket_tostring fd self n s) = Some t \<Longrightarrow> length t < n"
  using address_fits by (auto simp: inet_socket_tostring_def split: option.splits) (metis prod.collapse)+

lemma tcp_id_fits:
  "tcp_get_id c s = (t, c') \<Longrightarrow> length (tcp_id c) < 100 \<Longrightarrow> length t < 100 \<and> length (tcp_id c') < 100 \<and> tcp_fd c' = tcp_fd c"
  using socket_fits by (fastforce simp: tcp_get_id_def snprintf_def split: if_splits option.splits)

lemma ws_id_fits:
  "ws_get_id c s = (t, c') \<Longrightarrow> length (ws_id c) < 99 \<Longrightarrow> length t < 99 \<and> length (ws_id c') < 99"
  using socket_fits by (fastforce simp: ws_get_id_def snprintf_def split: if_splits option.splits)

lemma ws_send_id: "ws_send w bs s = (st, w', s') \<Longrightarrow> ws_id w' = ws_id w"
  by (auto simp: ws_send_def Let_def split: prod.splits if_splits)

lemma ws_send_id_proj [simp]: "ws_id (fst (snd (ws_send w bs s))) = ws_id w"
  using ws_send_id by (metis prod.collapse)

lemma ws_send_text_id: "ws_send_text w bs s = (st, w', s') \<Longrightarrow> ws_id w' = ws_id w"
  using ws_send_id by (fastforce simp: ws_send_text_def)

lemma ws_drain_id: "ws_drain w k s = (w', s') \<Longrightarrow> ws_id w' = ws_id w"
proof (induction w k s rule: ws_drain.induct)
  case (1 w k s)
  from 1(2) show ?case
    by (subst (asm) ws_drain.simps) (auto simp: Let_def split: prod.split_asm if_split_asm dest!: "1"(1) [rotated -1])
qed

lemma ws_close_id: "ws_close w s = (st, w', s') \<Longrightarrow> ws_id w' = ws_id w"
  by (auto simp: ws_close_def Let_def split: prod.split_asm if_split_asm dest!: ws_send_id ws_drain_id)

lemma read_hdr_id: "read_hdr w i n s = (k, w', s') \<Longrightarrow> ws_id w' = ws_id w"
  by (auto simp: read_hdr_def split: prod.splits)

text \<open>A property of the result of an option computation, proved from its last steps.\<close>

lemma pred_bindI: "(\<And>a. m = Some a \<Longrightarrow> pred_option P (f a)) \<Longrightarrow> pred_option P (m \<bind> f)"
  by (cases m) auto

lemma ws_recv_packet_id: "ws_recv_packet w buf n s = Some (st, k, buf', w', s') \<Longrightarrow> ws_id w' = ws_id w"
proof -
  have "pred_option (\<lambda>(st, k, buf', w', s'). ws_id w' = ws_id w) (ws_recv_packet w buf n s)"
    unfolding ws_recv_packet_def Let_def case_prod_beta by (intro pred_bindI) (auto intro!: pred_bindI)
  then show "ws_recv_packet w buf n s = Some (st, k, buf', w', s') \<Longrightarrow> ?thesis"
    by simp
qed

lemma ws_recv_id: "ws_recv w buf n s = Some (st, k, buf', w', s') \<Longrightarrow> ws_id w' = ws_id w"
  by (auto simp: ws_recv_def Let_def split: prod.split_asm if_split_asm dest!: read_hdr_id ws_recv_packet_id)

lemma upgrade_id: "ducq_new_ws_upgrade_from_http fd h s = Some (st, Some w, h', s') \<Longrightarrow> ws_id w = []"
  by (auto simp: ducq_new_ws_upgrade_from_http_def ducq_new_ws_connection_def Let_def bind_Some_conv case_prod_beta
      split: if_split_asm option.split_asm)

lemmas ws_ids = ws_send_id ws_send_text_id ws_close_id ws_recv_id

lemma send_ok: "vt_send bs c s = Some (st, c', s') \<Longrightarrow> client_ok c \<Longrightarrow> client_ok c'"
  by (cases c) (auto simp: http_send_def Let_def split: prod.split_asm option.split_asm dest!: ws_ids)

lemma recv_ok: "vt_recv buf n c s = Some (x, c', s') \<Longrightarrow> client_ok c \<Longrightarrow> client_ok c'"
  by (cases c) (auto simp: http_recv_def Let_def bind_convs split: prod.split_asm option.split_asm if_split_asm option.split
      dest!: ws_ids upgrade_id)

lemma close_ok: "vt_close c s = Some (x, c', s') \<Longrightarrow> client_ok c \<Longrightarrow> client_ok c'"
  by (cases c) (auto simp: tcp_close_def http_close_def Let_def split: prod.split_asm option.split_asm if_split_asm dest!: ws_ids)

lemma parts_ok_client: "vt_parts c s = Some (x, c', s') \<Longrightarrow> client_ok c \<Longrightarrow> client_ok c'"
  and end_ok: "vt_end c s = Some (x, c', s') \<Longrightarrow> client_ok c \<Longrightarrow> client_ok c'"
  by (cases c; auto split: prod.splits)+

lemma id_fits: "vt_id c s = Some (t, c', s') \<Longrightarrow> client_ok c \<Longrightarrow> client_ok c' \<and> (\<exists>a. t = Some a \<and> length a < id_room c)"
  using socket_fits
  by (cases c) (fastforce simp: http_get_id_def snprintf_def split: prod.splits option.splits if_splits
      dest!: tcp_id_fits ws_id_fits)+

lemma id_ok: "vt_id c s = Some (t, c', s') \<Longrightarrow> client_ok c \<Longrightarrow> client_ok c' \<and> (\<exists>a. t = Some a \<and> length a < 100)"
  using id_fits [of c s t c' s'] by (cases c) auto

section \<open>Clients that stay allocated\<close>

definition ids_ok :: "world \<Rightarrow> bool" where
  "ids_ok w \<longleftrightarrow> (\<forall>p c. w_heap w p = Some c \<longrightarrow> client_ok c)"

definition same_heap :: "world \<Rightarrow> world \<Rightarrow> bool" where
  "same_heap w w' \<longleftrightarrow> (\<forall>p. w_heap w' p = None \<longleftrightarrow> w_heap w p = None) \<and> (ids_ok w \<longrightarrow> ids_ok w')"

lemma same_heap_refl [simp]: "same_heap w w"
  by (simp add: same_heap_def)

lemma same_heap_trans [trans]: "same_heap w v \<Longrightarrow> same_heap v u \<Longrightarrow> same_heap w u"
  by (simp add: same_heap_def)

lemma deref_same_heap:
  assumes "deref p null f w = Some (a, w')"
    and "\<And>c s a c' s'. f c s = Some (a, c', s') \<Longrightarrow> client_ok c \<Longrightarrow> client_ok c'"
  shows "same_heap w w'"
  using assms by (auto simp: deref_def same_heap_def ids_ok_def bind_convs split: if_splits)

lemma deref_defined:
  assumes "w_heap w p \<noteq> None" and "\<And>c s. f c s \<noteq> None"
    and "\<And>c s a c' s'. f c s = Some (a, c', s') \<Longrightarrow> client_ok c \<Longrightarrow> client_ok c'"
  shows "\<exists>a w'. deref p null f w = Some (a, w') \<and> same_heap w w'"
proof -
  obtain c where c: "w_heap w p = Some c"
    using assms(1) by blast
  obtain a c' s where f: "f c (w_os w) = Some (a, c', s)"
    using assms(2) by (metis option.exhaust prod_cases3)
  show ?thesis
  proof (cases "p = 0")
    case True
    then show ?thesis by (simp add: deref_def)
  next
    case False
    note run = deref_run [where f = f, OF False c f, of null]
    have "same_heap w (w\<lparr>w_os := s, w_heap := (w_heap w)(p \<mapsto> c')\<rparr>)"
      by (rule deref_same_heap [OF run]) (rule assms(3))
    then show ?thesis
      using run by blast
  qed
qed

lemma tcp_send_defined: "int (length bs) \<le> INT_MAX \<Longrightarrow> tcp_send c bs s \<noteq> None"
  by (auto simp: tcp_send_def ducq_tcp_send_def split: prod.splits sum.splits if_splits)

lemma vt_send_defined: "int (length bs) \<le> INT_MAX \<Longrightarrow> vt_send bs c s \<noteq> None"
  using tcp_send_defined by (cases c) (auto simp: split: prod.splits)

lemma send_defined:
  "w_heap w p \<noteq> None \<Longrightarrow> int (length bs) \<le> INT_MAX \<Longrightarrow>
    \<exists>st w'. ducq_send p bs w = Some (st, w') \<and> same_heap w w'"
  unfolding ducq_send_def using vt_send_defined send_ok by (intro deref_defined) auto

lemma send_buf_defined:
  "w_heap w p \<noteq> None \<Longrightarrow> n \<le> length buf \<Longrightarrow> int n \<le> INT_MAX \<Longrightarrow>
    \<exists>st w'. send_buf p buf n w = Some (st, w') \<and> same_heap w w'"
  using send_defined [of w p "take n buf"] by (simp add: send_buf_def)

lemma send_ack_defined:
  "w_heap w p \<noteq> None \<Longrightarrow> \<exists>st w'. ducq_send_ack p s w = Some (st, w') \<and> same_heap w w'"
  using send_defined [of w p "ack_text s"] ack_text_fits [of s] by (simp add: send_ack_text INT_MAX_def)

lemma id_defined: "w_heap w p \<noteq> None \<Longrightarrow> \<exists>a w'. ducq_id p w = Some (a, w') \<and> same_heap w w'"
proof -
  have "vt_id c s \<noteq> None" for c s
    by (cases c) (auto split: prod.splits)
  then show "w_heap w p \<noteq> None \<Longrightarrow> ?thesis"
    unfolding ducq_id_def using id_ok by (intro deref_defined) auto
qed

lemma close_defined: "w_heap w p \<noteq> None \<Longrightarrow> \<exists>a w'. ducq_close p w = Some (a, w') \<and> same_heap w w'"
proof -
  have "vt_close c s \<noteq> None" for c s
    by (cases c) (auto split: prod.splits)
  then show "w_heap w p \<noteq> None \<Longrightarrow> ?thesis"
    unfolding ducq_close_def using close_ok by (intro deref_defined) auto
qed

section \<open>The invariant\<close>

named_theorems keeps_table \<open>operations that keep the table in order\<close>

definition live :: "nat \<Rightarrow> nat \<Rightarrow> ('l, 'd) reactor \<Rightarrow> bool" where
  "live i p r \<longleftrightarrow> i < DUCQ_MAX_CONNECTIONS \<and> conn_fd (re_conns r ! i) \<noteq> - 1 \<and> conn_client (re_conns r ! i) = Some p"

text \<open>The table: every live slot holds a client that is allocated, and no slot before it the same pointer,
  not even a stale one.\<close>

definition table_ok :: "('l, 'd) reactor \<Rightarrow> bool" where
  "table_ok r \<longleftrightarrow> length (re_conns r) = DUCQ_MAX_CONNECTIONS \<and>
     (\<forall>c \<in> set (re_conns r). length (conn_route c) = DUCQ_MAX_ROUTE_LEN) \<and> ids_ok (re_world r) \<and>
     (\<forall>i p. live i p r \<longrightarrow> p \<noteq> 0 \<and> w_heap (re_world r) p \<noteq> None \<and>
       (\<forall>j < i. conn_client (re_conns r ! j) \<noteq> Some p))"

definition reactor_inv :: "('l, 'd) reactor \<Rightarrow> bool" where
  "reactor_inv r \<longleftrightarrow> table_ok r \<and> (\<forall>i p. live i p r \<longrightarrow> route_at i r \<noteq> None)"

lemma table_okD:
  assumes "table_ok r"
  shows "length (re_conns r) = DUCQ_MAX_CONNECTIONS"
    and "live i p r \<Longrightarrow> p \<noteq> 0" and "live i p r \<Longrightarrow> w_heap (re_world r) p \<noteq> None"
    and "live i p r \<Longrightarrow> j < i \<Longrightarrow> conn_client (re_conns r ! j) \<noteq> Some p"
    and "c \<in> set (re_conns r) \<Longrightarrow> length (conn_route c) = DUCQ_MAX_ROUTE_LEN" and "ids_ok (re_world r)"
  using assms unfolding table_ok_def by blast+

lemma reactor_invD:
  assumes "reactor_inv r"
  shows "length (re_conns r) = DUCQ_MAX_CONNECTIONS"
    and "live i p r \<Longrightarrow> p \<noteq> 0" and "live i p r \<Longrightarrow> w_heap (re_world r) p \<noteq> None"
    and "live i p r \<Longrightarrow> \<exists>t. route_at i r = Some t"
    and "live i p r \<Longrightarrow> j < i \<Longrightarrow> conn_client (re_conns r ! j) \<noteq> Some p"
    and "c \<in> set (re_conns r) \<Longrightarrow> length (conn_route c) = DUCQ_MAX_ROUTE_LEN" and "ids_ok (re_world r)"
    and "table_ok r"
  using assms unfolding reactor_inv_def table_ok_def by blast+

lemma table_unique: "table_ok r \<Longrightarrow> live i p r \<Longrightarrow> live j p r \<Longrightarrow> i = j"
  using table_okD(4) by (metis live_def linorder_neqE_nat)

lemma live_unique: "reactor_inv r \<Longrightarrow> live i p r \<Longrightarrow> live j p r \<Longrightarrow> i = j"
  using table_unique reactor_invD(8) by blast

text \<open>Changes that leave the table alone, and changes of one slot.\<close>

lemma live_world [simp]: "live i p (r\<lparr>re_world := w\<rparr>) = live i p r"
  and route_at_world [simp]: "route_at i (r\<lparr>re_world := w\<rparr>) = route_at i r"
  by (simp_all add: live_def route_at_def)

lemma table_world: "table_ok r \<Longrightarrow> same_heap (re_world r) w \<Longrightarrow> table_ok (r\<lparr>re_world := w\<rparr>)"
  by (simp add: table_ok_def same_heap_def)

lemma table_other [simp]:
  "table_ok (r\<lparr>re_logger := l\<rparr>) = table_ok r"
  "table_ok (r\<lparr>re_last_msgs := m\<rparr>) = table_ok r"
  "table_ok (r\<lparr>re_allow_log_route := b\<rparr>) = table_ok r"
  "table_ok (r\<lparr>re_dispatcher := d\<rparr>) = table_ok r"
  "table_ok (r\<lparr>re_logfunc := f\<rparr>) = table_ok r"
  by (simp_all add: table_ok_def live_def)

lemma inv_world: "reactor_inv r \<Longrightarrow> same_heap (re_world r) w \<Longrightarrow> reactor_inv (r\<lparr>re_world := w\<rparr>)"
  by (simp add: reactor_inv_def table_ok_def same_heap_def)

lemma inv_other [simp]:
  "reactor_inv (r\<lparr>re_logger := l\<rparr>) = reactor_inv r"
  "reactor_inv (r\<lparr>re_last_msgs := m\<rparr>) = reactor_inv r"
  "reactor_inv (r\<lparr>re_allow_log_route := b\<rparr>) = reactor_inv r"
  "reactor_inv (r\<lparr>re_dispatcher := d\<rparr>) = reactor_inv r"
  "reactor_inv (r\<lparr>re_logfunc := f\<rparr>) = reactor_inv r"
  by (simp_all add: reactor_inv_def table_ok_def live_def route_at_def)

lemma on_world_inv:
  assumes "reactor_inv r" and "\<exists>a w. f (re_world r) = Some (a, w) \<and> same_heap (re_world r) w"
  shows "\<exists>a r'. on_world f r = Some (a, r') \<and> reactor_inv r' \<and> re_conns r' = re_conns r"
  using assms inv_world [OF assms(1)] by (auto simp: on_world_def)

lemma set_conn_simps [simp]:
  "re_world (set_conn i c r) = re_world r" "re_conns (set_conn i c r) = (re_conns r)[i := c]"
  "re_logfunc (set_conn i c r) = re_logfunc r" "re_logger (set_conn i c r) = re_logger r"
  "re_allow_log_route (set_conn i c r) = re_allow_log_route r" "re_last_msgs (set_conn i c r) = re_last_msgs r"
  by (simp_all add: set_conn_def)

lemma live_set_conn:
  "length (re_conns r) = DUCQ_MAX_CONNECTIONS \<Longrightarrow> i < DUCQ_MAX_CONNECTIONS \<Longrightarrow>
    live j p (set_conn i c r) \<longleftrightarrow> (if j = i then conn_fd c \<noteq> - 1 \<and> conn_client c = Some p else live j p r)"
  by (auto simp: live_def)

text \<open>Freeing a slot takes its client out of the table and out of the heap, and nothing else.\<close>

lemma connection_free_table:
  assumes "table_ok r" and "i < DUCQ_MAX_CONNECTIONS"
  shows "\<exists>r'. connection_free i r = Some r' \<and> table_ok r' \<and>
    re_conns r' = (re_conns r)[i := (re_conns r ! i)\<lparr>conn_fd := - 1\<rparr>] \<and>
    (\<forall>q. w_heap (re_world r') q = None \<longleftrightarrow> w_heap (re_world r) q = None \<or> live i q r)"
proof -
  let ?c = "re_conns r ! i"
  let ?r = "set_conn i (?c\<lparr>conn_fd := - 1\<rparr>) r"
  note inv = table_okD [OF assms(1)]
  have cl: "conn_client (re_conns ?r ! j) = conn_client (re_conns r ! j)" if "j < DUCQ_MAX_CONNECTIONS" for j
    using that inv(1) assms(2) by (cases "j = i") (simp_all add: conn_client_def)
  have lv: "live j p ?r \<longleftrightarrow> j \<noteq> i \<and> live j p r" for j p
    using live_set_conn [OF inv(1) assms(2)] by simp
  have step: "table_ok (?r\<lparr>re_world := w\<rparr>)"
    if "ids_ok w" and that: "\<forall>j p. j \<noteq> i \<longrightarrow> live j p r \<longrightarrow> w_heap w p \<noteq> None" for w
    unfolding table_ok_def
  proof (intro conjI allI impI ballI)
    fix j p
    assume j: "live j p (?r\<lparr>re_world := w\<rparr>)"
    then have jp: "j \<noteq> i" "live j p r"
      by (simp_all add: lv)
    show "p \<noteq> 0" and "w_heap (re_world (?r\<lparr>re_world := w\<rparr>)) p \<noteq> None"
      using jp that inv(2) by auto
    show "conn_client (re_conns (?r\<lparr>re_world := w\<rparr>) ! k) \<noteq> Some p" if "k < j" for k
      using inv(4) [OF jp(2) that] cl [of k] that jp(2) by (simp add: live_def)
  next
    fix c assume "c \<in> set (re_conns (?r\<lparr>re_world := w\<rparr>))"
    then have "c = ?c\<lparr>conn_fd := - 1\<rparr> \<or> c \<in> set (re_conns r)"
      using set_update_subset_insert by fastforce
    moreover have "?c \<in> set (re_conns r)"
      using inv(1) assms(2) by simp
    ultimately show "length (conn_route c) = DUCQ_MAX_ROUTE_LEN"
      using inv(5) by (auto simp: conn_route_def)
  qed (use \<open>ids_ok w\<close> in \<open>simp_all add: inv(1)\<close>)
  consider "conn_fd ?c = - 1" | "conn_fd ?c \<noteq> - 1" "conn_client ?c = None"
    | p where "conn_fd ?c \<noteq> - 1" "conn_client ?c = Some p" by fastforce
  then show ?thesis
  proof cases
    case 1
    then have "(re_conns r)[i := ?c\<lparr>conn_fd := - 1\<rparr>] = re_conns r"
      by (metis connection.surjective connection.update_convs(1) list_update_id)
    then show ?thesis
      using 1 assms(1) by (simp add: connection_free_def live_def)
  next
    case 2
    have "table_ok (?r\<lparr>re_world := re_world r\<rparr>)"
      using inv(3,6) by (intro step) simp_all
    moreover have "?r\<lparr>re_world := re_world r\<rparr> = ?r"
      by (simp add: set_conn_def)
    moreover have "connection_free i r = Some ?r"
      using 2 by (auto simp: connection_free_def conn_client_def Let_def split: conn_as.splits)
    ultimately show ?thesis
      using 2 by (simp add: live_def)
  next
    case (3 p)
    then have lp: "live i p r"
      using assms(2) by (simp add: live_def)
    obtain a w where w: "ducq_close p (re_world r) = Some (a, w)" "same_heap (re_world r) w"
      using close_defined inv(3) [OF lp] by blast
    define w' where "w' = w\<lparr>w_heap := (w_heap w)(p := None)\<rparr>"
    have "w_heap w p \<noteq> None"
      using w(2) inv(3) [OF lp] by (simp add: same_heap_def)
    then have fr: "ducq_free p w = Some w'"
      using inv(2) [OF lp] by (auto simp: ducq_free_def w'_def)
    have heap: "w_heap w' q = None \<longleftrightarrow> w_heap (re_world r) q = None \<or> live i q r" for q
      using w(2) 3 assms(2) by (auto simp: w'_def same_heap_def live_def)
    have "table_ok (?r\<lparr>re_world := w'\<rparr>)"
      using heap inv(3,6) w(2) table_unique [OF assms(1)] by (intro step) (auto simp: same_heap_def ids_ok_def w'_def)
    moreover have "connection_free i r = Some (?r\<lparr>re_world := w'\<rparr>)"
      using 3 inv(2) [OF lp] w(1) fr
      by (auto simp: connection_free_def conn_client_def on_world_def Let_def split: conn_as.splits)
    ultimately show ?thesis
      using heap by simp
  qed
qed

lemma connection_free_run:
  assumes "reactor_inv r" and "i < DUCQ_MAX_CONNECTIONS"
  shows "\<exists>r'. connection_free i r = Some r' \<and> reactor_inv r' \<and>
    re_conns r' = (re_conns r)[i := (re_conns r ! i)\<lparr>conn_fd := - 1\<rparr>] \<and>
    (\<forall>q. w_heap (re_world r') q = None \<longleftrightarrow> w_heap (re_world r) q = None \<or> live i q r)"
proof -
  obtain r' where r': "connection_free i r = Some r'" "table_ok r'"
      "re_conns r' = (re_conns r)[i := (re_conns r ! i)\<lparr>conn_fd := - 1\<rparr>]"
      "\<forall>q. w_heap (re_world r') q = None \<longleftrightarrow> w_heap (re_world r) q = None \<or> live i q r"
    using connection_free_table [OF reactor_invD(8) [OF assms(1)] assms(2)] by blast
  have "live j q r' \<longleftrightarrow> live j q (set_conn i ((re_conns r ! i)\<lparr>conn_fd := - 1\<rparr>) r)" for j q
    by (simp add: live_def r'(3))
  then have "live j q r' \<Longrightarrow> live j q r \<and> j \<noteq> i" for j q
    using live_set_conn [OF reactor_invD(1) [OF assms(1)] assms(2)] by (auto split: if_splits)
  then have "reactor_inv r'"
    using r'(2,3) reactor_invD(4) [OF assms(1)] by (fastforce simp: reactor_inv_def route_at_def)
  then show ?thesis
    using r' by blast
qed

section \<open>The operations on the table\<close>

lemma free_slot_Some:
  "free_slot cs = Some i \<longleftrightarrow> i < length cs \<and> conn_fd (cs ! i) = - 1 \<and> (\<forall>j < i. conn_fd (cs ! j) \<noteq> - 1)"
proof (induction cs arbitrary: i)
  case (Cons c cs)
  then show ?case
    by (cases i) (auto simp: less_Suc_eq_0_disj)
qed simp

lemma free_slot_None: "free_slot cs = None \<longleftrightarrow> (\<forall>i < length cs. conn_fd (cs ! i) \<noteq> - 1)"
  by (induction cs) (auto simp: less_Suc_eq_0_disj)

lemma client_slot_Some:
  "client_slot p cs = Some i \<longleftrightarrow>
    i < length cs \<and> conn_client (cs ! i) = Some p \<and> (\<forall>j < i. conn_client (cs ! j) \<noteq> Some p)"
proof (induction cs arbitrary: i)
  case (Cons c cs)
  then show ?case
    by (cases i) (auto simp: less_Suc_eq_0_disj)
qed simp

lemma client_slot_live:
  assumes "reactor_inv r" and "live i p r"
  shows "client_slot p (re_conns r) = Some i"
  using reactor_invD [OF assms(1)] assms(2) unfolding client_slot_Some by (metis live_def)

text \<open>A change of one slot that brings no new live pointer and no new pointer before one.\<close>

lemma set_conn_table:
  assumes "table_ok r" and "i < DUCQ_MAX_CONNECTIONS" and "length (conn_route c) = DUCQ_MAX_ROUTE_LEN"
    and "conn_client c = None \<or> conn_client c = conn_client (re_conns r ! i)"
    and "conn_fd c = conn_fd (re_conns r ! i) \<or> conn_client c = None"
  shows "table_ok (set_conn i c r)"
proof -
  note inv = table_okD [OF assms(1)]
  have lv: "live j p r" if "live j p (set_conn i c r)" for j p
    using that assms(2,4,5) unfolding live_set_conn [OF inv(1) assms(2)] by (auto simp: live_def split: if_splits)
  have cl: "conn_client (re_conns (set_conn i c r) ! k) = Some p \<Longrightarrow> conn_client (re_conns r ! k) = Some p" for k p
    using inv(1) assms(2,4) by (cases "k = i") auto
  have "length (conn_route d) = DUCQ_MAX_ROUTE_LEN" if "d \<in> set (re_conns (set_conn i c r))" for d
    using that set_update_subset_insert [of "re_conns r" i c] inv(5) assms(3) by auto
  then show ?thesis
    using lv cl inv unfolding table_ok_def by (simp del: set_conn_simps(2)) (metis set_conn_simps(2) length_list_update)
qed

lemma add_server_table [keeps_table]:
  "ducq_reactor_add_server fd f ctx r = (st, r') \<Longrightarrow> table_ok r \<Longrightarrow> table_ok r'"
  using table_okD(1)
  by (fastforce simp: ducq_reactor_add_server_def free_slot_Some conn_client_def conn_route_def
      split: option.splits intro!: set_conn_table)

lemma subscribe_table [keeps_table]:
  "ducq_reactor_subscribe p route r = (st, r') \<Longrightarrow> table_ok r \<Longrightarrow> table_ok r'"
  using table_okD(1)
  by (fastforce simp: ducq_reactor_subscribe_def client_slot_Some conn_client_def conn_route_def
      split: option.splits intro!: set_conn_table)

lemma free_table [keeps_table]:
  assumes "connection_free i r = Some r'" and "table_ok r" and "i < DUCQ_MAX_CONNECTIONS"
  shows "table_ok r'"
  using connection_free_table [OF assms(2,3)] assms(1) by auto

lemma add_client_table:
  assumes "ducq_reactor_add_client fd p r = (st, r')" and "table_ok r" and "p \<noteq> 0" and "fd \<noteq> - 1"
    and "w_heap (re_world r) p \<noteq> None" and "\<forall>i. \<not> live i p r"
  shows "table_ok r'"
proof (cases "free_slot (re_conns r)")
  case None
  then show ?thesis
    using assms(1,2) by (simp add: ducq_reactor_add_client_def)
next
  case (Some i)
  note inv = table_okD [OF assms(2)]
  define c where "c = \<lparr>conn_fd = fd, conn_as = AsClient p ((conn_route (re_conns r ! i))[0 := NUL])\<rparr>"
  have i: "i < DUCQ_MAX_CONNECTIONS" "conn_fd (re_conns r ! i) = - 1" "\<forall>j < i. conn_fd (re_conns r ! j) \<noteq> - 1"
    using Some inv(1) by (auto simp: free_slot_Some)
  have c: "conn_client c = Some p" "length (conn_route c) = DUCQ_MAX_ROUTE_LEN"
    using inv(1,5) i(1) by (simp_all add: c_def conn_client_def conn_route_def)
  have r': "r' = set_conn i c r"
    using assms(1) Some by (simp add: ducq_reactor_add_client_def c_def)
  have lv: "live j q r' \<Longrightarrow> j = i \<and> q = p \<or> j \<noteq> i \<and> live j q r" for j q
    unfolding r' live_set_conn [OF inv(1) i(1)] using c(1) by (auto split: if_splits)
  have before: "conn_client (re_conns r' ! k) \<noteq> Some q" if "live j q r'" "k < j" for j q k
  proof -
    have k: "k < DUCQ_MAX_CONNECTIONS"
      using that by (simp add: live_def)
    have fresh: "conn_client (re_conns r ! k) \<noteq> Some p" if "conn_fd (re_conns r ! k) \<noteq> - 1"
      using assms(6) k that by (auto simp: live_def)
    show ?thesis
      using lv [OF that(1)] that(2) i(3) fresh c(1) inv(1,4) k assms(6) by (cases "k = i") (auto simp: r')
  qed
  have "length (conn_route d) = DUCQ_MAX_ROUTE_LEN" if "d \<in> set (re_conns r')" for d
    using that set_update_subset_insert [of "re_conns r" i c] inv(5) c(2) by (auto simp: r')
  moreover have "q \<noteq> 0 \<and> w_heap (re_world r') q \<noteq> None" if "live j q r'" for j q
    using lv [OF that] inv(2,3) assms(3,5) by (auto simp: r')
  ultimately show ?thesis
    using before inv(1,6) unfolding table_ok_def by (simp add: r')
qed

lemma add_client_run:
  assumes "reactor_inv r" and "free_slot (re_conns r) = Some i"
    and "fd \<noteq> - 1" and "p \<noteq> 0" and "w_heap (re_world r) p \<noteq> None" and "\<forall>j. \<not> live j p r"
  shows "\<exists>r'. ducq_reactor_add_client fd p r = (DUCQ_OK, r') \<and> reactor_inv r' \<and> re_world r' = re_world r \<and>
    route_at i r' = Some [] \<and> (\<forall>j q. live j q r' \<longleftrightarrow> j = i \<and> q = p \<or> live j q r)"
proof -
  note inv = reactor_invD [OF assms(1)]
  have i: "i < DUCQ_MAX_CONNECTIONS" "conn_fd (re_conns r ! i) = - 1"
    using assms(2) inv(1) by (auto simp: free_slot_Some)
  define c where "c = \<lparr>conn_fd = fd, conn_as = AsClient p ((conn_route (re_conns r ! i))[0 := NUL])\<rparr>"
  have run: "ducq_reactor_add_client fd p r = (DUCQ_OK, set_conn i c r)"
    using assms(2) by (simp add: ducq_reactor_add_client_def c_def)
  have lv: "live j q (set_conn i c r) \<longleftrightarrow> j = i \<and> q = p \<or> live j q r" for j q
    unfolding live_set_conn [OF inv(1) i(1)] using assms(3) i(2) by (auto simp: c_def conn_client_def live_def)
  have "length (conn_route (re_conns r ! i)) = DUCQ_MAX_ROUTE_LEN"
    using inv(1,6) i(1) by simp
  then have rt: "route_at i (set_conn i c r) = Some []"
    using inv(1) i(1) by (cases "conn_route (re_conns r ! i)") (simp_all add: c_def route_at_def conn_route_def c_str_def)
  have "table_ok (set_conn i c r)"
    by (rule add_client_table [OF run inv(8) assms(4,3,5,6)])
  moreover have "route_at j (set_conn i c r) \<noteq> None" if "live j q (set_conn i c r)" for j q
    using that inv(4) rt unfolding lv by (cases "j = i") (auto simp: route_at_def)
  ultimately have "reactor_inv (set_conn i c r)"
    unfolding reactor_inv_def by blast
  then show ?thesis
    using run lv rt by simp
qed

lemma add_client_full:
  "reactor_inv r \<Longrightarrow> ducq_reactor_add_client fd p r = (DUCQ_EMAX, r) \<longleftrightarrow>
    (\<forall>i < DUCQ_MAX_CONNECTIONS. conn_fd (re_conns r ! i) \<noteq> - 1)"
  using reactor_invD(1) [of r] free_slot_None [of "re_conns r"]
  by (auto simp: ducq_reactor_add_client_def split: option.splits)

lemma subscribe_run:
  assumes "reactor_inv r" and "live i p r" and "NUL \<notin> set route" and "length route < DUCQ_MAX_ROUTE_LEN"
  shows "\<exists>r'. ducq_reactor_subscribe p route r = (DUCQ_OK, r') \<and> reactor_inv r' \<and> re_world r' = re_world r \<and>
    route_at i r' = Some route \<and> (\<forall>j. j \<noteq> i \<longrightarrow> route_at j r' = route_at j r) \<and> (\<forall>j q. live j q r' = live j q r) \<and>
    (\<forall>j. conn_fd (re_conns r' ! j) = conn_fd (re_conns r ! j)) \<and>
    re_last_msgs r' = re_last_msgs r \<and> re_allow_log_route r' = re_allow_log_route r"
proof -
  note inv = reactor_invD [OF assms(1)]
  have i: "i < DUCQ_MAX_CONNECTIONS" "conn_client (re_conns r ! i) = Some p"
    using assms(2) by (simp_all add: live_def)
  define c where "c = (re_conns r ! i)\<lparr>conn_as := AsClient p (strncpy route DUCQ_MAX_ROUTE_LEN)\<rparr>"
  define r' where "r' = set_conn i c r"
  have sub: "ducq_reactor_subscribe p route r = (DUCQ_OK, r')"
    using client_slot_live [OF assms(1,2)] by (simp add: ducq_reactor_subscribe_def r'_def c_def)
  have lv: "live j q r' \<longleftrightarrow> live j q r" for j q
    unfolding r'_def live_set_conn [OF inv(1) i(1)] using i by (auto simp: c_def conn_client_def live_def)
  have rt: "route_at i r' = Some route" "route_at j r' = route_at j r" if "j \<noteq> i" for j
    using that inv(1) i(1) assms(3,4) by (simp_all add: r'_def c_def route_at_def conn_route_def c_str_strncpy)
  have rti: "route_at i r' = Some route"
    using inv(1) i(1) assms(3,4) by (simp add: r'_def c_def route_at_def conn_route_def c_str_strncpy)
  have "table_ok r'"
    by (rule subscribe_table [OF sub inv(8)])
  moreover have "route_at j r' \<noteq> None" if "live j q r'" for j q
    using that rt(2) [of j] rti inv(4) lv by (cases "j = i") auto
  ultimately have "reactor_inv r'"
    by (auto simp: reactor_inv_def)
  moreover have "conn_fd (re_conns r' ! j) = conn_fd (re_conns r ! j)" for j
    using inv(1) i(1) by (cases "j = i") (simp_all add: r'_def c_def)
  ultimately show ?thesis
    using sub lv rt(2) rti by (auto simp: r'_def)
qed

section \<open>Loops\<close>

text \<open>A hook that is defined and keeps the invariant may delete any client it meets: the loop is
  defined and keeps it too.\<close>

locale safe_hook =
  fixes hook :: "('x, 'l, 'd) loop_hook"
  assumes hook_safe: "reactor_inv r \<Longrightarrow> i < DUCQ_MAX_CONNECTIONS \<Longrightarrow> conn_fd (re_conns r ! i) \<noteq> - 1 \<Longrightarrow>
    \<exists>c y r'. hook i x r = Some (c, y, r') \<and> reactor_inv r'"
begin

lemma loop_slots_safe:
  "set is \<subseteq> {..<DUCQ_MAX_CONNECTIONS} \<Longrightarrow> reactor_inv r \<Longrightarrow>
    \<exists>c y r'. loop_slots hook is ctl x r = Some (c, y, r') \<and> reactor_inv r'"
proof (induction "is" arbitrary: ctl x r)
  case (Cons i "is")
  show ?case
  proof (cases "conn_fd (re_conns r ! i) = - 1")
    case False
    obtain c y r1 where h: "hook i x r = Some (c, y, r1)" "reactor_inv r1"
      using hook_safe [OF Cons.prems(2) _ False, of x] Cons.prems(1) by auto
    obtain f where f: "connection_free i r1 = Some f" "reactor_inv f"
      using connection_free_run [OF h(2), of i] Cons.prems(1) by auto
    define r2 where "r2 = (if c AND DUCQ_LOOP_DELETE \<noteq> 0 then f else r1)"
    have r2: "(if c AND DUCQ_LOOP_DELETE \<noteq> 0 then connection_free i r1 else Some r1) = Some r2" "reactor_inv r2"
      using f h(2) by (simp_all add: r2_def)
    show ?thesis
      using Cons.IH [OF _ r2(2), of c y] Cons.prems(1) False h(1) r2 by auto
  qed (use Cons in auto)
qed simp

lemma loop_safe:
  "reactor_inv r \<Longrightarrow> \<exists>c y r'. connection_loop_template hook x r = Some (c, y, r') \<and> reactor_inv r'"
  unfolding connection_loop_template_def by (rule loop_slots_safe) auto

end

text \<open>The functions that send a text to the clients whose route is wanted and ask for the removal of
  those the sending fails for.\<close>

locale broadcast =
  fixes apply_f :: "('x, 'l, 'd) loop_fun" and wanted :: "string \<Rightarrow> bool" and bs :: "char list" and count :: "'x \<Rightarrow> 'x"
  assumes small: "int (length bs) \<le> INT_MAX"
    and skip: "route_at i r = Some t \<Longrightarrow> \<not> wanted t \<Longrightarrow> apply_f p i x r = Some (DUCQ_LOOP_CONTINUE, x, r)"
    and send: "route_at i r = Some t \<Longrightarrow> wanted t \<Longrightarrow> on_world (ducq_send p bs) r = Some (st, r') \<Longrightarrow>
      apply_f p i x r =
        Some (if st \<noteq> DUCQ_OK then (DUCQ_LOOP_DELETE, x, r') else (DUCQ_LOOP_CONTINUE, count x, r'))"
begin

lemma hook_slot:
  assumes "reactor_inv r" and "i < DUCQ_MAX_CONNECTIONS" and "conn_fd (re_conns r ! i) \<noteq> - 1"
  shows "\<exists>c y r'. loop_through_client apply_f i x r = Some (c, y, r') \<and> reactor_inv r'"
proof (cases "conn_as (re_conns r ! i)")
  case (AsClient p area)
  then have lv: "live i p r"
    using assms by (simp add: live_def conn_client_def)
  obtain t where t: "route_at i r = Some t"
    using reactor_invD(4) [OF assms(1) lv] by blast
  have "\<exists>st w. ducq_send p bs (re_world r) = Some (st, w) \<and> same_heap (re_world r) w"
    using send_defined reactor_invD(3) [OF assms(1) lv] small by blast
  from on_world_inv [where f = "ducq_send p bs", OF assms(1) this] obtain st r' where "on_world (ducq_send p bs) r = Some (st, r')" "reactor_inv r'"
    by blast
  then show ?thesis
    using skip [OF t] send [OF t] AsClient assms(1) by (cases "wanted t") (auto simp: loop_through_client_def)
qed (use assms(1) in \<open>simp add: loop_through_client_def\<close>)

end

sublocale broadcast \<subseteq> safe_hook "loop_through_client apply_f"
  by unfold_locales (rule hook_slot)

section \<open>Removing a client\<close>

lemma loop_bits [simp]:
  "DUCQ_LOOP_CONTINUE AND DUCQ_LOOP_DELETE = 0" "DUCQ_LOOP_CONTINUE AND DUCQ_LOOP_BREAK = 0"
  "DUCQ_LOOP_DELETE AND DUCQ_LOOP_BREAK = 0" "0 < DUCQ_LOOP_DELETE AND DUCQ_LOOP_DELETE"
  "0 < (DUCQ_LOOP_DELETE OR DUCQ_LOOP_BREAK) AND DUCQ_LOOP_DELETE"
  "0 < (DUCQ_LOOP_DELETE OR DUCQ_LOOP_BREAK) AND DUCQ_LOOP_BREAK"
  by (simp_all add: DUCQ_LOOP_CONTINUE_def DUCQ_LOOP_DELETE_def DUCQ_LOOP_BREAK_def)

text \<open>A loop whose hook has nothing to do for the first slots.\<close>

lemma loop_slots_skip:
  assumes "\<forall>i \<in> set is. conn_fd (re_conns r ! i) \<noteq> - 1 \<longrightarrow> hook i x r = Some (DUCQ_LOOP_CONTINUE, x, r)"
  shows "loop_slots hook (is @ js) DUCQ_LOOP_CONTINUE x r = loop_slots hook js DUCQ_LOOP_CONTINUE x r"
  using assms by (induction "is") auto

lemma delete_hook:
  assumes "i < DUCQ_MAX_CONNECTIONS" and "conn_fd (re_conns r ! i) \<noteq> - 1"
  shows "loop_through_client (delete_client p) i () r =
    Some (if live i p r then DUCQ_LOOP_DELETE OR DUCQ_LOOP_BREAK else DUCQ_LOOP_CONTINUE, (), r)"
  using assms by (auto simp: loop_through_client_def delete_client_def live_def conn_client_def split: conn_as.splits)

lemma slots_split: "i < n \<Longrightarrow> [0..<n] = [0..<i] @ i # [Suc i..<n]"
  using upt_add_eq_append [of 0 i "n - i"] upt_conv_Cons [of i n] by simp

lemma delete_live:
  assumes "reactor_inv r" and "live i p r"
  shows "ducq_reactor_delete p r = map_option (\<lambda>r'. (True, r')) (connection_free i r)"
proof -
  have i: "i < DUCQ_MAX_CONNECTIONS" "conn_fd (re_conns r ! i) \<noteq> - 1" and p: "p \<noteq> 0"
    using assms reactor_invD(2) by (auto simp: live_def)
  let ?h = "loop_through_client (delete_client p)"
  have "\<forall>j \<in> set [0..<i]. conn_fd (re_conns r ! j) \<noteq> - 1 \<longrightarrow> ?h j () r = Some (DUCQ_LOOP_CONTINUE, (), r)"
  proof (intro ballI impI)
    fix j assume "j \<in> set [0..<i]" and fd: "conn_fd (re_conns r ! j) \<noteq> - 1"
    then have "j < i" by simp
    then have j: "j < DUCQ_MAX_CONNECTIONS" and "\<not> live j p r"
      using i(1) live_unique [OF assms(1,2), of j] by auto
    then show "?h j () r = Some (DUCQ_LOOP_CONTINUE, (), r)"
      using delete_hook [OF j fd] by simp
  qed
  then have "ducq_reactor_loop (delete_client p) () r =
      loop_slots ?h (i # [Suc i..<DUCQ_MAX_CONNECTIONS]) DUCQ_LOOP_CONTINUE () r"
    unfolding ducq_reactor_loop_def connection_loop_template_def slots_split [OF i(1)] by (rule loop_slots_skip)
  also have "\<dots> = map_option (\<lambda>r'. (DUCQ_LOOP_DELETE OR DUCQ_LOOP_BREAK, (), r')) (connection_free i r)"
    using i(2) delete_hook [OF i] assms(2) by (cases "connection_free i r") simp_all
  finally show ?thesis
    using p by (cases "connection_free i r") (simp_all add: ducq_reactor_delete_def)
qed

lemma delete_absent:
  assumes "\<forall>i. \<not> live i p r"
  shows "ducq_reactor_delete p r = Some (False, r)"
proof -
  let ?h = "loop_through_client (delete_client p)"
  have "\<forall>j \<in> set [0..<DUCQ_MAX_CONNECTIONS]. conn_fd (re_conns r ! j) \<noteq> - 1 \<longrightarrow>
      ?h j () r = Some (DUCQ_LOOP_CONTINUE, (), r)"
  proof (intro ballI impI)
    fix j assume "j \<in> set [0..<DUCQ_MAX_CONNECTIONS]" and fd: "conn_fd (re_conns r ! j) \<noteq> - 1"
    then show "?h j () r = Some (DUCQ_LOOP_CONTINUE, (), r)"
      using delete_hook [OF _ fd, of p] assms by simp
  qed
  then have "ducq_reactor_loop (delete_client p) () r = Some (DUCQ_LOOP_CONTINUE, (), r)"
    using loop_slots_skip [of "[0..<DUCQ_MAX_CONNECTIONS]" r ?h "()" "[]"]
    by (simp add: ducq_reactor_loop_def connection_loop_template_def del: upt_rec)
  then show ?thesis
    by (simp add: ducq_reactor_delete_def)
qed

lemma delete_run:
  assumes "reactor_inv r"
  shows "\<exists>b r'. ducq_reactor_delete p r = Some (b, r') \<and> b = (\<exists>i. live i p r) \<and> reactor_inv r' \<and>
    (\<forall>j q. live j q r' \<longleftrightarrow> live j q r \<and> q \<noteq> p) \<and>
    (\<forall>q. w_heap (re_world r') q = None \<longleftrightarrow> w_heap (re_world r) q = None \<or> q = p \<and> (\<exists>i. live i p r))"
proof (cases "\<exists>i. live i p r")
  case True
  then obtain i where i: "live i p r" by blast
  then have lt: "i < DUCQ_MAX_CONNECTIONS"
    by (simp add: live_def)
  obtain r' where r': "connection_free i r = Some r'" "reactor_inv r'"
      "re_conns r' = (re_conns r)[i := (re_conns r ! i)\<lparr>conn_fd := - 1\<rparr>]"
      "\<forall>q. w_heap (re_world r') q = None \<longleftrightarrow> w_heap (re_world r) q = None \<or> live i q r"
    using connection_free_run [OF assms lt] by blast
  have "live i q r \<longleftrightarrow> q = p" for q
    using i by (auto simp: live_def)
  then have heap: "\<forall>q. w_heap (re_world r') q = None \<longleftrightarrow> w_heap (re_world r) q = None \<or> q = p \<and> (\<exists>i. live i p r)"
    using r'(4) True by simp
  have "live j q r' \<longleftrightarrow> live j q (set_conn i ((re_conns r ! i)\<lparr>conn_fd := - 1\<rparr>) r)" for j q
    by (simp add: live_def r'(3))
  then have "live j q r' \<longleftrightarrow> j \<noteq> i \<and> live j q r" for j q
    using live_set_conn [OF reactor_invD(1) [OF assms] lt] by simp
  then have "live j q r' \<longleftrightarrow> live j q r \<and> q \<noteq> p" for j q
    using i live_unique [OF assms] by (metis live_def option.inject)
  then show ?thesis
    using delete_live [OF assms i] r'(1,2) heap True by auto
next
  case False
  then show ?thesis
    using delete_absent [of p r] assms by auto
qed

section \<open>Delivery\<close>

text \<open>\<open>sent F w w'\<close>: between the two worlds the text \<open>F fd\<close> has been written to every descriptor, and
  no client has changed but for its cached id.\<close>

definition kind :: "client option \<Rightarrow> int option option" where
  "kind c = (case c of None \<Rightarrow> None | Some (Tcp c) \<Rightarrow> Some (Some (tcp_fd c)) | Some _ \<Rightarrow> Some None)"

lemma kind_simps [simp]: "kind None = None" "kind (Some (Tcp c)) = Some (Some (tcp_fd c))" "kind x = None \<longleftrightarrow> x = None"
  by (auto simp: kind_def split: option.splits client.splits)

lemma kind_Tcp: "kind c = Some (Some fd) \<longleftrightarrow> (\<exists>t. c = Some (Tcp t) \<and> tcp_fd t = fd)"
  by (auto simp: kind_def split: option.splits client.splits)

definition sent :: "(int \<Rightarrow> char list) \<Rightarrow> world \<Rightarrow> world \<Rightarrow> bool" where
  "sent F w w' \<longleftrightarrow>
     (\<forall>p. kind (w_heap w' p) = kind (w_heap w p)) \<and>
     (ids_ok w \<longrightarrow> ids_ok w') \<and> os_in (w_os w') = os_in (w_os w) \<and>
     (\<forall>fd. os_out (w_os w') fd = os_out (w_os w) fd @ F fd) \<and>
     (\<forall>fd. writable (os_wr (w_os w) fd) \<longrightarrow> writable (os_wr (w_os w') fd))"

lemma sent_refl: "sent (\<lambda>_. []) w w"
  by (simp add: sent_def)

lemma sent_trans: "sent F w v \<Longrightarrow> sent G v u \<Longrightarrow> sent (\<lambda>fd. F fd @ G fd) w u"
  by (simp add: sent_def)

lemma sent_same_heap: "sent F w w' \<Longrightarrow> same_heap w w'"
  unfolding sent_def same_heap_def by (metis kind_simps(3))

text \<open>An allocated TCP client with that descriptor, which delivers and accepts bytes without errors.\<close>

definition tcp_on :: "nat \<Rightarrow> int \<Rightarrow> world \<Rightarrow> bool" where
  "tcp_on p fd w \<longleftrightarrow> p \<noteq> 0 \<and> kind (w_heap w p) = Some (Some fd) \<and> fluent (os_in (w_os w) fd) \<and> writable (os_wr (w_os w) fd)"

lemma tcp_on_sent: "tcp_on p fd w \<Longrightarrow> sent F w w' \<Longrightarrow> tcp_on p fd w'"
  by (simp add: tcp_on_def sent_def)

lemma tcp_on_up: "tcp_on p fd w \<longleftrightarrow> (\<exists>c. tcp_up p c w \<and> tcp_fd c = fd)"
  by (auto simp: tcp_on_def tcp_up_def kind_Tcp)

lemma send_on:
  assumes "tcp_on p fd w" and "int (length bs) \<le> INT_MAX"
  shows "\<exists>w'. ducq_send p bs w = Some (DUCQ_OK, w') \<and> sent (\<lambda>g. if g = fd then tcp_frame bs else []) w w'"
proof -
  obtain c where c: "tcp_up p c w" "tcp_fd c = fd"
    using assms(1) unfolding tcp_on_up by blast
  obtain t where t: "ducq_send p bs w = Some (DUCQ_OK, w\<lparr>w_os := t\<rparr>)"
      "only_wrote fd (tcp_frame bs) (w_os w) t" "tcp_up p c (w\<lparr>w_os := t\<rparr>)"
    using send_tcp [OF c(1) assms(2)] c(2) by blast
  have "writable (os_wr t g)" if "writable (os_wr (w_os w) g)" for g
    using that t(3) c(2) only_wroteD(4) [OF t(2), of g] by (cases "g = fd") (auto simp: tcp_up_def)
  then have "sent (\<lambda>g. if g = fd then tcp_frame bs else []) w (w\<lparr>w_os := t\<rparr>)"
    using only_wroteD(1-3) [OF t(2)] by (auto simp: sent_def ids_ok_def)
  then show ?thesis
    using t(1) by blast
qed

lemma id_on:
  assumes "tcp_on p fd w" and "ids_ok w"
  shows "\<exists>a w'. ducq_id p w = Some (Some a, w') \<and> sent (\<lambda>_. []) w w' \<and> length a < 100"
proof -
  obtain c where c: "p \<noteq> 0" "w_heap w p = Some (Tcp c)"
    using assms(1) by (auto simp: tcp_on_up tcp_up_def)
  then have "length (tcp_id c) < 100"
    using assms(2) c(2) by (metis client_ok.simps(1) ids_ok_def)
  then obtain a c' where id: "tcp_get_id c (w_os w) = (a, c')" "tcp_fd c' = tcp_fd c" "length a < 100" "length (tcp_id c') < 100"
    using tcp_id_fits by (metis prod.collapse)
  have "ducq_id p w = Some (Some a, w\<lparr>w_os := w_os w, w_heap := (w_heap w)(p \<mapsto> Tcp c')\<rparr>)"
    unfolding ducq_id_def using id(1) by (intro deref_run [OF c]) simp
  then show ?thesis
    using c id by (auto simp: sent_def ids_ok_def)
qed

text \<open>A server all of whose clients are such TCP clients, on different descriptors.\<close>

definition slot_fd :: "nat \<Rightarrow> ('l, 'd) reactor \<Rightarrow> int" where
  "slot_fd i r = conn_fd (re_conns r ! i)"

definition serving :: "('l, 'd) reactor \<Rightarrow> bool" where
  "serving r \<longleftrightarrow> reactor_inv r \<and>
     (\<forall>i p. live i p r \<longrightarrow> tcp_on p (slot_fd i r) (re_world r)) \<and>
     (\<forall>i j p q. live i p r \<longrightarrow> live j q r \<longrightarrow> slot_fd i r = slot_fd j r \<longrightarrow> i = j)"

lemma serving_inv: "serving r \<Longrightarrow> reactor_inv r"
  by (simp add: serving_def)

lemma serving_sent: "serving r \<Longrightarrow> sent F (re_world r) w \<Longrightarrow> serving (r\<lparr>re_world := w\<rparr>)"
  using inv_world sent_same_heap tcp_on_sent by (fastforce simp: serving_def slot_fd_def)

text \<open>The slots a text goes to.\<close>

definition subscribed :: "(string \<Rightarrow> bool) \<Rightarrow> ('l, 'd) reactor \<Rightarrow> nat \<Rightarrow> bool" where
  "subscribed wanted r i \<longleftrightarrow> (\<exists>p t. live i p r \<and> route_at i r = Some t \<and> wanted t)"

definition to_slots :: "char list \<Rightarrow> nat list \<Rightarrow> ('l, 'd) reactor \<Rightarrow> int \<Rightarrow> char list" where
  "to_slots bs is r fd = (if \<exists>i \<in> set is. slot_fd i r = fd then tcp_frame bs else [])"

lemma to_slots_Nil [simp]: "to_slots bs [] r = (\<lambda>_. [])"
  by (simp add: to_slots_def fun_eq_iff)

context broadcast begin

lemma slot_delivers:
  assumes "serving r" and "i < DUCQ_MAX_CONNECTIONS" and "conn_fd (re_conns r ! i) \<noteq> - 1"
  shows "\<exists>w. loop_through_client apply_f i x r =
      Some (DUCQ_LOOP_CONTINUE, if subscribed wanted r i then count x else x, r\<lparr>re_world := w\<rparr>) \<and>
    sent (to_slots bs (filter (subscribed wanted r) [i]) r) (re_world r) w"
proof (cases "conn_as (re_conns r ! i)")
  case (AsServer a c)
  then have "\<not> subscribed wanted r i"
    by (simp add: subscribed_def live_def conn_client_def)
  then show ?thesis
    using AsServer sent_refl [of "re_world r"]
    by (intro exI [of _ "re_world r"]) (simp add: loop_through_client_def)
next
  case (AsClient p area)
  then have lv: "live i p r"
    using assms by (simp add: live_def conn_client_def)
  obtain t where t: "route_at i r = Some t"
    using reactor_invD(4) [OF serving_inv [OF assms(1)] lv] by blast
  then have sub: "subscribed wanted r i \<longleftrightarrow> wanted t"
    using lv by (auto simp: subscribed_def)
  show ?thesis
  proof (cases "wanted t")
    case False
    then show ?thesis
      using AsClient skip [OF t] sub sent_refl [of "re_world r"]
      by (intro exI [of _ "re_world r"]) (simp add: loop_through_client_def)
  next
    case True
    have "tcp_on p (slot_fd i r) (re_world r)"
      using assms(1) lv by (simp add: serving_def)
    then obtain w where w: "ducq_send p bs (re_world r) = Some (DUCQ_OK, w)"
        "sent (\<lambda>g. if g = slot_fd i r then tcp_frame bs else []) (re_world r) w"
      using send_on small by blast
    have "(\<lambda>g. if g = slot_fd i r then tcp_frame bs else []) = to_slots bs [i] r"
      by (auto simp: to_slots_def)
    then show ?thesis
      using AsClient send [OF t True, of p DUCQ_OK "r\<lparr>re_world := w\<rparr>"] w sub True
      by (intro exI [of _ w]) (simp add: loop_through_client_def on_world_def)
  qed
qed

lemma slots_deliver:
  assumes "serving r" and "set is \<subseteq> {..<DUCQ_MAX_CONNECTIONS}" and "distinct is"
  shows "\<exists>w. loop_slots (loop_through_client apply_f) is DUCQ_LOOP_CONTINUE x r =
      Some (DUCQ_LOOP_CONTINUE, (count ^^ length (filter (subscribed wanted r) is)) x, r\<lparr>re_world := w\<rparr>) \<and>
    sent (to_slots bs (filter (subscribed wanted r) is) r) (re_world r) w"
  using assms
proof (induction "is" arbitrary: x r)
  case Nil
  then show ?case
    using sent_refl [of "re_world r"] by (intro exI [of _ "re_world r"]) (simp add: to_slots_def)
next
  case (Cons i "is")
  show ?case
  proof (cases "conn_fd (re_conns r ! i) = - 1")
    case True
    then have "\<not> subscribed wanted r i"
      by (simp add: subscribed_def live_def)
    then show ?thesis
      using Cons True by simp
  next
    case False
    let ?r = "\<lambda>w. r\<lparr>re_world := w\<rparr>"
    obtain w where w: "loop_through_client apply_f i x r =
        Some (DUCQ_LOOP_CONTINUE, if subscribed wanted r i then count x else x, ?r w)"
        "sent (to_slots bs (filter (subscribed wanted r) [i]) r) (re_world r) w"
      using slot_delivers [OF Cons.prems(1) _ False, of x] Cons.prems(2) by auto
    have sv: "serving (?r w)"
      using serving_sent [OF Cons.prems(1) w(2)] .
    have sub: "subscribed wanted (?r w) = subscribed wanted r"
      by (simp add: subscribed_def fun_eq_iff)
    obtain v where v: "loop_slots (loop_through_client apply_f) is DUCQ_LOOP_CONTINUE (if subscribed wanted r i then count x else x) (?r w) =
        Some (DUCQ_LOOP_CONTINUE, (count ^^ length (filter (subscribed wanted r) is)) (if subscribed wanted r i then count x else x), ?r v)"
        "sent (to_slots bs (filter (subscribed wanted r) is) (?r w)) w v"
      using Cons.IH [OF sv, of "if subscribed wanted r i then count x else x"] Cons.prems(2,3) sub by auto
    have other: "to_slots bs (filter (subscribed wanted r) is) r fd = []" if "subscribed wanted r i" "fd = slot_fd i r" for fd
    proof -
      have "slot_fd j r \<noteq> fd" if j: "j \<in> set is" "subscribed wanted r j" for j
        using that \<open>subscribed wanted r i\<close> \<open>fd = slot_fd i r\<close> Cons.prems(1,3)
        unfolding serving_def subscribed_def by (metis distinct.simps(2))
      then show ?thesis
        by (auto simp: to_slots_def)
    qed
    have F: "(\<lambda>fd. to_slots bs (filter (subscribed wanted r) [i]) r fd @ to_slots bs (filter (subscribed wanted r) is) r fd)
        = to_slots bs (filter (subscribed wanted r) (i # is)) r"
    proof (intro ext)
      fix fd
      show "to_slots bs (filter (subscribed wanted r) [i]) r fd @ to_slots bs (filter (subscribed wanted r) is) r fd
          = to_slots bs (filter (subscribed wanted r) (i # is)) r fd"
      proof (cases "subscribed wanted r i \<and> fd = slot_fd i r")
        case True
        then show ?thesis
          using other [of fd] by (simp add: to_slots_def)
      qed (auto simp: to_slots_def)
    qed
    have "to_slots bs (filter (subscribed wanted r) is) (?r w) = to_slots bs (filter (subscribed wanted r) is) r"
      by (simp add: to_slots_def slot_fd_def fun_eq_iff)
    then have "sent (to_slots bs (filter (subscribed wanted r) (i # is)) r) (re_world r) v"
      using sent_trans [OF w(2) v(2)] F by simp
    moreover have "(count ^^ length (filter (subscribed wanted r) (i # is))) x =
        (count ^^ length (filter (subscribed wanted r) is)) (if subscribed wanted r i then count x else x)"
      by (simp add: funpow_swap1)
    ultimately show ?thesis
      using v(1) w(1) False by (intro exI [of _ v]) simp
  qed
qed

lemma delivers:
  assumes "serving r"
  shows "\<exists>w. ducq_reactor_loop apply_f x r =
      Some (DUCQ_LOOP_CONTINUE, (count ^^ length (filter (subscribed wanted r) [0..<DUCQ_MAX_CONNECTIONS])) x, r\<lparr>re_world := w\<rparr>) \<and>
    sent (to_slots bs (filter (subscribed wanted r) [0..<DUCQ_MAX_CONNECTIONS]) r) (re_world r) w"
  unfolding ducq_reactor_loop_def connection_loop_template_def
  by (rule slots_deliver [OF assms]) auto

lemma none_wanted:
  assumes "reactor_inv r" and "\<forall>i. \<not> subscribed wanted r i"
  shows "ducq_reactor_loop apply_f x r = Some (DUCQ_LOOP_CONTINUE, x, r)"
proof -
  let ?h = "loop_through_client apply_f"
  have "\<forall>i \<in> set [0..<DUCQ_MAX_CONNECTIONS]. conn_fd (re_conns r ! i) \<noteq> - 1 \<longrightarrow> ?h i x r = Some (DUCQ_LOOP_CONTINUE, x, r)"
  proof (intro ballI impI)
    fix i assume i: "i \<in> set [0..<DUCQ_MAX_CONNECTIONS]" "conn_fd (re_conns r ! i) \<noteq> - 1"
    show "?h i x r = Some (DUCQ_LOOP_CONTINUE, x, r)"
    proof (cases "conn_as (re_conns r ! i)")
      case (AsClient p area)
      then have lv: "live i p r"
        using i by (simp add: live_def conn_client_def)
      then obtain t where t: "route_at i r = Some t"
        using reactor_invD(4) [OF assms(1)] by blast
      then have "\<not> wanted t"
        using lv assms(2) by (auto simp: subscribed_def)
      then show ?thesis
        using AsClient skip [OF t] by (simp add: loop_through_client_def)
    qed (simp add: loop_through_client_def)
  qed
  then show ?thesis
    using loop_slots_skip [of "[0..<DUCQ_MAX_CONNECTIONS]" r ?h x "[]"]
    by (simp add: ducq_reactor_loop_def connection_loop_template_def del: upt_rec)
qed

end

section \<open>The log route\<close>

text \<open>The line sent for an entry; the lines that fit the buffer.\<close>

definition log_line :: "log_entry \<Rightarrow> string" where
  "log_line e = ducq_level_tostr (le_level e) @ '','' @ le_function e @ '','' @ fmt_str (le_sender e) @ '','' @ le_text e"

lemma log_buffer_fits:
  assumes "length (log_line e) < DUCQ_MSGSZ"
  shows "\<exists>b. log_buffer e = Some (b, length (log_line e)) \<and> length b = DUCQ_MSGSZ \<and> take (length (log_line e)) b = log_line e"
proof -
  define h where "h = ducq_level_tostr (le_level e) @ '','' @ le_function e @ '','' @ fmt_str (le_sender e) @ '',''"
  have l: "log_line e = h @ le_text e"
    by (simp add: log_line_def h_def)
  then have n: "length h + length (le_text e) < DUCQ_MSGSZ"
    using assms by simp
  define b1 where "b1 = h @ [NUL] @ drop (length h + 1) (replicate DUCQ_MSGSZ NUL)"
  have b1: "mem_write (replicate DUCQ_MSGSZ NUL) 0 (h @ [NUL]) = Some b1" "length b1 = DUCQ_MSGSZ"
    using n by (simp_all add: mem_write_def b1_def)
  define b2 where "b2 = take (length h) b1 @ (le_text e @ [NUL]) @ drop (length h + length (le_text e @ [NUL])) b1"
  have b2: "mem_write b1 (length h) (le_text e @ [NUL]) = Some b2" "length b2 = DUCQ_MSGSZ"
    using n b1(2) by (simp_all add: mem_write_def b2_def)
  have "take (length h) b1 = h"
    by (simp add: b1_def)
  then have "take (length (log_line e)) b2 = log_line e"
    by (simp add: b2_def l)
  moreover have "log_buffer e = Some (b2, length (log_line e))"
    using n b1(1) b2(1) unfolding log_buffer_def h_def [symmetric] by (simp add: snprintf_def l)
  ultimately show ?thesis
    using b2(2) by blast
qed

text \<open>A buffer cut to \<open>DUCQ_MSGSZ\<close> bytes and a count inside it, for which the sending is defined.\<close>

lemma send_buf_clip:
  "send_buf p (take k b) (min n (length (take k b))) = ducq_send p (take n (take k b))"
proof -
  have "take (min n (length (take k b))) (take k b) = take n (take k b)"
    by (metis min.commute take_all_iff take_take order_refl)
  then show ?thesis
    unfolding send_buf_def by (simp only: min.cobounded2 if_True fun_eq_iff simp_thms)
qed

definition log_hook :: "char list \<Rightarrow> nat \<Rightarrow> (unit, 'l, 'd) loop_fun" where
  "log_hook b n = do_send_to_log_route (take DUCQ_MSGSZ b) (min n (length (take DUCQ_MSGSZ b)))"

interpretation log: broadcast "log_hook b n :: (unit, 'l, 'd) loop_fun" "\<lambda>t. t = DUCQ_LOG_ROUTE" "take n (take DUCQ_MSGSZ b)" "\<lambda>x. x" for b n
proof unfold_locales
  show "int (length (take n (take DUCQ_MSGSZ b))) \<le> INT_MAX"
    by (simp add: INT_MAX_def)
  fix i t p x st and r r' :: "('l, 'd) reactor"
  assume t: "route_at i r = Some t"
  show "log_hook b n p i x r = Some (DUCQ_LOOP_CONTINUE, x, r)" if "t \<noteq> DUCQ_LOG_ROUTE"
    using t that by (simp add: log_hook_def do_send_to_log_route_def)
  show "log_hook b n p i x r = Some (if st \<noteq> DUCQ_OK then (DUCQ_LOOP_DELETE, x, r') else (DUCQ_LOOP_CONTINUE, x, r'))"
    if "t = DUCQ_LOG_ROUTE" and "on_world (ducq_send p (take n (take DUCQ_MSGSZ b))) r = Some (st, r')"
    unfolding log_hook_def do_send_to_log_route_def send_buf_clip using t that by simp
qed

lemma log_hook_eq: "length b = DUCQ_MSGSZ \<Longrightarrow> n \<le> DUCQ_MSGSZ \<Longrightarrow> do_send_to_log_route b n = log_hook b n"
  by (simp add: log_hook_def)

text \<open>The log never does harm: it keeps the invariant, whatever the sending to the log clients does.\<close>

lemma log_safe:
  assumes "reactor_inv r" and "length (log_line e) < DUCQ_MSGSZ"
  shows "\<exists>rc r'. ducq_reactor_log e r = Some (rc, r') \<and> reactor_inv r'"
proof -
  obtain rc l where l: "re_logfunc r e (re_logger r) = (rc, l)" by fastforce
  obtain b where b: "log_buffer e = Some (b, length (log_line e))" "length b = DUCQ_MSGSZ"
    using log_buffer_fits [OF assms(2)] by blast
  let ?r = "r\<lparr>re_logger := l\<rparr>"
  have "reactor_inv ?r"
    using assms(1) by simp
  then obtain c y r' where "ducq_reactor_loop (do_send_to_log_route b (length (log_line e))) () ?r = Some (c, y, r')" "reactor_inv r'"
    using log.loop_safe [of ?r b "length (log_line e)" "()"]
    unfolding ducq_reactor_loop_def log_hook_eq [OF b(2) less_imp_le [OF assms(2)]] by auto
  then show ?thesis
    using l b(1) assms(1) by (cases "re_allow_log_route r") (auto simp: ducq_reactor_log_def Let_def)
qed

text \<open>A serving reactor sends the line to the clients of the log route and to no other.\<close>

definition log_slots :: "('l, 'd) reactor \<Rightarrow> nat list" where
  "log_slots r = (if re_allow_log_route r
     then filter (subscribed (\<lambda>t. t = DUCQ_LOG_ROUTE) r) [0..<DUCQ_MAX_CONNECTIONS] else [])"

lemma serving_logger [simp]: "serving (r\<lparr>re_logger := l\<rparr>) = serving r"
  by (simp add: serving_def live_def slot_fd_def)

lemma log_sends:
  assumes "serving r" and "length (log_line e) < DUCQ_MSGSZ"
  shows "\<exists>rc l w. re_logfunc r e (re_logger r) = (rc, l) \<and> ducq_reactor_log e r = Some (rc, r\<lparr>re_logger := l, re_world := w\<rparr>) \<and>
    sent (to_slots (log_line e) (log_slots r) r) (re_world r) w"
proof -
  obtain rc l where l: "re_logfunc r e (re_logger r) = (rc, l)" by fastforce
  obtain b where b: "log_buffer e = Some (b, length (log_line e))" "length b = DUCQ_MSGSZ" "take (length (log_line e)) b = log_line e"
    using log_buffer_fits [OF assms(2)] by blast
  let ?r = "r\<lparr>re_logger := l\<rparr>"
  show ?thesis
  proof (cases "re_allow_log_route r")
    case False
    then show ?thesis
      using l sent_refl [of "re_world r"]
      by (intro exI [of _ rc] exI [of _ l] exI [of _ "re_world r"]) (simp add: ducq_reactor_log_def log_slots_def)
  next
    case True
    have "serving ?r"
      using assms(1) by simp
    from log.delivers [OF this, of b "length (log_line e)" "()"] obtain w where
        "ducq_reactor_loop (do_send_to_log_route b (length (log_line e))) () ?r = Some (DUCQ_LOOP_CONTINUE, (), ?r\<lparr>re_world := w\<rparr>)"
        "sent (to_slots (log_line e) (filter (subscribed (\<lambda>t. t = DUCQ_LOG_ROUTE) ?r) [0..<DUCQ_MAX_CONNECTIONS]) ?r) (re_world ?r) w"
      unfolding log_hook_eq [OF b(2) less_imp_le [OF assms(2)]] using b(2,3) by auto
    moreover have "subscribed P ?r = subscribed P r" and "to_slots bs is ?r = to_slots bs is r" for P bs "is"
      by (simp_all add: fun_eq_iff subscribed_def live_def route_at_def to_slots_def slot_fd_def)
    ultimately show ?thesis
      using l b(1) True by (auto simp: ducq_reactor_log_def log_slots_def)
  qed
qed

text \<open>With no client on the log route only the log function is called.\<close>

lemma log_idle_run:
  assumes "reactor_inv r" and "log_slots r = []" and "length (log_line e) < DUCQ_MSGSZ"
  shows "ducq_reactor_log e r =
    Some (fst (re_logfunc r e (re_logger r)), r\<lparr>re_logger := snd (re_logfunc r e (re_logger r))\<rparr>)"
proof -
  obtain rc l where l: "re_logfunc r e (re_logger r) = (rc, l)" by fastforce
  obtain b where b: "log_buffer e = Some (b, length (log_line e))" "length b = DUCQ_MSGSZ"
    using log_buffer_fits [OF assms(3)] by blast
  let ?r = "r\<lparr>re_logger := l\<rparr>"
  have "\<forall>i. \<not> subscribed (\<lambda>t. t = DUCQ_LOG_ROUTE) ?r i" if "re_allow_log_route r"
    using assms(2) that by (auto simp: log_slots_def filter_empty_conv subscribed_def live_def route_at_def)
  then have "ducq_reactor_loop (do_send_to_log_route b (length (log_line e))) () ?r = Some (DUCQ_LOOP_CONTINUE, (), ?r)"
    if "re_allow_log_route r"
    using that assms(1) log.none_wanted [of ?r b "length (log_line e)" "()"]
    unfolding log_hook_eq [OF b(2) less_imp_le [OF assms(3)]] by simp
  then show ?thesis
    using l b(1) by (cases "re_allow_log_route r") (auto simp: ducq_reactor_log_def Let_def)
qed

lemma log_idle:
  assumes "reactor_inv r" and "log_slots r = []" and "length (log_line e) < DUCQ_MSGSZ"
  shows "\<exists>rc l. ducq_reactor_log e r = Some (rc, r\<lparr>re_logger := l\<rparr>)"
  using log_idle_run [OF assms] by blast

end
