(* ===== verification/Reactor_Machine.thy ===== *)
theory Reactor_Machine
  imports Reactor_Invariant
begin

text \<open>
  The reactor as a state machine: every sequence of accepted connections, subscriptions, removals,
  log calls and messages keeps the invariant, so what is proved of the operations under the invariant
  holds in every state a server gets into.  Then what the operations promise in such a state.
\<close>

section \<open>Reachable states\<close>

inductive reactor_step :: "('l, 'd) reactor \<Rightarrow> ('l, 'd) reactor \<Rightarrow> bool" where
  step_client: "p \<noteq> 0 \<Longrightarrow> w_heap (re_world r) p = None \<Longrightarrow> fd \<noteq> - 1 \<Longrightarrow> client_ok c \<Longrightarrow>
    ducq_reactor_add_client fd p (r\<lparr>re_world := (re_world r)\<lparr>w_heap := (w_heap (re_world r))(p \<mapsto> c)\<rparr>\<rparr>) = (st, r') \<Longrightarrow>
    reactor_step r r'"
| step_server: "fd \<noteq> - 1 \<Longrightarrow> ducq_reactor_add_server fd f ctx r = (st, r') \<Longrightarrow> reactor_step r r'"
| step_subscribe: "live i p r \<Longrightarrow> NUL \<notin> set route \<Longrightarrow> length route < DUCQ_MAX_ROUTE_LEN \<Longrightarrow>
    ducq_reactor_subscribe p route r = (st, r') \<Longrightarrow> reactor_step r r'"
| step_delete: "ducq_reactor_delete p r = Some (b, r') \<Longrightarrow> reactor_step r r'"
| step_log: "ducq_reactor_log e r = Some (rc, r') \<Longrightarrow> reactor_step r r'"
| step_send: "on_world (ducq_send p bs) r = Some (st, r') \<Longrightarrow> reactor_step r r'"
| step_recv: "on_world (ducq_recv p buffer n) r = Some (x, r') \<Longrightarrow> reactor_step r r'"
| step_id: "on_world (ducq_id p) r = Some (a, r') \<Longrightarrow> reactor_step r r'"
| step_last: "ducq_set_last_msg route msg r = Some (st, r') \<Longrightarrow> reactor_step r r'"
| step_allow: "ducq_reactor_allow_log_route b r = (a, r') \<Longrightarrow> reactor_step r r'"

inductive reached :: "('l, 'd) reactor \<Rightarrow> bool" where
  reached_new: "w_heap w = Map.empty \<Longrightarrow> reached (fresh_reactor uninit logger logfunc w)"
| reached_step: "reached r \<Longrightarrow> reactor_step r r' \<Longrightarrow> reached r'"

lemma fresh_inv: "w_heap w = Map.empty \<Longrightarrow> reactor_inv (fresh_reactor uninit logger logfunc w)"
  by (auto simp: reactor_inv_def table_ok_def fresh_reactor_def live_def conn_route_def ids_ok_def)

lemma add_server_inv:
  assumes "reactor_inv r" and "ducq_reactor_add_server fd f ctx r = (st, r')"
  shows "reactor_inv r'"
proof (cases "free_slot (re_conns r)")
  case (Some i)
  note inv = reactor_invD [OF assms(1)]
  define c where "c = \<lparr>conn_fd = fd, conn_as = AsServer f ctx\<rparr>"
  have i: "i < DUCQ_MAX_CONNECTIONS"
    using Some inv(1) by (auto simp: free_slot_Some)
  have r': "r' = set_conn i c r"
    using assms(2) Some by (simp add: ducq_reactor_add_server_def c_def)
  have old: "j \<noteq> i \<and> live j p r" if "live j p r'" for j p
    using that unfolding r' live_set_conn [OF inv(1) i] by (auto simp: c_def conn_client_def split: if_splits)
  have "route_at j r' \<noteq> None" if "live j p r'" for j p
    using old [OF that] inv(4) [of j p] by (auto simp: r' route_at_def)
  then show ?thesis
    using add_server_table [OF assms(2) inv(8)] by (simp add: reactor_inv_def)
qed (use assms in \<open>simp add: ducq_reactor_add_server_def\<close>)

lemma on_world_keeps:
  assumes "reactor_inv r" and "on_world f r = Some (a, r')"
    and "\<And>w'. f (re_world r) = Some (a, w') \<Longrightarrow> same_heap (re_world r) w'"
  shows "reactor_inv r'"
  using assms inv_world by (auto simp: on_world_def)

text \<open>Whatever is logged, and however much of it is sent: when the log is defined it keeps the invariant.\<close>

lemma loop_slots_keeps:
  assumes "\<And>i x s c y s'. hook i x s = Some (c, y, s') \<Longrightarrow> reactor_inv s \<Longrightarrow> reactor_inv s'"
  shows "loop_slots hook is ctl x r = Some (c, y, r') \<Longrightarrow> set is \<subseteq> {..<DUCQ_MAX_CONNECTIONS} \<Longrightarrow> reactor_inv r \<Longrightarrow> reactor_inv r'"
proof (induction "is" arbitrary: ctl x r)
  case (Cons i "is")
  show ?case
  proof (cases "conn_fd (re_conns r ! i) = - 1")
    case False
    then obtain k z s where h: "hook i x r = Some (k, z, s)"
      using Cons.prems(1) by (auto simp: bind_Some_conv)
    have s: "reactor_inv s"
      by (rule assms [OF h Cons.prems(3)])
    obtain f where f: "connection_free i s = Some f" "reactor_inv f"
      using connection_free_run [OF s, of i] Cons.prems(2) by auto
    show ?thesis
      using Cons False h s f by (auto split: if_splits)
  qed (use Cons in auto)
qed simp

lemma log_keeps:
  assumes "ducq_reactor_log e r = Some (rc, r')" and "reactor_inv r"
  shows "reactor_inv r'"
proof -
  have heap: "same_heap w w'" if "send_buf p b n w = Some (st, w')" for p b n w st w'
    using that by (auto simp: send_buf_def ducq_send_def split: if_splits dest: deref_same_heap send_ok)
  have send: "reactor_inv s'" if "on_world (send_buf p b n) s = Some (st, s')" and "reactor_inv s"
    for p b n st and s s' :: "('a, 'b) reactor"
    by (rule on_world_keeps [OF that(2,1)]) (rule heap)
  have client: "reactor_inv s'" if "do_send_to_log_route b n p i x s = Some (c, y, s')" and "reactor_inv s"
    for b n p i c and x y :: unit and s s' :: "('a, 'b) reactor"
    using that by (auto simp: do_send_to_log_route_def bind_Some_conv split: if_splits dest: send)
  have hook: "reactor_inv s'" if "loop_through_client (do_send_to_log_route b n) i x s = Some (c, y, s')" and "reactor_inv s"
    for b n i c and x y :: unit and s s' :: "('a, 'b) reactor"
    using that client by (auto simp: loop_through_client_def split: conn_as.splits)
  obtain rc1 l where l: "re_logfunc r e (re_logger r) = (rc1, l)"
    by fastforce
  show ?thesis
  proof (cases "re_allow_log_route r")
    case True
    then obtain b n c y where run: "loop_slots (loop_through_client (do_send_to_log_route b n)) [0..<DUCQ_MAX_CONNECTIONS]
        DUCQ_LOOP_CONTINUE () (r\<lparr>re_logger := l\<rparr>) = Some (c, y, r')"
      using assms(1) l by (auto simp: ducq_reactor_log_def bind_Some_conv ducq_reactor_loop_def connection_loop_template_def)
    show ?thesis
      by (rule loop_slots_keeps [OF _ run]) (use assms(2) in \<open>auto simp: atLeast0LessThan intro: hook\<close>)
  qed (use assms l in \<open>auto simp: ducq_reactor_log_def\<close>)
qed

lemma step_inv:
  assumes "reactor_step r r'" and "reactor_inv r"
  shows "reactor_inv r'"
  using assms
proof (cases rule: reactor_step.cases)
  case (step_client p fd c st)
  let ?r = "r\<lparr>re_world := (re_world r)\<lparr>w_heap := (w_heap (re_world r))(p \<mapsto> c)\<rparr>\<rparr>"
  have r: "reactor_inv ?r"
    using assms(2) step_client(4) by (auto simp: reactor_inv_def table_ok_def ids_ok_def)
  have nl: "\<forall>j. \<not> live j p ?r"
    using reactor_invD(3) [OF assms(2)] step_client(2) by (simp only: live_world) blast
  show ?thesis
  proof (cases "free_slot (re_conns ?r)")
    case None
    then show ?thesis
      using step_client(5) r by (simp add: ducq_reactor_add_client_def)
  next
    case (Some i)
    then show ?thesis
      using add_client_run [OF r Some step_client(3,1) _ nl] step_client(5) by auto
  qed
next
  case (step_subscribe i p route st)
  then show ?thesis
    using subscribe_run [OF assms(2)] by fastforce
next
  case (step_delete p b)
  then show ?thesis
    using delete_run [OF assms(2), of p] by auto
next
  case (step_log e rc)
  then show ?thesis
    using log_keeps [OF _ assms(2)] by blast
next
  case (step_send p bs st)
  show ?thesis
    by (rule on_world_keeps [OF assms(2) step_send]) (auto simp: ducq_send_def dest: deref_same_heap send_ok)
next
  case (step_recv p buffer n x)
  show ?thesis
    by (rule on_world_keeps [OF assms(2) step_recv]) (auto simp: ducq_recv_def dest: deref_same_heap recv_ok)
next
  case (step_id p a)
  show ?thesis
    by (rule on_world_keeps [OF assms(2) step_id]) (auto simp: ducq_id_def dest: deref_same_heap id_ok)
qed (auto simp: add_server_inv ducq_set_last_msg_def ducq_reactor_allow_log_route_def)

theorem reached_inv:
  assumes "reached r"
  shows "reactor_inv r"
  using assms by induction (auto intro: fresh_inv step_inv)

text \<open>A route that does not fit its array is stored without a terminator.\<close>

lemma long_route_breaks:
  assumes "reactor_inv r" and "live i p r" and "NUL \<notin> set route" and "DUCQ_MAX_ROUTE_LEN \<le> length route"
  shows "\<not> reactor_inv (snd (ducq_reactor_subscribe p route r))"
proof -
  have i: "i < DUCQ_MAX_CONNECTIONS" "conn_client (re_conns r ! i) = Some p" "conn_fd (re_conns r ! i) \<noteq> - 1"
    using assms(2) by (simp_all add: live_def)
  let ?c = "(re_conns r ! i)\<lparr>conn_as := AsClient p (strncpy route DUCQ_MAX_ROUTE_LEN)\<rparr>"
  let ?r = "set_conn i ?c r"
  note len = reactor_invD(1) [OF assms(1)]
  have "ducq_reactor_subscribe p route r = (DUCQ_OK, ?r)"
    using client_slot_live [OF assms(1,2)] by (simp add: ducq_reactor_subscribe_def)
  moreover have "live i p ?r"
    unfolding live_set_conn [OF len i(1)] using i(3) by (simp add: conn_client_def)
  moreover have "route_at i ?r = None"
    using len i(1) assms(3,4) by (simp add: route_at_def conn_route_def c_str_strncpy)
  ultimately show ?thesis
    using reactor_invD(4) [of ?r i p] by auto
qed

section \<open>A small server for the witnesses\<close>

text \<open>Two TCP clients, behind the pointers 9 and 10, in the first two slots.\<close>

definition demo_tcp :: "int \<Rightarrow> client" where
  "demo_tcp fd = Tcp (tcp_five\<lparr>tcp_fd := fd\<rparr>)"

definition demo_world :: world where
  "demo_world = \<lparr>w_os = quiet_os, w_heap = [9 \<mapsto> demo_tcp 5, 10 \<mapsto> demo_tcp 6]\<rparr>"

definition demo_store :: "(char list \<times> char list) list" where
  "demo_store = replicate DUCQ_MAX_CHANNELS (replicate DUCQ_MAX_ROUTE_LEN NUL, replicate DUCQ_MSGSZ NUL)"

definition demo_conn :: "int \<Rightarrow> nat \<Rightarrow> string \<Rightarrow> connection" where
  "demo_conn fd p route = \<lparr>conn_fd = fd, conn_as = AsClient p (strncpy route DUCQ_MAX_ROUTE_LEN)\<rparr>"

definition demo :: "string \<Rightarrow> string \<Rightarrow> (unit, unit) reactor" where
  "demo route1 route2 =
     set_conn 0 (demo_conn 5 9 route1) (set_conn 1 (demo_conn 6 10 route2)
       (fresh_reactor demo_store () None demo_world))"

lemma demo_simps [simp]:
  "re_world (demo s t) = demo_world" "re_allow_log_route (demo s t) = True"
  "re_last_msgs (demo s t) = cleared demo_store" "re_logfunc (demo s t) = no_log"
  "length (re_conns (demo s t)) = DUCQ_MAX_CONNECTIONS"
  by (simp_all add: demo_def fresh_reactor_def cleared_def)

lemma demo_conns:
  "i < DUCQ_MAX_CONNECTIONS \<Longrightarrow> re_conns (demo s t) ! i =
    (if i = 0 then demo_conn 5 9 s else if i = 1 then demo_conn 6 10 t
     else \<lparr>conn_fd = - 1, conn_as = AsClient 0 (replicate DUCQ_MAX_ROUTE_LEN NUL)\<rparr>)"
  by (simp add: demo_def fresh_reactor_def nth_list_update)

lemma demo_live: "live i p (demo s t) \<longleftrightarrow> i = 0 \<and> p = 9 \<or> i = 1 \<and> p = 10"
proof (cases "i < DUCQ_MAX_CONNECTIONS")
  case True
  then show ?thesis
    using demo_conns [OF True, of s t] by (auto simp: live_def demo_conn_def conn_client_def split: if_splits)
qed (auto simp: live_def)

lemma demo_fd: "i < DUCQ_MAX_CONNECTIONS \<Longrightarrow> slot_fd i (demo s t) = (if i = 0 then 5 else if i = 1 then 6 else - 1)"
  by (simp add: slot_fd_def demo_conns demo_conn_def)

lemma demo_route:
  assumes "NUL \<notin> set s" and "NUL \<notin> set t" and "length s < DUCQ_MAX_ROUTE_LEN" and "length t < DUCQ_MAX_ROUTE_LEN"
  shows "route_at 0 (demo s t) = Some s" and "route_at 1 (demo s t) = Some t"
  using assms by (simp_all add: route_at_def demo_conns demo_conn_def conn_route_def c_str_strncpy)

lemma demo_serving:
  assumes "NUL \<notin> set s" and "NUL \<notin> set t" and "length s < DUCQ_MAX_ROUTE_LEN" and "length t < DUCQ_MAX_ROUTE_LEN"
  shows "serving (demo s t)"
proof -
  have heap: "w_heap demo_world 9 = Some (demo_tcp 5)" "w_heap demo_world 10 = Some (demo_tcp 6)"
    by (simp_all add: demo_world_def)
  have "length (conn_route c) = DUCQ_MAX_ROUTE_LEN" if "c \<in> set (re_conns (demo s t))" for c
  proof -
    obtain i where "i < DUCQ_MAX_CONNECTIONS" "c = re_conns (demo s t) ! i"
      using \<open>c \<in> set (re_conns (demo s t))\<close> by (metis demo_simps(5) in_set_conv_nth)
    then show ?thesis
      by (simp add: demo_conns demo_conn_def conn_route_def)
  qed
  moreover have "ids_ok demo_world"
    by (auto simp: ids_ok_def demo_world_def demo_tcp_def tcp_five_def split: if_splits)
  moreover have "conn_client (re_conns (demo s t) ! 0) \<noteq> Some 10"
    by (simp add: demo_conns demo_conn_def conn_client_def)
  ultimately have "reactor_inv (demo s t)"
    using demo_route [OF assms] heap unfolding reactor_inv_def table_ok_def demo_live by auto
  moreover have "tcp_on 9 5 demo_world" and "tcp_on 10 6 demo_world"
    by (simp_all add: tcp_on_def heap demo_tcp_def) (simp_all add: demo_world_def quiet_os_def)
  ultimately show ?thesis
    unfolding serving_def demo_live by (auto simp: demo_fd)
qed

section \<open>What the operations promise\<close>

text \<open>C9: in every state reached from a new reactor, by any sequence of accepted clients and servers,
  subscriptions to routes of less than 100 characters, removals, log calls, sends and receives, the invariant holds:
  every live slot holds a non-null client that is still allocated, no other slot before it holds the same pointer
  (not even a stale one), its route is a terminated string, and every cached id fits its array.  A
  subscription to a longer route breaks it in every such state.\<close>

theorem reached_invariant:
  assumes "reached r"
  shows "reactor_inv r \<and>
    (\<forall>i p route. live i p r \<and> NUL \<notin> set route \<and> DUCQ_MAX_ROUTE_LEN \<le> length route \<longrightarrow>
      \<not> reactor_inv (snd (ducq_reactor_subscribe p route r)))"
  using reached_inv [OF assms] long_route_breaks by blast

text \<open>subscribing a connected client is recorded in that client's own slot, whatever dangling
  pointers the freed slots still hold, and changes no other route and no connection.\<close>

theorem subscribe_own_slot:
  assumes "reached r" and "live i p r" and "NUL \<notin> set route" and "length route < DUCQ_MAX_ROUTE_LEN"
  shows "\<exists>r'. ducq_reactor_subscribe p route r = (DUCQ_OK, r') \<and> route_at i r' = Some route \<and>
    (\<forall>j. j \<noteq> i \<longrightarrow> route_at j r' = route_at j r) \<and> (\<forall>j q. live j q r' \<longleftrightarrow> live j q r)"
  using subscribe_run [OF reached_inv [OF assms(1)] assms(2-4)] by blast

text \<open>a new client goes into the first free slot with an empty route, whatever that slot held
  before, and every other slot stays as it is; when no slot is free nothing changes and the answer is
  \<open>DUCQ_EMAX\<close>.\<close>

theorem add_client_first_free:
  assumes "reactor_inv r" and "fd \<noteq> - 1"
  shows "case free_slot (re_conns r) of
      None \<Rightarrow> (\<forall>i < DUCQ_MAX_CONNECTIONS. conn_fd (re_conns r ! i) \<noteq> - 1) \<and> ducq_reactor_add_client fd p r = (DUCQ_EMAX, r)
    | Some i \<Rightarrow> (\<forall>j < i. conn_fd (re_conns r ! j) \<noteq> - 1) \<and>
        (\<exists>r'. ducq_reactor_add_client fd p r = (DUCQ_OK, r') \<and> live i p r' \<and> slot_fd i r' = fd \<and>
          route_at i r' = Some [] \<and> (\<forall>j. j \<noteq> i \<longrightarrow> re_conns r' ! j = re_conns r ! j))"
proof (cases "free_slot (re_conns r)")
  case None
  then have "\<forall>i < DUCQ_MAX_CONNECTIONS. conn_fd (re_conns r ! i) \<noteq> - 1"
    using reactor_invD(1) [OF assms(1)] by (simp add: free_slot_None)
  then show ?thesis
    by (simp add: None ducq_reactor_add_client_def)
next
  case (Some i)
  note len = reactor_invD(1) [OF assms(1)]
  have i: "i < DUCQ_MAX_CONNECTIONS" "\<forall>j < i. conn_fd (re_conns r ! j) \<noteq> - 1"
    using Some len by (auto simp: free_slot_Some)
  have "length (conn_route (re_conns r ! i)) = DUCQ_MAX_ROUTE_LEN"
    using reactor_invD(6) [OF assms(1)] i(1) len by simp
  then have "c_str ((conn_route (re_conns r ! i))[0 := NUL]) 0 = Some []"
    by (cases "conn_route (re_conns r ! i)") (simp_all add: c_str_def)
  then show ?thesis
    using Some i len assms(2)
    by (auto simp: ducq_reactor_add_client_def live_def slot_fd_def route_at_def conn_route_def conn_client_def)
qed

text \<open>C10: \<open>ducq_reactor_delete\<close> answers whether the client is connected, takes exactly that client out
  of the table, and frees it and nothing else.\<close>

theorem delete_exactly_one:
  assumes "reactor_inv r"
  shows "\<exists>r'. ducq_reactor_delete p r = Some (\<exists>i. live i p r, r') \<and> reactor_inv r' \<and>
    (\<forall>j q. live j q r' \<longleftrightarrow> live j q r \<and> q \<noteq> p) \<and>
    (\<forall>q. w_heap (re_world r') q = None \<longleftrightarrow> w_heap (re_world r) q = None \<or> q = p \<and> (\<exists>i. live i p r))"
  using delete_run [OF assms, of p] by blast

section \<open>The iterator\<close>

primrec iterate :: "nat \<Rightarrow> nat \<Rightarrow> ('l, 'd) reactor \<Rightarrow> (nat \<times> nat) option list" where
  "iterate 0 it r = []"
| "iterate (Suc n) it r = (let (x, it') = ducq_next it r in x # iterate n it' r)"

definition clients_from :: "nat \<Rightarrow> ('l, 'd) reactor \<Rightarrow> (nat \<times> nat) list" where
  "clients_from it r =
     map (\<lambda>i. (the (conn_client (re_conns r ! i)), i)) (filter (\<lambda>i. \<exists>p. live i p r) [it..<DUCQ_MAX_CONNECTIONS])"

lemma next_slot_spec:
  "next_slot (re_conns r) it = i \<Longrightarrow> it \<le> DUCQ_MAX_CONNECTIONS \<Longrightarrow>
    it \<le> i \<and> i \<le> DUCQ_MAX_CONNECTIONS \<and> (\<forall>j. it \<le> j \<and> j < i \<longrightarrow> \<not> (\<exists>p. live j p r)) \<and>
    (i < DUCQ_MAX_CONNECTIONS \<longrightarrow> (\<exists>p. live i p r))"
proof (induction "re_conns r" it rule: next_slot.induct)
  case (1 it)
  show ?case
  proof (cases "it < DUCQ_MAX_CONNECTIONS \<and> \<not> (conn_fd (re_conns r ! it) \<noteq> - 1 \<and> conn_client (re_conns r ! it) \<noteq> None)")
    case True
    then have "next_slot (re_conns r) (it + 1) = i"
      using 1(2) by (subst (asm) next_slot.simps) simp
    then have IH: "it + 1 \<le> i \<and> i \<le> DUCQ_MAX_CONNECTIONS \<and> (\<forall>j. it + 1 \<le> j \<and> j < i \<longrightarrow> \<not> (\<exists>p. live j p r)) \<and>
        (i < DUCQ_MAX_CONNECTIONS \<longrightarrow> (\<exists>p. live i p r))"
      using 1(1) True by simp
    moreover have "\<not> (\<exists>p. live it p r)"
      using True by (auto simp: live_def)
    ultimately show ?thesis
      by (metis Suc_eq_plus1 Suc_leD not_less_eq_eq le_antisym)
  next
    case False
    then have "i = it"
      using 1(2) by (subst (asm) next_slot.simps) auto
    then show ?thesis
      using False 1(3) by (auto simp: live_def)
  qed
qed

lemma ducq_next_step:
  assumes "it \<le> DUCQ_MAX_CONNECTIONS"
  shows "ducq_next it r = (None, it) \<and> clients_from it r = [] \<or>
    (\<exists>p i. ducq_next it r = (Some (p, i), i + 1) \<and> i < DUCQ_MAX_CONNECTIONS \<and> clients_from it r = (p, i) # clients_from (i + 1) r)"
proof -
  define i where "i = next_slot (re_conns r) it"
  note sp = next_slot_spec [OF i_def [symmetric] assms]
  have split: "[it..<DUCQ_MAX_CONNECTIONS] = [it..<i] @ [i..<DUCQ_MAX_CONNECTIONS]"
    using sp upt_add_eq_append [of it i "DUCQ_MAX_CONNECTIONS - i"] by simp
  have skip: "filter (\<lambda>i. \<exists>p. live i p r) [it..<i] = []"
    using sp by (auto simp: filter_empty_conv)
  show ?thesis
  proof (cases "i < DUCQ_MAX_CONNECTIONS")
    case True
    then obtain p where p: "live i p r"
      using sp by blast
    then have "clients_from it r = (p, i) # clients_from (i + 1) r"
      unfolding clients_from_def split filter_append skip upt_conv_Cons [OF True] by (auto simp: live_def)
    then show ?thesis
      using p True by (auto simp: ducq_next_def i_def [symmetric] live_def)
  next
    case False
    then have "clients_from it r = []"
      unfolding clients_from_def split filter_append skip by simp
    then show ?thesis
      using False by (simp add: ducq_next_def i_def [symmetric])
  qed
qed

lemma iterate_from:
  "it \<le> DUCQ_MAX_CONNECTIONS \<Longrightarrow>
    iterate (length (clients_from it r) + k) it r = map Some (clients_from it r) @ replicate k None"
proof (induction "length (clients_from it r)" arbitrary: it)
  case 0
  then have it: "ducq_next it r = (None, it)"
    using ducq_next_step [OF 0(2), of r] by auto
  have "iterate k it r = replicate k None" for k
    by (induction k) (simp_all add: it)
  then show ?case
    using 0 by simp
next
  case (Suc n)
  obtain p i where i: "ducq_next it r = (Some (p, i), i + 1)" "i < DUCQ_MAX_CONNECTIONS"
      "clients_from it r = (p, i) # clients_from (i + 1) r"
    using ducq_next_step [OF Suc(3), of r] Suc(2) by auto
  then show ?case
    using Suc(1) [of "i + 1"] Suc(2) by simp
qed

text \<open>the iterator answers the connected clients, each once, in the order of their slots, and then
  NULL for ever.\<close>

theorem iterator_lists_clients:
  "iterate (length (clients_from 0 r) + k) 0 r = map Some (clients_from 0 r) @ replicate k None"
  by (rule iterate_from) simp

text \<open>C29: the id of a client is always a string that fits its array, of 100 chars for a TCP client and 99 for a
  WebSocket or HTTP client: whatever the peer's address, and whatever the client does, every id handed out is
  shorter and every cached id stays so.\<close>

theorem ids_fit_arrays:
  assumes "ids_ok w" and "p \<noteq> 0" and "ducq_id p w = Some (t, w')"
  shows "(\<exists>c a. w_heap w p = Some c \<and> t = Some a \<and> length a < id_room c) \<and> ids_ok w'"
proof -
  obtain c c' s' where c: "w_heap w p = Some c" "vt_id c (w_os w) = Some (t, c', s')"
      "w' = w\<lparr>w_os := s', w_heap := (w_heap w)(p \<mapsto> c')\<rparr>"
    using assms(2,3) by (auto simp: ducq_id_def deref_def bind_convs)
  have "client_ok c"
    using assms(1) c(1) by (simp add: ids_ok_def)
  from id_fits [OF c(2) this] show ?thesis
    using c(1,3) assms(1) by (auto simp: ids_ok_def)
qed

section \<open>The log\<close>

text \<open>C25: a log entry whose line fits the buffer is sent, as the line "level,function,sender,text", to
  the clients subscribed to the route LOG and to nobody else; the log function gets the entry, and nothing else of
  the reactor changes.\<close>

theorem log_reaches_log_clients:
  assumes "serving r" and "length (log_line e) < DUCQ_MSGSZ"
  shows "\<exists>w. ducq_reactor_log e r =
      Some (fst (re_logfunc r e (re_logger r)), r\<lparr>re_logger := snd (re_logfunc r e (re_logger r)), re_world := w\<rparr>) \<and>
    (\<forall>fd. os_out (w_os w) fd = os_out (w_os (re_world r)) fd @
      (if \<exists>i \<in> set (log_slots r). slot_fd i r = fd then tcp_frame (log_line e) else []))"
proof -
  obtain rc l w where w: "re_logfunc r e (re_logger r) = (rc, l)"
      "ducq_reactor_log e r = Some (rc, r\<lparr>re_logger := l, re_world := w\<rparr>)"
      "sent (to_slots (log_line e) (log_slots r) r) (re_world r) w"
    using log_sends [OF assms] by blast
  from w(3) have "os_out (w_os w) fd = os_out (w_os (re_world r)) fd @
      (if \<exists>i \<in> set (log_slots r). slot_fd i r = fd then tcp_frame (log_line e) else [])" for fd
    by (simp add: sent_def to_slots_def)
  then show ?thesis
    using w(1,2) by (intro exI [of _ w] conjI allI) simp_all
qed

text \<open>A longer line: the size that is sent is the one \<open>snprintf\<close> would have needed.\<close>

lemma log_buffer_long:
  assumes "log_buffer e = Some (b, n)"
  shows "length b = DUCQ_MSGSZ \<and> n = length (log_line e)"
proof -
  define h where "h = ducq_level_tostr (le_level e) @ '','' @ le_function e @ '','' @ fmt_str (le_sender e) @ '',''"
  have l: "log_line e = h @ le_text e"
    by (simp add: log_line_def h_def)
  have len: "mem_write x k y = Some z \<Longrightarrow> length z = length x" for x y z :: "char list" and k
    by (auto simp: mem_write_def split: if_splits)
  show ?thesis
    using assms unfolding log_buffer_def h_def [symmetric]
    by (auto simp: snprintf_def l bind_convs dest!: len split: if_splits)
qed

lemma log_overread:
  assumes "reactor_inv r" and "log_slots r \<noteq> []" and "DUCQ_MSGSZ < length (log_line e)"
  shows "ducq_reactor_log e r = None"
proof -
  obtain rc l where l: "re_logfunc r e (re_logger r) = (rc, l)" by fastforce
  let ?r = "r\<lparr>re_logger := l\<rparr>"
  have allow: "re_allow_log_route r" and ex: "\<exists>i. subscribed (\<lambda>t. t = DUCQ_LOG_ROUTE) r i"
    using assms(2) by (auto simp: log_slots_def filter_empty_conv split: if_splits)
  define i where "i = (LEAST i. subscribed (\<lambda>t. t = DUCQ_LOG_ROUTE) r i)"
  have i: "subscribed (\<lambda>t. t = DUCQ_LOG_ROUTE) r i"
    unfolding i_def by (rule LeastI_ex [OF ex])
  then obtain p where p: "live i p r" "route_at i r = Some DUCQ_LOG_ROUTE"
    by (auto simp: subscribed_def)
  then have lt: "i < DUCQ_MAX_CONNECTIONS" "conn_fd (re_conns r ! i) \<noteq> - 1" "conn_client (re_conns r ! i) = Some p"
    by (simp_all add: live_def)
  have "ducq_reactor_loop (do_send_to_log_route b n) () ?r = None" if n: "length b < n" for b n
  proof -
    let ?h = "loop_through_client (do_send_to_log_route b n)"
    have "\<forall>j \<in> set [0..<i]. conn_fd (re_conns ?r ! j) \<noteq> - 1 \<longrightarrow> ?h j () ?r = Some (DUCQ_LOOP_CONTINUE, (), ?r)"
    proof (intro ballI impI)
      fix j assume j: "j \<in> set [0..<i]" and fd: "conn_fd (re_conns ?r ! j) \<noteq> - 1"
      then have ns: "\<not> subscribed (\<lambda>t. t = DUCQ_LOG_ROUTE) r j"
        unfolding i_def using not_less_Least by auto
      show "?h j () ?r = Some (DUCQ_LOOP_CONTINUE, (), ?r)"
      proof (cases "conn_as (re_conns r ! j)")
        case (AsClient q area)
        then have q: "live j q r"
          using j fd lt(1) by (simp add: live_def conn_client_def)
        then obtain t where t: "route_at j r = Some t"
          using reactor_invD(4) [OF assms(1)] by blast
        then have "t \<noteq> DUCQ_LOG_ROUTE"
          using ns q by (auto simp: subscribed_def)
        then show ?thesis
          using AsClient t by (simp add: loop_through_client_def do_send_to_log_route_def route_at_def)
      qed (simp add: loop_through_client_def)
    qed
    then have "ducq_reactor_loop (do_send_to_log_route b n) () ?r =
        loop_slots ?h (i # [Suc i..<DUCQ_MAX_CONNECTIONS]) DUCQ_LOOP_CONTINUE () ?r"
      unfolding ducq_reactor_loop_def connection_loop_template_def slots_split [OF lt(1)] by (rule loop_slots_skip)
    also have "\<dots> = None"
      using lt(2,3) p(2) n by (auto simp: loop_through_client_def do_send_to_log_route_def conn_client_def route_at_def
          on_world_def send_buf_def split: conn_as.splits)
    finally show ?thesis .
  qed
  then show ?thesis
    using l allow log_buffer_long assms(3) by (cases "log_buffer e") (fastforce simp: ducq_reactor_log_def Let_def)+
qed

section \<open>Witnesses\<close>

lemma demo_inv: "reactor_inv (demo ''a'' ''LOG'')" and demo_log_serving: "serving (demo ''a'' ''LOG'')"
  using demo_serving [of "''a''" "''LOG''"] serving_inv by auto

lemma demo_reached:
  "\<exists>r :: (unit, unit) reactor. reached r \<and> live 0 9 r"
proof -
  define w where "w = demo_world\<lparr>w_heap := Map.empty\<rparr>"
  define r0 :: "(unit, unit) reactor" where "r0 = fresh_reactor demo_store () None w"
  have r0: "reached r0" "reactor_inv r0" "w_heap (re_world r0) = Map.empty"
    using reached_new [of w demo_store "()" None] fresh_inv [of w demo_store "()" None]
    by (simp_all add: r0_def w_def) (simp add: fresh_reactor_def)
  have fs: "free_slot (re_conns r0) = Some 0"
    by (simp add: r0_def fresh_reactor_def free_slot_Some)
  define r1 where "r1 = r0\<lparr>re_world := (re_world r0)\<lparr>w_heap := (w_heap (re_world r0))(9 \<mapsto> demo_tcp 5)\<rparr>\<rparr>"
  have ok: "client_ok (demo_tcp 5)"
    by (simp add: demo_tcp_def tcp_five_def)
  obtain st r2 where r2: "ducq_reactor_add_client 5 9 r1 = (st, r2)" by fastforce
  have "reactor_step r0 r2"
    by (rule step_client [OF _ _ _ ok r2 [unfolded r1_def]]) (simp_all add: r0(3))
  moreover have "live 0 9 r2"
    using r2 fs r0(2) reactor_invD(1) [OF r0(2)]
    by (auto simp: ducq_reactor_add_client_def r1_def live_def conn_client_def)
  ultimately show ?thesis
    using reached_step [OF r0(1)] by blast
qed

theorem reached_invariant_witness: "\<exists>r :: (unit, unit) reactor. live 0 9 r \<and> reactor_inv r"
  using demo_reached reached_invariant by blast

theorem subscribe_own_slot_witness:
  "\<exists>r r' :: (unit, unit) reactor. ducq_reactor_subscribe 9 ''news'' r = (DUCQ_OK, r') \<and> route_at 0 r' = Some ''news''"
proof -
  obtain r :: "(unit, unit) reactor" where r: "reached r" "live 0 9 r"
    using demo_reached by blast
  show ?thesis
    using subscribe_own_slot [OF r, of "''news''"] by auto
qed

lemma demo_free_slot: "free_slot (re_conns (demo s t)) = Some 2"
  by (auto simp: free_slot_Some demo_conns demo_conn_def less_Suc_eq numeral_2_eq_2)

theorem add_client_first_free_witness:
  "\<exists>r'. ducq_reactor_add_client 7 11 (demo ''a'' ''LOG'') = (DUCQ_OK, r') \<and> live 2 11 r'"
  using add_client_first_free [OF demo_inv, of 7 11] by (auto simp: demo_free_slot)

theorem delete_exactly_one_witness:
  "\<exists>r'. ducq_reactor_delete 10 (demo ''a'' ''LOG'') = Some (True, r') \<and> (\<forall>j q. live j q r' \<longleftrightarrow> j = 0 \<and> q = 9)"
  using delete_exactly_one [OF demo_inv, of 10] by (auto simp: demo_live)

theorem ids_fit_arrays_witness:
  "\<exists>a w'. ducq_id 9 demo_world = Some (Some a, w') \<and> length a < 100"
proof -
  have ok: "ids_ok demo_world"
    using reactor_invD(7) [OF demo_inv] by simp
  obtain t w' where w': "ducq_id 9 demo_world = Some (t, w')"
    using id_defined [of demo_world 9] by (auto simp: demo_world_def)
  show ?thesis
    using ids_fit_arrays [OF ok _ w'] w' by (auto simp: demo_world_def demo_tcp_def)
qed

lemma demo_log_slots: "log_slots (demo ''a'' ''LOG'') = [1]"
proof -
  have "subscribed (\<lambda>t. t = DUCQ_LOG_ROUTE) (demo ''a'' ''LOG'') i \<longleftrightarrow> i = 1" for i
    using demo_route [of "''a''" "''LOG''"] by (auto simp: subscribed_def demo_live DUCQ_LOG_ROUTE_def)
  then have "subscribed (\<lambda>t. t = DUCQ_LOG_ROUTE) (demo ''a'' ''LOG'') = (\<lambda>i. i = 1)"
    by (intro ext)
  moreover have "filter (\<lambda>i. i = 1) [0..<DUCQ_MAX_CONNECTIONS] = [1]"
    by code_simp
  ultimately show ?thesis
    by (simp add: log_slots_def del: upt_rec_numeral)
qed

theorem log_reaches_log_clients_witness:
  "\<exists>rc r'. ducq_reactor_log \<lparr>le_level = DUCQ_LOG_INFO, le_function = ''f'', le_sender = None, le_text = ''hi''\<rparr> (demo ''a'' ''LOG'') = Some (rc, r') \<and>
    os_out (w_os (re_world r')) 6 = tcp_frame ''info,f,(null),hi'' \<and> os_out (w_os (re_world r')) 5 = []"
proof -
  let ?e = "\<lparr>le_level = DUCQ_LOG_INFO, le_function = ''f'', le_sender = None, le_text = ''hi''\<rparr>"
  have l: "log_line ?e = ''info,f,(null),hi''"
    by (simp add: log_line_def fmt_str_def)
  have fd: "slot_fd 1 (demo ''a'' ''LOG'') = 6"
    by (simp add: demo_fd)
  show ?thesis
    using log_reaches_log_clients [OF demo_log_serving, of ?e] fd unfolding l demo_log_slots
    by (auto simp: demo_world_def quiet_os_def)
qed

end
