(* ===== verification/Publish_Subscribe.thy ===== *)
theory Publish_Subscribe
  imports Ducq_Commands Reactor_Machine
begin

text \<open>
  What the commands do to a reactor whose clients are all reachable over TCP: quiet steps, which
  change nothing but what was written to the descriptors, and the delivery of a published message to
  the clients subscribed to its route, and to no other.
\<close>

section \<open>Quiet steps of a serving reactor\<close>

text \<open>From \<open>r\<close> to \<open>r'\<close> nothing has changed but what was written to the descriptors.\<close>

definition evolves :: "(int \<Rightarrow> char list) \<Rightarrow> ('l, 'd) reactor \<Rightarrow> ('l, 'd) reactor \<Rightarrow> bool" where
  "evolves F r r' \<longleftrightarrow> re_conns r' = re_conns r \<and> re_allow_log_route r' = re_allow_log_route r \<and>
     re_last_msgs r' = re_last_msgs r \<and> re_dispatcher r' = re_dispatcher r \<and> sent F (re_world r) (re_world r')"

definition nothing :: "int \<Rightarrow> char list" where
  "nothing fd = []"

definition only :: "int \<Rightarrow> char list \<Rightarrow> int \<Rightarrow> char list" where
  "only fd bs g = (if g = fd then bs else [])"

lemma evolvesI: "sent F (re_world r) w \<Longrightarrow> evolves F r (r\<lparr>re_logger := l, re_world := w\<rparr>)"
  by (simp add: evolves_def)

lemma evolves_trans: "evolves F r s \<Longrightarrow> evolves G s t \<Longrightarrow> evolves (\<lambda>fd. F fd @ G fd) r t"
  unfolding evolves_def using sent_trans by metis

lemma evolves_quiet:
  "evolves nothing r s \<Longrightarrow> evolves G s t \<Longrightarrow> evolves G r t"
  "evolves F r s \<Longrightarrow> evolves nothing s t \<Longrightarrow> evolves F r t"
  using evolves_trans [of nothing r s G t] evolves_trans [of F r s nothing t] by (simp_all add: nothing_def)

lemma evolves_table:
  assumes "evolves F r r'"
  shows "live i p r' = live i p r" and "route_at i r' = route_at i r" and "slot_fd i r' = slot_fd i r"
    and "subscribed P r' = subscribed P r" and "log_slots r' = log_slots r" and "to_slots bs is r' = to_slots bs is r"
    and "re_last_msgs r' = re_last_msgs r"
proof -
  have t: "re_conns r' = re_conns r" "re_allow_log_route r' = re_allow_log_route r"
    using assms by (simp_all add: evolves_def)
  have s: "subscribed P r' = subscribed P r" for P
    by (simp add: fun_eq_iff subscribed_def live_def route_at_def t)
  show "live i p r' = live i p r" "route_at i r' = route_at i r" "slot_fd i r' = slot_fd i r"
      "to_slots bs is r' = to_slots bs is r"
    by (simp_all add: live_def route_at_def slot_fd_def to_slots_def fun_eq_iff t)
  show "subscribed P r' = subscribed P r" and "log_slots r' = log_slots r"
    using s by (simp_all add: log_slots_def t)
  show "re_last_msgs r' = re_last_msgs r"
    using assms by (simp add: evolves_def)
qed

lemma evolves_serving:
  assumes "serving r" and "evolves F r r'"
  shows "serving r'"
proof -
  have "serving (r\<lparr>re_world := re_world r'\<rparr>)"
    using serving_sent assms by (auto simp: evolves_def)
  then show ?thesis
    using assms(2) by (simp add: serving_def reactor_inv_def table_ok_def live_def route_at_def slot_fd_def evolves_def)
qed

lemma serving_on: "serving r \<Longrightarrow> live i p r \<Longrightarrow> tcp_on p (slot_fd i r) (re_world r)"
  by (simp add: serving_def)

lemma store_table [simp]:
  "live i p (r\<lparr>re_last_msgs := m\<rparr>) = live i p r" "slot_fd i (r\<lparr>re_last_msgs := m\<rparr>) = slot_fd i r"
  "route_at i (r\<lparr>re_last_msgs := m\<rparr>) = route_at i r" "subscribed P (r\<lparr>re_last_msgs := m\<rparr>) = subscribed P r"
  by (simp_all add: live_def slot_fd_def subscribed_def route_at_def fun_eq_iff)

lemma store_serving [simp]:
  "serving (r\<lparr>re_last_msgs := m\<rparr>) = serving r" "log_slots (r\<lparr>re_last_msgs := m\<rparr>) = log_slots r"
  "to_slots bs is (r\<lparr>re_last_msgs := m\<rparr>) = to_slots bs is r"
  by (simp_all add: serving_def log_slots_def to_slots_def fun_eq_iff)

lemma send_quiet:
  assumes "serving r" and "live i p r" and "int (length bs) \<le> INT_MAX"
  shows "\<exists>r'. on_world (ducq_send p bs) r = Some (DUCQ_OK, r') \<and> evolves (only (slot_fd i r) (tcp_frame bs)) r r'"
proof -
  obtain w where w: "ducq_send p bs (re_world r) = Some (DUCQ_OK, w)"
      "sent (\<lambda>g. if g = slot_fd i r then tcp_frame bs else []) (re_world r) w"
    using send_on [OF serving_on [OF assms(1,2)] assms(3)] by blast
  then have "evolves (only (slot_fd i r) (tcp_frame bs)) r (r\<lparr>re_world := w\<rparr>)"
    by (simp add: evolves_def only_def [abs_def])
  then show ?thesis
    using w(1) by (simp add: on_world_def)
qed

lemma send_ack_quiet:
  assumes "serving r" and "live i p r"
  shows "\<exists>r'. on_world (ducq_send_ack p st) r = Some (DUCQ_OK, r') \<and>
    evolves (only (slot_fd i r) (tcp_frame (ack_text st))) r r'"
proof -
  have "ducq_send_ack p st = ducq_send p (ack_text st)"
    by (simp add: fun_eq_iff send_ack_text)
  then show ?thesis
    using send_quiet [OF assms, of "ack_text st"] ack_text_fits [of st] by (simp add: INT_MAX_def)
qed

lemma id_quiet:
  assumes "serving r" and "live i p r"
  shows "\<exists>a r'. on_world (ducq_id p) r = Some (Some a, r') \<and> evolves nothing r r' \<and> length a < 100"
proof -
  have "ids_ok (re_world r)"
    using assms(1) reactor_invD(7) serving_inv by blast
  then obtain a w where w: "ducq_id p (re_world r) = Some (Some a, w)" "sent (\<lambda>_. []) (re_world r) w" "length a < 100"
    using id_on [OF serving_on [OF assms]] by blast
  then have "evolves nothing r (r\<lparr>re_world := w\<rparr>)"
    by (simp add: evolves_def nothing_def [abs_def])
  then show ?thesis
    using w by (simp add: on_world_def)
qed

lemma send_buf_append: "send_buf p (t @ rest) (length t) = ducq_send p t"
  by (simp add: fun_eq_iff send_buf_def)

text \<open>Over TCP the parts of an answer are framed by two messages of their own.\<close>

lemma parts_send:
  assumes "tcp_on p fd w"
  shows "ducq_parts p w = ducq_send p ''PARTS'' w" and "ducq_end p w = ducq_send p ''END'' w"
proof -
  obtain c where c: "p \<noteq> 0" "w_heap w p = Some (Tcp c)"
    using assms by (auto simp: tcp_on_up tcp_up_def)
  then show "ducq_parts p w = ducq_send p ''PARTS'' w" and "ducq_end p w = ducq_send p ''END'' w"
    by (simp_all add: ducq_parts_def ducq_end_def ducq_send_def deref_def tcp_parts_def tcp_end_def)
qed

lemma parts_quiet:
  assumes "serving r" and "live i p r"
  shows "\<exists>r'. on_world (ducq_parts p) r = Some (DUCQ_OK, r') \<and> evolves (only (slot_fd i r) (tcp_frame ''PARTS'')) r r'"
    and "\<exists>r'. on_world (ducq_end p) r = Some (DUCQ_OK, r') \<and> evolves (only (slot_fd i r) (tcp_frame ''END'')) r r'"
  using send_quiet [OF assms, of "''PARTS''"] send_quiet [OF assms, of "''END''"] parts_send [OF serving_on [OF assms]]
  by (simp_all add: on_world_def INT_MAX_def)

lemma only_append: "(\<lambda>g. only fd as g @ only fd bs g) = only fd (as @ bs)"
  by (simp add: fun_eq_iff only_def)

lemma evolves_only: "evolves (only fd as) r s \<Longrightarrow> evolves (only fd bs) s t \<Longrightarrow> evolves (only fd (as @ bs)) r t"
  using evolves_trans [of "only fd as" r s "only fd bs" t] by (simp add: only_append)

lemma evolves_refl: "evolves nothing r r"
  by (simp add: evolves_def sent_def nothing_def)

lemma only_Nil [simp]: "only fd [] = nothing"
  by (simp add: fun_eq_iff only_def nothing_def)

text \<open>A log call with no client on the log route.\<close>

lemma log_quiet:
  assumes "serving r" and "live i p r" and "log_slots r = []" and "length f + length txt \<le> 142"
  shows "\<exists>r'. ducq_log lv f p txt r = Some r' \<and> evolves nothing r r'"
proof -
  obtain a r1 where r1: "on_world (ducq_id p) r = Some (Some a, r1)" "evolves nothing r r1" "length a < 100"
    using id_quiet [OF assms(1,2)] by blast
  define e where "e = \<lparr>le_level = lv, le_function = f, le_sender = Some a, le_text = txt\<rparr>"
  have "length (ducq_level_tostr lv) \<le> 7"
    by (cases lv) simp_all
  then have len: "length (log_line e) < DUCQ_MSGSZ"
    using assms(4) r1(3) by (simp add: log_line_def e_def fmt_str_def)
  obtain rc l w where w: "ducq_reactor_log e r1 = Some (rc, r1\<lparr>re_logger := l, re_world := w\<rparr>)"
      "sent (to_slots (log_line e) (log_slots r1) r1) (re_world r1) w"
    using log_sends [OF evolves_serving [OF assms(1) r1(2)] len] by blast
  have "evolves nothing r1 (r1\<lparr>re_logger := l, re_world := w\<rparr>)"
    using w(2) evolves_table(5) [OF r1(2)] assms(3) by (intro evolvesI) (simp add: nothing_def [abs_def])
  then have "evolves nothing r (r1\<lparr>re_logger := l, re_world := w\<rparr>)"
    by (rule evolves_quiet(1) [OF r1(2)])
  moreover have "ducq_log lv f p txt r = Some (r1\<lparr>re_logger := l, re_world := w\<rparr>)"
    using r1(1) w(1) by (simp add: ducq_log_def e_def)
  ultimately show ?thesis
    by blast
qed

section \<open>Publishing reaches the subscribers\<close>

definition publish_hook :: "string \<Rightarrow> char list \<Rightarrow> nat \<Rightarrow> (nat, 'l, 'd) loop_fun" where
  "publish_hook route b n = publish_to route (take DUCQ_MSGSZ b) (min n (length (take DUCQ_MSGSZ b)))"

interpretation pub: broadcast "publish_hook route b n :: (nat, 'l, 'd) loop_fun" "\<lambda>t. ducq_route_cmp (Some t) (Some route)"
    "take n (take DUCQ_MSGSZ b)" "\<lambda>count. count + 1" for route b n
proof unfold_locales
  show "int (length (take n (take DUCQ_MSGSZ b))) \<le> INT_MAX"
    by (simp add: INT_MAX_def)
  fix i t p and count :: nat and st and r r' :: "('l, 'd) reactor"
  assume t: "route_at i r = Some t"
  show "publish_hook route b n p i count r = Some (DUCQ_LOOP_CONTINUE, count, r)"
    if "\<not> ducq_route_cmp (Some t) (Some route)"
    using t that by (simp add: publish_hook_def publish_to_def)
  show "publish_hook route b n p i count r =
      Some (if st \<noteq> DUCQ_OK then (DUCQ_LOOP_DELETE, count, r') else (DUCQ_LOOP_CONTINUE, count + 1, r'))"
    if "ducq_route_cmp (Some t) (Some route)" and "on_world (ducq_send p (take n (take DUCQ_MSGSZ b))) r = Some (st, r')"
    unfolding publish_hook_def publish_to_def send_buf_clip using t that by simp
qed

lemma publish_hook_eq:
  "length b = DUCQ_MSGSZ \<Longrightarrow> n \<le> DUCQ_MSGSZ \<Longrightarrow> publish_to route b n = publish_hook route b n"
  by (simp add: publish_hook_def)

definition subscribers :: "string \<Rightarrow> ('l, 'd) reactor \<Rightarrow> nat list" where
  "subscribers route r =
     filter (subscribed (\<lambda>t. ducq_route_cmp (Some t) (Some route)) r) [0..<DUCQ_MAX_CONNECTIONS]"

lemma length_subscribers: "length (subscribers route r) \<le> DUCQ_MAX_CONNECTIONS"
  unfolding subscribers_def by (metis length_filter_le length_upt minus_nat.diff_0)

lemma funpow_count: "((\<lambda>k. k + 1) ^^ n) (m :: nat) = m + n"
  by (induction n) simp_all

lemma publish_loop:
  assumes "serving r" and "length b = DUCQ_MSGSZ" and "n \<le> DUCQ_MSGSZ"
  shows "\<exists>r'. ducq_reactor_loop (publish_to route b n) 0 r = Some (DUCQ_LOOP_CONTINUE, length (subscribers route r), r') \<and>
    evolves (to_slots (take n b) (subscribers route r) r) r r'"
proof -
  obtain w where w: "ducq_reactor_loop (publish_hook route b n) 0 r =
        Some (DUCQ_LOOP_CONTINUE, length (subscribers route r), r\<lparr>re_world := w\<rparr>)"
      "sent (to_slots (take n b) (subscribers route r) r) (re_world r) w"
    using pub.delivers [OF assms(1), of route b n 0] assms(2,3)
    unfolding funpow_count subscribers_def by auto
  then show ?thesis
    unfolding publish_hook_eq [OF assms(2,3)] by (auto simp: evolves_def)
qed

text \<open>The message in the command's buffer.\<close>

definition in_buffer :: "string \<Rightarrow> char list \<Rightarrow> bool" where
  "in_buffer text buffer \<longleftrightarrow> NUL \<notin> set text \<and> length buffer = DUCQ_MSGSZ \<and> (\<exists>rest. buffer = text @ NUL # rest)"

lemma in_bufferD:
  assumes "in_buffer text buffer"
  shows "c_str buffer 0 = Some text" and "length buffer = DUCQ_MSGSZ" and "length text < DUCQ_MSGSZ"
    and "take (length text) buffer = text"
  using assms by (auto simp: in_buffer_def)

lemma copy_route_text:
  assumes "parts_ok cmd route" and "os_malloc (w_os (re_world r)) = []"
  shows "\<exists>r'. copy_route (message_text cmd route payload) r = Some (DUCQ_OK, Some route, r') \<and> evolves nothing r r'"
proof -
  let ?w = "(re_world r)\<lparr>w_os := (w_os (re_world r))\<lparr>os_malloc := []\<rparr>\<rparr>"
  have "ducq_parse_route (message_text cmd route payload) None =
      (Some (Suc (length cmd)), Some (Suc (length cmd) + length route))"
    using assms(1) parse_route_text by (simp add: message_text_def parts_ok_def)
  then have "copy_route (message_text cmd route payload) r = Some (DUCQ_OK, Some route, r\<lparr>re_world := ?w\<rparr>)"
    using assms(2) by (simp add: copy_route_def sys_malloc_def answer_def message_text_def)
  moreover have "evolves nothing r (r\<lparr>re_world := ?w\<rparr>)"
    by (simp add: evolves_def sent_def nothing_def ids_ok_def)
  ultimately show ?thesis
    by blast
qed

lemma length_state_ok [simp]: "length (state_msg DUCQ_OK) = 2"
  by (simp add: state_msg_def state_str_def)

lemma pub_run:
  assumes "serving r" and "live i p r" and "log_slots r = []" and "os_malloc (w_os (re_world r)) = []"
    and "parts_ok cmd route" and "in_buffer (message_text cmd route payload) buffer"
    and "length f \<le> 30" and "length route < DUCQ_MAX_ROUTE_LEN"
    and "set_last (re_last_msgs r) route (message_text cmd route payload) = Some (st, lms)"
  shows "\<exists>r'. pub_as f p buffer (length (message_text cmd route payload)) r = Some (DUCQ_OK, buffer, r') \<and>
    evolves (\<lambda>fd. only (slot_fd i r) (tcp_frame ''ACK'') fd @
      to_slots (message_text cmd route payload) (subscribers route r) r fd) (r\<lparr>re_last_msgs := lms\<rparr>) r'"
proof -
  let ?t = "message_text cmd route payload"
  note buf = in_bufferD [OF assms(6)]
  obtain r1 where r1: "copy_route ?t r = Some (DUCQ_OK, Some route, r1)" "evolves nothing r r1"
    using copy_route_text [OF assms(5,4)] by blast
  define r2 where "r2 = r1\<lparr>re_last_msgs := lms\<rparr>"
  have r2: "ducq_set_last_msg route ?t r1 = Some (st, r2)"
    using assms(9) evolves_table(7) [OF r1(2)] by (simp add: ducq_set_last_msg_def r2_def)
  have e2: "evolves nothing (r\<lparr>re_last_msgs := lms\<rparr>) r2"
    using r1(2) by (simp add: evolves_def r2_def)
  let ?s = "r\<lparr>re_last_msgs := lms\<rparr>"
  have s2: "serving r2" and l2: "live i p r2" and q2: "log_slots r2 = []"
    using evolves_serving [OF _ e2] evolves_table [OF e2] assms(1-3) by simp_all
  obtain r3 where r3: "on_world (ducq_send_ack p DUCQ_OK) r2 = Some (DUCQ_OK, r3)"
      "evolves (only (slot_fd i r2) (tcp_frame ''ACK'')) r2 r3"
    using send_ack_quiet [OF s2 l2, of DUCQ_OK] by (auto simp: ack_text_def)
  have s3: "serving r3" and l3: "live i p r3" and q3: "log_slots r3 = []"
    using evolves_serving [OF s2 r3(2)] evolves_table [OF r3(2)] l2 q2 by simp_all
  have "length f + length (route @ '',send: '' @ state_msg DUCQ_OK) \<le> 142"
    using assms(7,8) by simp
  then obtain r4 where r4: "ducq_log DUCQ_LOG_INFO f p (route @ '',send: '' @ state_msg DUCQ_OK) r3 = Some r4" "evolves nothing r3 r4"
    using log_quiet [OF s3 l3 q3] by blast
  have s4: "serving r4" and l4: "live i p r4" and q4: "log_slots r4 = []"
    using evolves_serving [OF s3 r4(2)] evolves_table [OF r4(2)] l3 q3 by simp_all
  obtain r5 where r5: "ducq_reactor_loop (publish_to route buffer (length ?t)) 0 r4 =
        Some (DUCQ_LOOP_CONTINUE, length (subscribers route r4), r5)"
      "evolves (to_slots (take (length ?t) buffer) (subscribers route r4) r4) r4 r5"
    using publish_loop [OF s4 buf(2), of "length ?t" route] buf(3) by auto
  have s5: "serving r5" and l5: "live i p r5" and q5: "log_slots r5 = []"
    using evolves_serving [OF s4 r5(2)] evolves_table [OF r5(2)] l4 q4 by simp_all
  have "length (dec_nat (length (subscribers route r4))) \<le> 2"
    using length_subscribers [of route r4] by (intro length_dec_nat) simp_all
  then have "length f + length (route @ '','' @ dec_nat (length (subscribers route r4)) @ '' notified'') \<le> 142"
    using assms(7,8) by simp
  then obtain r6 where r6: "ducq_log DUCQ_LOG_INFO f p (route @ '','' @ dec_nat (length (subscribers route r4)) @ '' notified'') r5 = Some r6"
      "evolves nothing r5 r6"
    using log_quiet [OF s5 l5 q5] by blast
  have e4: "evolves (only (slot_fd i r2) (tcp_frame ''ACK'')) ?s r4"
    by (rule evolves_quiet(2) [OF evolves_quiet(1) [OF e2 r3(2)] r4(2)])
  have tab: "subscribers route r4 = subscribers route r" "to_slots bs is r4 = to_slots bs is r" "slot_fd i r2 = slot_fd i r" for bs "is"
    using evolves_table [OF e4] evolves_table(3) [OF e2] by (simp_all add: subscribers_def)
  have "evolves (\<lambda>fd. only (slot_fd i r) (tcp_frame ''ACK'') fd @ to_slots ?t (subscribers route r) r fd) ?s r6"
    using evolves_trans [OF e4 evolves_quiet(2) [OF r5(2) r6(2)]] buf(4) tab by simp
  moreover have "pub_as f p buffer (length ?t) r = Some (DUCQ_OK, buffer, r6)"
    using buf(1) r1(1) r2 r3(1) r4(1) r5(1) r6(1) by (simp add: pub_as_def fmt_str_def)
  ultimately show ?thesis
    by blast
qed

section \<open>Subscribing\<close>

text \<open>The command ends the route in the buffer, and restores the buffer at the end.\<close>

lemma split_route:
  assumes "in_buffer (message_text cmd route payload) buffer"
  defines "e \<equiv> Suc (length cmd) + length route"
  shows "\<exists>b. mem_write buffer e [NUL] = Some b \<and> c_str b (Suc (length cmd)) = Some route \<and>
    c_str b (Suc e) = Some payload \<and> mem_write b e [LF] = Some buffer"
proof -
  obtain rest where b: "buffer = (cmd @ SP # route) @ LF # payload @ NUL # rest"
    using assms(1) by (auto simp: in_buffer_def message_text_def)
  have nul: "NUL \<notin> set route" "NUL \<notin> set payload" "NUL \<notin> set cmd"
    using assms(1) by (auto simp: in_buffer_def message_text_def)
  define h where "h = cmd @ SP # route"
  have e: "e = length h"
    by (simp add: e_def h_def)
  define b1 where "b1 = h @ NUL # payload @ NUL # rest"
  have "mem_write buffer e [NUL] = Some b1" and "mem_write b1 e [LF] = Some buffer"
    by (simp_all add: mem_write_def b b1_def e h_def)
  moreover have "c_str b1 (Suc (length cmd)) = Some route"
    using nul c_str_append_later [of h "Suc (length cmd)" "payload @ NUL # rest"] by (simp add: b1_def h_def)
  moreover have "c_str b1 (Suc e) = Some payload"
    using nul by (simp add: c_str_def b1_def e takeWhile_append)
  ultimately show ?thesis
    by blast
qed

lemma parse_sub:
  assumes "parts_ok cmd route"
  shows "ducq_parse_route (message_text cmd route payload) None =
      (Some (Suc (length cmd)), Some (Suc (length cmd) + length route))"
    and "ducq_parse_payload (message_text cmd route payload) = Some (Suc (Suc (length cmd) + length route))"
  using assms parse_route_text [of cmd route payload None] parse_payload_text [of "cmd @ SP # route" payload]
  by (simp_all add: message_text_def parts_ok_def)

lemma subscribe_serving:
  assumes "serving r" and "live i p r" and "NUL \<notin> set route" and "length route < DUCQ_MAX_ROUTE_LEN"
  shows "\<exists>s. ducq_reactor_subscribe p route r = (DUCQ_OK, s) \<and> serving s \<and> re_world s = re_world r \<and>
    route_at i s = Some route \<and> (\<forall>j. j \<noteq> i \<longrightarrow> route_at j s = route_at j r) \<and> (\<forall>j q. live j q s = live j q r) \<and>
    (\<forall>j. slot_fd j s = slot_fd j r) \<and> re_last_msgs s = re_last_msgs r \<and> re_allow_log_route s = re_allow_log_route r"
proof -
  obtain s where s: "ducq_reactor_subscribe p route r = (DUCQ_OK, s)" "reactor_inv s" "re_world s = re_world r"
      "route_at i s = Some route" "\<forall>j. j \<noteq> i \<longrightarrow> route_at j s = route_at j r" "\<forall>j q. live j q s = live j q r"
      "\<forall>j. conn_fd (re_conns s ! j) = conn_fd (re_conns r ! j)"
      "re_last_msgs s = re_last_msgs r" "re_allow_log_route s = re_allow_log_route r"
    using subscribe_run [OF serving_inv [OF assms(1)] assms(2-4)] by blast
  have fd: "slot_fd j s = slot_fd j r" for j
    using s(7) by (simp add: slot_fd_def)
  then have "serving s"
    using assms(1) s(2,3,6) by (simp add: serving_def)
  then show ?thesis
    using s fd by blast
qed

lemma log_slots_route:
  assumes "log_slots r = []" and "\<forall>j q. live j q s = live j q r" and "\<forall>j. j \<noteq> i \<longrightarrow> route_at j s = route_at j r"
    and "route_at i s = Some route" and "route \<noteq> DUCQ_LOG_ROUTE" and "re_allow_log_route s = re_allow_log_route r"
  shows "log_slots s = []"
proof -
  have "subscribed (\<lambda>t. t = DUCQ_LOG_ROUTE) s j \<Longrightarrow> subscribed (\<lambda>t. t = DUCQ_LOG_ROUTE) r j" for j
    using assms(2-5) by (cases "j = i") (auto simp: subscribed_def)
  then show ?thesis
    using assms(1,6) by (auto simp: log_slots_def filter_empty_conv split: if_splits)
qed

lemma sub_run:
  assumes "serving r" and "live i p r" and "log_slots r = []"
    and "parts_ok cmd route" and "in_buffer (message_text cmd route payload) buffer"
    and "length f \<le> 30" and "length route < DUCQ_MAX_ROUTE_LEN" and "route \<noteq> DUCQ_LOG_ROUTE"
    and "payload = ''last'' \<longrightarrow> get_last (re_last_msgs r) route = Some reply" and "payload \<noteq> ''last'' \<longrightarrow> reply = ''ACK''"
    and "int (length reply) \<le> INT_MAX"
  shows "\<exists>s r'. sub_as f p buffer n r = Some (DUCQ_OK, buffer, r') \<and>
    ducq_reactor_subscribe p route r = (DUCQ_OK, s) \<and> evolves (only (slot_fd i r) (tcp_frame reply)) s r'"
proof -
  let ?t = "message_text cmd route payload"
  let ?e = "Suc (length cmd) + length route"
  note buf = in_bufferD [OF assms(5)]
  obtain b where b: "mem_write buffer ?e [NUL] = Some b" "c_str b (Suc (length cmd)) = Some route"
      "c_str b (Suc ?e) = Some payload" "mem_write b ?e [LF] = Some buffer"
    using split_route [OF assms(5)] by blast
  have nul: "NUL \<notin> set route"
    using assms(5) by (auto simp: in_buffer_def message_text_def)
  obtain s where s: "ducq_reactor_subscribe p route r = (DUCQ_OK, s)" "serving s" "re_world s = re_world r"
      "route_at i s = Some route" "\<forall>j. j \<noteq> i \<longrightarrow> route_at j s = route_at j r" "\<forall>j q. live j q s = live j q r"
      "\<forall>j. slot_fd j s = slot_fd j r" "re_last_msgs s = re_last_msgs r" "re_allow_log_route s = re_allow_log_route r"
    using subscribe_serving [OF assms(1,2) nul assms(7)] by blast
  have q: "log_slots s = []" and l: "live i p s"
    using log_slots_route [OF assms(3) s(6,5,4) assms(8) s(9)] s(6) assms(2) by simp_all
  obtain r1 where r1: "on_world (ducq_send p reply) s = Some (DUCQ_OK, r1)" "evolves (only (slot_fd i r) (tcp_frame reply)) s r1"
    using send_quiet [OF s(2) l assms(11)] s(7) by auto
  have ack: "ducq_send_ack p DUCQ_OK = ducq_send p ''ACK''"
    by (simp add: fun_eq_iff send_ack_text ack_text_def)
  have ans: "sub_answer p DUCQ_OK (Some payload) route s = Some (DUCQ_OK, r1)"
  proof (cases "payload = ''last''")
    case True
    then show ?thesis
      using assms(9) r1(1) s(8) unfolding sub_answer_def ducq_get_last_msg_def by simp
  next
    case False
    then show ?thesis
      using assms(10) r1(1) ack unfolding sub_answer_def by simp
  qed
  have s1: "serving r1" and l1: "live i p r1" and q1: "log_slots r1 = []"
    using evolves_serving [OF s(2) r1(2)] evolves_table [OF r1(2)] l q by simp_all
  obtain r2 where r2: "ducq_log DUCQ_LOG_INFO f p route r1 = Some r2" "evolves nothing r1 r2"
    using log_quiet [OF s1 l1 q1, of f route] assms(6,7) by auto
  have "sub_as f p buffer n r = Some (DUCQ_OK, buffer, r2)"
    using buf(1) parse_sub [OF assms(4), of payload] b s(1) ans r2(1) unfolding sub_as_def by simp
  then show ?thesis
    using s(1) evolves_quiet(2) [OF r1(2) r2(2)] by blast
qed

section \<open>Properties\<close>

text \<open>What the descriptors have got between two reactors.\<close>

definition received :: "('l, 'd) reactor \<Rightarrow> ('l, 'd) reactor \<Rightarrow> int \<Rightarrow> char list" where
  "received r r' fd = drop (length (os_out (w_os (re_world r)) fd)) (os_out (w_os (re_world r')) fd)"

lemma received_evolves: "evolves F s r' \<Longrightarrow> re_world s = re_world r \<Longrightarrow> received r r' fd = F fd"
  by (simp add: received_def evolves_def sent_def)

lemma to_slots_subscribers:
  "to_slots bs (subscribers route r) r fd =
    (if \<exists>j q t. live j q r \<and> slot_fd j r = fd \<and> route_at j r = Some t \<and> ducq_route_cmp (Some t) (Some route)
     then tcp_frame bs else [])"
proof -
  have "(\<exists>j \<in> set (subscribers route r). slot_fd j r = fd) \<longleftrightarrow>
      (\<exists>j q t. live j q r \<and> slot_fd j r = fd \<and> route_at j r = Some t \<and> ducq_route_cmp (Some t) (Some route))"
    by (auto simp: subscribers_def subscribed_def live_def)
  then show ?thesis
    by (simp add: to_slots_def)
qed

lemma pub_delivery:
  assumes "serving r" and "live i p r" and "log_slots r = []" and "os_malloc (w_os (re_world r)) = []"
    and "parts_ok cmd route" and "route \<noteq> []" and "length route < DUCQ_MAX_ROUTE_LEN"
    and "in_buffer (message_text cmd route payload) buffer"
    and "wf_last (re_last_msgs r)"
    and "route \<in> dom (last_map (re_last_msgs r)) \<or> card (dom (last_map (re_last_msgs r))) < length (re_last_msgs r)"
  shows "\<exists>r'. pub p buffer (length (message_text cmd route payload)) r = Some (DUCQ_OK, buffer, r') \<and>
    (\<forall>fd. received r r' fd =
      (if fd = slot_fd i r then tcp_frame ''ACK'' else []) @
      (if \<exists>j q t. live j q r \<and> slot_fd j r = fd \<and> route_at j r = Some t \<and> ducq_route_cmp (Some t) (Some route)
       then tcp_frame (message_text cmd route payload) else [])) \<and>
    re_conns r' = re_conns r \<and>
    last_map (re_last_msgs r') = (last_map (re_last_msgs r))(route \<mapsto> message_text cmd route payload)"
proof -
  let ?t = "message_text cmd route payload"
  have "storable route ?t"
    using assms(6-8) in_bufferD(3) [OF assms(8)] by (auto simp: storable_def in_buffer_def message_text_def)
  then obtain lms where lms: "set_last (re_last_msgs r) route ?t = Some (DUCQ_OK, lms)"
      "last_map lms = (last_map (re_last_msgs r))(route \<mapsto> ?t)"
    using last_msgs.put_room [OF assms(9) _ assms(10)] by blast
  obtain r' where r': "pub_as ''pub'' p buffer (length ?t) r = Some (DUCQ_OK, buffer, r')"
      "evolves (\<lambda>fd. only (slot_fd i r) (tcp_frame ''ACK'') fd @ to_slots ?t (subscribers route r) r fd) (r\<lparr>re_last_msgs := lms\<rparr>) r'"
    using pub_run [OF assms(1-5,8) _ assms(7) lms(1), of "''pub''"] by auto
  have "received r r' fd = only (slot_fd i r) (tcp_frame ''ACK'') fd @ to_slots ?t (subscribers route r) r fd" for fd
    using received_evolves [OF r'(2)] by simp
  moreover have "re_conns r' = re_conns r" and "re_last_msgs r' = lms"
    using r'(2) by (simp_all add: evolves_def)
  ultimately show ?thesis
    using r'(1) lms(2) unfolding to_slots_subscribers only_def pub_def by auto
qed

text \<open>C7: publishing.  The publisher gets one acknowledgement, every client whose subscription matches
  the route gets the message, unchanged and once, every other client gets nothing (the publisher
  gets the message after its acknowledgement when it is subscribed itself), the buffer and the table
  are left as they were, and the message becomes the last one of its route.\<close>

theorem pub_delivers:
  assumes "serving r" and "live i p r" and "log_slots r = []" and "os_malloc (w_os (re_world r)) = []"
    and "parts_ok cmd route" and "route \<noteq> []" and "length route < DUCQ_MAX_ROUTE_LEN"
    and "in_buffer (message_text cmd route payload) buffer"
    and "wf_last (re_last_msgs r)"
    and "route \<in> dom (last_map (re_last_msgs r)) \<or> card (dom (last_map (re_last_msgs r))) < length (re_last_msgs r)"
  shows "\<exists>r'. pub p buffer (length (message_text cmd route payload)) r = Some (DUCQ_OK, buffer, r') \<and>
    (\<forall>fd. received r r' fd =
      (if fd = slot_fd i r then tcp_frame ''ACK'' else []) @
      (if \<exists>j q t. live j q r \<and> slot_fd j r = fd \<and> route_at j r = Some t \<and> ducq_route_cmp (Some t) (Some route)
       then tcp_frame (message_text cmd route payload) else [])) \<and>
    re_conns r' = re_conns r \<and>
    last_map (re_last_msgs r') = (last_map (re_last_msgs r))(route \<mapsto> message_text cmd route payload)"
  by (rule pub_delivery [OF assms])

text \<open>Subscribing.  The client gets one acknowledgement and nobody else gets anything, its own
  slot and no other has the new route, no connection changes and the buffer is restored.\<close>

theorem sub_confirms:
  assumes "serving r" and "live i p r" and "log_slots r = []"
    and "parts_ok cmd route" and "length route < DUCQ_MAX_ROUTE_LEN" and "route \<noteq> DUCQ_LOG_ROUTE"
    and "in_buffer (message_text cmd route payload) buffer" and "payload \<noteq> ''last''"
  shows "\<exists>r'. sub p buffer n r = Some (DUCQ_OK, buffer, r') \<and>
    (\<forall>fd. received r r' fd = (if fd = slot_fd i r then tcp_frame ''ACK'' else [])) \<and>
    route_at i r' = Some route \<and> (\<forall>j. j \<noteq> i \<longrightarrow> route_at j r' = route_at j r) \<and>
    (\<forall>j q. live j q r' \<longleftrightarrow> live j q r)"
proof -
  have nul: "NUL \<notin> set route"
    using assms(7) by (auto simp: in_buffer_def message_text_def)
  obtain s r' where r': "sub_as ''sub'' p buffer n r = Some (DUCQ_OK, buffer, r')"
      "ducq_reactor_subscribe p route r = (DUCQ_OK, s)" "evolves (only (slot_fd i r) (tcp_frame ''ACK'')) s r'"
    using sub_run [OF assms(1-4,7) _ assms(5,6), of "''sub''" "''ACK''" n] assms(8) by (auto simp: INT_MAX_def)
  obtain s' where s: "ducq_reactor_subscribe p route r = (DUCQ_OK, s')" "re_world s' = re_world r"
      "route_at i s' = Some route" "\<forall>j. j \<noteq> i \<longrightarrow> route_at j s' = route_at j r" "\<forall>j q. live j q s' = live j q r"
    using subscribe_serving [OF assms(1,2) nul assms(5)] by blast
  then have "s' = s"
    using r'(2) by simp
  then show ?thesis
    using r'(1) s received_evolves [OF r'(3), of r] evolves_table(1,2) [OF r'(3)] unfolding sub_def only_def by auto
qed

text \<open>C8: publish, then subscribe with the payload \<open>last\<close>: the new subscriber gets exactly the message
  that was published, header and payload, instead of an acknowledgement.\<close>

theorem sub_last_after_pub:
  assumes "serving r" and "live i p r" and "live j q r" and "log_slots r = []" and "os_malloc (w_os (re_world r)) = []"
    and "parts_ok cmd route" and "route \<noteq> []" and "length route < DUCQ_MAX_ROUTE_LEN" and "route \<noteq> DUCQ_LOG_ROUTE"
    and "in_buffer (message_text cmd route payload) buffer"
    and "parts_ok cmd' route" and "in_buffer (message_text cmd' route ''last'') buffer'"
    and "wf_last (re_last_msgs r)"
    and "route \<in> dom (last_map (re_last_msgs r)) \<or> card (dom (last_map (re_last_msgs r))) < length (re_last_msgs r)"
  shows "\<exists>r1 r2. pub p buffer (length (message_text cmd route payload)) r = Some (DUCQ_OK, buffer, r1) \<and>
    sub q buffer' n r1 = Some (DUCQ_OK, buffer', r2) \<and>
    (\<forall>fd. received r1 r2 fd = (if fd = slot_fd j r then tcp_frame (message_text cmd route payload) else []))"
proof -
  let ?t = "message_text cmd route payload"
  have len: "length ?t < DUCQ_MSGSZ" and "storable route ?t"
    using assms(7,8,10) in_bufferD(3) [OF assms(10)] by (auto simp: storable_def in_buffer_def message_text_def)
  then obtain lms where lms: "set_last (re_last_msgs r) route ?t = Some (DUCQ_OK, lms)" "wf_last lms"
      "last_map lms = (last_map (re_last_msgs r))(route \<mapsto> ?t)"
    using last_msgs.put_room [OF assms(13) _ assms(14)] by blast
  obtain r1 where r1: "pub_as ''pub'' p buffer (length ?t) r = Some (DUCQ_OK, buffer, r1)"
      "evolves (\<lambda>fd. only (slot_fd i r) (tcp_frame ''ACK'') fd @ to_slots ?t (subscribers route r) r fd) (r\<lparr>re_last_msgs := lms\<rparr>) r1"
    using pub_run [OF assms(1,2,4-6,10) _ assms(8) lms(1), of "''pub''"] by auto
  have s1: "serving r1" and l1: "live j q r1" and q1: "log_slots r1 = []" and fd: "slot_fd j r1 = slot_fd j r"
    using evolves_serving [OF _ r1(2)] evolves_table [OF r1(2)] assms(1,3,4) by simp_all
  have g: "get_last (re_last_msgs r1) route = Some ?t"
    using get_last_spec [OF lms(2) assms(7)] lms(3) evolves_table(7) [OF r1(2)] by simp
  have small: "int (length ?t) \<le> INT_MAX"
    using len by (simp add: INT_MAX_def)
  obtain s r2 where r2: "sub_as ''sub'' q buffer' n r1 = Some (DUCQ_OK, buffer', r2)"
      "ducq_reactor_subscribe q route r1 = (DUCQ_OK, s)" "evolves (only (slot_fd j r1) (tcp_frame ?t)) s r2"
    using sub_run [OF s1 l1 q1 assms(11,12) _ assms(8,9) _ _ small, of "''sub''" n] g by auto
  have "NUL \<notin> set route"
    using assms(10) by (auto simp: in_buffer_def message_text_def)
  then have "re_world s = re_world r1"
    using subscribe_serving [OF s1 l1 _ assms(8)] r2(2) by auto
  then show ?thesis
    using r1(1) r2(1) received_evolves [OF r2(3), of r1] fd unfolding pub_def sub_def only_def by auto
qed

section \<open>Witnesses\<close>

definition demo_buffer :: "string \<Rightarrow> char list" where
  "demo_buffer t = t @ NUL # replicate (DUCQ_MSGSZ - Suc (length t)) NUL"

lemma demo_buffer: "NUL \<notin> set t \<Longrightarrow> length t < DUCQ_MSGSZ \<Longrightarrow> in_buffer t (demo_buffer t)"
  by (simp add: in_buffer_def demo_buffer_def)

lemma demo_store_free: "wf_last (re_last_msgs (demo s t))" "last_map (re_last_msgs (demo s t)) = Map.empty"
    "length (re_last_msgs (demo s t)) = DUCQ_MAX_CHANNELS"
proof -
  have "\<forall>(r, m) \<in> set (cleared demo_store). c_str r 0 = Some []"
    by (rule cleared_free) (auto simp: demo_store_def)
  then show "wf_last (re_last_msgs (demo s t))" "last_map (re_last_msgs (demo s t)) = Map.empty"
    using all_free by simp_all
  show "length (re_last_msgs (demo s t)) = DUCQ_MAX_CHANNELS"
    by (simp add: demo_store_def cleared_def)
qed

lemma demo_room:
  "k \<in> dom (last_map (re_last_msgs (demo s t))) \<or>
    card (dom (last_map (re_last_msgs (demo s t)))) < length (re_last_msgs (demo s t))"
  unfolding demo_store_free by simp

lemma demo_quiet:
  "serving (demo ''b'' ''a'')" "live 0 9 (demo ''b'' ''a'')" "live 1 10 (demo ''b'' ''a'')"
  "log_slots (demo ''b'' ''a'') = []" "route_at 0 (demo ''b'' ''a'') = Some ''b''" "route_at 1 (demo ''b'' ''a'') = Some ''a''"
proof -
  show rt: "route_at 0 (demo ''b'' ''a'') = Some ''b''" "route_at 1 (demo ''b'' ''a'') = Some ''a''"
    using demo_route [of "''b''" "''a''"] by simp_all
  show "serving (demo ''b'' ''a'')"
    by (rule demo_serving) simp_all
  show "live 0 9 (demo ''b'' ''a'')" "live 1 10 (demo ''b'' ''a'')"
    by (simp_all add: demo_live)
  show "log_slots (demo ''b'' ''a'') = []"
    using rt by (auto simp: log_slots_def filter_empty_conv subscribed_def demo_live DUCQ_LOG_ROUTE_def)
qed

abbreviation demo_pub :: string where "demo_pub \<equiv> message_text ''pub'' ''a'' ''hi''"

lemma demo_pub: "in_buffer demo_pub (demo_buffer demo_pub)" "parts_ok ''pub'' ''a''"
  by (auto intro!: demo_buffer simp: message_text_def parts_ok_def)

lemma demo_gets:
  "(\<exists>j q t. live j q (demo ''b'' ''a'') \<and> slot_fd j (demo ''b'' ''a'') = g \<and> route_at j (demo ''b'' ''a'') = Some t \<and>
    ducq_route_cmp (Some t) (Some ''a'')) \<longleftrightarrow> g = 6"
proof -
  have cmp: "ducq_route_cmp (Some ''a'') (Some ''a'')" "\<not> ducq_route_cmp (Some ''b'') (Some ''a'')"
    by code_simp+
  have fd: "slot_fd 0 (demo ''b'' ''a'') = 5" "slot_fd 1 (demo ''b'' ''a'') = 6"
    by (simp_all add: demo_fd)
  have split: "(\<exists>j q t. live j q (demo ''b'' ''a'') \<and> P j t) \<longleftrightarrow> (\<exists>t. P 0 t) \<or> (\<exists>t. P 1 t)" for P
    unfolding demo_live by blast
  show ?thesis
    unfolding split using demo_quiet(5,6) fd cmp by auto
qed

theorem pub_delivers_witness:
  "\<exists>r'. pub 9 (demo_buffer demo_pub) (length demo_pub) (demo ''b'' ''a'') = Some (DUCQ_OK, demo_buffer demo_pub, r') \<and>
    received (demo ''b'' ''a'') r' 5 = tcp_frame ''ACK'' \<and> received (demo ''b'' ''a'') r' 6 = tcp_frame demo_pub"
proof -
  have m: "os_malloc (w_os (re_world (demo ''b'' ''a''))) = []"
    by (simp add: demo_world_def quiet_os_def)
  have fd: "slot_fd 0 (demo ''b'' ''a'') = 5"
    by (simp add: demo_fd)
  show ?thesis
    using pub_delivers [OF demo_quiet(1,2,4) m demo_pub(2) _ _ demo_pub(1) demo_store_free(1) demo_room] fd
    unfolding demo_gets by auto
qed

abbreviation demo_sub :: "string \<Rightarrow> string" where "demo_sub payload \<equiv> message_text ''sub'' ''a'' payload"

lemma demo_sub: "in_buffer (demo_sub []) (demo_buffer (demo_sub []))" "in_buffer (demo_sub ''last'') (demo_buffer (demo_sub ''last''))"
    "parts_ok ''sub'' ''a''"
  by (auto intro!: demo_buffer simp: message_text_def parts_ok_def)

theorem sub_confirms_witness:
  "\<exists>r'. sub 9 (demo_buffer (demo_sub [])) (length (demo_sub [])) (demo ''b'' ''a'') = Some (DUCQ_OK, demo_buffer (demo_sub []), r') \<and>
    route_at 0 r' = Some ''a''"
  using sub_confirms [OF demo_quiet(1,2,4) demo_sub(3) _ _ demo_sub(1), of "length (demo_sub [])"]
  by (auto simp: DUCQ_LOG_ROUTE_def)

theorem sub_last_after_pub_witness:
  "\<exists>r1 r2. pub 9 (demo_buffer demo_pub) (length demo_pub) (demo ''b'' ''a'') = Some (DUCQ_OK, demo_buffer demo_pub, r1) \<and>
    sub 10 (demo_buffer (demo_sub ''last'')) (length (demo_sub ''last'')) r1 = Some (DUCQ_OK, demo_buffer (demo_sub ''last''), r2) \<and>
    received r1 r2 6 = tcp_frame demo_pub"
proof -
  have m: "os_malloc (w_os (re_world (demo ''b'' ''a''))) = []"
    by (simp add: demo_world_def quiet_os_def)
  have fd: "slot_fd 1 (demo ''b'' ''a'') = 6"
    by (simp add: demo_fd)
  show ?thesis
    using sub_last_after_pub [OF demo_quiet(1,2,3,4) m demo_pub(2) _ _ _ demo_pub(1) demo_sub(3,2) demo_store_free(1) demo_room,
        of "length (demo_sub ''last'')"] fd
    by (auto simp: DUCQ_LOG_ROUTE_def)
qed

end
