(* ===== verification/Dispatch_Facts.thy ===== *)
theory Dispatch_Facts
  imports Ducq_Dispatcher Publish_Subscribe
begin

text \<open>
  What the dispatcher does with a message: which command runs and on which buffer, what a message
  gets that no command is named in, and what each search leaves on the Lua stack; and what the
  loading of commands makes of a directory.
\<close>

section \<open>The search\<close>

definition commands_of :: "'s dispatcher \<Rightarrow> cmd_entry list" where
  "commands_of d = (case di_cmds d of None \<Rightarrow> [] | Some cmds \<Rightarrow> cmds)"

lemma cut_command:
  assumes "in_buffer (message_text cmd route payload) buffer"
  shows "mem_write buffer (length cmd) [NUL] = Some (buffer[length cmd := NUL])"
    and "c_str (buffer[length cmd := NUL]) 0 = Some cmd"
    and "mem_write (buffer[length cmd := NUL]) (length cmd) [SP] = Some buffer"
proof -
  obtain rest where b: "buffer = cmd @ SP # rest" and nul: "NUL \<notin> set cmd"
    using assms by (auto simp: in_buffer_def message_text_def)
  show "mem_write buffer (length cmd) [NUL] = Some (buffer[length cmd := NUL])"
      and "mem_write (buffer[length cmd := NUL]) (length cmd) [SP] = Some buffer"
    by (simp_all add: mem_write_def b)
  show "c_str (buffer[length cmd := NUL]) 0 = Some cmd"
    using nul by (simp add: b)
qed

lemma parse_command_name:
  assumes "parts_ok cmd route" and "in_buffer (message_text cmd route payload) buffer"
  shows "ducq_parse_command (message_text cmd route payload) = (Some 0, Some (length cmd))"
  using assms parse_command_text [of cmd "route @ LF # payload"] by (simp add: parts_ok_def message_text_def)

lemma find_command_run:
  assumes "parts_ok cmd route" and "in_buffer (message_text cmd route payload) buffer" and "re_dispatcher r = Some d"
  shows "find_command env buffer r =
    (if cmd = ''lscmd'' \<or> cmd = ''help'' then Some (Lscmd, buffer[length cmd := NUL], r)
     else case find_loaded cmd (commands_of d) of
       Some exec \<Rightarrow> Some (Loaded exec, buffer, r)
     | None \<Rightarrow> map_option (\<lambda>(f, r). (f, buffer, r)) (find_lua_command env cmd r))"
proof -
  note b = cut_command [OF assms(2)]
  show ?thesis
    using in_bufferD(1) [OF assms(2)] parse_command_name [OF assms(1,2)] b assms(3)
    by (auto simp: find_command_def commands_of_def bind_convs map_option_case split: option.splits)
qed

lemma dispatch_run:
  assumes "parts_ok cmd route" and "in_buffer (message_text cmd route payload) buffer" and "re_dispatcher r = Some d"
  shows "ducq_dispatch env p buffer n r =
    (if cmd = ''lscmd'' \<or> cmd = ''help'' then lscmd env p (buffer[length cmd := NUL]) n r
     else case find_loaded cmd (commands_of d) of
       Some exec \<Rightarrow> de_exec env exec p buffer n r
     | None \<Rightarrow> do { (f, r) \<leftarrow> find_lua_command env cmd r; run_command env f p buffer n r })"
  unfolding ducq_dispatch_def find_command_run [OF assms]
  by (auto simp: run_command_def map_option_case split: option.splits)

section \<open>Messages without a command\<close>

text \<open>A Lua state with the table of commands, and the entry of a name in it.\<close>

definition lua_entry :: "('l, 's) disp_env \<Rightarrow> string \<Rightarrow> 's lua \<Rightarrow> lua_value option" where
  "lua_entry env name L = (case de_lua_commands env (lua_state L) of None \<Rightarrow> None | Some es \<Rightarrow> map_of es (LuaString name))"

lemma find_lua_unknown:
  assumes "lua_of r = Some L" and "de_lua_commands env (lua_state L) \<noteq> None" and "lua_entry env name L = None"
  shows "find_lua_command env name r =
    (if lua_top L + 2 \<le> LUA_MINSTACK then Some (Unknown, set_top (lua_top L + 2) r) else None)"
  using assms by (auto simp: find_lua_command_def lua_entry_def lua_room_def split: option.splits)

lemma set_top_table [simp]:
  "live i p (set_top n r) = live i p r" "slot_fd i (set_top n r) = slot_fd i r" "route_at i (set_top n r) = route_at i r"
  "re_world (set_top n r) = re_world r" "re_conns (set_top n r) = re_conns r"
  "re_last_msgs (set_top n r) = re_last_msgs r" "re_allow_log_route (set_top n r) = re_allow_log_route r"
  by (simp_all add: set_top_def live_def slot_fd_def route_at_def)

lemma set_top_subscribed [simp]: "subscribed P (set_top n r) = subscribed P r" "log_slots (set_top n r) = log_slots r"
proof -
  show s: "subscribed P (set_top n r) = subscribed P r" for P
    by (simp add: fun_eq_iff subscribed_def)
  show "log_slots (set_top n r) = log_slots r"
    by (simp add: log_slots_def s)
qed

lemma set_top_lua: "lua_of r = Some L \<Longrightarrow> lua_of (set_top n r) = Some (L\<lparr>lua_top := n\<rparr>)"
  by (auto simp: lua_of_def set_top_def bind_convs)

lemma set_top_dispatcher: "re_dispatcher r = Some d \<Longrightarrow> \<exists>d'. re_dispatcher (set_top n r) = Some d' \<and> di_cmds d' = di_cmds d"
  by (simp add: set_top_def)

lemma serving_fields:
  assumes "re_conns s = re_conns r" and "re_world s = re_world r"
  shows "serving s = serving r"
  using assms by (simp add: serving_def reactor_inv_def table_ok_def live_def route_at_def slot_fd_def)

lemma unknown_run:
  assumes "serving r" and "live i p r" and "log_slots r = []"
    and "parts_ok cmd route" and "route \<noteq> []" and "length cmd + length route \<le> 100"
    and "in_buffer (message_text cmd route payload) buffer"
  shows "\<exists>r'. unknown p buffer n r = Some (DUCQ_ENOCMD, parsed_buffer buffer (message_text cmd route payload), r') \<and>
    evolves (only (slot_fd i r) (tcp_frame (ack_text DUCQ_ENOCMD))) r r'"
proof -
  obtain r1 where r1: "ducq_log DUCQ_LOG_WARNING ''unknown'' p (cmd @ '','' @ route) r = Some r1" "evolves nothing r r1"
    using log_quiet [OF assms(1-3), of "''unknown''" "cmd @ '','' @ route"] assms(6) by auto
  have s1: "serving r1" and l1: "live i p r1" and f1: "slot_fd i r1 = slot_fd i r"
    using evolves_serving [OF assms(1) r1(2)] evolves_table [OF r1(2)] assms(2) by simp_all
  obtain r2 where r2: "on_world (ducq_send_ack p DUCQ_ENOCMD) r1 = Some (DUCQ_OK, r2)"
      "evolves (only (slot_fd i r) (tcp_frame (ack_text DUCQ_ENOCMD))) r1 r2"
    using send_ack_quiet [OF s1 l1, of DUCQ_ENOCMD] f1 by auto
  have "unknown p buffer n r = Some (DUCQ_ENOCMD, parsed_buffer buffer (message_text cmd route payload), r2)"
    using in_bufferD(1) [OF assms(7)] parse_msg_text [OF assms(4,5)] r1(1) r2(1) by (simp add: unknown_def fmt_str_def)
  then show ?thesis
    using evolves_quiet(1) [OF r1(2) r2(2)] by blast
qed

text \<open>A message that names no command, in a server with a Lua table of commands.\<close>

definition nameless :: "('l, 's) disp_env \<Rightarrow> string \<Rightarrow> ('l, 's) server \<Rightarrow> bool" where
  "nameless env cmd r \<longleftrightarrow> cmd \<noteq> ''lscmd'' \<and> cmd \<noteq> ''help'' \<and>
     (\<exists>d L. re_dispatcher r = Some d \<and> di_lua d = Some L \<and> find_loaded cmd (commands_of d) = None \<and>
       de_lua_commands env (lua_state L) \<noteq> None \<and> lua_entry env cmd L = None)"

definition lua_height :: "('l, 's) server \<Rightarrow> nat" where
  "lua_height r = (case lua_of r of None \<Rightarrow> 0 | Some L \<Rightarrow> lua_top L)"

lemma nameless_set_top: "nameless env cmd r \<Longrightarrow> nameless env cmd (set_top n r)"
  by (auto simp: nameless_def set_top_def commands_of_def lua_entry_def)

lemma nameless_evolves: "evolves F s r \<Longrightarrow> nameless env cmd r = nameless env cmd s" "evolves F s r \<Longrightarrow> lua_height r = lua_height s"
  by (simp_all add: evolves_def nameless_def lua_height_def lua_of_def)

lemma height_set_top: "nameless env cmd r \<Longrightarrow> lua_height (set_top n r) = n"
  by (auto simp: nameless_def lua_height_def lua_of_def set_top_def)

lemma nameless_run:
  assumes "nameless env cmd r" and "serving r" and "live i p r" and "log_slots r = []"
    and "parts_ok cmd route" and "route \<noteq> []" and "length cmd + length route \<le> 100"
    and "in_buffer (message_text cmd route payload) buffer"
  shows "if lua_height r + 2 \<le> LUA_MINSTACK
    then \<exists>b r'. ducq_dispatch env p buffer n r = Some (DUCQ_ENOCMD, b, r') \<and> nameless env cmd r' \<and>
      lua_height r' = lua_height r + 2 \<and> evolves (only (slot_fd i r) (tcp_frame (ack_text DUCQ_ENOCMD))) (set_top (lua_height r + 2) r) r'
    else ducq_dispatch env p buffer n r = None"
proof -
  obtain d L where d: "re_dispatcher r = Some d" "di_lua d = Some L" "find_loaded cmd (commands_of d) = None"
      "de_lua_commands env (lua_state L) \<noteq> None" "lua_entry env cmd L = None"
    using assms(1) by (auto simp: nameless_def)
  have L: "lua_of r = Some L" and h: "lua_height r = lua_top L"
    using d(1,2) by (simp_all add: lua_of_def lua_height_def)
  have run: "ducq_dispatch env p buffer n r = do { (f, r) \<leftarrow> find_lua_command env cmd r; run_command env f p buffer n r }"
    using dispatch_run [OF assms(5,8) d(1), of env p n] d(3) assms(1) by (simp add: nameless_def)
  let ?s = "set_top (lua_top L + 2) r"
  have "serving ?s"
    using assms(2) serving_fields [of ?s r] by simp
  then obtain r' where r': "unknown p buffer n ?s = Some (DUCQ_ENOCMD, parsed_buffer buffer (message_text cmd route payload), r')"
      "evolves (only (slot_fd i r) (tcp_frame (ack_text DUCQ_ENOCMD))) ?s r'"
    using unknown_run [of ?s i p cmd route payload buffer n] assms(3-8) by auto
  then show ?thesis
    using run find_lua_unknown [OF L d(4,5)] nameless_set_top [OF assms(1)] height_set_top [OF assms(1)] h
      nameless_evolves [OF r'(2)]
    by (auto simp: run_command_def)
qed

section \<open>Properties\<close>

text \<open>C15: which command runs.  \<open>lscmd\<close> and \<open>help\<close> are the dispatcher's own whatever has been loaded, and
  run on a buffer that ends behind the command; then comes the first loaded command of that name, run
  on the buffer as it came, with no look at Lua; then the Lua table.\<close>

theorem dispatch_precedence:
  assumes "parts_ok cmd route" and "in_buffer (message_text cmd route payload) buffer" and "re_dispatcher r = Some d"
  shows "ducq_dispatch env p buffer n r =
    (if cmd = ''lscmd'' \<or> cmd = ''help'' then lscmd env p (buffer[length cmd := NUL]) n r
     else case find_loaded cmd (commands_of d) of
       Some exec \<Rightarrow> de_exec env exec p buffer n r
     | None \<Rightarrow> do { (f, r) \<leftarrow> find_lua_command env cmd r; run_command env f p buffer n r })"
  by (rule dispatch_run [OF assms])

text \<open>a message that names no command is answered with one acknowledgement \<open>DUCQ_ENOCMD\<close>, nobody
  else gets anything and no connection changes; but two values stay on the Lua stack.\<close>

theorem unknown_command_answered:
  assumes "nameless env cmd r" and "serving r" and "live i p r" and "log_slots r = []"
    and "parts_ok cmd route" and "route \<noteq> []" and "length cmd + length route \<le> 100"
    and "in_buffer (message_text cmd route payload) buffer" and "lua_height r + 2 \<le> LUA_MINSTACK"
  shows "\<exists>b r'. ducq_dispatch env p buffer n r = Some (DUCQ_ENOCMD, b, r') \<and> re_conns r' = re_conns r \<and>
    (\<forall>fd. received r r' fd = (if fd = slot_fd i r then tcp_frame (ack_text DUCQ_ENOCMD) else [])) \<and>
    lua_height r' = lua_height r + 2"
proof -
  obtain b r' where r': "ducq_dispatch env p buffer n r = Some (DUCQ_ENOCMD, b, r')" "lua_height r' = lua_height r + 2"
      "evolves (only (slot_fd i r) (tcp_frame (ack_text DUCQ_ENOCMD))) (set_top (lua_height r + 2) r) r'"
    using nameless_run [OF assms(1-8), of n] assms(9) by auto
  have "re_conns r' = re_conns r"
    using r'(3) by (simp add: evolves_def)
  then show ?thesis
    using r'(1,2) received_evolves [OF r'(3), of r] by (auto simp: only_def)
qed

primrec repeated :: "nat \<Rightarrow> ('l, 's) disp_env \<Rightarrow> nat \<Rightarrow> char list \<Rightarrow> nat \<Rightarrow> ('l, 's) server \<Rightarrow> ('l, 's) server option" where
  "repeated 0 env p buffer n r = Some r"
| "repeated (Suc k) env p buffer n r =
     do { (st, b, r) \<leftarrow> ducq_dispatch env p buffer n r; repeated k env p buffer n r }"

lemma repeated_run:
  assumes "nameless env cmd r" and "serving r" and "live i p r" and "log_slots r = []"
    and "parts_ok cmd route" and "route \<noteq> []" and "length cmd + length route \<le> 100"
    and "in_buffer (message_text cmd route payload) buffer"
  shows "(repeated k env p buffer n r \<noteq> None) = (k = 0 \<or> lua_height r + 2 * k \<le> LUA_MINSTACK)"
  using assms
proof (induction k arbitrary: r)
  case (Suc k)
  note run = nameless_run [OF Suc.prems, of n]
  show ?case
  proof (cases "lua_height r + 2 \<le> LUA_MINSTACK")
    case True
    then obtain b r' where r': "ducq_dispatch env p buffer n r = Some (DUCQ_ENOCMD, b, r')" "nameless env cmd r'"
        "lua_height r' = lua_height r + 2"
        "evolves (only (slot_fd i r) (tcp_frame (ack_text DUCQ_ENOCMD))) (set_top (lua_height r + 2) r) r'"
      using run by auto
    let ?s = "set_top (lua_height r + 2) r"
    have "serving ?s"
      using Suc.prems(2) serving_fields [of ?s r] by simp
    then have "serving r'" and "live i p r'" and "log_slots r' = []"
      using evolves_serving [OF _ r'(4)] evolves_table [OF r'(4)] Suc.prems(3,4) by simp_all
    from Suc.IH [OF r'(2) this Suc.prems(5-8)] show ?thesis
      using r'(1,3) True by auto
  qed (use run in auto)
qed simp

text \<open>C21: a client that sends eleven messages with an unknown command takes the server down: the
  values the searches leave on the Lua stack are never popped, and the eleventh finds no room.\<close>

theorem unknown_exhausts_lua_stack:
  assumes "nameless env cmd r" and "serving r" and "live i p r" and "log_slots r = []"
    and "parts_ok cmd route" and "route \<noteq> []" and "length cmd + length route \<le> 100"
    and "in_buffer (message_text cmd route payload) buffer" and "lua_height r = 0"
  shows "repeated 10 env p buffer n r \<noteq> None \<and> repeated 11 env p buffer n r = None"
  using repeated_run [OF assms(1-8), of 10 n] repeated_run [OF assms(1-8), of 11 n] assms(9)
  by (simp add: LUA_MINSTACK_def)

text \<open>when the Lua package could not be loaded the dispatcher runs on with a NULL state, and the
  first message whose command is not a loaded one makes the search use it; \<open>lscmd\<close> uses it too, after its
  lines.\<close>

theorem no_lua_undefined:
  assumes "parts_ok cmd route" and "in_buffer (message_text cmd route payload) buffer"
    and "re_dispatcher r = Some d" and "di_lua d = None" and "find_loaded cmd (commands_of d) = None"
    and "cmd \<noteq> ''lscmd''" and "cmd \<noteq> ''help''"
  shows "ducq_dispatch env p buffer n r = None"
proof -
  have "find_lua_command env cmd r = None"
    using assms(3,4) by (simp add: find_lua_command_def lua_room_def lua_of_def)
  then show ?thesis
    using dispatch_run [OF assms(1-3), of env p n] assms(5-7) by simp
qed

section \<open>Loading commands\<close>

text \<open>The commands of a directory: what the loader makes of the names that end in \<open>.so\<close>.\<close>

definition is_so :: "string \<Rightarrow> bool" where
  "is_so name \<longleftrightarrow> strrchr_dot name = Some ''.so''"

lemma count_names_dotted:
  "\<forall>name \<in> set names. strrchr_dot name \<noteq> None \<Longrightarrow> count_names names = Some (length (filter is_so names))"
  by (induction names) (auto simp: is_so_def)

lemma load_names_run:
  assumes "\<forall>name \<in> set names. is_so name \<longrightarrow> de_dlopen env (full_path path name) = DlCommand (cmd_of name)"
    and "re_dispatcher r = Some d" and "di_cmds d = Some cmds"
    and "length cmds + length (filter is_so names) \<le> ncmd"
  shows "load_names env path ncmd names r =
    Some (r\<lparr>re_dispatcher := Some (d\<lparr>di_cmds := Some (cmds @ map cmd_of (filter is_so names))\<rparr>)\<rparr>)"
  using assms
proof (induction names arbitrary: r d cmds)
  case Nil
  then show ?case
    by (cases r; cases d) simp
next
  case (Cons name names)
  show ?case
  proof (cases "is_so name")
    case True
    let ?d = "d\<lparr>di_cmds := Some (cmds @ [cmd_of name])\<rparr>"
    have "load_command env path name r = Some (r\<lparr>re_dispatcher := Some ?d\<rparr>)"
      using True Cons.prems(1-3) by (simp add: load_command_def is_so_def)
    moreover have "loaded r < ncmd"
      using True Cons.prems(2-4) by (simp add: loaded_def)
    ultimately show ?thesis
      using Cons.IH [of "r\<lparr>re_dispatcher := Some ?d\<rparr>" ?d "cmds @ [cmd_of name]"] Cons.prems True by simp
  next
    case False
    then have load: "load_command env path name r = Some r"
      by (simp add: load_command_def is_so_def)
    show ?thesis
    proof (cases "loaded r < ncmd")
      case True
      then show ?thesis
        using Cons.IH [OF _ Cons.prems(2,3)] Cons.prems(1,4) False load by simp
    next
      case full: False
      then have "ncmd \<le> length cmds" and "length cmds + length (filter is_so names) \<le> ncmd"
        using Cons.prems(2-4) False by (simp_all add: loaded_def)
      then have "length (filter is_so names) = 0"
        by linarith
      then have "filter is_so (name # names) = []"
        using False by simp
      moreover have "r\<lparr>re_dispatcher := Some (d\<lparr>di_cmds := Some cmds\<rparr>)\<rparr> = r"
        using Cons.prems(2,3) by (cases r; cases d) simp
      ultimately show ?thesis
        using full by (simp del: filter.simps)
    qed
  qed
qed

text \<open>loading a directory that does not change meanwhile: the commands are the symbols of the files
  whose name ends in \<open>.so\<close>, each once and in the order of the directory, and nothing is left out by the
  bound on their count; what was loaded before is no longer there.\<close>

theorem load_commands_loads:
  assumes "re_dispatcher r = Some d" and "de_readdir env path = Some names" and "again path = Some names"
    and "de_closedir env path" and "\<forall>name \<in> set names. strrchr_dot name \<noteq> None"
    and "\<forall>name \<in> set names. is_so name \<longrightarrow> de_dlopen env (full_path path name) = DlCommand (cmd_of name)"
    and "os_malloc (w_os (re_world r)) = []"
  shows "\<exists>r' d'. ducq_dispatcher_load_commands_path env again (Some path) r = Some (DUCQ_OK, r') \<and>
    re_dispatcher r' = Some d' \<and> commands_of d' = map cmd_of (filter is_so names) \<and>
    ducq_dispatcher_count_cmds d' = int (length (filter is_so names))"
proof -
  have count: "count_commands env path = Some (int (length (filter is_so names)))"
    using assms(2,4) count_names_dotted [OF assms(5)] by (simp add: count_commands_def)
  let ?r = "r\<lparr>re_world := (re_world r)\<lparr>w_os := (w_os (re_world r))\<lparr>os_malloc := []\<rparr>\<rparr>, re_dispatcher := Some (d\<lparr>di_cmds := Some []\<rparr>)\<rparr>"
  have "load_names env path (length (filter is_so names)) names ?r =
      Some (?r\<lparr>re_dispatcher := Some ((d\<lparr>di_cmds := Some []\<rparr>)\<lparr>di_cmds := Some ([] @ map cmd_of (filter is_so names))\<rparr>)\<rparr>)"
    by (rule load_names_run [OF assms(6)]) simp_all
  then show ?thesis
    using assms(1,3,4,7) count
    by (auto simp: ducq_dispatcher_load_commands_path_def sys_malloc_def answer_def commands_of_def ducq_dispatcher_count_cmds_def)
qed

text \<open>a file without a dot in its name anywhere in the directory makes the count undefined:
  \<open>strrchr\<close> answers NULL, which is compared as a string.\<close>

theorem undotted_file_undefined:
  assumes "de_readdir env path = Some names" and "name \<in> set names" and "CHR ''.'' \<notin> set name"
  shows "ducq_dispatcher_load_commands_path env again (Some path) r = None"
proof -
  have "count_names names = None"
    using assms(2)
  proof (induction names)
    case (Cons n ns)
    then show ?case
      using assms(3) by (cases "strrchr_dot n") (auto simp: strrchr_dot_def)
  qed simp
  then show ?thesis
    using assms(1) by (simp add: ducq_dispatcher_load_commands_path_def count_commands_def)
qed

section \<open>Witnesses\<close>

text \<open>The small server with a dispatcher: one loaded command, \<open>hi\<close>, and one in Lua, \<open>lu\<close>; the Lua state is
  a number.\<close>

definition demo_lua :: "nat lua" where
  "demo_lua = \<lparr>lua_state = 0, lua_top = 0\<rparr>"

definition demo_dispatcher :: "nat lua option \<Rightarrow> nat dispatcher" where
  "demo_dispatcher L =
     \<lparr>di_cmds = Some [\<lparr>cmd_name = ''hi'', cmd_doc = ''d'', cmd_exec = 1\<rparr>], di_lua = L, di_notifyfd = 3,
      di_extensions = replicate MAX_EXTENSIONS \<lparr>ext_wd = - 1, ext_path = []\<rparr>\<rparr>"

definition demo_server :: "nat lua option \<Rightarrow> (unit, nat) server" where
  "demo_server L =
     \<lparr>re_world = demo_world, re_conns = re_conns (demo ''b'' ''a''), re_dispatcher = Some (demo_dispatcher L),
      re_allow_log_route = True, re_logfunc = no_log, re_logger = (), re_last_msgs = cleared demo_store\<rparr>"

definition demo_env :: "(unit, nat) disp_env" where
  "demo_env =
     \<lparr>de_exec = (\<lambda>f p buffer n r. Some (DUCQ_OK, buffer, r)),
      de_readdir = (\<lambda>path. Some [''.'', ''..'', ''a.so'', ''b.txt'', ''c.so'']),
      de_closedir = (\<lambda>path. True), de_dlopen = (\<lambda>path. DlCommand \<lparr>cmd_name = path, cmd_doc = [], cmd_exec = 0\<rparr>),
      de_stat = (\<lambda>path. Some Regular), de_watch = (\<lambda>path. 1), de_notify = (\<lambda>r. NotifyNothing),
      de_strerror = (\<lambda>e. ''error''), de_lua_new = (None, 0), de_lua_file = (\<lambda>path r. Some (None, r)),
      de_lua_commands = (\<lambda>s. Some [(LuaString ''lu'', LuaTable (Some ''doc'') True)]),
      de_lua_call = (\<lambda>name p msg r. Some (LuaState DUCQ_OK, r))\<rparr>"

lemma demo_server:
  "serving (demo_server L)" "live 0 9 (demo_server L)" "log_slots (demo_server L) = []"
  "re_dispatcher (demo_server L) = Some (demo_dispatcher L)"
proof -
  have f: "re_conns (demo_server L) = re_conns (demo ''b'' ''a'')" "re_world (demo_server L) = re_world (demo ''b'' ''a'')"
      "re_allow_log_route (demo_server L) = re_allow_log_route (demo ''b'' ''a'')"
    by (simp_all add: demo_server_def)
  show "serving (demo_server L)"
    using serving_fields [OF f(1,2)] demo_quiet(1) by simp
  show "live 0 9 (demo_server L)"
    using demo_quiet(2) by (simp add: live_def f)
  show "log_slots (demo_server L) = []"
    using demo_quiet(4) by (simp add: log_slots_def subscribed_def live_def route_at_def f filter_empty_conv)
  show "re_dispatcher (demo_server L) = Some (demo_dispatcher L)"
    by (simp add: demo_server_def)
qed

abbreviation demo_nope :: string where "demo_nope \<equiv> message_text ''nope'' ''r'' ''x''"

lemma demo_nope: "in_buffer demo_nope (demo_buffer demo_nope)" "parts_ok ''nope'' ''r''"
    "nameless demo_env ''nope'' (demo_server (Some demo_lua))" "lua_height (demo_server (Some demo_lua)) = 0"
  by (auto intro!: demo_buffer simp: message_text_def parts_ok_def nameless_def demo_server demo_dispatcher_def
      demo_env_def find_loaded_def commands_of_def lua_entry_def lua_height_def lua_of_def demo_lua_def)

abbreviation demo_hi :: string where "demo_hi \<equiv> message_text ''hi'' ''r'' ''x''"

theorem dispatch_precedence_witness:
  "ducq_dispatch demo_env 9 (demo_buffer demo_hi) 6 (demo_server None) = Some (DUCQ_OK, demo_buffer demo_hi, demo_server None)"
proof -
  have m: "parts_ok ''hi'' ''r''" "in_buffer demo_hi (demo_buffer demo_hi)"
    by (auto intro!: demo_buffer simp: message_text_def parts_ok_def)
  show ?thesis
    using dispatch_precedence [OF m demo_server(4), of demo_env 9 6 None]
    by (simp add: demo_dispatcher_def find_loaded_def commands_of_def demo_env_def)
qed

theorem unknown_command_answered_witness:
  "\<exists>b r'. ducq_dispatch demo_env 9 (demo_buffer demo_nope) 8 (demo_server (Some demo_lua)) = Some (DUCQ_ENOCMD, b, r') \<and>
    lua_height r' = 2"
  using unknown_command_answered [OF demo_nope(3) demo_server(1-3) demo_nope(2) _ _ demo_nope(1), of 8] demo_nope(4)
  by (auto simp: LUA_MINSTACK_def)

theorem unknown_exhausts_lua_stack_witness:
  "repeated 11 demo_env 9 (demo_buffer demo_nope) 8 (demo_server (Some demo_lua)) = None"
  using unknown_exhausts_lua_stack [OF demo_nope(3) demo_server(1-3) demo_nope(2) _ _ demo_nope(1,4), of 8] by simp

theorem no_lua_undefined_witness:
  "ducq_dispatch demo_env 9 (demo_buffer demo_nope) 8 (demo_server None) = None"
  by (rule no_lua_undefined [OF demo_nope(2,1) demo_server(4)])
    (simp_all add: demo_dispatcher_def find_loaded_def commands_of_def)

theorem load_commands_loads_witness:
  "\<exists>r' d'. ducq_dispatcher_load_commands_path demo_env (de_readdir demo_env) (Some ''cmds'') (demo_server (Some demo_lua)) = Some (DUCQ_OK, r') \<and>
    re_dispatcher r' = Some d' \<and> map cmd_name (commands_of d') = [''cmds/a.so'', ''cmds/c.so'']"
proof -
  let ?names = "[''.'', ''..'', ''a.so'', ''b.txt'', ''c.so'']"
  let ?cmd = "\<lambda>name. \<lparr>cmd_name = full_path ''cmds'' name, cmd_doc = [], cmd_exec = 0\<rparr>"
  have e: "de_readdir demo_env ''cmds'' = Some ?names" "de_closedir demo_env ''cmds''"
      "\<forall>name \<in> set ?names. is_so name \<longrightarrow> de_dlopen demo_env (full_path ''cmds'' name) = DlCommand (?cmd name)"
    by (simp_all add: demo_env_def)
  have dots: "\<forall>name \<in> set ?names. strrchr_dot name \<noteq> None"
    by (simp add: strrchr_dot_def)
  have m: "os_malloc (w_os (re_world (demo_server (Some demo_lua)))) = []"
    by (simp add: demo_server_def demo_world_def quiet_os_def)
  have "filter is_so ?names = [''a.so'', ''c.so'']"
    by (simp add: is_so_def strrchr_dot_def)
  then show ?thesis
    using load_commands_loads [where path = "''cmds''" and again = "de_readdir demo_env" and cmd_of = ?cmd, OF demo_server(4) e(1) e(1) e(2) dots e(3) m]
    by (auto simp: full_path_def snprintf_def PATH_MAX_def)
qed

theorem undotted_file_undefined_witness:
  "ducq_dispatcher_load_commands_path (demo_env\<lparr>de_readdir := (\<lambda>path. Some [''a.so'', ''README''])\<rparr>)
     (\<lambda>path. None) (Some ''cmds'') (demo_server None) = None"
  by (rule undotted_file_undefined [of _ _ "[''a.so'', ''README'']" "''README''"]) simp_all

section \<open>The list of commands\<close>

lemma evolves_set_top: "evolves F r s \<Longrightarrow> evolves F (set_top n r) (set_top n s)"
  by (simp add: evolves_def set_top_def)

lemma serving_set_top [simp]: "serving (set_top n r) = serving r"
  by (rule serving_fields) simp_all

lemma send_line_run:
  assumes "serving r" and "live i p r" and "length line < DUCQ_MSGSZ"
  shows "\<exists>r'. send_line p line r = Some (DUCQ_OK, r') \<and> evolves (only (slot_fd i r) (tcp_frame line)) r r'"
proof -
  have "send_line p line r = on_world (ducq_send p line) r"
    using assms(3) by (simp add: send_line_def snprintf_fits send_buf_append)
  then show ?thesis
    using send_quiet [OF assms(1,2), of line] assms(3) by (simp add: INT_MAX_def)
qed

lemma send_lines_run:
  assumes "serving r" and "live i p r" and "\<forall>line \<in> set lines. length line < DUCQ_MSGSZ"
  shows "\<exists>r'. send_lines p lines r = Some (DUCQ_OK, r') \<and> evolves (only (slot_fd i r) (concat (map tcp_frame lines))) r r'"
  using assms
proof (induction lines arbitrary: r)
  case Nil
  then show ?case
    using evolves_refl [of r] by simp
next
  case (Cons line lines)
  obtain r1 where r1: "send_line p line r = Some (DUCQ_OK, r1)" "evolves (only (slot_fd i r) (tcp_frame line)) r r1"
    using send_line_run [OF Cons.prems(1,2)] Cons.prems(3) by auto
  have s1: "serving r1" and l1: "live i p r1" and f1: "slot_fd i r1 = slot_fd i r"
    using evolves_serving [OF Cons.prems(1) r1(2)] evolves_table [OF r1(2)] Cons.prems(2) by simp_all
  obtain r' where "send_lines p lines r1 = Some (DUCQ_OK, r')" "evolves (only (slot_fd i r) (concat (map tcp_frame lines))) r1 r'"
    using Cons.IH [OF s1 l1] Cons.prems(3) f1 by auto
  then show ?case
    using r1 evolves_only by fastforce
qed

text \<open>The documented entries of the Lua table, and the tables for which the loop over it is defined.\<close>

fun lua_lines :: "(lua_key \<times> lua_value) list \<Rightarrow> string list" where
  "lua_lines [] = []"
| "lua_lines ((LuaString name, LuaTable (Some d) _) # entries) = cmd_line name d # lua_lines entries"
| "lua_lines (_ # entries) = lua_lines entries"

definition documented_number :: "(lua_key \<times> lua_value) \<Rightarrow> bool" where
  "documented_number e \<longleftrightarrow> (\<exists>k d b. e = (LuaNumber k, LuaTable (Some d) b))"

lemma list_lua_run:
  assumes "serving r" and "live i p r" and "n + 3 \<le> LUA_MINSTACK"
    and "\<forall>line \<in> set (lua_lines entries). length line < DUCQ_MSGSZ" and "\<forall>e \<in> set entries. \<not> documented_number e"
  shows "\<exists>s. list_lua n p entries r = Some (DUCQ_OK, set_top n s) \<and>
    evolves (only (slot_fd i r) (concat (map tcp_frame (lua_lines entries)))) r s"
  using assms
proof (induction entries arbitrary: r rule: lua_lines.induct)
  case 1
  then show ?case
    using evolves_refl [of r] by auto
next
  case (2 name d b entries)
  obtain r1 where r1: "send_line p (cmd_line name d) r = Some (DUCQ_OK, r1)" "evolves (only (slot_fd i r) (tcp_frame (cmd_line name d))) r r1"
    using send_line_run [OF 2(2,3)] 2(5) by auto
  have s1: "serving r1" and l1: "live i p r1" and f1: "slot_fd i r1 = slot_fd i r"
    using evolves_serving [OF 2(2) r1(2)] evolves_table [OF r1(2)] 2(3) by simp_all
  obtain s where s: "list_lua n p entries r1 = Some (DUCQ_OK, set_top n s)"
      "evolves (only (slot_fd i r) (concat (map tcp_frame (lua_lines entries)))) r1 s"
    using 2(1) [OF s1 l1 2(4)] 2(5,6) f1 by auto
  have "list_lua n p ((LuaString name, LuaTable (Some d) b) # entries) r = Some (DUCQ_OK, set_top n s)"
    using r1(1) s(1) 2(4) by simp
  then show ?case
    using evolves_only [OF r1(2) s(2)] by auto
qed (auto simp: documented_number_def split: lua_value.split lua_key.split option.split)

text \<open>C22: \<open>lscmd\<close> answers with PARTS, its own line, one line for each loaded command in the order of
  loading, one for each documented entry of the Lua table, and END; one more value stays on the Lua
  stack.\<close>

theorem lscmd_lists:
  assumes "serving r" and "live i p r" and "log_slots r = []"
    and "re_dispatcher r = Some d" and "di_lua d = Some L" and "de_lua_commands env (lua_state L) = Some entries"
    and "lua_top L + 4 \<le> LUA_MINSTACK" and "\<forall>e \<in> set entries. \<not> documented_number e"
    and "lines = cmd_line ''lscmd'' ''list all loaded commands as csv: <name>,<doc>'' #
      map (\<lambda>cmd. cmd_line (cmd_name cmd) (cmd_doc cmd)) (commands_of d) @ lua_lines entries"
    and "\<forall>line \<in> set lines. length line < DUCQ_MSGSZ"
  shows "\<exists>r'. lscmd env p buffer n r = Some (DUCQ_OK, buffer, r') \<and> re_conns r' = re_conns r \<and>
    (\<forall>fd. received r r' fd = (if fd = slot_fd i r then concat (map tcp_frame ([''PARTS''] @ lines @ [''END''])) else [])) \<and>
    lua_height r' = lua_height r + 1"
proof -
  let ?fd = "slot_fd i r"
  let ?own = "cmd_line ''lscmd'' ''list all loaded commands as csv: <name>,<doc>'' #
      map (\<lambda>cmd. cmd_line (cmd_name cmd) (cmd_doc cmd)) (commands_of d)"
  obtain r1 where r1: "ducq_log DUCQ_LOG_INFO ''lscmd'' p [] r = Some r1" "evolves nothing r r1"
    using log_quiet [OF assms(1-3), of "''lscmd''" "[]"] by auto
  have s1: "serving r1" and l1: "live i p r1" and f1: "slot_fd i r1 = ?fd" and d1: "re_dispatcher r1 = Some d"
    using evolves_serving [OF assms(1) r1(2)] evolves_table [OF r1(2)] assms(2,4) r1(2) by (simp_all add: evolves_def)
  obtain r2 where r2: "on_world (ducq_parts p) r1 = Some (DUCQ_OK, r2)" "evolves (only ?fd (tcp_frame ''PARTS'')) r1 r2"
    using parts_quiet(1) [OF s1 l1] f1 by auto
  have s2: "serving r2" and l2: "live i p r2" and f2: "slot_fd i r2 = ?fd"
    using evolves_serving [OF s1 r2(2)] evolves_table [OF r2(2)] l1 f1 by simp_all
  obtain r3 where r3: "send_lines p ?own r2 = Some (DUCQ_OK, r3)" "evolves (only ?fd (concat (map tcp_frame ?own))) r2 r3"
    using send_lines_run [OF s2 l2, of ?own] assms(9,10) f2 by auto
  have e3: "evolves (only ?fd (tcp_frame ''PARTS'' @ concat (map tcp_frame ?own))) r r3"
    by (rule evolves_quiet(1) [OF r1(2) evolves_only [OF r2(2) r3(2)]])
  have s3: "serving r3" and l3: "live i p r3" and f3: "slot_fd i r3 = ?fd" and d3: "re_dispatcher r3 = Some d"
    using evolves_serving [OF assms(1) e3] evolves_table [OF e3] assms(2,4) e3 by (simp_all add: evolves_def)
  let ?n = "lua_top L + 1"
  obtain s where s: "list_lua ?n p entries r3 = Some (DUCQ_OK, set_top ?n s)"
      "evolves (only ?fd (concat (map tcp_frame (lua_lines entries)))) r3 s"
    using list_lua_run [OF s3 l3, of ?n entries] assms(7-10) f3 by auto
  have s4: "serving (set_top ?n s)" and l4: "live i p (set_top ?n s)" and f4: "slot_fd i (set_top ?n s) = ?fd"
    using evolves_serving [OF s3 s(2)] evolves_table [OF s(2)] l3 f3 by simp_all
  obtain r5 where r5: "on_world (ducq_end p) (set_top ?n s) = Some (DUCQ_OK, r5)" "evolves (only ?fd (tcp_frame ''END'')) (set_top ?n s) r5"
    using parts_quiet(2) [OF s4 l4] f4 by auto
  have room: "lua_room k r3 = (if lua_top L + k \<le> LUA_MINSTACK then Some L else None)" for k
    using d3 assms(5) by (simp add: lua_room_def lua_of_def)
  have "lscmd env p buffer n r = Some (DUCQ_OK, buffer, r5)"
    using r1(1) r2(1) r3(1) s(1) r5(1) d1 room assms(6,7) unfolding lscmd_def commands_of_def by (simp del: send_lines.simps)
  moreover have e5: "evolves (only ?fd (concat (map tcp_frame ([''PARTS''] @ lines @ [''END''])))) (set_top ?n r) r5"
    using evolves_only [OF evolves_set_top [OF evolves_only [OF e3 s(2)]] r5(2)] by (simp add: assms(9))
  moreover have "lua_height r5 = lua_height r + 1"
    using e5 assms(4,5) by (simp add: evolves_def lua_height_def lua_of_def set_top_def)
  moreover have "re_conns r5 = re_conns r"
    using e5 by (simp add: evolves_def)
  ultimately show ?thesis
    using received_evolves [OF e5, of r] by (auto simp: only_def)
qed

theorem lscmd_lists_witness:
  "\<exists>r'. lscmd demo_env 9 [] 0 (demo_server (Some demo_lua)) = Some (DUCQ_OK, [], r') \<and> lua_height r' = 1"
proof -
  have d: "di_lua (demo_dispatcher (Some demo_lua)) = Some demo_lua"
    by (simp add: demo_dispatcher_def)
  have e: "de_lua_commands demo_env (lua_state demo_lua) = Some [(LuaString ''lu'', LuaTable (Some ''doc'') True)]"
    by (simp add: demo_env_def)
  show ?thesis
    using lscmd_lists [OF demo_server(1-4) d e _ _ refl, of "[]" 0] demo_nope(4)
    by (auto simp: demo_lua_def LUA_MINSTACK_def documented_number_def cmd_line_def commands_of_def demo_dispatcher_def)
qed

end
