(* ===== verification/Main_Loop.thy ===== *)
theory Main_Loop
  imports Dispatch_Facts
begin

text \<open>
  One turn of the main loop of a server: the descriptors are watched, a ready client is read, its
  message dispatched once, and a client whose connection is gone is taken out of the table.
\<close>

section \<open>The slot that is ready\<close>

text \<open>\<open>only_ready\<close>: select reports one descriptor, that of the slot, and the reactor stays as it is.\<close>

definition only_ready :: "('l, 'd) loop_env \<Rightarrow> nat \<Rightarrow> ('l, 'd) reactor \<Rightarrow> bool" where
  "only_ready env i r \<longleftrightarrow>
     (\<forall>j < DUCQ_MAX_CONNECTIONS. conn_fd (re_conns r ! j) = slot_fd i r \<longrightarrow> j = i) \<and>
     (\<exists>fds. watched_fds (re_conns r) = Some fds \<and> env_select env (foldl max 1 fds + 1) fds r = (1, [slot_fd i r], r))"

lemma break_bits [simp]:
  "0 < DUCQ_LOOP_BREAK" "DUCQ_LOOP_BREAK AND DUCQ_LOOP_DELETE = 0"
  "0 < (DUCQ_LOOP_BREAK OR DUCQ_LOOP_DELETE) AND DUCQ_LOOP_DELETE"
  "0 < (DUCQ_LOOP_BREAK OR DUCQ_LOOP_DELETE) AND DUCQ_LOOP_BREAK"
  by (simp_all add: DUCQ_LOOP_BREAK_def DUCQ_LOOP_DELETE_def)

lemma ready_slot:
  assumes "only_ready env i r" and "i < DUCQ_MAX_CONNECTIONS" and "conn_fd (re_conns r ! i) \<noteq> - 1"
    and "\<forall>c x s. round_table env [slot_fd i r] i (buffer, 1) r = Some (c, x, s) \<longrightarrow> c AND DUCQ_LOOP_BREAK \<noteq> 0"
  shows "ducq_loop_turn env buffer r =
    do {
      (c, (b, k), s) \<leftarrow> round_table env [slot_fd i r] i (buffer, 1) r;
      s \<leftarrow> (if c AND DUCQ_LOOP_DELETE \<noteq> 0 then connection_free i s else Some s);
      Some (b, s)
    }"
proof -
  let ?h = "round_table env [slot_fd i r]"
  have other: "conn_fd (re_conns r ! j) \<noteq> slot_fd i r" if "j < i" for j
    using assms(1,2) that unfolding only_ready_def by (metis less_trans less_irrefl)
  have "\<forall>j \<in> set [0..<i]. conn_fd (re_conns r ! j) \<noteq> - 1 \<longrightarrow> ?h j (buffer, 1) r = Some (DUCQ_LOOP_CONTINUE, (buffer, 1), r)"
    using other by (simp add: round_table_def)
  then have skip: "connection_loop_template ?h (buffer, 1) r =
      loop_slots ?h (i # [Suc i..<DUCQ_MAX_CONNECTIONS]) DUCQ_LOOP_CONTINUE (buffer, 1) r"
    unfolding connection_loop_template_def slots_split [OF assms(2)] by (rule loop_slots_skip)
  obtain fds where fds: "watched_fds (re_conns r) = Some fds"
      "env_select env (foldl max 1 fds + 1) fds r = (1, [slot_fd i r], r)"
    using assms(1) by (auto simp: only_ready_def)
  show ?thesis
  proof (cases "?h i (buffer, 1) r")
    case None
    then show ?thesis
      using fds skip assms(3) by (simp add: ducq_loop_turn_def)
  next
    case (Some y)
    obtain c b k s where y: "y = (c, (b, k), s)"
      by (metis prod.exhaust)
    have "c AND DUCQ_LOOP_BREAK \<noteq> 0"
      using assms(4) Some y by blast
    then show ?thesis
      using fds skip assms(3) Some y
      by (cases "if c AND DUCQ_LOOP_DELETE \<noteq> 0 then connection_free i s else Some s") (simp_all add: ducq_loop_turn_def)
  qed
qed

lemma tcp_read_serving:
  assumes "serving r" and "only_read fd (w_os (re_world r)) t" and "fluent (os_in t fd)"
  shows "serving (r\<lparr>re_world := (re_world r)\<lparr>w_os := t\<rparr>\<rparr>)"
proof -
  let ?w = "(re_world r)\<lparr>w_os := t\<rparr>"
  have "same_heap (re_world r) ?w"
    by (simp add: same_heap_def ids_ok_def)
  moreover have "tcp_on p g ?w" if "tcp_on p g (re_world r)" for p g
    using that assms(3) only_readD(2,3) [OF assms(2)] by (cases "g = fd") (auto simp: tcp_on_def)
  ultimately show ?thesis
    using inv_world assms(1) by (auto simp: serving_def slot_fd_def)
qed

section \<open>One turn\<close>

text \<open>What the ready client has received is dispatched, whatever its transport.\<close>

lemma turn_received:
  assumes "live i p r" and "only_ready env i r"
    and recv: "on_world (ducq_recv p (replicate DUCQ_MSGSZ NUL) DUCQ_MSGSZ) r = Some ((DUCQ_OK, n, b), r1)"
  shows "ducq_loop_turn env buffer r = map_option (\<lambda>(st, b, r'). (b, r')) (env_dispatch env p b n r1)"
proof -
  have i: "i < DUCQ_MAX_CONNECTIONS" "conn_fd (re_conns r ! i) \<noteq> - 1"
    using assms(1) by (simp_all add: live_def)
  obtain area where as: "conn_as (re_conns r ! i) = AsClient p area"
    using assms(1) by (auto simp: live_def conn_client_def split: conn_as.splits)
  have hook: "round_table env [slot_fd i r] i (buffer, 1) r =
      do { (st, b, r) \<leftarrow> env_dispatch env p b n r1; Some (DUCQ_LOOP_BREAK, (b, 0), r) }"
    using recv as by (simp add: round_table_def slot_fd_def)
  have "\<forall>c x s. round_table env [slot_fd i r] i (buffer, 1) r = Some (c, x, s) \<longrightarrow> c AND DUCQ_LOOP_BREAK \<noteq> 0"
    unfolding hook by (auto simp: bind_convs)
  from ready_slot [OF assms(2) i this] show ?thesis
    unfolding hook by (cases "env_dispatch env p b n r1") auto
qed

lemma turn_dispatch:
  assumes "serving r" and "live i p r" and "only_ready env i r"
    and "stream (slot_fd i r) (w_os (re_world r)) = tcp_frame m @ rest" and "tcp_sendable m"
  shows "\<exists>r1 t. ducq_loop_turn env buffer r =
      map_option (\<lambda>(st, b, r'). (b, r')) (env_dispatch env p (m @ NUL # replicate (DUCQ_MSGSZ - Suc (length m)) NUL) (length m) r1) \<and>
    r1 = r\<lparr>re_world := (re_world r)\<lparr>w_os := t\<rparr>\<rparr> \<and> only_read (slot_fd i r) (w_os (re_world r)) t \<and> serving r1 \<and>
    stream (slot_fd i r) t = rest"
proof -
  obtain c where c: "tcp_up p c (re_world r)" "tcp_fd c = slot_fd i r"
    using serving_on [OF assms(1,2)] unfolding tcp_on_up by blast
  obtain t where t: "ducq_recv p (replicate DUCQ_MSGSZ NUL) DUCQ_MSGSZ (re_world r) =
        Some ((DUCQ_OK, length m, m @ NUL # drop (length m + 1) (replicate DUCQ_MSGSZ NUL)), (re_world r)\<lparr>w_os := t\<rparr>)"
      "only_read (slot_fd i r) (w_os (re_world r)) t" "stream (slot_fd i r) t = rest" "tcp_up p c ((re_world r)\<lparr>w_os := t\<rparr>)"
    using recv_tcp [OF c(1) _ assms(5), of rest "replicate DUCQ_MSGSZ NUL"] assms(4) c(2) by auto
  define r1 where "r1 = r\<lparr>re_world := (re_world r)\<lparr>w_os := t\<rparr>\<rparr>"
  define b where "b = m @ NUL # replicate (DUCQ_MSGSZ - Suc (length m)) NUL"
  have recv: "on_world (ducq_recv p (replicate DUCQ_MSGSZ NUL) DUCQ_MSGSZ) r = Some ((DUCQ_OK, length m, b), r1)"
    using t(1) by (simp add: on_world_def r1_def b_def)
  have "ducq_loop_turn env buffer r = map_option (\<lambda>(st, b, r'). (b, r')) (env_dispatch env p b (length m) r1)"
    by (rule turn_received [OF assms(2,3) recv])
  moreover have "serving r1"
    unfolding r1_def using t(2,4) c(2) by (intro tcp_read_serving [OF assms(1)]) (auto simp: tcp_up_def)
  ultimately show ?thesis
    using t(2,3) by (intro exI [of _ r1] exI [of _ t]) (simp add: r1_def b_def)
qed

text \<open>A client whose peer has closed: the state is acknowledged to it, logged, and the client removed.\<close>

lemma disconnect_fits:
  assumes "length (strerror e) \<le> 60"
  shows "\<exists>x. disconnect_text strerror st 256 (replicate DUCQ_MSGSZ NUL) e = Some x \<and> length x \<le> 131"
proof -
  have "to_int32 (int 256) = 256"
    by (intro to_int32_id [THEN trans]) (simp_all add: INT_MAX_def)
  moreover have "NUL \<in> set (take 256 (replicate DUCQ_MSGSZ NUL))" and "takeWhile (\<lambda>c. c \<noteq> NUL) (take 256 (replicate DUCQ_MSGSZ NUL)) = []"
    by (simp_all add: takeWhile_eq_Nil_iff)
  ultimately have p: "fmt_prec (to_int32 (int 256)) (replicate DUCQ_MSGSZ NUL) = Some []"
    by (simp add: fmt_prec_def)
  have d: "length (dec_int (sint (of_nat 256 :: 64 word))) = 3"
    by code_simp
  have m: "length (state_msg st) < 40"
    using state_msg_facts by blast
  show ?thesis
    using assms p d m by (simp add: disconnect_text_def)
qed

lemma turn_closed:
  assumes "serving r" and "live i p r" and "log_slots r = []" and "only_ready env i r"
    and "os_in (w_os (re_world r)) (slot_fd i r) = []" and "\<forall>e. length (env_strerror env e) \<le> 60"
  shows "\<exists>r' r3. ducq_loop_turn env buffer r = Some (replicate DUCQ_MSGSZ NUL, r') \<and> connection_free i r3 = Some r' \<and>
    evolves (only (slot_fd i r) (tcp_frame (ack_text DUCQ_ECONNCLOSED))) r r3"
proof -
  let ?b = "replicate DUCQ_MSGSZ NUL"
  have i: "i < DUCQ_MAX_CONNECTIONS" "conn_fd (re_conns r ! i) \<noteq> - 1"
    using assms(2) by (simp_all add: live_def)
  obtain area where as: "conn_as (re_conns r ! i) = AsClient p area"
    using assms(2) by (auto simp: live_def conn_client_def split: conn_as.splits)
  obtain c where c: "p \<noteq> 0" "w_heap (re_world r) p = Some (Tcp c)" "tcp_fd c = slot_fd i r"
    using serving_on [OF assms(1,2)] by (auto simp: tcp_on_up tcp_up_def)
  have recv: "on_world (ducq_recv p ?b DUCQ_MSGSZ) r = Some ((DUCQ_ECONNCLOSED, DUCQ_MSGSZ, ?b), r)"
    using recv_tcp_closed [OF c(1,2), of ?b] assms(5) c(3) by (simp add: on_world_def)
  obtain r1 where r1: "on_world (ducq_send_ack p DUCQ_ECONNCLOSED) r = Some (DUCQ_OK, r1)"
      "evolves (only (slot_fd i r) (tcp_frame (ack_text DUCQ_ECONNCLOSED))) r r1"
    using send_ack_quiet [OF assms(1,2)] by blast
  have s1: "serving r1" and l1: "live i p r1"
    using evolves_serving [OF assms(1) r1(2)] evolves_table [OF r1(2)] assms(2) by simp_all
  obtain a r2 where r2: "on_world (ducq_id p) r1 = Some (Some a, r2)" "evolves nothing r1 r2" "length a < 100"
    using id_quiet [OF s1 l1] by blast
  have s2: "serving r2" and q2: "log_slots r2 = []"
    using evolves_serving [OF s1 r2(2)] evolves_table [OF r2(2)] evolves_table [OF r1(2)] assms(3) by simp_all
  obtain x where x: "disconnect_text (env_strerror env) DUCQ_ECONNCLOSED DUCQ_MSGSZ ?b (os_errno (w_os (re_world r2))) = Some x"
      "length x \<le> 131"
    using disconnect_fits [of "env_strerror env" "os_errno (w_os (re_world r2))" DUCQ_ECONNCLOSED] assms(6) by auto
  define e where "e = \<lparr>le_level = DUCQ_LOG_INFO, le_function = ''round_table'', le_sender = Some a, le_text = x\<rparr>"
  have "length (log_line e) < DUCQ_MSGSZ"
    using x(2) r2(3) by (simp add: log_line_def e_def fmt_str_def)
  then obtain rc l where l: "ducq_reactor_log e r2 = Some (rc, r2\<lparr>re_logger := l\<rparr>)"
    using log_idle [OF serving_inv [OF s2] q2] by blast
  let ?r3 = "r2\<lparr>re_logger := l\<rparr>"
  have "evolves nothing r2 ?r3"
    by (simp add: evolves_def sent_def nothing_def)
  then have e3: "evolves (only (slot_fd i r) (tcp_frame (ack_text DUCQ_ECONNCLOSED))) r ?r3"
    using evolves_quiet(2) [OF evolves_quiet(2) [OF r1(2) r2(2)]] by blast
  have hook: "round_table env [slot_fd i r] i (buffer, 1) r =
      Some (DUCQ_LOOP_BREAK OR DUCQ_LOOP_DELETE, (?b, 0), ?r3)"
    using as recv r1(1) r2(1) x(1) l by (simp add: round_table_def slot_fd_def e_def)
  have inv3: "reactor_inv ?r3"
    using evolves_serving [OF assms(1) e3] serving_inv by blast
  obtain r' where r': "connection_free i ?r3 = Some r'"
    using connection_free_run [OF inv3 i(1)] by blast
  have "\<forall>c x s. round_table env [slot_fd i r] i (buffer, 1) r = Some (c, x, s) \<longrightarrow> c AND DUCQ_LOOP_BREAK \<noteq> 0"
    unfolding hook by auto
  from ready_slot [OF assms(4) i this] have "ducq_loop_turn env buffer r = Some (?b, r')"
    unfolding hook using r' by simp
  then show ?thesis
    using r' e3 by blast
qed

text \<open>Closing a TCP connection sends nothing.\<close>

lemma free_sends_nothing:
  assumes "serving r" and "live i p r" and "connection_free i r = Some r'"
  shows "os_out (w_os (re_world r')) = os_out (w_os (re_world r))"
proof -
  have fd: "conn_fd (re_conns r ! i) \<noteq> - 1"
    using assms(2) by (simp add: live_def)
  obtain area where as: "conn_as (re_conns r ! i) = AsClient p area"
    using assms(2) by (auto simp: live_def conn_client_def split: conn_as.splits)
  obtain c where c: "p \<noteq> 0" "w_heap (re_world r) p = Some (Tcp c)"
    using serving_on [OF assms(1,2)] by (auto simp: tcp_on_up tcp_up_def)
  have quiet: "os_out t = os_out s" if "inet_close g s = (k, t)" for g s k t
    using that by (auto simp: inet_close_def sys_close_def Let_def case_prod_beta log_call_def split: if_splits)
  show ?thesis
    using assms(3) fd as c
    by (auto simp: connection_free_def on_world_def ducq_close_def deref_def ducq_free_def tcp_close_def Let_def bind_Some_conv
        split: prod.split_asm if_split_asm dest!: quiet)
qed

lemma world_slots [simp]: "subscribed P (r\<lparr>re_world := w\<rparr>) = subscribed P r" "log_slots (r\<lparr>re_world := w\<rparr>) = log_slots r"
proof -
  show s: "subscribed P (r\<lparr>re_world := w\<rparr>) = subscribed P r" for P
    by (simp add: fun_eq_iff subscribed_def)
  show "log_slots (r\<lparr>re_world := w\<rparr>) = log_slots r"
    by (simp add: log_slots_def s)
qed

section \<open>Properties\<close>

text \<open>a message on the connection of a ready client.  It is received whole, put into a buffer that is
  cleared first, and dispatched once for that client with its length; the table is untouched when the
  dispatcher is called, and what came behind the message stays on the stream.\<close>

theorem turn_dispatches_message:
  assumes "serving r" and "live i p r" and "only_ready env i r"
    and "stream (slot_fd i r) (w_os (re_world r)) = tcp_frame m @ rest" and "tcp_sendable m"
  shows "\<exists>r1. ducq_loop_turn env buffer r =
      map_option (\<lambda>(st, b, r'). (b, r')) (env_dispatch env p (m @ NUL # replicate (DUCQ_MSGSZ - Suc (length m)) NUL) (length m) r1) \<and>
    re_conns r1 = re_conns r \<and> stream (slot_fd i r) (w_os (re_world r1)) = rest"
  using turn_dispatch [OF assms, of buffer] by auto

text \<open>C13: on a server of TCP clients that take every byte, none of which is subscribed to the log, a client whose
  peer has closed gets one frame with the acknowledgement \<open>DUCQ_ECONNCLOSED\<close>, is taken out of the table and freed;
  every other client stays, on its descriptor and with its route, nobody else gets anything, and the invariant holds.\<close>

theorem turn_removes_closed:
  assumes "serving r" and "live i p r" and "log_slots r = []" and "only_ready env i r"
    and "os_in (w_os (re_world r)) (slot_fd i r) = []" and "\<forall>e. length (env_strerror env e) \<le> 60"
  shows "\<exists>r'. ducq_loop_turn env buffer r = Some (replicate DUCQ_MSGSZ NUL, r') \<and> reactor_inv r' \<and>
    (\<forall>fd. received r r' fd = (if fd = slot_fd i r then tcp_frame (ack_text DUCQ_ECONNCLOSED) else [])) \<and>
    (\<forall>j q. live j q r' \<longleftrightarrow> live j q r \<and> j \<noteq> i) \<and>
    (\<forall>j. j \<noteq> i \<longrightarrow> re_conns r' ! j = re_conns r ! j) \<and> w_heap (re_world r') p = None"
proof -
  obtain r' r3 where r': "ducq_loop_turn env buffer r = Some (replicate DUCQ_MSGSZ NUL, r')" "connection_free i r3 = Some r'"
      "evolves (only (slot_fd i r) (tcp_frame (ack_text DUCQ_ECONNCLOSED))) r r3"
    using turn_closed [OF assms] by blast
  have inv3: "reactor_inv r3" and i: "i < DUCQ_MAX_CONNECTIONS"
    using evolves_serving [OF assms(1) r'(3)] serving_inv assms(2) by (auto simp: live_def)
  obtain r2 where r2: "connection_free i r3 = Some r2" "reactor_inv r2"
      "re_conns r2 = (re_conns r3)[i := (re_conns r3 ! i)\<lparr>conn_fd := - 1\<rparr>]"
      "\<forall>q. w_heap (re_world r2) q = None \<longleftrightarrow> w_heap (re_world r3) q = None \<or> live i q r3"
    using connection_free_run [OF inv3 i] by blast
  have "live j q r2 \<longleftrightarrow> live j q (set_conn i ((re_conns r3 ! i)\<lparr>conn_fd := - 1\<rparr>) r3)" for j q
    by (simp add: live_def r2(3))
  then have "live j q r2 \<longleftrightarrow> live j q r \<and> j \<noteq> i" for j q
    using live_set_conn [OF reactor_invD(1) [OF inv3] i] evolves_table(1) [OF r'(3)] by auto
  moreover have "w_heap (re_world r2) p = None"
    using r2(4) evolves_table(1) [OF r'(3)] assms(2) by simp
  moreover have "r2 = r'"
    using r'(2) r2(1) by simp
  moreover have "live i p r3"
    using evolves_table(1) [OF r'(3)] assms(2) by simp
  then have out: "os_out (w_os (re_world r')) = os_out (w_os (re_world r3))"
    using free_sends_nothing [OF evolves_serving [OF assms(1) r'(3)] _ r'(2)] by blast
  have "received r r' fd = received r r3 fd" for fd
    by (simp add: received_def out)
  then have "received r r' fd = (if fd = slot_fd i r then tcp_frame (ack_text DUCQ_ECONNCLOSED) else [])" for fd
    using received_evolves [OF r'(3) refl, of fd] by (simp add: only_def)
  moreover have "re_conns r2 ! j = re_conns r ! j" if "j \<noteq> i" for j
    using r2(3) that r'(3) by (simp add: evolves_def)
  ultimately show ?thesis
    using r'(1) r2(2) by blast
qed

section \<open>A published message\<close>

text \<open>A server at the head of its loop, with \<open>pub\<close> loaded and memory to spare, one of whose clients is the
  only one that is ready; and a message that fits its buffers, on a route for which there is room.\<close>

definition pub_ready :: "('l, 's dispatcher) loop_env \<Rightarrow> ('l, 's) disp_env \<Rightarrow> nat \<Rightarrow> nat \<Rightarrow> ('l, 's) server \<Rightarrow> bool" where
  "pub_ready env denv i p r \<longleftrightarrow>
     serving r \<and> live i p r \<and> log_slots r = [] \<and> only_ready env i r \<and> env_dispatch env = ducq_dispatch denv \<and>
     (\<exists>d exec. re_dispatcher r = Some d \<and> find_loaded ''pub'' (commands_of d) = Some exec \<and> de_exec denv exec = pub) \<and>
     os_malloc (w_os (re_world r)) = []"

definition publishable :: "string \<Rightarrow> string \<Rightarrow> ('l, 'd) reactor \<Rightarrow> bool" where
  "publishable route payload r \<longleftrightarrow>
     tcp_sendable (message_text ''pub'' route payload) \<and> NUL \<notin> set (message_text ''pub'' route payload) \<and>
     LF \<notin> set route \<and> route \<noteq> [] \<and> length route < DUCQ_MAX_ROUTE_LEN \<and> wf_last (re_last_msgs r) \<and>
     (route \<in> dom (last_map (re_last_msgs r)) \<or> card (dom (last_map (re_last_msgs r))) < length (re_last_msgs r))"

lemma publish_turn:
  assumes "pub_ready env denv i p r" and "publishable route payload r"
    and "stream (slot_fd i r) (w_os (re_world r)) = tcp_frame (message_text ''pub'' route payload) @ rest"
  shows "\<exists>b r'. ducq_loop_turn env buffer r = Some (b, r') \<and> re_conns r' = re_conns r \<and>
    (\<forall>fd. received r r' fd =
      (if fd = slot_fd i r then tcp_frame ''ACK'' else []) @
      (if \<exists>j q t. live j q r \<and> slot_fd j r = fd \<and> route_at j r = Some t \<and> ducq_route_cmp (Some t) (Some route)
       then tcp_frame (message_text ''pub'' route payload) else []))"
proof -
  obtain d exec where d: "re_dispatcher r = Some d" "find_loaded ''pub'' (commands_of d) = Some exec" "de_exec denv exec = pub"
    using assms(1) by (auto simp: pub_ready_def)
  note a = assms(1) [unfolded pub_ready_def] assms(2) [unfolded publishable_def]
  let ?m = "message_text ''pub'' route payload"
  let ?b = "?m @ NUL # replicate (DUCQ_MSGSZ - Suc (length ?m)) NUL"
  obtain r1 t where r1: "ducq_loop_turn env buffer r =
        map_option (\<lambda>(st, b, r'). (b, r')) (env_dispatch env p ?b (length ?m) r1)"
      "r1 = r\<lparr>re_world := (re_world r)\<lparr>w_os := t\<rparr>\<rparr>" "only_read (slot_fd i r) (w_os (re_world r)) t" "serving r1"
    using turn_dispatch [OF _ _ _ assms(3), of p env buffer] a by blast
  have tab: "live j q r1 = live j q r" "slot_fd j r1 = slot_fd j r" "route_at j r1 = route_at j r" for j q
    by (simp_all add: r1(2) live_def slot_fd_def route_at_def)
  have same: "log_slots r1 = []" "re_dispatcher r1 = Some d" "re_last_msgs r1 = re_last_msgs r" "re_conns r1 = re_conns r"
      "os_malloc (w_os (re_world r1)) = []" "os_out (w_os (re_world r1)) = os_out (w_os (re_world r))"
    using a d(1) only_readD(1,7) [OF r1(3)] by (simp_all add: r1(2))
  have parts: "parts_ok ''pub'' route"
    using a by (simp add: parts_ok_def)
  have buf: "in_buffer ?m ?b"
    using a by (auto simp: in_buffer_def tcp_sendable_def)
  have "live i p r1"
    using a tab by simp
  note l = this
  obtain r' where r': "pub p ?b (length ?m) r1 = Some (DUCQ_OK, ?b, r')" "re_conns r' = re_conns r1"
      "\<forall>fd. received r1 r' fd =
        (if fd = slot_fd i r1 then tcp_frame ''ACK'' else []) @
        (if \<exists>j q t. live j q r1 \<and> slot_fd j r1 = fd \<and> route_at j r1 = Some t \<and> ducq_route_cmp (Some t) (Some route)
         then tcp_frame ?m else [])"
    using pub_delivery [OF r1(4) l same(1,5) parts _ _ buf] a same(3) by auto
  have "ducq_dispatch denv p ?b (length ?m) r1 = Some (DUCQ_OK, ?b, r')"
    using dispatch_run [OF parts buf same(2), of denv p "length ?m"] d(2,3) r'(1) by simp
  then have "ducq_loop_turn env buffer r = Some (?b, r')"
    using r1(1) a by simp
  then show ?thesis
    using r'(2,3) same(4,6) tab by (auto simp: received_def)
qed

text \<open>C4: the whole way of a published message.  A \<open>pub\<close> message that arrives in any pieces on the
  connection of one client of a server that has loaded \<open>pub\<close> is, in one turn of the main loop, received,
  dispatched and delivered: its sender gets the acknowledgement, every client whose subscription
  matches the route gets the message as it was sent, and nobody else gets anything.\<close>

theorem server_publishes:
  assumes "pub_ready env denv i p r" and "publishable route payload r"
    and "stream (slot_fd i r) (w_os (re_world r)) = tcp_frame (message_text ''pub'' route payload) @ rest"
  shows "\<exists>b r'. ducq_loop_turn env buffer r = Some (b, r') \<and> re_conns r' = re_conns r \<and>
    (\<forall>fd. received r r' fd =
      (if fd = slot_fd i r then tcp_frame ''ACK'' else []) @
      (if \<exists>j q t. live j q r \<and> slot_fd j r = fd \<and> route_at j r = Some t \<and> ducq_route_cmp (Some t) (Some route)
       then tcp_frame (message_text ''pub'' route payload) else []))"
  by (rule publish_turn [OF assms])

section \<open>Witnesses\<close>

text \<open>The small server with a dispatcher that has \<open>pub\<close> loaded; \<open>select\<close> reports the descriptor 5, on which
  some bytes have arrived.\<close>

definition pub_dispatcher :: "nat dispatcher" where
  "pub_dispatcher = (demo_dispatcher None)\<lparr>di_cmds := Some [\<lparr>cmd_name = ''pub'', cmd_doc = [], cmd_exec = 7\<rparr>]\<rparr>"

definition pub_env :: "(unit, nat) disp_env" where
  "pub_env = demo_env\<lparr>de_exec := (\<lambda>f. pub)\<rparr>"

definition demo_ready :: "rd_ev list \<Rightarrow> (unit, nat) server" where
  "demo_ready es = (demo_server None)\<lparr>re_dispatcher := Some pub_dispatcher,
     re_world := demo_world\<lparr>w_os := quiet_os\<lparr>os_in := (\<lambda>_. es)\<rparr>\<rparr>\<rparr>"

definition demo_loop :: "(unit, nat dispatcher) loop_env" where
  "demo_loop = \<lparr>env_dispatch = ducq_dispatch pub_env, env_accept = (\<lambda>f fd ctx r. Some r),
     env_select = (\<lambda>n fds r. (1, [5], r)), env_strerror = (\<lambda>e. ''error'')\<rparr>"

lemma demo_conn_list:
  "re_conns (demo s t) = demo_conn 5 9 s # demo_conn 6 10 t #
    replicate 23 \<lparr>conn_fd = - 1, conn_as = AsClient 0 (replicate DUCQ_MAX_ROUTE_LEN NUL)\<rparr>"
proof -
  have "replicate 25 x = x # x # replicate 23 x" for x :: connection
    by (simp flip: replicate_Suc)
  then show ?thesis
    by (simp add: demo_def fresh_reactor_def)
qed

lemma demo_ready:
  assumes "fluent es"
  shows "serving (demo_ready es)" and "live 0 9 (demo_ready es)" and "log_slots (demo_ready es) = []"
    and "slot_fd 0 (demo_ready es) = 5" and "only_ready demo_loop 0 (demo_ready es)"
proof -
  have f: "re_conns (demo_ready es) = re_conns (demo ''b'' ''a'')"
      "re_world (demo_ready es) = demo_world\<lparr>w_os := quiet_os\<lparr>os_in := (\<lambda>_. es)\<rparr>\<rparr>"
      "re_allow_log_route (demo_ready es) = True"
    by (simp_all add: demo_ready_def demo_server_def)
  have tab: "live i p (demo_ready es) = live i p (demo ''b'' ''a'')" "route_at i (demo_ready es) = route_at i (demo ''b'' ''a'')"
      "slot_fd i (demo_ready es) = slot_fd i (demo ''b'' ''a'')" for i p
    by (simp_all add: live_def route_at_def slot_fd_def f(1))
  have heap: "w_heap (re_world (demo_ready es)) = w_heap demo_world" "ids_ok (re_world (demo_ready es)) = ids_ok demo_world"
    by (simp_all add: f ids_ok_def)
  have "reactor_inv (demo_ready es)"
    using serving_inv [OF demo_quiet(1)] unfolding reactor_inv_def table_ok_def tab f(1) heap demo_simps .
  moreover have "tcp_on p g (re_world (demo_ready es))" if "tcp_on p g demo_world" for p g
    using that assms by (simp add: tcp_on_def heap) (simp add: f quiet_os_def)
  ultimately show "serving (demo_ready es)"
    using demo_quiet(1) unfolding serving_def tab by (simp add: serving_def)
  show "live 0 9 (demo_ready es)"
    using demo_quiet(2) by (simp add: tab)
  show "log_slots (demo_ready es) = []"
    using demo_quiet(4) by (simp add: log_slots_def subscribed_def tab f filter_empty_conv)
  show fd: "slot_fd 0 (demo_ready es) = 5"
    by (simp add: tab demo_fd)
  have "watched_fds (re_conns (demo_ready es)) = Some [5, 6]"
    by (simp add: f demo_conn_list watched_fds_def demo_conn_def FD_SETSIZE_def)
  moreover have "\<forall>j < DUCQ_MAX_CONNECTIONS. conn_fd (re_conns (demo ''b'' ''a'') ! j) = 5 \<longrightarrow> j = 0"
    by (simp add: demo_conns demo_conn_def)
  ultimately show "only_ready demo_loop 0 (demo_ready es)"
    unfolding only_ready_def fd by (simp add: f demo_loop_def)
qed

theorem turn_removes_closed_witness:
  "\<exists>r'. ducq_loop_turn demo_loop [] (demo_ready []) = Some (replicate DUCQ_MSGSZ NUL, r') \<and> w_heap (re_world r') 9 = None"
proof -
  have "os_in (w_os (re_world (demo_ready []))) (slot_fd 0 (demo_ready [])) = []"
    by (simp add: demo_ready_def)
  moreover have "\<forall>e. length (env_strerror demo_loop e) \<le> 60"
    by (simp add: demo_loop_def)
  ultimately show ?thesis
    using turn_removes_closed [OF demo_ready(1-3,5), of "[]" "[]"] by auto
qed

lemma demo_stream: "stream 5 (w_os (re_world (demo_ready [RData (tcp_frame demo_pub)]))) = tcp_frame demo_pub @ []"
    "fluent [RData (tcp_frame demo_pub)]" "tcp_sendable demo_pub"
  by (simp_all add: demo_ready_def stream_def tcp_frame_def tcp_sendable_def message_text_def)

theorem turn_dispatches_message_witness:
  "\<exists>r1. ducq_loop_turn demo_loop [] (demo_ready [RData (tcp_frame demo_pub)]) =
    map_option (\<lambda>(st, b, r'). (b, r')) (ducq_dispatch pub_env 9 (demo_pub @ NUL # replicate (DUCQ_MSGSZ - Suc (length demo_pub)) NUL) (length demo_pub) r1)"
proof -
  note s = demo_stream(1) [folded demo_ready(4) [OF demo_stream(2)]]
  show ?thesis
    using turn_dispatches_message [OF demo_ready(1,2,5) [OF demo_stream(2)] s demo_stream(3), of "[]"]
    by (auto simp: demo_loop_def)
qed

lemma demo_pub_ready:
  fixes es :: "rd_ev list"
  assumes "fluent es"
  shows "pub_ready demo_loop pub_env 0 9 (demo_ready es)" and "publishable ''a'' ''hi'' (demo_ready es)"
proof -
  have "re_dispatcher (demo_ready es) = Some pub_dispatcher" "find_loaded ''pub'' (commands_of pub_dispatcher) = Some 7"
      "de_exec pub_env 7 = pub" "env_dispatch demo_loop = ducq_dispatch pub_env" "os_malloc (w_os (re_world (demo_ready es))) = []"
    by (simp_all add: demo_loop_def demo_ready_def pub_dispatcher_def commands_of_def find_loaded_def pub_env_def quiet_os_def)
  then show "pub_ready demo_loop pub_env 0 9 (demo_ready es)"
    using demo_ready(1-3,5) [OF assms] by (auto simp: pub_ready_def)
  have store: "re_last_msgs (demo_ready es) = re_last_msgs (demo ''b'' ''a'')"
    by (simp add: demo_ready_def demo_server_def)
  show "publishable ''a'' ''hi'' (demo_ready es)"
    unfolding publishable_def store using demo_store_free(1) demo_room demo_stream(3) by (simp add: message_text_def)
qed

lemma demo_ready_table:
  "live j q (demo_ready es) = live j q (demo ''b'' ''a'')" "slot_fd j (demo_ready es) = slot_fd j (demo ''b'' ''a'')"
  "route_at j (demo_ready es) = route_at j (demo ''b'' ''a'')"
proof -
  have "re_conns (demo_ready es) = re_conns (demo ''b'' ''a'')"
    by (simp add: demo_ready_def demo_server_def)
  then show "live j q (demo_ready es) = live j q (demo ''b'' ''a'')" "slot_fd j (demo_ready es) = slot_fd j (demo ''b'' ''a'')"
    "route_at j (demo_ready es) = route_at j (demo ''b'' ''a'')"
    by (simp_all add: live_def slot_fd_def route_at_def)
qed

lemma demo_ready_gets:
  "(\<exists>j q t. live j q (demo_ready es) \<and> slot_fd j (demo_ready es) = fd \<and> route_at j (demo_ready es) = Some t \<and>
     ducq_route_cmp (Some t) (Some ''a'')) \<longleftrightarrow> fd = 6"
  unfolding demo_ready_table by (rule demo_gets)

theorem server_publishes_witness:
  "\<exists>b r'. ducq_loop_turn demo_loop [] (demo_ready [RData (tcp_frame demo_pub)]) = Some (b, r') \<and>
    received (demo_ready [RData (tcp_frame demo_pub)]) r' 5 = tcp_frame ''ACK'' \<and>
    received (demo_ready [RData (tcp_frame demo_pub)]) r' 6 = tcp_frame demo_pub"
  using server_publishes [OF demo_pub_ready [OF demo_stream(2)] demo_stream(1) [folded demo_ready(4) [OF demo_stream(2)]], of "[]"]
  unfolding demo_ready_gets by (auto simp: demo_ready(4) [OF demo_stream(2)])

section \<open>The loop has no exit\<close>

text \<open>A turn that is always defined in the states of \<open>good\<close> and stays in them: the loop runs for ever.\<close>

lemma loop_runs:
  assumes "\<And>b s. good s \<Longrightarrow> \<exists>b' s'. ducq_loop_turn env b s = Some (b', s') \<and> good s'" and "good r"
  shows "ducq_loop_from env b r = None"
proof -
  have run: "\<not> (q = env \<and> good s)" if "ducq_loop_from q b s = Some z" for q b s z
  proof (rule ducq_loop_from.raw_induct [of "\<lambda>q b s z. \<not> (q = env \<and> good s)" q b s z])
    show "ducq_loop_from q b s = Some z"
      by (rule that)
  next
    fix loop q b s z
    assume ih: "\<And>q b s z. loop q b s = Some z \<Longrightarrow> \<not> (q = env \<and> good s)"
      and step: "(case ducq_loop_turn q b s of None \<Rightarrow> Some () | Some (b, s) \<Rightarrow> loop q b s) = Some z"
    show "\<not> (q = env \<and> good s)"
    proof
      assume eq: "q = env \<and> good s"
      then obtain b' s' where "ducq_loop_turn env b s = Some (b', s')" "good s'"
        using assms(1) by blast
      then show False
        using step ih eq by auto
    qed
  qed
  show ?thesis
    using run assms(2) by (cases "ducq_loop_from env b r") blast+
qed

definition with_errno :: "errno \<Rightarrow> ('l, 'd) reactor \<Rightarrow> ('l, 'd) reactor" where
  "with_errno e r = r\<lparr>re_world := (re_world r)\<lparr>w_os := (w_os (re_world r))\<lparr>os_errno := e\<rparr>\<rparr>\<rparr>"

lemma with_errno_simps [simp]:
  "reactor_inv (with_errno e r) = reactor_inv r" "re_conns (with_errno e r) = re_conns r"
  "log_slots (with_errno e r) = log_slots r" "os_calls (w_os (re_world (with_errno e r))) = os_calls (w_os (re_world r))"
proof -
  show "os_calls (w_os (re_world (with_errno e r))) = os_calls (w_os (re_world r))"
    by (simp add: with_errno_def)
  show "re_conns (with_errno e r) = re_conns r"
    by (simp add: with_errno_def)
  have "table_ok (with_errno e r) = table_ok r"
    by (simp add: with_errno_def table_ok_def ids_ok_def)
  then show "reactor_inv (with_errno e r) = reactor_inv r"
    by (simp add: reactor_inv_def with_errno_def)
  have "subscribed P (with_errno e r) = subscribed P r" for P
    by (auto simp: fun_eq_iff subscribed_def with_errno_def)
  then show "log_slots (with_errno e r) = log_slots r"
    by (simp add: log_slots_def) (simp add: with_errno_def)
qed

lemma with_errno_world [simp]:
  "w_heap (re_world (with_errno e r)) = w_heap (re_world r)"
  "os_in (w_os (re_world (with_errno e r))) = os_in (w_os (re_world r))"
  "os_out (w_os (re_world (with_errno e r))) = os_out (w_os (re_world r))"
  "os_errno (w_os (re_world (with_errno e r))) = e"
  by (simp_all add: with_errno_def)

text \<open>\<open>select\<close> fails and says why: a turn logs the failure and does nothing else.\<close>

definition select_failed :: "('l, 'd) loop_env \<Rightarrow> errno \<Rightarrow> log_entry" where
  "select_failed env e = \<lparr>le_level = DUCQ_LOG_ERROR, le_function = ''ducq_loop'', le_sender = Some (''n'' @ [CHR 0x5C] @ ''a''),
     le_text = ''select() failed: '' @ env_strerror env e @ [LF]\<rparr>"

definition starved :: "('l, 'd) loop_env \<Rightarrow> errno \<Rightarrow> ('l, 'd) reactor \<Rightarrow> ('l, 'd) reactor" where
  "starved env e r =
     (let s = with_errno e r in s\<lparr>re_logger := snd (re_logfunc s (select_failed env e) (re_logger s))\<rparr>)"

lemma logger_slots [simp]: "log_slots (r\<lparr>re_logger := l\<rparr>) = log_slots r"
  by (auto simp: log_slots_def subscribed_def live_def route_at_def intro!: filter_cong)

lemma starved_simps [simp]:
  "reactor_inv (starved env e r) = reactor_inv r" "re_conns (starved env e r) = re_conns r"
  "log_slots (starved env e r) = log_slots r" "w_heap (re_world (starved env e r)) = w_heap (re_world r)"
  "os_calls (w_os (re_world (starved env e r))) = os_calls (w_os (re_world r))"
  "os_in (w_os (re_world (starved env e r))) = os_in (w_os (re_world r))"
  "os_out (w_os (re_world (starved env e r))) = os_out (w_os (re_world r))"
  by (simp_all add: starved_def Let_def)

lemma turn_starved:
  assumes "reactor_inv r" and "log_slots r = []" and "watched_fds (re_conns r) = Some fds"
    and "env_select env (foldl max 1 fds + 1) fds r = (- 1, [], with_errno e r)" and "length (env_strerror env e) \<le> 60"
  shows "ducq_loop_turn env b r = Some (b, starved env e r)"
proof -
  have "length (log_line (select_failed env e)) < DUCQ_MSGSZ"
    using assms(5) by (simp add: log_line_def select_failed_def fmt_str_def)
  then have l: "ducq_reactor_log (select_failed env e) (with_errno e r) =
      Some (fst (re_logfunc (with_errno e r) (select_failed env e) (re_logger (with_errno e r))), starved env e r)"
    using log_idle_run [of "with_errno e r" "select_failed env e"] assms(1,2) by (simp add: starved_def Let_def)
  show ?thesis
    using assms(3,4) l by (simp add: ducq_loop_turn_def select_failed_def)
qed

text \<open>Some turns, one after the other.\<close>

primrec turns :: "('l, 'd) loop_env \<Rightarrow> nat \<Rightarrow> char list \<Rightarrow> ('l, 'd) reactor \<Rightarrow> (char list \<times> ('l, 'd) reactor) option" where
  "turns env 0 buffer r = Some (buffer, r)"
| "turns env (Suc n) buffer r = do { (buffer, r) \<leftarrow> ducq_loop_turn env buffer r; turns env n buffer r }"

text \<open>A \<open>select\<close> that fails as long as nothing is called.\<close>

definition select_fails :: "('l, 'd) loop_env \<Rightarrow> int list \<Rightarrow> ('l, 'd) reactor \<Rightarrow> bool" where
  "select_fails env fds r \<longleftrightarrow>
     (\<forall>n s. os_calls (w_os (re_world s)) = os_calls (w_os (re_world r)) \<longrightarrow> (\<exists>e. env_select env n fds s = (- 1, [], with_errno e s)))"

lemma starves:
  assumes "reactor_inv r" and "log_slots r = []" and "watched_fds (re_conns r) = Some fds" and "select_fails env fds r"
    and "\<forall>e. length (env_strerror env e) \<le> 60"
  shows "\<exists>e. ducq_loop_turn env b r = Some (b, starved env e r) \<and> select_fails env fds (starved env e r)"
proof -
  obtain e where "env_select env (foldl max 1 fds + 1) fds r = (- 1, [], with_errno e r)"
    using assms(4) unfolding select_fails_def by blast
  then have "ducq_loop_turn env b r = Some (b, starved env e r)"
    using turn_starved [OF assms(1-3)] assms(5) by blast
  then show ?thesis
    using assms(4) by (auto simp: select_fails_def)
qed

lemma turns_starve:
  assumes "reactor_inv r" and "log_slots r = []" and "watched_fds (re_conns r) = Some fds" and "select_fails env fds r"
    and "\<forall>e. length (env_strerror env e) \<le> 60"
  shows "\<exists>es. length es = n \<and> turns env n b r = Some (b, fold (starved env) es r)"
  using assms
proof (induction n arbitrary: r)
  case (Suc n)
  obtain e where e: "ducq_loop_turn env b r = Some (b, starved env e r)" "select_fails env fds (starved env e r)"
    using starves [OF Suc.prems] by blast
  obtain es where "length es = n" "turns env n b (starved env e r) = Some (b, fold (starved env) es (starved env e r))"
    using Suc.IH [of "starved env e r"] Suc.prems(1-3,5) e(2) by auto
  then show ?case
    using e(1) by (intro exI [of _ "e # es"]) simp
qed simp

lemma fold_starved:
  "re_conns (fold (starved env) es r) = re_conns r" "w_heap (re_world (fold (starved env) es r)) = w_heap (re_world r)"
  "os_in (w_os (re_world (fold (starved env) es r))) = os_in (w_os (re_world r))"
  "os_out (w_os (re_world (fold (starved env) es r))) = os_out (w_os (re_world r))"
  by (induction es arbitrary: r) simp_all

lemma loop_spins:
  assumes "reactor_inv r" and "log_slots r = []" and "watched_fds (re_conns r) = Some fds" and "select_fails env fds r"
    and "\<forall>e. length (env_strerror env e) \<le> 60"
  shows "ducq_loop env r = None"
proof -
  let ?good = "\<lambda>s. reactor_inv s \<and> log_slots s = [] \<and> watched_fds (re_conns s) = Some fds \<and> select_fails env fds s"
  have "\<exists>b' s'. ducq_loop_turn env b s = Some (b', s') \<and> ?good s'" if "?good s" for b s
    using starves [of s fds env b] that assms(5) by auto
  then show ?thesis
    unfolding ducq_loop_def using assms(1-4) by (intro loop_runs [of ?good]) auto
qed

text \<open>The main loop has no exit: when \<open>select\<close> fails every time (a descriptor of the table that has
  been closed is enough) it logs the failure and tries again, for ever, and serves nobody.\<close>

theorem main_loop_spins:
  assumes "reactor_inv r" and "log_slots r = []" and "watched_fds (re_conns r) = Some fds"
    and "\<forall>n s. \<exists>e. env_select env n fds s = (- 1, [], with_errno e s)" and "\<forall>e. length (env_strerror env e) \<le> 60"
  shows "ducq_loop env r = None"
  using assms by (intro loop_spins) (auto simp: select_fails_def)

theorem main_loop_spins_witness:
  "ducq_loop (demo_loop\<lparr>env_select := (\<lambda>n fds r. (- 1, [], with_errno EOTHER r))\<rparr>) (demo_ready []) = None"
proof -
  have "watched_fds (re_conns (demo_ready [])) = Some [5, 6]"
    by (simp add: demo_ready_def demo_server_def demo_conn_list watched_fds_def demo_conn_def FD_SETSIZE_def)
  then show ?thesis
    by (intro main_loop_spins [OF serving_inv [OF demo_ready(1)] demo_ready(3), of "[]"]) (auto simp: demo_loop_def)
qed

end
