(* ===== verification/Server_Invariant.thy ===== *)
theory Server_Invariant
  imports Main_Loop
begin

text \<open>
  Whatever arrives on the connections and however the network behaves: every operation of the server
  that is defined keeps the table in order (\<open>table_ok\<close>), the commands, the dispatcher and the main loop
  included.  No live slot ever holds a client that has been freed, nor two slots the same one.
\<close>

section \<open>Operations on clients\<close>

named_theorems keeps_heap \<open>operations on a client that leave the set of allocated clients alone\<close>
lemma send_heap [keeps_heap]: "ducq_send p bs w = Some (st, w') \<Longrightarrow> same_heap w w'"
  by (auto simp: ducq_send_def dest: deref_same_heap send_ok)

lemma recv_heap [keeps_heap]: "ducq_recv p buf n w = Some (x, w') \<Longrightarrow> same_heap w w'"
  by (auto simp: ducq_recv_def dest: deref_same_heap recv_ok)

lemma id_heap [keeps_heap]: "ducq_id p w = Some (a, w') \<Longrightarrow> same_heap w w'"
  by (auto simp: ducq_id_def dest: deref_same_heap id_ok)

lemma parts_heap [keeps_heap]: "ducq_parts p w = Some (st, w') \<Longrightarrow> same_heap w w'"
  by (auto simp: ducq_parts_def dest: deref_same_heap parts_ok_client)

lemma end_heap [keeps_heap]: "ducq_end p w = Some (st, w') \<Longrightarrow> same_heap w w'"
  by (auto simp: ducq_end_def dest: deref_same_heap end_ok)

lemma send_buf_heap [keeps_heap]: "send_buf p buf n w = Some (st, w') \<Longrightarrow> same_heap w w'"
  by (auto simp: send_buf_def split: if_splits dest: send_heap)

lemma send_ack_heap [keeps_heap]: "ducq_send_ack p s w = Some (st, w') \<Longrightarrow> same_heap w w'"
  by (simp add: send_ack_text send_heap)

lemma on_world_table [keeps_table]:
  "on_world f r = Some (a, r') \<Longrightarrow> table_ok r \<Longrightarrow> (\<And>w'. f (re_world r) = Some (a, w') \<Longrightarrow> same_heap (re_world r) w') \<Longrightarrow> table_ok r'"
  by (auto simp: on_world_def table_world)

lemma world_os_table [simp]: "table_ok (r\<lparr>re_world := (re_world r)\<lparr>w_os := s\<rparr>\<rparr>) = table_ok r"
  by (simp add: table_ok_def ids_ok_def)

section \<open>The table\<close>

lemma subscribe_snd_table [simp]: "table_ok r \<Longrightarrow> table_ok (snd (ducq_reactor_subscribe p route r))"
  and add_server_snd_table [simp]: "table_ok r \<Longrightarrow> table_ok (snd (ducq_reactor_add_server fd f ctx r))"
  by (metis subscribe_table prod.collapse) (metis add_server_table prod.collapse)

section \<open>Loops\<close>

text \<open>A hook that keeps the table in order whenever it is defined: so does every loop that runs it,
  whichever clients it asks to remove.\<close>

locale table_hook =
  fixes hook :: "('x, 'l, 'd) loop_hook"
  assumes hook_table: "hook i x r = Some (c, y, r') \<Longrightarrow> table_ok r \<Longrightarrow> table_ok r'"
begin

lemma loop_slots_table:
  "loop_slots hook is ctl x r = Some (c, y, r') \<Longrightarrow> set is \<subseteq> {..<DUCQ_MAX_CONNECTIONS} \<Longrightarrow> table_ok r \<Longrightarrow> table_ok r'"
proof (induction "is" arbitrary: ctl x r)
  case (Cons i "is")
  show ?case
  proof (cases "conn_fd (re_conns r ! i) = - 1")
    case False
    obtain d z r1 where h: "hook i x r = Some (d, z, r1)"
      using Cons.prems(1) False by (auto simp: bind_Some_conv)
    then have r1: "table_ok r1"
      using hook_table Cons.prems(3) by blast
    obtain r2 where r2: "(if d AND DUCQ_LOOP_DELETE \<noteq> 0 then connection_free i r1 else Some r1) = Some r2"
        "(if d AND DUCQ_LOOP_BREAK \<noteq> 0 then Some (d, z, r2) else loop_slots hook is d z r2) = Some (c, y, r')"
      using Cons.prems(1) False h by (auto simp: bind_Some_conv)
    have "table_ok r2"
      using r2(1) r1 Cons.prems(2) free_table [of i r1 r2] by (auto split: if_splits)
    then show ?thesis
      using r2(2) Cons.IH [of d z r2] Cons.prems(2) by (auto split: if_splits)
  qed (use Cons in auto)
qed simp

lemma loop_table: "connection_loop_template hook x r = Some (c, y, r') \<Longrightarrow> table_ok r \<Longrightarrow> table_ok r'"
  unfolding connection_loop_template_def by (rule loop_slots_table) auto

end

text \<open>A function over the clients.\<close>

locale table_fun =
  fixes apply_f :: "('x, 'l, 'd) loop_fun"
  assumes fun_table: "apply_f p i x r = Some (c, y, r') \<Longrightarrow> table_ok r \<Longrightarrow> table_ok r'"
begin

lemma client_hook: "loop_through_client apply_f i x r = Some (c, y, r') \<Longrightarrow> table_ok r \<Longrightarrow> table_ok r'"
  using fun_table by (auto simp: loop_through_client_def split: conn_as.splits)

end

sublocale table_fun \<subseteq> table_hook "loop_through_client apply_f"
  by unfold_locales (rule client_hook)

context table_fun
begin

lemma reactor_loop_table: "ducq_reactor_loop apply_f x r = Some (c, y, r') \<Longrightarrow> table_ok r \<Longrightarrow> table_ok r'"
  unfolding ducq_reactor_loop_def by (rule loop_table)

end

interpretation log_table: table_fun "do_send_to_log_route b n :: (unit, 'l, 'd) loop_fun" for b n
  by unfold_locales (auto simp: do_send_to_log_route_def bind_Some_conv split: if_splits dest: keeps_table keeps_heap)

interpretation delete_table: table_fun "delete_client p :: (unit, 'l, 'd) loop_fun" for p
  by unfold_locales (auto simp: delete_client_def split: if_splits)

interpretation publish_table: table_fun "publish_to route b n :: (nat, 'l, 'd) loop_fun" for route b n
  by unfold_locales (auto simp: publish_to_def bind_Some_conv split: if_splits dest: keeps_table keeps_heap)

interpretation list_table: table_fun "list_entry :: (char list \<times> nat \<times> nat, 'l, 'd) loop_fun"
  by unfold_locales (auto simp: list_entry_def Let_def case_prod_beta bind_Some_conv split: if_splits dest!: on_world_table dest: keeps_heap)

interpretation lsconn_table: table_fun "send_entry p :: (unit, 'l, 'd) loop_fun" for p
  by unfold_locales (auto simp: send_entry_def Let_def case_prod_beta bind_Some_conv split: if_splits dest!: on_world_table dest: keeps_heap)

interpretation unsub_table: table_fun "unsubscribe_id t :: (nat, 'l, 'd) loop_fun" for t
  by unfold_locales (auto simp: unsubscribe_id_def bind_Some_conv split: if_splits dest!: on_world_table dest: keeps_heap)

lemmas loops_table = log_table.reactor_loop_table delete_table.reactor_loop_table publish_table.reactor_loop_table
  list_table.reactor_loop_table lsconn_table.reactor_loop_table unsub_table.reactor_loop_table

lemma reactor_log_table [keeps_table]: "ducq_reactor_log e r = Some (rc, r') \<Longrightarrow> table_ok r \<Longrightarrow> table_ok r'"
  by (auto simp: ducq_reactor_log_def Let_def case_prod_beta bind_Some_conv split: if_splits dest!: log_table.reactor_loop_table)

lemma ducq_log_table [keeps_table]: "ducq_log level f p t r = Some r' \<Longrightarrow> table_ok r \<Longrightarrow> table_ok r'"
  by (auto simp: ducq_log_def bind_Some_conv dest!: on_world_table reactor_log_table dest: keeps_heap)

lemma log_as_table [keeps_table]: "log_as level f s t r = Some r' \<Longrightarrow> table_ok r \<Longrightarrow> table_ok r'"
  by (auto simp: log_as_def dest!: reactor_log_table)

lemma delete_run_table [keeps_table]: "ducq_reactor_delete p r = Some (b, r') \<Longrightarrow> table_ok r \<Longrightarrow> table_ok r'"
  by (auto simp: ducq_reactor_delete_def bind_Some_conv split: if_splits dest!: delete_table.reactor_loop_table)

section \<open>Commands\<close>

definition command_table :: "('l, 'd) command \<Rightarrow> bool" where
  "command_table c \<longleftrightarrow> (\<forall>p buffer n r st b r'. c p buffer n r = Some (st, b, r') \<longrightarrow> table_ok r \<longrightarrow> table_ok r')"

lemma send_table [keeps_table]:
  "on_world (ducq_send p bs) r = Some (st, r') \<Longrightarrow> table_ok r \<Longrightarrow> table_ok r'"
  "on_world (send_buf p buf n) r = Some (st, r') \<Longrightarrow> table_ok r \<Longrightarrow> table_ok r'"
  "on_world (ducq_send_ack p s) r = Some (st, r') \<Longrightarrow> table_ok r \<Longrightarrow> table_ok r'"
  "on_world (ducq_id p) r = Some (a, r') \<Longrightarrow> table_ok r \<Longrightarrow> table_ok r'"
  "on_world (ducq_recv p buf n) r = Some (x, r') \<Longrightarrow> table_ok r \<Longrightarrow> table_ok r'"
  "on_world (ducq_parts p) r = Some (st, r') \<Longrightarrow> table_ok r \<Longrightarrow> table_ok r'"
  "on_world (ducq_end p) r = Some (st, r') \<Longrightarrow> table_ok r \<Longrightarrow> table_ok r'"
  by (erule (1) on_world_table, erule keeps_heap)+

lemma ping_table: "command_table PING" and pong_table: "command_table PONG"
  and epoch_table: "command_table epoch" and time_table: "command_table (gettime lt)"
  by (auto simp: command_table_def PING_def PONG_def epoch_def gettime_def log_payload_def Let_def case_prod_beta bind_Some_conv
      dest!: ducq_log_table send_table)

lemma list_subscriptions_table: "command_table list_subscriptions"
  by (auto simp: command_table_def list_subscriptions_def Let_def case_prod_beta bind_Some_conv
      dest!: ducq_log_table send_table list_table.reactor_loop_table)

lemma lsconn_run_table: "command_table lsconn"
  by (auto simp: command_table_def lsconn_def list_connections_def Let_def case_prod_beta bind_Some_conv
      split: if_splits dest!: ducq_log_table send_table lsconn_table.reactor_loop_table)

lemma copy_route_table [keeps_table]: "copy_route s r = Some (st, t, r') \<Longrightarrow> table_ok r \<Longrightarrow> table_ok r'"
  by (auto simp: copy_route_def Let_def case_prod_beta bind_Some_conv split: option.splits if_splits prod.splits)

lemma set_last_table [keeps_table]: "ducq_set_last_msg k m r = Some (st, r') \<Longrightarrow> table_ok r \<Longrightarrow> table_ok r'"
  by (auto simp: ducq_set_last_msg_def)

lemma pub_as_table: "command_table (pub_as f)"
  unfolding command_table_def
proof (intro allI impI)
  fix p buffer n st b and r r' :: "('a, 'b) reactor"
  assume run: "pub_as f p buffer n r = Some (st, b, r')" and ok: "table_ok r"
  then show "table_ok r'"
    by (auto simp: pub_as_def Let_def case_prod_beta bind_Some_conv split: if_splits option.splits
        dest!: copy_route_table set_last_table send_table ducq_log_table delete_run_table publish_table.reactor_loop_table)
qed

lemma sub_answer_table [keeps_table]: "sub_answer p s t k r = Some (st, r') \<Longrightarrow> table_ok r \<Longrightarrow> table_ok r'"
  by (auto simp: sub_answer_def bind_Some_conv split: if_splits dest!: send_table)

lemma sub_as_table: "command_table (sub_as f)"
  by (auto simp: command_table_def sub_as_def Let_def case_prod_beta bind_Some_conv split: if_splits option.splits prod.splits
      dest!: subscribe_table sub_answer_table send_table ducq_log_table delete_run_table)

lemma unsub_run_table: "command_table unsub"
  by (auto simp: command_table_def unsub_def Let_def case_prod_beta bind_Some_conv split: if_splits
      dest!: send_table ducq_log_table unsub_table.reactor_loop_table)

section \<open>The dispatcher\<close>

text \<open>What the order of the table asks of the code the server calls without having its source: Lua and
  the loaded commands.\<close>

definition lua_table :: "('l, 's) disp_env \<Rightarrow> bool" where
  "lua_table env \<longleftrightarrow>
     (\<forall>path r e r'. de_lua_file env path r = Some (e, r') \<longrightarrow> table_ok r \<longrightarrow> table_ok r') \<and>
     (\<forall>name p msg r x r'. de_lua_call env name p msg r = Some (x, r') \<longrightarrow> table_ok r \<longrightarrow> table_ok r')"

definition env_table :: "('l, 's) disp_env \<Rightarrow> bool" where
  "env_table env \<longleftrightarrow> (\<forall>f. command_table (de_exec env f)) \<and> lua_table env"

lemma set_top_ok [simp]: "table_ok (set_top n r) = table_ok r"
  by (simp add: set_top_def)

lemma close_fd_table [simp]: "table_ok (close_fd fd r) = table_ok r"
  by (simp add: close_fd_def)

lemma unknown_table: "command_table unknown"
  by (auto simp: command_table_def unknown_def Let_def bind_Some_conv dest!: ducq_log_table send_table)

lemma lua_command_table: "env_table env \<Longrightarrow> command_table (lua_command env name)"
  unfolding command_table_def env_table_def lua_table_def
  by (auto simp: lua_command_def Let_def bind_Some_conv split: lua_result.split_asm dest!: ducq_log_table)

lemma send_line_table [keeps_table]: "send_line p t r = Some (st, r') \<Longrightarrow> table_ok r \<Longrightarrow> table_ok r'"
  by (auto simp: send_line_def Let_def case_prod_beta dest!: send_table)

lemma send_lines_table [keeps_table]: "send_lines p ts r = Some (st, r') \<Longrightarrow> table_ok r \<Longrightarrow> table_ok r'"
proof (induction ts arbitrary: r)
  case (Cons t ts)
  then obtain a s where s: "send_line p t r = Some (a, s)" "a \<noteq> DUCQ_OK \<and> s = r' \<or> send_lines p ts s = Some (st, r')"
    by (auto simp: bind_Some_conv split: if_splits)
  then have "table_ok s"
    using Cons.prems(2) send_line_table by blast
  then show ?case
    using s(2) Cons.IH by blast
qed simp

lemma list_lua_table [keeps_table]: "list_lua n p entries r = Some (st, r') \<Longrightarrow> table_ok r \<Longrightarrow> table_ok r'"
proof (induction entries arbitrary: r)
  case (Cons e entries)
  from Cons.prems show ?case
    by (cases e) (auto simp: bind_Some_conv split: if_split_asm lua_value.split_asm lua_key.split_asm option.split_asm
        dest!: send_line_table Cons.IH)
qed auto

lemma lscmd_table: "command_table (lscmd env)"
  by (auto simp: command_table_def lscmd_def Let_def case_prod_beta bind_Some_conv split: if_splits option.split_asm
      dest!: ducq_log_table send_table send_lines_table list_lua_table simp del: send_lines.simps list_lua.simps)

lemma find_lua_table [keeps_table]:
  assumes "find_lua_command env name r = Some (f, r')" and "table_ok r"
  shows "table_ok r'"
proof -
  obtain L where L: "lua_room 1 r = Some L"
    using assms(1) by (auto simp: find_lua_command_def bind_Some_conv)
  show ?thesis
  proof (cases "de_lua_commands env (lua_state L)")
    case (Some entries)
    then show ?thesis
      using assms L by (cases "map_of entries (LuaString name)")
        (auto simp: find_lua_command_def bind_Some_conv split: lua_value.split_asm if_splits)
  qed (use assms L in \<open>auto simp: find_lua_command_def\<close>)
qed

lemma find_table [keeps_table]: "find_command env buffer r = Some (f, b, r') \<Longrightarrow> table_ok r \<Longrightarrow> table_ok r'"
  by (auto simp: find_command_def Let_def case_prod_beta bind_Some_conv split: option.split_asm if_splits prod.split_asm
      dest!: find_lua_table)

lemma dispatch_table: "env_table env \<Longrightarrow> command_table (ducq_dispatch env)"
proof -
  assume env: "env_table env"
  have "command_table (run_command env f)" for f
    using env unknown_table lscmd_table lua_command_table by (cases f) (auto simp: run_command_def env_table_def)
  then show ?thesis
    by (auto simp: command_table_def ducq_dispatch_def bind_Some_conv dest!: find_table)
qed

lemma load_file_table [keeps_table]:
  "load_lua_file env path r = Some (st, r') \<Longrightarrow> env_table env \<Longrightarrow> table_ok r \<Longrightarrow> table_ok r'"
  by (auto simp: load_lua_file_def Let_def bind_Some_conv env_table_def lua_table_def split: option.split_asm dest!: log_as_table)

lemma load_names_table [keeps_table]:
  "load_lua_names env path names r = Some (st, r') \<Longrightarrow> env_table env \<Longrightarrow> table_ok r \<Longrightarrow> table_ok r'"
  by (induction names arbitrary: r) (auto simp: bind_Some_conv split: if_splits dest!: load_file_table)

lemma load_lua_table [keeps_table]:
  "load_lua env path r = Some (st, r') \<Longrightarrow> env_table env \<Longrightarrow> table_ok r \<Longrightarrow> table_ok r'"
  by (auto simp: load_lua_def bind_Some_conv split: option.split_asm file_kind.split_asm
      dest!: log_as_table load_file_table load_names_table simp del: load_lua_names.simps)

lemma reload_table [keeps_table]:
  "reload_events env events r = Some r' \<Longrightarrow> env_table env \<Longrightarrow> table_ok r \<Longrightarrow> table_ok r'"
proof (induction events arbitrary: r)
  case (Cons e events)
  from Cons.prems show ?case
    by (cases e) (auto simp: bind_Some_conv Let_def split: option.split_asm dest!: log_as_table load_lua_table Cons.IH)
qed simp

lemma notify_table [keeps_table]:
  "ducq_dispatcher_accept_notify env r = Some r' \<Longrightarrow> env_table env \<Longrightarrow> table_ok r \<Longrightarrow> table_ok r'"
  by (auto simp: ducq_dispatcher_accept_notify_def split: notify_read.split_asm dest!: log_as_table reload_table)

section \<open>The main loop\<close>

text \<open>The same of what the main loop calls: \<open>select\<close> and the accept functions, and the dispatcher.\<close>

definition accept_table :: "('l, 'd) loop_env \<Rightarrow> bool" where
  "accept_table env \<longleftrightarrow>
     (\<forall>f fd ctx r r'. env_accept env f fd ctx r = Some r' \<longrightarrow> table_ok r \<longrightarrow> table_ok r') \<and>
     (\<forall>n fds r k ready r'. env_select env n fds r = (k, ready, r') \<longrightarrow> table_ok r \<longrightarrow> table_ok r')"

definition loop_env_table :: "('l, 'd) loop_env \<Rightarrow> bool" where
  "loop_env_table env \<longleftrightarrow> command_table (env_dispatch env) \<and> accept_table env"

lemma round_hook:
  assumes "loop_env_table env" and "round_table env fds i x r = Some (c, y, r')" and "table_ok r"
  shows "table_ok r'"
proof (cases x)
  case (Pair buffer nready)
  show ?thesis
  proof (cases "conn_as (re_conns r ! i)")
    case (AsServer f ctx)
    then show ?thesis
      using assms Pair by (auto simp: round_table_def Let_def bind_Some_conv loop_env_table_def accept_table_def split: if_splits)
  next
    case (AsClient p area)
    show ?thesis
      using assms Pair AsClient
      by (auto simp: round_table_def Let_def bind_Some_conv case_prod_beta loop_env_table_def accept_table_def command_table_def
          split: if_splits dest!: send_table reactor_log_table)
  qed
qed

lemma turn_table [keeps_table]:
  assumes "ducq_loop_turn env b r = Some (b', r')" and "loop_env_table env" and "table_ok r"
  shows "table_ok r'"
proof -
  have hook: "table_hook (round_table env fds)" for fds
    by unfold_locales (rule round_hook [OF assms(2)])
  obtain fds k ready s where s: "watched_fds (re_conns r) = Some fds" "env_select env (foldl max 1 fds + 1) fds r = (k, ready, s)"
    using assms(1) by (auto simp: ducq_loop_turn_def bind_Some_conv) (metis prod_cases3)
  then have "table_ok s"
    using assms(2,3) by (auto simp: loop_env_table_def accept_table_def)
  then show ?thesis
    using assms(1) s
    by (auto simp: ducq_loop_turn_def bind_Some_conv case_prod_beta split: if_splits
        dest!: reactor_log_table table_hook.loop_table [OF hook])
qed

section \<open>A server from its construction\<close>

lemma fresh_table: "w_heap w = Map.empty \<Longrightarrow> table_ok (fresh_reactor uninit logger logfunc w)"
  by (rule reactor_invD(8) [OF fresh_inv])

lemma make_lua_table [keeps_table]:
  assumes "make_lua env r = Some (L, r')" and "table_ok r"
  shows "table_ok r'"
proof -
  obtain e s where e: "de_lua_new env = (e, s)"
    by fastforce
  show ?thesis
    using assms by (cases e) (auto simp: make_lua_def e bind_Some_conv dest!: log_as_table)
qed

lemma dispatcher_new_table [keeps_table]:
  "ducq_dispatcher_new env fd r = Some (d, r') \<Longrightarrow> table_ok r \<Longrightarrow> table_ok r'"
  by (auto simp: ducq_dispatcher_new_def Let_def case_prod_beta bind_Some_conv split: if_splits dest!: make_lua_table)

lemma new_table:
  "ducq_reactor_new_with_log ok (ducq_dispatcher_new env fd) uninit logger logfunc w = Some (Some r) \<Longrightarrow>
    w_heap w = Map.empty \<Longrightarrow> table_ok r"
  by (auto simp: ducq_reactor_new_with_log_def Let_def case_prod_beta bind_Some_conv sys_malloc_def answer_def
      split: if_splits list.splits dest!: dispatcher_new_table intro!: fresh_table)

lemma load_command_table [keeps_table]: "load_command env path name r = Some r' \<Longrightarrow> table_ok r \<Longrightarrow> table_ok r'"
  by (auto simp: load_command_def bind_Some_conv split: if_splits dl_result.split_asm dest!: log_as_table)

lemma load_names_run_table [keeps_table]: "load_names env path n names r = Some r' \<Longrightarrow> table_ok r \<Longrightarrow> table_ok r'"
  by (induction names arbitrary: r) (auto simp: bind_Some_conv split: if_splits dest!: load_command_table)

lemma load_path_table [keeps_table]:
  "ducq_dispatcher_load_commands_path env again path r = Some (st, r') \<Longrightarrow> table_ok r \<Longrightarrow> table_ok r'"
  by (auto simp: ducq_dispatcher_load_commands_path_def Let_def case_prod_beta bind_Some_conv
      split: if_splits option.split_asm dest!: load_names_run_table simp del: load_names.simps)

lemma dispatcher_add_table [keeps_table]:
  assumes "ducq_dispatcher_add env path r = Some (st, r')" and "env_table env" and "table_ok r"
  shows "table_ok r'"
proof -
  obtain r1 d where r1: "log_as DUCQ_LOG_INFO ''ducq_dispatcher_add'' ''dispatcher'' (''request to add '' @ [CHR 0x27] @ path @ [CHR 0x27]) r = Some r1"
      "re_dispatcher r1 = Some d"
    using assms(1) by (auto simp: ducq_dispatcher_add_def bind_Some_conv)
  show ?thesis
  proof (cases "find_wd (- 1) (di_extensions d)")
    case (Some i)
    then show ?thesis
      using assms r1 log_as_table [OF r1(1) assms(3)]
      by (auto simp: ducq_dispatcher_add_def Let_def bind_Some_conv split: if_split_asm dest!: log_as_table load_lua_table)
  qed (use assms r1 log_as_table [OF r1(1) assms(3)] in \<open>auto simp: ducq_dispatcher_add_def\<close>)
qed

text \<open>The life of a server: it is made, loads commands and Lua files, gets its listening sockets, and
  runs its main loop for any number of turns.\<close>

inductive served :: "('l, 's) disp_env \<Rightarrow> ('l, 's dispatcher) loop_env \<Rightarrow> ('l, 's) server \<Rightarrow> bool"
  for denv env where
  served_new: "w_heap w = Map.empty \<Longrightarrow>
    ducq_reactor_new_with_log ok (ducq_dispatcher_new denv fd) uninit logger logfunc w = Some (Some r) \<Longrightarrow> served denv env r"
| served_load: "served denv env r \<Longrightarrow> ducq_dispatcher_load_commands_path denv again path r = Some (st, r') \<Longrightarrow> served denv env r'"
| served_add: "served denv env r \<Longrightarrow> ducq_dispatcher_add denv path r = Some (st, r') \<Longrightarrow> served denv env r'"
| served_listen: "served denv env r \<Longrightarrow> ducq_reactor_add_server fd f ctx r = (st, r') \<Longrightarrow> served denv env r'"
| served_turn: "served denv env r \<Longrightarrow> ducq_loop_turn env b r = Some (b', r') \<Longrightarrow> served denv env r'"

lemma served_table: "served denv env r \<Longrightarrow> env_table denv \<Longrightarrow> loop_env_table env \<Longrightarrow> table_ok r"
  by (induction rule: served.induct) (auto intro: new_table dest: keeps_table)

section \<open>The property\<close>

text \<open>The commands of the repository.\<close>

definition shipped :: "(int \<Rightarrow> tm) \<Rightarrow> ('l, 'd) command list" where
  "shipped localtime =
     [PING, PONG, epoch, gettime localtime, list_subscriptions, lsconn, pub, publish, sub, subscribe, unsub]"

lemma shipped_table: "c \<in> set (shipped lt) \<Longrightarrow> command_table c"
  unfolding shipped_def
  using ping_table pong_table epoch_table time_table list_subscriptions_table lsconn_run_table pub_as_table sub_as_table unsub_run_table
  by (auto simp: pub_def publish_def sub_def subscribe_def)

text \<open>A server that runs the commands of the repository, from its construction on, through any number
  of turns of the main loop, with any messages from its clients and any behaviour of the network: every
  live slot holds a client that is allocated, and no client is in two of them.\<close>

theorem server_keeps_table:
  assumes "served denv env r" and "range (de_exec denv) \<subseteq> set (shipped lt)" and "lua_table denv"
    and "env_dispatch env = ducq_dispatch denv" and "accept_table env"
  shows "(\<forall>i p. live i p r \<longrightarrow> p \<noteq> 0 \<and> w_heap (re_world r) p \<noteq> None) \<and>
    (\<forall>i j p. live i p r \<and> live j p r \<longrightarrow> i = j)"
proof -
  have env: "env_table denv"
    using assms(2,3) shipped_table by (fastforce simp: env_table_def)
  then have "table_ok r"
    using served_table [OF assms(1)] dispatch_table [OF env] assms(4,5) by (simp add: loop_env_table_def)
  then show ?thesis
    using table_okD(2,3) table_unique by blast
qed

text \<open>A server with a listening socket on the descriptor 3 accepts one client.\<close>

definition demo_served_env :: "(unit, nat) disp_env" where
  "demo_served_env = demo_env\<lparr>de_exec := (\<lambda>f. pub)\<rparr>"

definition demo_served_loop :: "(unit, nat dispatcher) loop_env" where
  "demo_served_loop = \<lparr>env_dispatch = ducq_dispatch demo_served_env,
     env_accept = (\<lambda>f fd ctx r.
       if w_heap (re_world r) 9 \<noteq> None then Some r
       else Some (snd (ducq_reactor_add_client 7 9
         (r\<lparr>re_world := (re_world r)\<lparr>w_heap := (w_heap (re_world r))(9 \<mapsto> demo_tcp 7)\<rparr>\<rparr>)))),
     env_select = (\<lambda>n fds r. (1, [3], r)), env_strerror = (\<lambda>e. ''error'')\<rparr>"

definition demo_new :: "(unit, nat) server option option" where
  "demo_new = ducq_reactor_new_with_log True (ducq_dispatcher_new demo_served_env 4) [] () None
     \<lparr>w_os = quiet_os, w_heap = Map.empty\<rparr>"

definition demo_accepted :: "(unit, nat) server option" where
  "demo_accepted = do {
     r \<leftarrow> demo_new;
     r \<leftarrow> r;
     (_, r) \<leftarrow> ducq_loop_turn demo_served_loop [] (snd (ducq_reactor_add_server 3 1 0 r));
     Some r
   }"

lemma demo_accepted:
  "map_option (\<lambda>r. (conn_fd (re_conns r ! 2), conn_client (re_conns r ! 2))) demo_accepted = Some (7, Some 9)"
  by code_simp

lemma demo_accept_table: "accept_table demo_served_loop"
proof -
  have "table_ok (snd (ducq_reactor_add_client 7 9
      (r\<lparr>re_world := (re_world r)\<lparr>w_heap := (w_heap (re_world r))(9 \<mapsto> demo_tcp 7)\<rparr>\<rparr>)))"
    if "table_ok r" and "w_heap (re_world r) 9 = None" for r :: "(unit, nat) server"
  proof (rule add_client_table [OF prod.collapse [symmetric]])
    show "table_ok (r\<lparr>re_world := (re_world r)\<lparr>w_heap := (w_heap (re_world r))(9 \<mapsto> demo_tcp 7)\<rparr>\<rparr>)"
      using that(1) by (auto simp: table_ok_def ids_ok_def demo_tcp_def tcp_five_def)
    show "\<forall>i. \<not> live i 9 (r\<lparr>re_world := (re_world r)\<lparr>w_heap := (w_heap (re_world r))(9 \<mapsto> demo_tcp 7)\<rparr>\<rparr>)"
      using table_okD(3) [OF that(1)] that(2) by (metis live_world)
  qed simp_all
  then show ?thesis
    by (auto simp: accept_table_def demo_served_loop_def split: if_splits)
qed

theorem server_keeps_table_witness:
  "\<exists>r. served demo_served_env demo_served_loop r \<and> live 2 9 r \<and> w_heap (re_world r) 9 \<noteq> None \<and> \<not> live 1 9 r"
proof -
  obtain r where r: "demo_accepted = Some r" "conn_fd (re_conns r ! 2) = 7" "conn_client (re_conns r ! 2) = Some 9"
    using demo_accepted by (cases demo_accepted) auto
  obtain r0 r1 b where s: "demo_new = Some (Some r0)" "ducq_loop_turn demo_served_loop [] (snd (ducq_reactor_add_server 3 1 0 r0)) = Some (b, r1)"
      "r1 = r"
    using r(1) by (auto simp: demo_accepted_def bind_Some_conv)
  have "served demo_served_env demo_served_loop r0"
    using s(1) unfolding demo_new_def by (rule served_new [rotated]) simp
  then have "served demo_served_env demo_served_loop (snd (ducq_reactor_add_server 3 1 0 r0))"
    by (rule served_listen [OF _ prod.collapse [symmetric]])
  then have sv: "served demo_served_env demo_served_loop r"
    using s(2,3) served_turn by blast
  have live: "live 2 9 r"
    using r(2,3) by (simp add: live_def)
  have "(\<forall>i p. live i p r \<longrightarrow> p \<noteq> 0 \<and> w_heap (re_world r) p \<noteq> None) \<and> (\<forall>i j p. live i p r \<and> live j p r \<longrightarrow> i = j)"
  proof (rule server_keeps_table [OF sv])
    show "range (de_exec demo_served_env) \<subseteq> set (shipped (\<lambda>t. \<lparr>tm_year = 70, tm_mon = 0, tm_mday = 1, tm_hour = 0, tm_min = 0, tm_sec = 0\<rparr>))"
      by (auto simp: demo_served_env_def shipped_def)
    show "lua_table demo_served_env"
      by (simp add: lua_table_def demo_served_env_def demo_env_def)
  qed (simp_all add: demo_accept_table, simp add: demo_served_loop_def)
  then show ?thesis
    using sv live by (metis numeral_eq_one_iff semiring_norm(85))
qed

end
