(* ===== verification/Commands_Faults.thy ===== *)
theory Commands_Faults
  imports Publish_Subscribe
begin

text \<open>
  Where the commands of \<open>src/commands/\<close> and the log leave the domain in which C says what they do: a
  message chosen by one client is enough in each case.
\<close>

section \<open>PING\<close>

text \<open>the payload of a PING is the format of the log entry.  When it holds a directive other than
  \<open>%%\<close>, or there is no payload at all, the command is undefined in every state of the server.\<close>

theorem ping_format_string:
  assumes "c_str buffer 0 = Some text" and "case ducq_parse_payload text of None \<Rightarrow> True | Some k \<Rightarrow> fmt_no_args (drop k text) = None"
  shows "PING p buffer n r = None"
  using assms by (auto simp: PING_def log_payload_def split: option.splits)

theorem ping_format_string_witness:
  "PING 9 (demo_buffer (message_text ''PING'' ''_'' ''%s'')) 9 (demo ''b'' ''a'') = None"
proof -
  have t: "c_str (demo_buffer (message_text ''PING'' ''_'' ''%s'')) 0 = Some (message_text ''PING'' ''_'' ''%s'')"
    by (intro in_bufferD(1) demo_buffer) (simp_all add: message_text_def)
  have "ducq_parse_payload (message_text ''PING'' ''_'' ''%s'') = Some 7"
    by code_simp
  moreover have "fmt_no_args (drop 7 (message_text ''PING'' ''_'' ''%s'')) = None"
    by code_simp
  ultimately show ?thesis
    using ping_format_string [OF t] by simp
qed

text \<open>C26: while a client is subscribed to LOG, a PING whose payload does not fit a log line makes the
  server send more bytes than its buffer holds: the size sent is the one \<open>snprintf\<close> asked for, not
  the one it wrote.\<close>

theorem ping_log_overread:
  assumes "serving r" and "live i p r" and "log_slots r \<noteq> []"
    and "in_buffer (message_text cmd route payload) buffer" and "parts_ok cmd route"
    and "CHR ''%'' \<notin> set payload" and "245 \<le> length payload"
  shows "PING p buffer n r = None"
proof -
  have t: "c_str buffer 0 = Some (message_text cmd route payload)"
    using in_bufferD(1) [OF assms(4)] .
  have pl: "ducq_parse_payload (message_text cmd route payload) = Some (Suc (Suc (length cmd) + length route))"
    using parse_sub(2) [OF assms(5)] .
  have dr: "drop (Suc (Suc (length cmd) + length route)) (message_text cmd route payload) = payload"
    by (simp add: message_text_def)
  obtain a r1 where r1: "on_world (ducq_id p) r = Some (Some a, r1)" "evolves nothing r r1"
    using id_quiet [OF assms(1,2)] by blast
  let ?e = "\<lparr>le_level = DUCQ_LOG_DEBUG, le_function = ''PING'', le_sender = Some a, le_text = payload\<rparr>"
  have "DUCQ_MSGSZ < length (log_line ?e)"
    using assms(7) by (simp add: log_line_def fmt_str_def)
  moreover have "reactor_inv r1" and "log_slots r1 \<noteq> []"
    using evolves_serving [OF assms(1) r1(2)] serving_inv evolves_table(5) [OF r1(2)] assms(3) by simp_all
  ultimately have "ducq_reactor_log ?e r1 = None"
    using log_overread by blast
  then have "ducq_log DUCQ_LOG_DEBUG ''PING'' p payload r = None"
    using r1(1) by (simp add: ducq_log_def)
  then show ?thesis
    using t pl dr fmt_no_args_plain [OF assms(6)] by (simp add: PING_def log_payload_def)
qed

theorem ping_log_overread_witness:
  "PING 9 (demo_buffer (message_text ''PING'' ''_'' (replicate 245 CHR ''x''))) 252 (demo ''a'' ''LOG'') = None"
proof -
  have b: "in_buffer (message_text ''PING'' ''_'' (replicate 245 CHR ''x'')) (demo_buffer (message_text ''PING'' ''_'' (replicate 245 CHR ''x'')))"
    by (rule demo_buffer) (simp_all add: message_text_def)
  show ?thesis
    by (rule ping_log_overread [OF demo_log_serving _ _ b, of 0]) (simp_all add: demo_live demo_log_slots parts_ok_def)
qed

section \<open>Routes\<close>

text \<open>a route of 100 characters or more is accepted by \<open>ducq_reactor_subscribe\<close>, but fills its array
  without a terminator; from then on publishing to any route is undefined, as soon as the loop gets
  to that client.\<close>

theorem long_route_breaks_publishing:
  assumes "reactor_inv r" and "live i p r" and "NUL \<notin> set route" and "DUCQ_MAX_ROUTE_LEN \<le> length route"
    and "\<forall>j < i. conn_fd (re_conns r ! j) = - 1"
  shows "\<exists>r'. ducq_reactor_subscribe p route r = (DUCQ_OK, r') \<and> ducq_reactor_loop (publish_to other b n) count r' = None"
proof -
  note inv = reactor_invD [OF assms(1)]
  have i: "i < DUCQ_MAX_CONNECTIONS" "conn_fd (re_conns r ! i) \<noteq> - 1"
    using assms(2) by (simp_all add: live_def)
  define c where "c = (re_conns r ! i)\<lparr>conn_as := AsClient p (strncpy route DUCQ_MAX_ROUTE_LEN)\<rparr>"
  define r' where "r' = set_conn i c r"
  have sub: "ducq_reactor_subscribe p route r = (DUCQ_OK, r')"
    using client_slot_live [OF assms(1,2)] by (simp add: ducq_reactor_subscribe_def r'_def c_def)
  have at: "re_conns r' ! i = c"
    using inv(1) i(1) by (simp add: r'_def)
  have rt: "route_at i r' = None"
    using assms(3,4) at by (simp add: c_def route_at_def conn_route_def c_str_strncpy)
  let ?h = "loop_through_client (publish_to other b n)"
  have "\<forall>j \<in> set [0..<i]. conn_fd (re_conns r' ! j) \<noteq> - 1 \<longrightarrow> ?h j count r' = Some (DUCQ_LOOP_CONTINUE, count, r')"
    using assms(5) by (simp add: r'_def)
  then have "ducq_reactor_loop (publish_to other b n) count r' =
      loop_slots ?h (i # [Suc i..<DUCQ_MAX_CONNECTIONS]) DUCQ_LOOP_CONTINUE count r'"
    unfolding ducq_reactor_loop_def connection_loop_template_def slots_split [OF i(1)] by (rule loop_slots_skip)
  also have "\<dots> = None"
    using at i(2) rt by (simp add: c_def loop_through_client_def publish_to_def)
  finally show ?thesis
    using sub by blast
qed

theorem long_route_breaks_publishing_witness:
  "\<exists>r'. ducq_reactor_subscribe 9 (replicate 100 CHR ''x'') (demo ''b'' ''a'') = (DUCQ_OK, r') \<and>
    ducq_reactor_loop (publish_to ''a'' (demo_buffer demo_pub) 8) 0 r' = None"
  by (rule long_route_breaks_publishing [OF serving_inv [OF demo_quiet(1)] demo_quiet(2)]) simp_all

text \<open>a message published to the empty route goes to every client that has never subscribed to
  anything, the publisher included when it has not: their route is the empty one.\<close>

theorem empty_route_reaches_unsubscribed:
  assumes "serving r" and "live i p r" and "log_slots r = []" and "os_malloc (w_os (re_world r)) = []"
    and "parts_ok cmd []" and "in_buffer (message_text cmd [] payload) buffer"
    and "set_last (re_last_msgs r) [] (message_text cmd [] payload) = Some (st, lms)"
    and "live j q r" and "route_at j r = Some []"
  shows "\<exists>r'. pub p buffer (length (message_text cmd [] payload)) r = Some (DUCQ_OK, buffer, r') \<and>
    received r r' (slot_fd j r) = (if i = j then tcp_frame ''ACK'' else []) @ tcp_frame (message_text cmd [] payload)"
proof -
  let ?t = "message_text cmd [] payload"
  obtain r' where r': "pub_as ''pub'' p buffer (length ?t) r = Some (DUCQ_OK, buffer, r')"
      "evolves (\<lambda>fd. only (slot_fd i r) (tcp_frame ''ACK'') fd @ to_slots ?t (subscribers [] r) r fd) (r\<lparr>re_last_msgs := lms\<rparr>) r'"
    using pub_run [OF assms(1-6) _ _ assms(7), of "''pub''"] by auto
  have "received r r' (slot_fd j r) = only (slot_fd i r) (tcp_frame ''ACK'') (slot_fd j r) @ to_slots ?t (subscribers [] r) r (slot_fd j r)"
    using received_evolves [OF r'(2)] by simp
  moreover have "slot_fd i r = slot_fd j r \<longleftrightarrow> i = j"
    using assms(1,2,8) unfolding serving_def by blast
  moreover have "ducq_route_cmp (Some []) (Some [])"
    by code_simp
  ultimately show ?thesis
    using r'(1) assms(8,9) unfolding pub_def to_slots_subscribers by (auto simp: only_def)
qed

lemma demo_unsubscribed: "serving (demo ''b'' [])" "live 0 9 (demo ''b'' [])" "live 1 10 (demo ''b'' [])"
    "log_slots (demo ''b'' []) = []" "route_at 1 (demo ''b'' []) = Some []"
proof -
  show "serving (demo ''b'' [])"
    by (rule demo_serving) simp_all
  show l: "live 0 9 (demo ''b'' [])" "live 1 10 (demo ''b'' [])"
    by (simp_all add: demo_live)
  have rt: "route_at 0 (demo ''b'' []) = Some ''b''" "route_at 1 (demo ''b'' []) = Some []"
    using demo_route [of "''b''" "[]"] by simp_all
  show "route_at 1 (demo ''b'' []) = Some []"
    by (rule rt)
  show "log_slots (demo ''b'' []) = []"
    using rt by (auto simp: log_slots_def filter_empty_conv subscribed_def demo_live DUCQ_LOG_ROUTE_def)
qed

theorem empty_route_reaches_unsubscribed_witness:
  "\<exists>r'. pub 9 (demo_buffer (message_text ''pub'' [] ''hi'')) 7 (demo ''b'' []) = Some (DUCQ_OK, demo_buffer (message_text ''pub'' [] ''hi''), r') \<and>
    received (demo ''b'' []) r' 6 = tcp_frame (message_text ''pub'' [] ''hi'')"
proof -
  let ?t = "message_text ''pub'' [] ''hi''"
  have m: "os_malloc (w_os (re_world (demo ''b'' []))) = []"
    by (simp add: demo_world_def quiet_os_def)
  have p: "parts_ok ''pub'' []" and b: "in_buffer ?t (demo_buffer ?t)" and n: "length ?t = 7"
    by (auto intro!: demo_buffer simp: message_text_def parts_ok_def)
  have rep: "replicate DUCQ_MAX_CHANNELS x = x # replicate 24 x" for x :: "char list \<times> char list"
    by (simp flip: replicate_Suc)
  have "0 < k \<Longrightarrow> c_str ((replicate k NUL)[0 := NUL]) 0 = Some []" for k
    by (cases k) (simp_all add: c_str_def)
  from this [of DUCQ_MAX_ROUTE_LEN] obtain lms where s: "set_last (re_last_msgs (demo ''b'' [])) [] ?t = Some (DUCQ_OK, lms)"
    by (simp add: cleared_def demo_store_def rep)
  show ?thesis
    using empty_route_reaches_unsubscribed [OF demo_unsubscribed(1,2,4) m p b s demo_unsubscribed(3,5)]
    unfolding n by (simp add: demo_fd)
qed

end
