(* ===== verification/Mixed_Delivery.thy ===== *)
theory Mixed_Delivery
  imports Publish_Subscribe
begin

text \<open>
  Publishing on a server whose clients are of every kind and whose network fails as it likes:
  TCP and WebSocket clients and HTTP clients that have been upgraded or not, each on a descriptor of its
  own.  A text is sent to the wanted clients; each of them gets one whole frame of its own transport
  and stays, or the sending fails and it is closed, taken out of the table and freed.  The failure of
  one client changes nothing for the others.
\<close>

section \<open>What a client writes and where\<close>

text \<open>The transport of a client, with the side it is on for a WebSocket, and its descriptor.\<close>

datatype link = TcpLink | WsLink bool | NoLink

definition ws_link :: "ws \<Rightarrow> link \<times> int" where
  "ws_link w = (WsLink (ws_is_client w), ws_fd w)"

fun link_of :: "client \<Rightarrow> link \<times> int" where
  "link_of (Tcp c) = (TcpLink, tcp_fd c)"
| "link_of (Ws c) = ws_link c"
| "link_of (Http c) = (case http_ws c of Some w \<Rightarrow> ws_link w | None \<Rightarrow> (NoLink, http_fd c))"

fun framed :: "link \<Rightarrow> char list \<Rightarrow> char list \<Rightarrow> bool" where
  "framed TcpLink bs x \<longleftrightarrow> x = tcp_frame bs"
| "framed (WsLink masks) bs x \<longleftrightarrow>
     (\<exists>k. x = ws_frame (WS_FIN OR WS_TEXT) k bs \<and> (case k of None \<Rightarrow> \<not> masks | Some m \<Rightarrow> masks \<and> length m = 4))"
| "framed NoLink bs x \<longleftrightarrow> False"

fun client_wf :: "client \<Rightarrow> bool" where
  "client_wf (Tcp c) \<longleftrightarrow> True"
| "client_wf (Ws c) \<longleftrightarrow> wf_ws c"
| "client_wf (Http c) \<longleftrightarrow> (case http_ws c of Some w \<Rightarrow> wf_ws w | None \<Rightarrow> True)"

text \<open>Nothing has been written to any other descriptor, and nothing has been allocated.\<close>

definition only_on :: "int \<Rightarrow> os \<Rightarrow> os \<Rightarrow> bool" where
  "only_on fd s t \<longleftrightarrow> os_malloc t = os_malloc s \<and> (\<forall>g. g \<noteq> fd \<longrightarrow> os_out t g = os_out s g \<and> os_wr t g = os_wr s g)"

lemma only_on_refl [simp]: "only_on fd s s"
  by (simp add: only_on_def)

lemma only_on_trans: "only_on fd s t \<Longrightarrow> only_on fd t u \<Longrightarrow> only_on fd s u"
  by (simp add: only_on_def)

lemma only_on_wrote: "only_wrote fd bs s t \<Longrightarrow> only_on fd s t"
  using only_wroteD(2,4,7) by (auto simp: only_on_def)

lemma only_on_read: "only_read fd s t \<Longrightarrow> only_on fd s t"
  using only_readD(1,2,7) by (auto simp: only_on_def)

text \<open>The outcome of a sending: the whole frame, or a failure; a reliable client does not fail.\<close>

definition sends :: "link \<times> int \<Rightarrow> char list \<Rightarrow> ducq_state \<Rightarrow> os \<Rightarrow> os \<Rightarrow> bool" where
  "sends l bs st s t \<longleftrightarrow> only_on (snd l) s t \<and> st \<in> {DUCQ_OK, DUCQ_EWRITE, DUCQ_ENOIMPL} \<and>
     (st = DUCQ_OK \<longrightarrow> (\<exists>x. framed (fst l) bs x \<and> os_out t (snd l) = os_out s (snd l) @ x)) \<and>
     (fst l \<noteq> NoLink \<and> writable (os_wr s (snd l)) \<longrightarrow> st = DUCQ_OK \<and> writable (os_wr t (snd l)))"

lemma tcp_sends:
  assumes "int (length bs) \<le> INT_MAX"
  shows "\<exists>st t. tcp_send c bs s = Some (st, t) \<and> sends (TcpLink, tcp_fd c) bs st s t"
proof -
  have "ducq_tcp_send (tcp_fd c) bs s \<noteq> None"
    using assms by (auto simp: ducq_tcp_send_def split: prod.splits)
  then obtain res t where run: "ducq_tcp_send (tcp_fd c) bs s = Some (res, t)"
    by auto
  have w: "res = Inr (length bs) \<and> writable (os_wr t (tcp_fd c))" if "writable (os_wr s (tcp_fd c))"
    using tcp_send_writable [OF that assms] run by auto
  define st where "st = (case res of Inl e \<Rightarrow> e | Inr _ \<Rightarrow> DUCQ_OK)"
  have "tcp_send c bs s = Some (st, t)"
    using run by (simp add: tcp_send_def st_def split: sum.splits)
  moreover have "sends (TcpLink, tcp_fd c) bs st s t"
    using tcp_send_prefix [OF run]
  proof (elim disjE conjE exE)
    assume "res = Inr (length bs)" and o: "only_wrote (tcp_fd c) (tcp_frame bs) s t"
    then show ?thesis
      using only_on_wrote [OF o] only_wroteD(1) [OF o] w by (auto simp: sends_def st_def)
  next
    fix a b assume "res = Inl DUCQ_EWRITE" and o: "only_wrote (tcp_fd c) a s t"
    then show ?thesis
      using only_on_wrote [OF o] w by (auto simp: sends_def st_def)
  qed
  ultimately show ?thesis
    by blast
qed

lemma ws_sends:
  assumes "wf_ws c" and "length bs \<le> DUCQ_MSGSZ"
  shows "\<exists>st c' t. ws_send_text c bs s = (st, c', t) \<and> sends (ws_link c) bs st s t \<and> wf_ws c' \<and> ws_link c' = ws_link c"
proof -
  define d where "d = c\<lparr>ws_hdr := (ws_hdr c)[0 := WS_FIN OR WS_TEXT]\<rparr>"
  have d: "wf_ws d" "ws_fd d = ws_fd c" "ws_is_client d = ws_is_client c" "ws_hdr d ! 0 = WS_FIN OR WS_TEXT"
    using assms(1) by (simp_all add: wf_ws_def d_def)
  have len: "length bs < 2 ^ 64" "ws_is_client d \<longrightarrow> length bs \<le> 256"
    using assms(2) by simp_all
  obtain st c' t where run: "ws_send d bs s = (st, c', t)" by (metis prod_cases3)
  note cases = ws_send_cases [OF d(1) len run, unfolded d(2-4)]
  have w: "st = DUCQ_OK \<and> writable (os_wr t (ws_fd c))" if "writable (os_wr s (ws_fd c))"
    using ws_send_writable [OF d(1) len, of s] that run unfolding d(2) by auto
  have fr: "framed (WsLink (ws_is_client c)) bs (ws_frame (WS_FIN OR WS_TEXT) (ws_send_mask d s) bs)"
    by (auto simp: ws_send_mask_def d(3))
  have "sends (ws_link c) bs st s t"
    using cases
  proof (elim disjE conjE exE)
    assume o: "only_wrote (ws_fd c) (ws_frame (WS_FIN OR WS_TEXT) (ws_send_mask d s) bs) s t" and "st = DUCQ_OK"
    then show ?thesis
      using only_on_wrote [OF o] only_wroteD(1) [OF o] w fr by (auto simp: sends_def ws_link_def)
  next
    fix a b assume "st = DUCQ_EWRITE" and o: "only_wrote (ws_fd c) a s t"
    then show ?thesis
      using only_on_wrote [OF o] w by (auto simp: sends_def ws_link_def)
  qed
  then show ?thesis
    using run cases by (auto simp: ws_send_text_def d_def ws_link_def)
qed

lemma vt_sends:
  assumes "client_wf c" and "length bs \<le> DUCQ_MSGSZ"
  shows "\<exists>st c' t. vt_send bs c s = Some (st, c', t) \<and> sends (link_of c) bs st s t \<and> client_wf c' \<and> link_of c' = link_of c"
proof (cases c)
  case (Tcp c)
  then show ?thesis
    using tcp_sends [of bs c s] assms(2) by (auto simp: INT_MAX_def)
next
  case (Ws c)
  then show ?thesis
    using ws_sends [of c bs s] assms by auto
next
  case (Http c)
  then show ?thesis
    using ws_sends [of "the (http_ws c)" bs s] assms
    by (cases "http_ws c") (auto simp: http_send_def sends_def)
qed

text \<open>Closing touches no other descriptor.\<close>

lemma close_call: "sys_close g s = (r, t) \<Longrightarrow> only_on fd s t"
  "sys_setsockopt c s = (r, t) \<Longrightarrow> only_on fd s t" "only_on fd s (inet_shutdown_write g s)"
  by (auto simp: sys_close_def sys_setsockopt_def inet_shutdown_write_def log_call_def only_on_def)

lemma ws_closes:
  assumes "wf_ws c" and "ws_close c s = (st, c', t)"
  shows "only_on (ws_fd c) s t"
proof -
  define body where "body = map char_of_byte (le_store 2 (ws_reorder_16 (if \<not> ws_is_client c \<and> ws_st c \<noteq> WS_CLOSING then 1001 else 1000 :: 16 word)))"
  define d where "d = c\<lparr>ws_hdr := (ws_hdr c)[0 := WS_FIN OR WS_CLOSE], ws_payload := body @ drop 2 (ws_payload c)\<rparr>"
  have b: "length body = 2"
    by (simp add: body_def le_store_def)
  have d: "wf_ws d" "ws_fd d = ws_fd c"
    using assms(1) b by (simp_all add: wf_ws_def d_def)
  obtain st1 e u where sd: "ws_send d body s = (st1, e, u)" by (metis prod_cases3)
  have e: "ws_fd e = ws_fd c" "only_on (ws_fd c) s u"
    using ws_send_cases [OF d(1) _ _ sd] b d(2) only_on_wrote by auto
  obtain k v where tm: "ws_timeout e 3 (inet_shutdown_write (ws_fd e) u) = (k, v)" by fastforce
  have v: "only_on (ws_fd c) u v"
    using tm close_call(2) [where fd = "ws_fd c"] only_on_trans [OF close_call(3)]
    by (fastforce simp: ws_timeout_def inet_set_read_timeout_def split: prod.splits)
  obtain f x where dr: "ws_drain e 3 v = (f, x)" by fastforce
  have f: "only_on (ws_fd c) v x" "ws_fd f = ws_fd c"
    using ws_drain_props [OF dr] only_on_read e(1) by auto
  define g y where "g = (if ws_st c \<noteq> WS_CLOSING then f else e)" and "y = (if ws_st c \<noteq> WS_CLOSING then x else u)"
  have y: "only_on (ws_fd c) s y"
    using only_on_trans [OF e(2)] only_on_trans [OF only_on_trans [OF e(2) v] f(1)] e(2) by (simp add: y_def)
  obtain rc z where cl: "sys_close (ws_fd g) y = (rc, z)" by fastforce
  have "ws_close c s = (DUCQ_OK, g\<lparr>ws_fd := - 1, ws_st := unat WS_CLOSE\<rparr>, z)"
    using sd tm dr cl
    unfolding ws_close_def Let_def body_def [symmetric] d_def [symmetric] inet_close_def
    by (cases "ws_st c \<noteq> WS_CLOSING") (simp_all add: g_def y_def)
  then show ?thesis
    using assms(2) only_on_trans [OF y close_call(1) [OF cl]] by auto
qed

lemma vt_closes:
  assumes "client_wf c" and "vt_close c s = Some (st, c', t)"
  shows "only_on (snd (link_of c)) s t"
proof (cases c)
  case (Tcp c)
  then show ?thesis
    using assms(2) close_call(1) by (auto simp: tcp_close_def inet_close_def split: prod.splits if_splits)
next
  case (Ws c)
  then show ?thesis
    using assms ws_closes by (auto simp: ws_link_def split: prod.splits)
next
  case (Http c)
  then show ?thesis
    using assms ws_closes close_call(1)
    by (cases "http_ws c") (fastforce simp: http_close_def inet_close_def ws_link_def split: prod.splits)+
qed

section \<open>What becomes of the clients\<close>

definition link_at :: "nat \<Rightarrow> ('l, 'd) reactor \<Rightarrow> (link \<times> int) option" where
  "link_at p r = map_option link_of (w_heap (re_world r) p)"

definition out_of :: "int \<Rightarrow> ('l, 'd) reactor \<Rightarrow> char list" where
  "out_of fd r = os_out (w_os (re_world r)) fd"

text \<open>A server with its clients, each writing to the descriptor of its slot, no two to the same.\<close>

definition connected :: "('l, 'd) reactor \<Rightarrow> bool" where
  "connected r \<longleftrightarrow> reactor_inv r \<and> (\<forall>p c. w_heap (re_world r) p = Some c \<longrightarrow> client_wf c) \<and>
     (\<forall>i p. live i p r \<longrightarrow> (\<exists>l. link_at p r = Some (l, slot_fd i r))) \<and>
     (\<forall>i j p q. live i p r \<longrightarrow> live j q r \<longrightarrow> slot_fd i r = slot_fd j r \<longrightarrow> i = j)"

text \<open>A client of the slot that accepts every byte.\<close>

definition reliable :: "nat \<Rightarrow> nat \<Rightarrow> ('l, 'd) reactor \<Rightarrow> bool" where
  "reliable i p r \<longleftrightarrow> (\<exists>l. link_at p r = Some (l, slot_fd i r) \<and> l \<noteq> NoLink) \<and> writable (os_wr (w_os (re_world r)) (slot_fd i r))"

text \<open>The client stays, having got that text; or it is out of the table and freed.\<close>

definition stays :: "char list \<Rightarrow> nat \<Rightarrow> nat \<Rightarrow> ('l, 'd) reactor \<Rightarrow> ('l, 'd) reactor \<Rightarrow> bool" where
  "stays x i p r r' \<longleftrightarrow> live i p r' \<and> link_at p r' = link_at p r \<and> (reliable i p r \<longrightarrow> reliable i p r') \<and>
     out_of (slot_fd i r) r' = out_of (slot_fd i r) r @ x"

definition gets :: "char list \<Rightarrow> nat \<Rightarrow> nat \<Rightarrow> ('l, 'd) reactor \<Rightarrow> ('l, 'd) reactor \<Rightarrow> bool" where
  "gets bs i p r r' \<longleftrightarrow> (\<exists>l x. link_at p r = Some (l, slot_fd i r) \<and> framed l bs x \<and> stays x i p r r')"

definition dropped :: "nat \<Rightarrow> nat \<Rightarrow> ('l, 'd) reactor \<Rightarrow> ('l, 'd) reactor \<Rightarrow> bool" where
  "dropped i p r r' \<longleftrightarrow> \<not> live i p r' \<and> w_heap (re_world r') p = None \<and> \<not> reliable i p r"

text \<open>A text has been sent to the clients in some slots.\<close>

definition settles :: "char list \<Rightarrow> (nat \<Rightarrow> bool) \<Rightarrow> ('l, 'd) reactor \<Rightarrow> ('l, 'd) reactor \<Rightarrow> bool" where
  "settles bs W r r' \<longleftrightarrow> connected r' \<and> re_allow_log_route r' = re_allow_log_route r \<and>
     re_dispatcher r' = re_dispatcher r \<and> re_last_msgs r' = re_last_msgs r \<and>
     os_malloc (w_os (re_world r')) = os_malloc (w_os (re_world r)) \<and>
     (\<forall>i. conn_as (re_conns r' ! i) = conn_as (re_conns r ! i)) \<and>
     (\<forall>j. (\<forall>q. \<not> live j q r) \<longrightarrow> slot_fd j r' = slot_fd j r) \<and>
     (\<forall>q. w_heap (re_world r) q = None \<longrightarrow> w_heap (re_world r') q = None) \<and>
     (\<forall>j q. live j q r' \<longrightarrow> live j q r \<and> slot_fd j r' = slot_fd j r) \<and>
     (\<forall>j q. live j q r \<longrightarrow> (if W j then gets bs j q r r' \<or> dropped j q r r' else stays [] j q r r'))"

lemma settlesD:
  assumes "settles bs W r r'"
  shows "connected r'" and "re_allow_log_route r' = re_allow_log_route r"
    and "w_heap (re_world r) q = None \<Longrightarrow> w_heap (re_world r') q = None"
    and "live j q r' \<Longrightarrow> live j q r" and "live j q r' \<Longrightarrow> slot_fd j r' = slot_fd j r"
    and "live j q r \<Longrightarrow> W j \<Longrightarrow> gets bs j q r r' \<or> dropped j q r r'"
    and "live j q r \<Longrightarrow> \<not> W j \<Longrightarrow> stays [] j q r r'" and "route_at i r' = route_at i r"
    and "re_dispatcher r' = re_dispatcher r" and "re_last_msgs r' = re_last_msgs r"
    and "os_malloc (w_os (re_world r')) = os_malloc (w_os (re_world r))"
    and "(\<And>q. \<not> live j q r) \<Longrightarrow> slot_fd j r' = slot_fd j r"
  using assms unfolding settles_def route_at_def conn_route_def by auto

lemma connectedD:
  assumes "connected r"
  shows "reactor_inv r" and "live i p r \<Longrightarrow> \<exists>c l. w_heap (re_world r) p = Some c \<and> client_wf c \<and> link_of c = (l, slot_fd i r)"
    and "live i p r \<Longrightarrow> live j q r \<Longrightarrow> slot_fd i r = slot_fd j r \<Longrightarrow> i = j"
proof -
  show "reactor_inv r"
    using assms by (simp add: connected_def)
  show "live i p r \<Longrightarrow> \<exists>c l. w_heap (re_world r) p = Some c \<and> client_wf c \<and> link_of c = (l, slot_fd i r)"
  proof -
    assume "live i p r"
    then obtain l where "link_at p r = Some (l, slot_fd i r)"
      using assms unfolding connected_def by blast
    then show ?thesis
      using assms by (auto simp: link_at_def connected_def)
  qed
  show "live i p r \<Longrightarrow> live j q r \<Longrightarrow> slot_fd i r = slot_fd j r \<Longrightarrow> i = j"
    using assms unfolding connected_def by blast
qed

lemma stays_trans:
  "stays x i p r s \<Longrightarrow> stays y i p s t \<Longrightarrow> slot_fd i s = slot_fd i r \<Longrightarrow> stays (x @ y) i p r t"
  by (simp add: stays_def)

lemma gets_stays: "gets bs i p r s \<Longrightarrow> stays [] i p s t \<Longrightarrow> slot_fd i s = slot_fd i r \<Longrightarrow> gets bs i p r t"
  using stays_trans [of _ i p r s "[]" t] by (auto simp: gets_def)

lemma stays_gets: "stays [] i p r s \<Longrightarrow> gets bs i p s t \<Longrightarrow> slot_fd i s = slot_fd i r \<Longrightarrow> gets bs i p r t"
  using stays_trans [of "[]" i p r s _ t] by (fastforce simp: gets_def stays_def)

lemma settles_trans:
  assumes "settles bs W r s" and "settles bs V s t" and "\<And>i. \<not> (W i \<and> V i)"
  shows "settles bs (\<lambda>i. W i \<or> V i) r t"
proof -
  note a = settlesD [OF assms(1)] and b = settlesD [OF assms(2)]
  have lv: "live j q t \<Longrightarrow> live j q r \<and> slot_fd j t = slot_fd j r" for j q
    using a(4,5) b(4,5) by metis
  have "if W j \<or> V j then gets bs j q r t \<or> dropped j q r t else stays [] j q r t" if j: "live j q r" for j q
  proof (cases "W j")
    case True
    then have nv: "\<not> V j"
      using assms(3) by blast
    show ?thesis
      using a(6) [OF j True]
    proof
      assume g: "gets bs j q r s"
      then have l: "live j q s"
        by (auto simp: gets_def stays_def)
      show ?thesis
        using gets_stays [OF g b(7) [OF l nv] a(5) [OF l]] True by simp
    next
      assume "dropped j q r s"
      then show ?thesis
        using True b(3,4) by (auto simp: dropped_def)
    qed
  next
    case False
    note st = a(7) [OF j False]
    then have l: "live j q s" and rel: "reliable j q r \<longrightarrow> reliable j q s"
      by (auto simp: stays_def)
    show ?thesis
    proof (cases "V j")
      case True
      show ?thesis
        using b(6) [OF l True] stays_gets [OF st _ a(5) [OF l]] True rel by (auto simp: dropped_def)
    next
      case False
      then show ?thesis
        using stays_trans [OF st b(7) [OF l False] a(5) [OF l]] \<open>\<not> W j\<close> by simp
    qed
  qed
  moreover have "slot_fd j t = slot_fd j r" if "\<forall>q. \<not> live j q r" for j
    using that a(4) a(12) [of j] b(12) [of j] by metis
  ultimately show ?thesis
    using assms(1,2) lv unfolding settles_def by simp
qed

section \<open>One client\<close>

text \<open>A client changes but for its link, and only its descriptor is used.\<close>

definition with_client :: "nat \<Rightarrow> client \<Rightarrow> os \<Rightarrow> ('l, 'd) reactor \<Rightarrow> ('l, 'd) reactor" where
  "with_client p c s r = r\<lparr>re_world := (re_world r)\<lparr>w_os := s, w_heap := (w_heap (re_world r))(p \<mapsto> c)\<rparr>\<rparr>"

lemma with_client_simps [simp]:
  "re_conns (with_client p c s r) = re_conns r" "live i q (with_client p c s r) = live i q r"
  "slot_fd i (with_client p c s r) = slot_fd i r" "route_at i (with_client p c s r) = route_at i r"
  "re_allow_log_route (with_client p c s r) = re_allow_log_route r"
  "re_dispatcher (with_client p c s r) = re_dispatcher r" "re_last_msgs (with_client p c s r) = re_last_msgs r"
  "w_os (re_world (with_client p c s r)) = s" "w_heap (re_world (with_client p c s r)) = (w_heap (re_world r))(p \<mapsto> c)"
  "out_of fd (with_client p c s r) = os_out s fd"
  by (simp_all add: with_client_def slot_fd_def out_of_def)

lemma with_client_link:
  "w_heap (re_world r) p = Some c \<Longrightarrow> link_of c' = link_of c \<Longrightarrow> link_at q (with_client p c' s r) = link_at q r"
  by (simp add: link_at_def)

lemma with_client_links:
  "link_at q (with_client p c s r) = (if q = p then Some (link_of c) else link_at q r)"
  by (simp add: link_at_def)

text \<open>The descriptor has to stay, the transport may change.\<close>

lemma with_client_connected:
  assumes "connected r" and "w_heap (re_world r) p = Some c" and "snd (link_of c') = snd (link_of c)" and "client_wf c'"
    and "client_ok c \<longrightarrow> client_ok c'"
  shows "connected (with_client p c' s r)"
proof -
  have "same_heap (re_world r) (re_world (with_client p c' s r))"
    using assms(2,5) by (auto simp: same_heap_def ids_ok_def)
  then have "reactor_inv (with_client p c' s r)"
    using inv_world [OF connectedD(1) [OF assms(1)]] by (simp add: with_client_def)
  moreover have "\<exists>l. link_at q (with_client p c' s r) = Some (l, slot_fd i r)" if lv: "live i q r" for i q
  proof -
    obtain l where l: "link_at q r = Some (l, slot_fd i r)"
      using assms(1) lv unfolding connected_def by blast
    show ?thesis
    proof (cases "q = p")
      case True
      then have "snd (link_of c') = slot_fd i r"
        using l assms(2,3) by (simp add: link_at_def)
      then show ?thesis
        using True by (simp add: with_client_links) (metis prod.collapse)
    qed (use l in \<open>simp add: with_client_links\<close>)
  qed
  ultimately show ?thesis
    using assms(1,4) unfolding connected_def by auto
qed

lemma with_client_others:
  assumes "connected r" and "live i p r" and "only_on (slot_fd i r) (w_os (re_world r)) s" and "live j q r" and "j \<noteq> i"
  shows "stays [] j q r (with_client p c' s r)"
proof -
  have fd: "slot_fd j r \<noteq> slot_fd i r"
    using connectedD(3) [OF assms(1,4,2)] assms(5) by blast
  have "q \<noteq> p"
    using assms(2,4,5) live_unique [OF connectedD(1) [OF assms(1)]] by blast
  then show ?thesis
    using assms(3,4) fd by (simp add: stays_def reliable_def with_client_links only_on_def out_of_def)
qed

text \<open>Freeing the slot closes the client and takes it out of the table and of the heap.\<close>

lemma free_run:
  assumes "connected r" and "live i p r"
  shows "\<exists>u. connection_free i r = Some (set_conn i ((re_conns r ! i)\<lparr>conn_fd := - 1\<rparr>)
      (r\<lparr>re_world := (re_world r)\<lparr>w_os := u, w_heap := (w_heap (re_world r))(p := None)\<rparr>\<rparr>)) \<and>
    only_on (slot_fd i r) (w_os (re_world r)) u"
proof -
  obtain c l where c: "w_heap (re_world r) p = Some c" "client_wf c" "link_of c = (l, slot_fd i r)"
    using connectedD(2) [OF assms] by blast
  have p: "p \<noteq> 0" "conn_fd (re_conns r ! i) \<noteq> - 1" "conn_client (re_conns r ! i) = Some p"
    using reactor_invD(2) [OF connectedD(1) [OF assms(1)] assms(2)] assms(2) by (simp_all add: live_def)
  have "vt_close c (w_os (re_world r)) \<noteq> None"
    by (cases c) (auto split: prod.splits)
  then obtain st c' u where cl: "vt_close c (w_os (re_world r)) = Some (st, c', u)"
    by auto
  have "ducq_close p (re_world r) = Some (st, (re_world r)\<lparr>w_os := u, w_heap := (w_heap (re_world r))(p \<mapsto> c')\<rparr>)"
    unfolding ducq_close_def by (rule deref_run [where f = vt_close, OF p(1) c(1) cl])
  moreover obtain area where "conn_as (re_conns r ! i) = AsClient p area"
    using p(3) by (auto simp: conn_client_def split: conn_as.splits)
  ultimately have "connection_free i r = Some (set_conn i ((re_conns r ! i)\<lparr>conn_fd := - 1\<rparr>)
      (r\<lparr>re_world := (re_world r)\<lparr>w_os := u, w_heap := (w_heap (re_world r))(p := None)\<rparr>\<rparr>))"
    using p by (simp add: connection_free_def on_world_def ducq_free_def set_conn_def)
  then show ?thesis
    using vt_closes [OF c(2) cl] c(3) by auto
qed

text \<open>What a client does on its own: only its own descriptor and its own object are used.\<close>

definition aside :: "nat \<Rightarrow> ('l, 'd) reactor \<Rightarrow> ('l, 'd) reactor \<Rightarrow> bool" where
  "aside i r s \<longleftrightarrow> connected s \<and> re_conns s = re_conns r \<and> re_allow_log_route s = re_allow_log_route r \<and>
     re_dispatcher s = re_dispatcher r \<and> re_last_msgs s = re_last_msgs r \<and>
     os_malloc (w_os (re_world s)) = os_malloc (w_os (re_world r)) \<and>
     (\<forall>q. w_heap (re_world r) q = None \<longrightarrow> w_heap (re_world s) q = None) \<and>
     (\<forall>j q. live j q r \<longrightarrow> j \<noteq> i \<longrightarrow> stays [] j q r s)"

lemma aside_table:
  "aside i r s \<Longrightarrow> live j q s = live j q r" "aside i r s \<Longrightarrow> slot_fd j s = slot_fd j r" "aside i r s \<Longrightarrow> route_at j s = route_at j r"
  by (simp_all add: aside_def live_def slot_fd_def route_at_def)

lemma aside_trans:
  assumes "aside i r s" and "aside i s t"
  shows "aside i r t"
proof -
  have "stays [] j q r t" if j: "live j q r" "j \<noteq> i" for j q
  proof -
    have "stays [] j q r s" and "stays [] j q s t"
      using assms j aside_table(1) [OF assms(1)] unfolding aside_def by blast+
    from stays_trans [OF this aside_table(2) [OF assms(1)]] show ?thesis
      by simp
  qed
  then show ?thesis
    using assms unfolding aside_def by simp
qed

lemma aside_no_log: "aside i r s \<Longrightarrow> log_slots s = log_slots r"
  unfolding log_slots_def subscribed_def aside_def by (simp add: live_def route_at_def)

lemma with_client_aside:
  assumes "connected r" and "live i p r" and "w_heap (re_world r) p = Some c" and "only_on (slot_fd i r) (w_os (re_world r)) s"
    and "snd (link_of c') = snd (link_of c)" and "client_wf c'" and "client_ok c \<longrightarrow> client_ok c'"
  shows "aside i r (with_client p c' s r)"
proof -
  have "connected (with_client p c' s r)"
    by (rule with_client_connected [OF assms(1,3,5,6,7)])
  moreover have "\<forall>j q. live j q r \<longrightarrow> j \<noteq> i \<longrightarrow> stays [] j q r (with_client p c' s r)"
    using with_client_others [OF assms(1,2,4)] by blast
  moreover have "os_malloc s = os_malloc (w_os (re_world r))"
    using assms(4) by (simp add: only_on_def)
  ultimately show ?thesis
    using assms(3) by (simp add: aside_def)
qed

text \<open>The client is gone, and its slot is free.\<close>

definition leaves :: "nat \<Rightarrow> nat \<Rightarrow> ('l, 'd) reactor \<Rightarrow> ('l, 'd) reactor \<Rightarrow> bool" where
  "leaves i p r f \<longleftrightarrow> connected f \<and> re_allow_log_route f = re_allow_log_route r \<and>
     re_dispatcher f = re_dispatcher r \<and> re_last_msgs f = re_last_msgs r \<and>
     os_malloc (w_os (re_world f)) = os_malloc (w_os (re_world r)) \<and>
     (\<forall>j. conn_as (re_conns f ! j) = conn_as (re_conns r ! j)) \<and> slot_fd i f = - 1 \<and>
     (\<forall>j. j \<noteq> i \<longrightarrow> slot_fd j f = slot_fd j r) \<and> (\<forall>j q. live j q f \<longleftrightarrow> live j q r \<and> j \<noteq> i) \<and>
     w_heap (re_world f) p = None \<and> (\<forall>q. w_heap (re_world r) q = None \<longrightarrow> w_heap (re_world f) q = None) \<and>
     (\<forall>j q. live j q r \<longrightarrow> j \<noteq> i \<longrightarrow> stays [] j q r f)"

lemma aside_leaves:
  assumes "aside i r s" and "leaves i p s f"
  shows "leaves i p r f"
proof -
  have "stays [] j q r f" if j: "live j q r" "j \<noteq> i" for j q
  proof -
    have "stays [] j q r s"
      using assms(1) j unfolding aside_def by blast
    moreover have "live j q s"
      using j(1) aside_table(1) [OF assms(1)] by simp
    then have "stays [] j q s f"
      using assms(2) j(2) unfolding leaves_def by blast
    ultimately have "stays [] j q r s" "stays [] j q s f"
      by blast+
    from stays_trans [OF this aside_table(2) [OF assms(1)]] show ?thesis
      by simp
  qed
  then show ?thesis
    using assms(2) assms(1) unfolding leaves_def aside_table [OF assms(1)] by (simp add: aside_def)
qed

lemma free_leaves:
  assumes con: "connected r" and lv: "live i p r"
  shows "\<exists>f. connection_free i r = Some f \<and> leaves i p r f"
proof -
  have i: "i < DUCQ_MAX_CONNECTIONS" and len: "length (re_conns r) = DUCQ_MAX_CONNECTIONS"
    using lv reactor_invD(1) [OF connectedD(1) [OF con]] by (simp_all add: live_def)
  obtain u where u: "connection_free i r = Some (set_conn i ((re_conns r ! i)\<lparr>conn_fd := - 1\<rparr>)
      (r\<lparr>re_world := (re_world r)\<lparr>w_os := u, w_heap := (w_heap (re_world r))(p := None)\<rparr>\<rparr>))"
      "only_on (slot_fd i r) (w_os (re_world r)) u"
    using free_run [OF con lv] by auto
  define f where "f = set_conn i ((re_conns r ! i)\<lparr>conn_fd := - 1\<rparr>)
      (r\<lparr>re_world := (re_world r)\<lparr>w_os := u, w_heap := (w_heap (re_world r))(p := None)\<rparr>\<rparr>)"
  have inv: "reactor_inv f"
    using connection_free_run [OF connectedD(1) [OF con] i] u(1) by (auto simp: f_def)
  have os: "only_on (slot_fd i r) (w_os (re_world r)) (w_os (re_world f))"
    using u(2) by (simp add: f_def)
  have heap: "w_heap (re_world f) = (w_heap (re_world r))(p := None)"
    by (simp add: f_def)
  have mem: "os_malloc (w_os (re_world f)) = os_malloc (w_os (re_world r))"
    using os by (simp add: only_on_def)
  have rest: "re_allow_log_route f = re_allow_log_route r" "re_dispatcher f = re_dispatcher r" "re_last_msgs f = re_last_msgs r"
    by (simp_all add: f_def set_conn_def)
  have lf: "live j q f \<longleftrightarrow> live j q r \<and> j \<noteq> i" for j q
    using i len by (cases "j = i") (simp_all add: f_def live_def)
  have fd: "slot_fd j f = slot_fd j r" if "j \<noteq> i" for j
    using that len by (simp add: f_def slot_fd_def)
  have fdi: "slot_fd i f = - 1"
    using i len by (simp add: f_def slot_fd_def)
  have as: "conn_as (re_conns f ! j) = conn_as (re_conns r ! j)" for j
    using i len by (cases "j = i") (simp_all add: f_def)
  have q: "q \<noteq> p" if "live j q r" "j \<noteq> i" for j q
    using that lv live_unique [OF connectedD(1) [OF con]] by blast
  have lk: "link_at q f = link_at q r" if "q \<noteq> p" for q
    using that by (simp add: link_at_def heap)
  have "connected f"
    unfolding connected_def
  proof (intro conjI allI impI)
    fix j k q q' c
    show "client_wf c" if "w_heap (re_world f) q = Some c"
      using that con by (auto simp: heap connected_def split: if_splits)
    show "\<exists>l. link_at q f = Some (l, slot_fd j f)" if "live j q f"
    proof -
      have j: "live j q r" "j \<noteq> i"
        using that lf by blast+
      then obtain l where "link_at q r = Some (l, slot_fd j r)"
        using con unfolding connected_def by blast
      then show ?thesis
        using lk [OF q [OF j]] fd [OF j(2)] by simp
    qed
    show "j = k" if "live j q f" and "live k q' f" and "slot_fd j f = slot_fd k f"
      using that connectedD(3) [OF con] lf fd by metis
  qed (rule inv)
  moreover have "stays [] j q r f" if j: "live j q r" "j \<noteq> i" for j q
  proof -
    have "slot_fd j r \<noteq> slot_fd i r"
      using connectedD(3) [OF con j(1) lv] j(2) by blast
    then show ?thesis
      using j os lk [OF q [OF j]] by (simp add: stays_def reliable_def lf fd only_on_def out_of_def)
  qed
  ultimately have "leaves i p r f"
    using as lf fd fdi heap mem rest unfolding leaves_def by simp
  then show ?thesis
    using u(1) by (simp add: f_def)
qed

lemma leaves_settles:
  assumes "leaves i p r f" and "live i p r" and "\<not> reliable i p r"
  shows "settles bs (\<lambda>j. j = i) r f"
proof -
  have "q = p" if "live i q r" for q
    using that assms(2) by (simp add: live_def)
  moreover have "slot_fd j f = slot_fd j r" if "\<forall>q. \<not> live j q r" for j
    using assms(1,2) that unfolding leaves_def by metis
  ultimately show ?thesis
    using assms(1,3) unfolding leaves_def settles_def dropped_def by auto
qed

text \<open>Sending to one client and removing it when that fails.\<close>

lemma send_settles:
  assumes con: "connected r" and lv: "live i p r" and len: "length bs \<le> DUCQ_MSGSZ"
  shows "\<exists>st s. on_world (ducq_send p bs) r = Some (st, s) \<and> aside i r s \<and> st \<in> {DUCQ_OK, DUCQ_EWRITE, DUCQ_ENOIMPL} \<and>
    (if st = DUCQ_OK then settles bs (\<lambda>j. j = i) r s \<and> live i p s
     else \<not> reliable i p r \<and> (\<exists>f. connection_free i s = Some f \<and> settles bs (\<lambda>j. j = i) r f \<and> \<not> live i p f))"
proof -
  obtain c l where c: "w_heap (re_world r) p = Some c" "client_wf c" "link_of c = (l, slot_fd i r)"
    using connectedD(2) [OF con lv] by blast
  have p: "p \<noteq> 0"
    using reactor_invD(2) [OF connectedD(1) [OF con] lv] .
  obtain st c' t where t: "vt_send bs c (w_os (re_world r)) = Some (st, c', t)"
      "sends (l, slot_fd i r) bs st (w_os (re_world r)) t" "client_wf c'" "link_of c' = link_of c"
    using vt_sends [OF c(2) len, of "w_os (re_world r)"] c(3) by auto
  have ok: "client_ok c \<longrightarrow> client_ok c'"
    using send_ok [OF t(1)] by blast
  let ?s = "with_client p c' t r"
  have "ducq_send p bs (re_world r) = Some (st, (re_world r)\<lparr>w_os := t, w_heap := (w_heap (re_world r))(p \<mapsto> c')\<rparr>)"
    unfolding ducq_send_def by (rule deref_run [where f = "vt_send bs", OF p c(1) t(1)])
  then have run: "on_world (ducq_send p bs) r = Some (st, ?s)"
    by (simp add: on_world_def with_client_def)
  have only: "only_on (slot_fd i r) (w_os (re_world r)) t"
    using t(2) by (simp add: sends_def)
  have as: "aside i r ?s"
    by (rule with_client_aside [OF con lv c(1) only arg_cong [where f = snd, OF t(4)] t(3) ok])
  have lk: "link_at p r = Some (l, slot_fd i r)"
    by (simp add: link_at_def c)
  have states: "st \<in> {DUCQ_OK, DUCQ_EWRITE, DUCQ_ENOIMPL}"
    using t(2) by (simp add: sends_def)
  have rel: "reliable i p r \<longrightarrow> st = DUCQ_OK \<and> writable (os_wr t (slot_fd i r))"
    using t(2) lk by (simp add: reliable_def sends_def)
  show ?thesis
  proof (cases "st = DUCQ_OK")
    case True
    then obtain x where x: "framed l bs x" "os_out t (slot_fd i r) = os_out (w_os (re_world r)) (slot_fd i r) @ x"
      using t(2) by (auto simp: sends_def)
    have "gets bs i p r ?s"
      unfolding gets_def
    proof (intro exI conjI)
      show "stays x i p r ?s"
        using x(2) lv rel lk unfolding stays_def reliable_def with_client_link [OF c(1) t(4)] by (simp add: out_of_def)
    qed (rule lk, rule x)
    moreover have "q = p" if "live i q r" for q
      using that lv by (simp add: live_def)
    moreover have "os_malloc t = os_malloc (w_os (re_world r))"
      using only by (simp add: only_on_def)
    ultimately have "settles bs (\<lambda>j. j = i) r ?s"
      using with_client_connected [OF con c(1) arg_cong [where f = snd, OF t(4)] t(3) ok] with_client_others [OF con lv only] c(1)
      by (auto simp: settles_def)
    then show ?thesis
      using run True lv as states by auto
  next
    case False
    then have "\<not> reliable i p r"
      using rel by blast
    obtain f where f: "connection_free i ?s = Some f" "leaves i p ?s f"
      using free_leaves [of ?s i p] lv aside_table(1) [OF as] as by (auto simp: aside_def)
    note lf = aside_leaves [OF as f(2)]
    have "settles bs (\<lambda>j. j = i) r f" and "\<not> live i p f"
      using leaves_settles [OF lf lv] \<open>\<not> reliable i p r\<close> lf by (simp_all add: leaves_def)
    then show ?thesis
      using run f(1) False \<open>\<not> reliable i p r\<close> as states by auto
  qed
qed

section \<open>The loop over the clients\<close>

text \<open>A step without a text is one the client takes on its own.\<close>

lemma settles_aside:
  assumes "settles bs (\<lambda>_. False) r s" and "connected r"
  shows "aside i r s"
proof -
  have len: "length (re_conns s) = length (re_conns r)"
    using reactor_invD(1) connectedD(1) settlesD(1) [OF assms(1)] assms(2) by metis
  have "live j q s" if "live j q r" for j q
    using settlesD(7) [OF assms(1) that] by (simp add: stays_def)
  then have "conn_fd (re_conns s ! j) = conn_fd (re_conns r ! j)" for j
    using settlesD(5,12) [OF assms(1)] unfolding slot_fd_def by metis
  moreover have "conn_as (re_conns s ! j) = conn_as (re_conns r ! j)" for j
    using assms(1) by (simp add: settles_def)
  ultimately have "re_conns s = re_conns r"
    using len by (simp add: list_eq_iff_nth_eq)
  then show ?thesis
    using assms(1) unfolding settles_def aside_def by simp
qed

lemma settles_refl: "connected r \<Longrightarrow> settles bs (\<lambda>_. False) r r"
  by (simp add: settles_def stays_def)

lemma settles_cong:
  assumes "settles bs W r s" and same: "\<And>i q. live i q r \<Longrightarrow> W i = V i"
  shows "settles bs V r s"
proof -
  have "if V j then gets bs j q r s \<or> dropped j q r s else stays [] j q r s" if "live j q r" for j q
    using assms(1) that same [OF that] unfolding settles_def by metis
  then show ?thesis
    using assms(1) unfolding settles_def by simp
qed

lemma card_live_insert:
  assumes "i \<notin> set is"
  shows "card {j \<in> set (i # is). W j \<and> (\<exists>q. live j q r)} =
    (if W i \<and> (\<exists>q. live i q r) then 1 else 0) + card {j \<in> set is. W j \<and> (\<exists>q. live j q r)}"
proof -
  have "{j \<in> set (i # is). W j \<and> (\<exists>q. live j q r)} =
      (if W i \<and> (\<exists>q. live i q r) then insert i {j \<in> set is. W j \<and> (\<exists>q. live j q r)} else {j \<in> set is. W j \<and> (\<exists>q. live j q r)})"
    by auto
  then show ?thesis
    using assms by simp
qed

context broadcast begin

lemma slot_settles:
  assumes "connected r" and "i < DUCQ_MAX_CONNECTIONS" and "conn_fd (re_conns r ! i) \<noteq> - 1" and "length bs \<le> DUCQ_MSGSZ"
  shows "\<exists>c s f. loop_through_client apply_f i x r = Some (c, if subscribed wanted r i \<and> (\<exists>q. live i q f) then count x else x, s) \<and>
    (if c AND DUCQ_LOOP_DELETE \<noteq> 0 then connection_free i s else Some s) = Some f \<and> c AND DUCQ_LOOP_BREAK = 0 \<and>
    settles bs (\<lambda>j. j = i \<and> subscribed wanted r i) r f"
proof (cases "conn_as (re_conns r ! i)")
  case (AsServer a b)
  then have "\<not> subscribed wanted r i"
    by (simp add: subscribed_def live_def conn_client_def)
  then show ?thesis
    using AsServer settles_refl [OF assms(1)] by (intro exI [of _ DUCQ_LOOP_CONTINUE] exI [of _ r]) (simp add: loop_through_client_def)
next
  case (AsClient p area)
  then have lv: "live i p r"
    using assms by (simp add: live_def conn_client_def)
  then have p: "live i q r \<longleftrightarrow> q = p" for q
    by (auto simp: live_def)
  obtain t where t: "route_at i r = Some t"
    using reactor_invD(4) [OF connectedD(1) [OF assms(1)] lv] by blast
  then have sub: "subscribed wanted r i \<longleftrightarrow> wanted t"
    using lv by (auto simp: subscribed_def)
  show ?thesis
  proof (cases "wanted t")
    case False
    then show ?thesis
      using AsClient skip [OF t False, of p x] sub settles_refl [OF assms(1)]
      by (intro exI [of _ DUCQ_LOOP_CONTINUE] exI [of _ r]) (simp add: loop_through_client_def)
  next
    case True
    obtain st s where s: "on_world (ducq_send p bs) r = Some (st, s)"
        "if st = DUCQ_OK then settles bs (\<lambda>j. j = i) r s \<and> live i p s
         else \<not> reliable i p r \<and> (\<exists>f. connection_free i s = Some f \<and> settles bs (\<lambda>j. j = i) r f \<and> \<not> live i p f)"
      using send_settles [OF assms(1) lv assms(4)] by blast
    note run = send [OF t True s(1), of x]
    show ?thesis
    proof (cases "st = DUCQ_OK")
      case True
      then show ?thesis
        using AsClient run s(2) sub \<open>wanted t\<close>
        by (intro exI [of _ DUCQ_LOOP_CONTINUE] exI [of _ s]) (auto simp: loop_through_client_def)
    next
      case False
      then obtain f where f: "connection_free i s = Some f" "settles bs (\<lambda>j. j = i) r f" "\<not> live i p f"
        using s(2) by auto
      then have "\<not> live i q f" for q
        using settlesD(4) [OF f(2)] p by metis
      then show ?thesis
        using AsClient run f False sub \<open>wanted t\<close> loop_bits(3,4)
        by (rule_tac exI [of _ DUCQ_LOOP_DELETE], rule_tac exI [of _ s], rule_tac exI [of _ f]) (simp add: loop_through_client_def)
    qed
  qed
qed

lemma slots_settle:
  assumes "connected r" and "set is \<subseteq> {..<DUCQ_MAX_CONNECTIONS}" and "distinct is" and "length bs \<le> DUCQ_MSGSZ"
  shows "\<exists>c f. loop_slots (loop_through_client apply_f) is ctl x r =
      Some (c, (count ^^ card {j \<in> set is. subscribed wanted r j \<and> (\<exists>q. live j q f)}) x, f) \<and>
    settles bs (\<lambda>j. j \<in> set is \<and> subscribed wanted r j) r f"
  using assms
proof (induction "is" arbitrary: ctl x r)
  case Nil
  then show ?case
    using settles_refl by simp
next
  case (Cons i "is")
  show ?case
  proof (cases "conn_fd (re_conns r ! i) = - 1")
    case True
    then have no: "\<not> subscribed wanted r i"
      by (simp add: subscribed_def live_def)
    then have "(\<lambda>j. j \<in> set (i # is) \<and> subscribed wanted r j) = (\<lambda>j. j \<in> set is \<and> subscribed wanted r j)"
      by auto
    moreover have "{j \<in> set (i # is). subscribed wanted r j \<and> P j} = {j \<in> set is. subscribed wanted r j \<and> P j}" for P
      using no by auto
    ultimately show ?thesis
      using Cons True by simp
  next
    case False
    obtain c s f where f: "loop_through_client apply_f i x r = Some (c, if subscribed wanted r i \<and> (\<exists>q. live i q f) then count x else x, s)"
        "(if c AND DUCQ_LOOP_DELETE \<noteq> 0 then connection_free i s else Some s) = Some f" "c AND DUCQ_LOOP_BREAK = 0"
        "settles bs (\<lambda>j. j = i \<and> subscribed wanted r i) r f"
      using slot_settles [OF Cons.prems(1) _ False Cons.prems(4), of x] Cons.prems(2) by auto
    let ?x = "if subscribed wanted r i \<and> (\<exists>q. live i q f) then count x else x"
    obtain d g where g: "loop_slots (loop_through_client apply_f) is c ?x f =
          Some (d, (count ^^ card {j \<in> set is. subscribed wanted f j \<and> (\<exists>q. live j q g)}) ?x, g)"
        "settles bs (\<lambda>j. j \<in> set is \<and> subscribed wanted f j) f g"
      using Cons.IH [OF settlesD(1) [OF f(4)], of c ?x] Cons.prems(2-4) by auto
    have sub: "subscribed wanted f j \<longleftrightarrow> subscribed wanted r j \<and> (\<exists>q. live j q f)" for j
      using settlesD(4,8) [OF f(4)] by (auto simp: subscribed_def)
    have same: "{j \<in> set is. subscribed wanted f j \<and> (\<exists>q. live j q g)} = {j \<in> set is. subscribed wanted r j \<and> (\<exists>q. live j q g)}"
      using settlesD(4) [OF g(2)] sub by blast
    have "settles bs (\<lambda>j. j \<in> set is \<and> subscribed wanted r j) f g"
      using g(2) by (rule settles_cong) (use sub in blast)
    from settles_trans [OF f(4) this]
    have "settles bs (\<lambda>j. j = i \<and> subscribed wanted r i \<or> j \<in> set is \<and> subscribed wanted r j) r g"
      using Cons.prems(3) by auto
    then have res: "settles bs (\<lambda>j. j \<in> set (i # is) \<and> subscribed wanted r j) r g"
      by (rule settles_cong) auto
    have "live i q f \<Longrightarrow> live i q g" for q
      using settlesD(7) [OF g(2), of i q] Cons.prems(3) by (simp add: stays_def)
    then have "(\<exists>q. live i q g) \<longleftrightarrow> (\<exists>q. live i q f)"
      using settlesD(4) [OF g(2)] by blast
    then have "(count ^^ card {j \<in> set is. subscribed wanted f j \<and> (\<exists>q. live j q g)}) ?x =
        (count ^^ card {j \<in> set (i # is). subscribed wanted r j \<and> (\<exists>q. live j q g)}) x"
      using Cons.prems(3) unfolding same by (subst card_live_insert) (auto simp: funpow_swap1)
    then show ?thesis
      using f(1-3) g(1) res False by auto
  qed
qed

lemma loop_settles:
  assumes "connected r" and "length bs \<le> DUCQ_MSGSZ"
  shows "\<exists>c f. ducq_reactor_loop apply_f x r = Some (c, (count ^^ card {j. subscribed wanted r j \<and> (\<exists>q. live j q f)}) x, f) \<and>
    settles bs (subscribed wanted r) r f"
proof -
  have lt: "j < DUCQ_MAX_CONNECTIONS" if "subscribed wanted r j" for j
    using that by (auto simp: subscribed_def live_def)
  then have W: "(\<lambda>j. j \<in> set [0..<DUCQ_MAX_CONNECTIONS] \<and> subscribed wanted r j) = subscribed wanted r"
    and C: "{j \<in> set [0..<DUCQ_MAX_CONNECTIONS]. subscribed wanted r j \<and> P j} = {j. subscribed wanted r j \<and> P j}" for P
    by (auto simp del: upt_rec)
  have "set [0..<DUCQ_MAX_CONNECTIONS] \<subseteq> {..<DUCQ_MAX_CONNECTIONS}" and "distinct [0..<DUCQ_MAX_CONNECTIONS]"
    by (auto simp del: upt_rec)
  from slots_settle [OF assms(1) this assms(2)] show ?thesis
    unfolding ducq_reactor_loop_def connection_loop_template_def W C .
qed

end

section \<open>Publishing\<close>

text \<open>Steps that write nothing.\<close>

lemma idle_settles:
  assumes "connected r" and "re_conns r' = re_conns r" and "re_allow_log_route r' = re_allow_log_route r"
    and "w_heap (re_world r') = w_heap (re_world r)" and "os_out (w_os (re_world r')) = os_out (w_os (re_world r))"
    and "os_wr (w_os (re_world r')) = os_wr (w_os (re_world r))" and "os_malloc (w_os (re_world r')) = os_malloc (w_os (re_world r))"
    and "re_dispatcher r' = re_dispatcher r" and "re_last_msgs r' = re_last_msgs r"
  shows "settles bs (\<lambda>_. False) r r'"
proof -
  have lv: "live j q r' = live j q r" and fd: "slot_fd j r' = slot_fd j r" and lk: "link_at q r' = link_at q r" for j q
    using assms by (simp_all add: live_def slot_fd_def link_at_def)
  have "reactor_inv r'"
    using connectedD(1) [OF assms(1)] assms(2,4)
    by (simp add: reactor_inv_def table_ok_def live_def route_at_def ids_ok_def)
  then have "connected r'"
    using assms(1,4) unfolding connected_def lv fd lk by simp
  then show ?thesis
    using assms(2-9) by (simp add: settles_def stays_def reliable_def lv fd lk out_of_def)
qed

text \<open>The store of the last messages has no part in it.\<close>

lemma store_slots [simp]:
  "live i p (r\<lparr>re_last_msgs := m\<rparr>) = live i p r" "slot_fd i (r\<lparr>re_last_msgs := m\<rparr>) = slot_fd i r"
  "route_at i (r\<lparr>re_last_msgs := m\<rparr>) = route_at i r" "link_at p (r\<lparr>re_last_msgs := m\<rparr>) = link_at p r"
  "reliable i p (r\<lparr>re_last_msgs := m\<rparr>) = reliable i p r" "out_of fd (r\<lparr>re_last_msgs := m\<rparr>) = out_of fd r"
  "log_slots (r\<lparr>re_last_msgs := m\<rparr>) = log_slots r"
  by (simp_all add: live_def slot_fd_def link_at_def reliable_def out_of_def log_slots_def subscribed_def)

lemma store_connected [simp]: "connected (r\<lparr>re_last_msgs := m\<rparr>) = connected r"
  by (simp add: connected_def reactor_inv_def table_ok_def)

lemma store_settles [simp]:
  "stays x i p (r\<lparr>re_last_msgs := m\<rparr>) s = stays x i p r s" "stays x i p r (s\<lparr>re_last_msgs := m\<rparr>) = stays x i p r s"
  "gets x i p (r\<lparr>re_last_msgs := m\<rparr>) s = gets x i p r s"
  "dropped i p (r\<lparr>re_last_msgs := m\<rparr>) s = dropped i p r s"
  by (simp_all add: stays_def gets_def dropped_def)

lemma settles_quiet:
  "settles bs (\<lambda>_. False) r s \<Longrightarrow> settles bs W s t \<Longrightarrow> settles bs W r t"
  "settles bs W r s \<Longrightarrow> settles bs (\<lambda>_. False) s t \<Longrightarrow> settles bs W r t"
  using settles_trans [of bs "\<lambda>_. False" r s W t] settles_trans [of bs W r s "\<lambda>_. False" t] by simp_all

lemma settles_no_log: "settles bs W r s \<Longrightarrow> log_slots r = [] \<Longrightarrow> log_slots s = []"
  using settlesD(2,4,8) by (fastforce simp: log_slots_def filter_empty_conv subscribed_def)

lemma settles_stays: "settles bs W r s \<Longrightarrow> live i p r \<Longrightarrow> reliable i p r \<Longrightarrow> live i p s \<and> reliable i p s"
  using settlesD(6,7) by (cases "W i") (fastforce simp: gets_def dropped_def stays_def)+

lemma id_settles:
  assumes con: "connected r" and lv: "live i p r"
  shows "\<exists>a s. on_world (ducq_id p) r = Some (Some a, s) \<and> length a < 100 \<and> settles bs (\<lambda>_. False) r s"
proof -
  obtain c l where c: "w_heap (re_world r) p = Some c" "client_wf c" "link_of c = (l, slot_fd i r)"
    using connectedD(2) [OF con lv] by blast
  have p: "p \<noteq> 0" and ids: "client_ok c"
    using reactor_invD(2,7) [OF connectedD(1) [OF con]] lv c(1) by (auto simp: ids_ok_def)
  have "vt_id c (w_os (re_world r)) \<noteq> None"
    by (cases c) (auto split: prod.splits)
  then obtain a c' t where t: "vt_id c (w_os (re_world r)) = Some (a, c', t)"
    by auto
  have c': "link_of c' = link_of c" "client_wf c'" "t = w_os (re_world r)"
    using t c(2) by (cases c; auto simp: tcp_get_id_def ws_get_id_def http_get_id_def ws_link_def wf_ws_def
        split: prod.splits if_splits option.splits)+
  obtain b where b: "a = Some b" "length b < 100" and ok: "client_ok c \<longrightarrow> client_ok c'"
    using id_ok [OF t ids] by auto
  have "ducq_id p (re_world r) = Some (a, (re_world r)\<lparr>w_os := t, w_heap := (w_heap (re_world r))(p \<mapsto> c')\<rparr>)"
    unfolding ducq_id_def by (rule deref_run [where f = vt_id, OF p c(1) t])
  then have run: "on_world (ducq_id p) r = Some (Some b, with_client p c' t r)"
    by (simp add: on_world_def with_client_def b)
  have "stays [] j q r (with_client p c' t r)" if "live j q r" for j q
    using that unfolding stays_def reliable_def with_client_link [OF c(1) c'(1)] by (simp add: c'(3) out_of_def)
  then have "settles bs (\<lambda>_. False) r (with_client p c' t r)"
    using with_client_connected [OF con c(1) arg_cong [where f = snd, OF c'(1)] c'(2) ok] c(1) c'(3) by (auto simp: settles_def)
  then show ?thesis
    using run b(2) by blast
qed

lemma log_settles:
  assumes "connected r" and "live i p r" and "log_slots r = []" and "length f + length txt \<le> 142"
  shows "\<exists>s. ducq_log lv f p txt r = Some s \<and> settles bs (\<lambda>_. False) r s"
proof -
  obtain a s where s: "on_world (ducq_id p) r = Some (Some a, s)" "length a < 100" "settles bs (\<lambda>_. False) r s"
    using id_settles [OF assms(1,2)] by blast
  define e where "e = \<lparr>le_level = lv, le_function = f, le_sender = Some a, le_text = txt\<rparr>"
  have "length (ducq_level_tostr lv) \<le> 7"
    by (cases lv) simp_all
  then have "length (log_line e) < DUCQ_MSGSZ"
    using assms(4) s(2) by (simp add: log_line_def e_def fmt_str_def)
  then obtain rc l where l: "ducq_reactor_log e s = Some (rc, s\<lparr>re_logger := l\<rparr>)"
    using log_idle [OF connectedD(1) [OF settlesD(1) [OF s(3)]] settles_no_log [OF s(3) assms(3)]] by blast
  have "settles bs (\<lambda>_. False) s (s\<lparr>re_logger := l\<rparr>)"
    by (rule idle_settles [OF settlesD(1) [OF s(3)]]) simp_all
  then show ?thesis
    using s l settles_quiet(1) [OF s(3)] by (auto simp: ducq_log_def e_def)
qed

lemma copy_route_settles:
  assumes "connected r" and "parts_ok cmd route" and "os_malloc (w_os (re_world r)) = []"
  shows "\<exists>s. copy_route (message_text cmd route payload) r = Some (DUCQ_OK, Some route, s) \<and>
    settles bs (\<lambda>_. False) r s"
proof -
  obtain s where s: "copy_route (message_text cmd route payload) r = Some (DUCQ_OK, Some route, s)" "evolves nothing r s"
    using copy_route_text [OF assms(2,3)] by blast
  have "s = r\<lparr>re_world := (re_world r)\<lparr>w_os := (w_os (re_world r))\<lparr>os_malloc := []\<rparr>\<rparr>\<rparr>"
    using s(1) assms(3) by (auto simp: copy_route_def sys_malloc_def Let_def answer_def bind_Some_conv split: prod.split_asm option.split_asm)
  then show ?thesis
    using s(1) idle_settles [OF assms(1), of s] assms(3) by auto
qed

lemma publish_settles:
  assumes "connected r" and "length b = DUCQ_MSGSZ" and "n \<le> DUCQ_MSGSZ"
  shows "\<exists>c k s. ducq_reactor_loop (publish_to route b n) 0 r = Some (c, k, s) \<and> k \<le> DUCQ_MAX_CONNECTIONS \<and>
    settles (take n b) (subscribed (\<lambda>t. ducq_route_cmp (Some t) (Some route)) r) r s"
proof -
  let ?W = "subscribed (\<lambda>t. ducq_route_cmp (Some t) (Some route)) r"
  have b: "take n (take DUCQ_MSGSZ b) = take n b" "length (take n b) \<le> DUCQ_MSGSZ"
    using assms(2,3) by simp_all
  obtain c s where s: "ducq_reactor_loop (publish_hook route b n) 0 r =
      Some (c, ((\<lambda>k. k + 1) ^^ card {j. ?W j \<and> (\<exists>q. live j q s)}) 0, s)" "settles (take n b) ?W r s"
    using pub.loop_settles [OF assms(1), of n b route 0] using b(2) unfolding b(1) by blast
  have "{j. ?W j \<and> (\<exists>q. live j q s)} \<subseteq> {..<DUCQ_MAX_CONNECTIONS}"
    by (auto simp: live_def)
  then have "card {j. ?W j \<and> (\<exists>q. live j q s)} \<le> DUCQ_MAX_CONNECTIONS"
    using subset_eq_atLeast0_lessThan_card [of _ DUCQ_MAX_CONNECTIONS] by (simp add: lessThan_atLeast0)
  then show ?thesis
    using s unfolding publish_hook_eq [OF assms(2,3)] funpow_count by auto
qed

text \<open>A client is deleted.\<close>

lemma delete_leaves:
  assumes "connected r" and "live i p r"
  shows "\<exists>f. ducq_reactor_delete p r = Some (True, f) \<and> leaves i p r f"
  using delete_live [OF connectedD(1) [OF assms(1)] assms(2)] free_leaves [OF assms] by auto

lemma send_state_short: "st \<in> {DUCQ_OK, DUCQ_EWRITE, DUCQ_ENOIMPL} \<Longrightarrow> length (state_msg st) \<le> 25"
  by (auto simp: state_msg_def state_str_def)

text \<open>The acknowledgement to the publisher, then the message to the subscribers.  A publisher that does not take the
  acknowledgement is deleted; its message has been stored all the same, but goes to nobody.  A publisher
  that gets its own message has to take it.\<close>

lemma pub_any:
  assumes "connected r" and "live i p r" and "log_slots r = []" and "os_malloc (w_os (re_world r)) = []"
    and "parts_ok cmd route" and "in_buffer (message_text cmd route payload) buffer"
    and "length f \<le> 7" and "length route < DUCQ_MAX_ROUTE_LEN"
    and "set_last (re_last_msgs r) route (message_text cmd route payload) = Some (st, lms)"
    and "reliable i p r \<or> \<not> subscribed (\<lambda>t. ducq_route_cmp (Some t) (Some route)) r i"
  shows "\<exists>st' s r'. pub_as f p buffer (length (message_text cmd route payload)) r = Some (st', buffer, r') \<and>
    (if st' = DUCQ_OK
     then settles ''ACK'' (\<lambda>j. j = i) (r\<lparr>re_last_msgs := lms\<rparr>) s \<and> live i p s \<and>
       settles (message_text cmd route payload) (subscribed (\<lambda>t. ducq_route_cmp (Some t) (Some route)) s) s r'
     else leaves i p (r\<lparr>re_last_msgs := lms\<rparr>) r' \<and> \<not> reliable i p r)"
proof -
  let ?r = "r\<lparr>re_last_msgs := lms\<rparr>"
  let ?t = "message_text cmd route payload"
  let ?W = "\<lambda>r. subscribed (\<lambda>t. ducq_route_cmp (Some t) (Some route)) r"
  note buf = in_bufferD [OF assms(6)]
  obtain r1 where r1: "copy_route ?t r = Some (DUCQ_OK, Some route, r1)" "settles ''ACK'' (\<lambda>_. False) r r1"
    using copy_route_settles [OF assms(1,5,4)] by blast
  define r2 where "r2 = r1\<lparr>re_last_msgs := lms\<rparr>"
  have r2: "ducq_set_last_msg route ?t r1 = Some (st, r2)"
    using assms(9) settlesD(10) [OF r1(2)] by (simp add: ducq_set_last_msg_def r2_def)
  have e2: "settles ''ACK'' (\<lambda>_. False) ?r r2"
    using r1(2) unfolding settles_def r2_def by simp
  have l2: "live i p r2" and rel2: "reliable i p r \<longrightarrow> reliable i p r2"
    using settlesD(7) [OF e2, of i p] assms(2) by (simp_all add: stays_def)
  have q2: "log_slots r2 = []"
    using settles_no_log [OF e2] assms(3) by simp
  have as2: "aside i ?r r2"
    using settles_aside [OF e2] assms(1) by simp
  obtain ack r3 where r3: "on_world (ducq_send p ''ACK'') r2 = Some (ack, r3)" "aside i r2 r3" "ack \<in> {DUCQ_OK, DUCQ_EWRITE, DUCQ_ENOIMPL}"
      "if ack = DUCQ_OK then settles ''ACK'' (\<lambda>j. j = i) r2 r3 \<and> live i p r3
       else \<not> reliable i p r2 \<and> (\<exists>f. connection_free i r3 = Some f \<and> settles ''ACK'' (\<lambda>j. j = i) r2 f \<and> \<not> live i p f)"
    using send_settles [OF settlesD(1) [OF e2] l2, of "''ACK''"] by auto
  have "ducq_send_ack p DUCQ_OK = ducq_send p ''ACK''"
    by (simp add: fun_eq_iff send_ack_text ack_text_def)
  then have a3: "on_world (ducq_send_ack p DUCQ_OK) r2 = Some (ack, r3)"
    using r3(1) by simp
  have l3: "live i p r3" and c3: "connected r3" and q3: "log_slots r3 = []"
    using l2 q2 aside_table(1) [OF r3(2)] aside_no_log [OF r3(2)] r3(2) by (simp_all add: aside_def)
  define lv where "lv = (if ack \<noteq> DUCQ_OK then DUCQ_LOG_WARNING else DUCQ_LOG_INFO)"
  have "length f + length (route @ '',send: '' @ state_msg ack) \<le> 142"
    using assms(7,8) send_state_short [OF r3(3)] by simp
  then obtain r4 where r4: "ducq_log lv f p (route @ '',send: '' @ state_msg ack) r3 = Some r4" "settles ''ACK'' (\<lambda>_. False) r3 r4"
    using log_settles [OF c3 l3 q3] by blast
  have l4: "live i p r4" and c4: "connected r4" and q4: "log_slots r4 = []"
    using settlesD(1,7) [OF r4(2)] l3 settles_no_log [OF r4(2) q3] by (simp_all add: stays_def)
  show ?thesis
  proof (cases "ack = DUCQ_OK")
    case False
    obtain g where g: "ducq_reactor_delete p r4 = Some (True, g)" "leaves i p r4 g"
      using delete_leaves [OF c4 l4] by blast
    have "leaves i p ?r g"
      by (rule aside_leaves [OF aside_trans [OF aside_trans [OF as2 r3(2)] settles_aside [OF r4(2) c3]] g(2)])
    moreover have "\<not> reliable i p r"
      using r3(4) False rel2 by simp
    moreover have "pub_as f p buffer (length ?t) r = Some (ack, buffer, g)"
      using buf(1) r1(1) r2 a3 r4(1) g(1) False by (simp add: pub_as_def fmt_str_def lv_def)
    ultimately show ?thesis
      using False by (intro exI [of _ ack] exI [of _ r] exI [of _ g]) simp
  next
    case True
    then have ok: "settles ''ACK'' (\<lambda>j. j = i) r2 r3"
      using r3(4) by simp
    note e4 = settles_quiet(2) [OF settles_quiet(1) [OF e2 ok] r4(2)]
    obtain c k r5 where r5: "ducq_reactor_loop (publish_to route buffer (length ?t)) 0 r4 = Some (c, k, r5)"
        "k \<le> DUCQ_MAX_CONNECTIONS" "settles ?t (?W r4) r4 r5"
      using publish_settles [OF c4 buf(2), of "length ?t" route] buf(3) unfolding buf(4) by auto
    have l5: "live i p r5"
    proof (cases "reliable i p r")
      case True
      then have "reliable i p r4"
        using settles_stays [OF ok l2] settles_stays [OF r4(2) l3] rel2 by blast
      then show ?thesis
        using settles_stays [OF r5(3) l4] by blast
    next
      case False
      then have "\<not> ?W r4 i"
        using assms(2,10) settlesD(8) [OF e4, of i] by (auto simp: subscribed_def)
      then show ?thesis
        using settlesD(7) [OF r5(3) l4] by (simp add: stays_def)
    qed
    have "length (dec_nat k) \<le> 2"
      using r5(2) by (intro length_dec_nat) simp_all
    then have "length f + length (route @ '','' @ dec_nat k @ '' notified'') \<le> 142"
      using assms(7,8) by simp
    then obtain r6 where r6: "ducq_log DUCQ_LOG_INFO f p (route @ '','' @ dec_nat k @ '' notified'') r5 = Some r6"
        "settles ?t (\<lambda>_. False) r5 r6"
      using log_settles [OF settlesD(1) [OF r5(3)] l5 settles_no_log [OF r5(3) q4]] by blast
    have "pub_as f p buffer (length ?t) r = Some (DUCQ_OK, buffer, r6)"
      using buf(1) r1(1) r2 a3 r4(1) r5(1) r6(1) True by (simp add: pub_as_def fmt_str_def lv_def)
    then show ?thesis
      using e4 l4 settles_quiet(2) [OF r5(3) r6(2)] by (intro exI [of _ DUCQ_OK] exI [of _ r4] exI [of _ r6]) simp
  qed
qed

lemma pub_settles:
  assumes "connected r" and "live i p r" and "reliable i p r" and "log_slots r = []" and "os_malloc (w_os (re_world r)) = []"
    and "parts_ok cmd route" and "in_buffer (message_text cmd route payload) buffer"
    and "length f \<le> 7" and "length route < DUCQ_MAX_ROUTE_LEN"
    and "set_last (re_last_msgs r) route (message_text cmd route payload) = Some (st, lms)"
  shows "\<exists>s r'. pub_as f p buffer (length (message_text cmd route payload)) r = Some (DUCQ_OK, buffer, r') \<and>
    settles ''ACK'' (\<lambda>j. j = i) (r\<lparr>re_last_msgs := lms\<rparr>) s \<and>
    settles (message_text cmd route payload) (subscribed (\<lambda>t. ducq_route_cmp (Some t) (Some route)) s) s r'"
  using pub_any [OF assms(1,2,4-10)] assms(3) by (auto split: if_splits)

text \<open>What a publication comes to for one client: the publisher is acknowledged, and a subscriber stays with one
  whole frame of the message more, or is removed and freed when it is not reliable; the others stay.\<close>

definition outcome :: "bool \<Rightarrow> bool \<Rightarrow> char list \<Rightarrow> nat \<Rightarrow> nat \<Rightarrow> ('l, 'd) reactor \<Rightarrow> ('l, 'd) reactor \<Rightarrow> bool" where
  "outcome publisher subscriber m j q r r' \<longleftrightarrow>
     (\<exists>l a. link_at q r = Some (l, slot_fd j r) \<and> (if publisher then framed l ''ACK'' a else a = []) \<and>
        (if subscriber
         then live j q r' \<and> (\<exists>x. framed l m x \<and> out_of (slot_fd j r) r' = out_of (slot_fd j r) r @ a @ x) \<or>
              \<not> reliable j q r \<and> \<not> live j q r' \<and> w_heap (re_world r') q = None
         else live j q r' \<and> out_of (slot_fd j r) r' = out_of (slot_fd j r) r @ a))"

lemma outcome_after:
  assumes "stays [] j q r s" and "slot_fd j s = slot_fd j r" and "outcome b c m j q s r'"
  shows "outcome b c m j q r r'"
  using assms unfolding outcome_def stays_def by (auto split: if_splits)

text \<open>The publisher did not take its acknowledgement: it is removed and freed, and nobody gets anything.\<close>

definition refused :: "nat \<Rightarrow> nat \<Rightarrow> ('l, 'd) reactor \<Rightarrow> ('l, 'd) reactor \<Rightarrow> bool" where
  "refused i p r r' \<longleftrightarrow> dropped i p r r' \<and>
     (\<forall>j q. live j q r \<longrightarrow> j \<noteq> i \<longrightarrow> live j q r' \<and> out_of (slot_fd j r) r' = out_of (slot_fd j r) r)"

lemma refused_after:
  assumes "settles bs (\<lambda>_. False) r s" and "live i p r" and "refused i p s r'"
  shows "refused i p r r'"
proof -
  have st: "stays [] j q r s" if "live j q r" for j q
    using settlesD(7) [OF assms(1) that] by simp
  then have "live j q s \<and> slot_fd j s = slot_fd j r \<and> out_of (slot_fd j r) s = out_of (slot_fd j r) r" if "live j q r" for j q
    using that settlesD(5) [OF assms(1)] unfolding stays_def by fastforce
  moreover have "reliable i p r \<longrightarrow> reliable i p s"
    using st [OF assms(2)] by (simp add: stays_def)
  ultimately show ?thesis
    using assms(3) unfolding refused_def dropped_def by metis
qed

lemma pub_isolates:
  assumes "connected r" and "live i p r" and "log_slots r = []" and "os_malloc (w_os (re_world r)) = []"
    and "parts_ok cmd route" and "route \<noteq> []" and "length route < DUCQ_MAX_ROUTE_LEN"
    and "in_buffer (message_text cmd route payload) buffer" and "wf_last (re_last_msgs r)"
    and "reliable i p r \<or> \<not> subscribed (\<lambda>t. ducq_route_cmp (Some t) (Some route)) r i"
  shows "\<exists>st' r'. pub p buffer (length (message_text cmd route payload)) r = Some (st', buffer, r') \<and>
    reactor_inv r' \<and> (\<forall>j q. live j q r' \<longrightarrow> live j q r) \<and>
    (if st' = DUCQ_OK
     then \<forall>j q t. live j q r \<longrightarrow> route_at j r = Some t \<longrightarrow>
       outcome (j = i) (ducq_route_cmp (Some t) (Some route)) (message_text cmd route payload) j q r r'
     else refused i p r r')"
proof -
  let ?t = "message_text cmd route payload"
  let ?W = "\<lambda>r. subscribed (\<lambda>t. ducq_route_cmp (Some t) (Some route)) r"
  have "storable route ?t"
    using assms(6,7) in_bufferD(3) [OF assms(8)] assms(8) by (auto simp: storable_def in_buffer_def message_text_def)
  then have "\<exists>st lms. set_last (re_last_msgs r) route ?t = Some (st, lms)"
    using last_msgs.put_room [OF assms(9), of route ?t] last_msgs.put_full [OF assms(9), of route ?t]
    by (metis linorder_not_le)
  then obtain st lms where lms: "set_last (re_last_msgs r) route ?t = Some (st, lms)"
    by blast
  let ?r = "r\<lparr>re_last_msgs := lms\<rparr>"
  obtain st' s r' where run: "pub p buffer (length ?t) r = Some (st', buffer, r')"
    and out: "if st' = DUCQ_OK then settles ''ACK'' (\<lambda>j. j = i) ?r s \<and> live i p s \<and> settles ?t (?W s) s r'
      else leaves i p ?r r' \<and> \<not> reliable i p r"
    using pub_any [OF assms(1-5,8) _ assms(7) lms assms(10), of "''pub''"] unfolding pub_def by auto
  show ?thesis
  proof (cases "st' = DUCQ_OK")
    case False
    then have l: "leaves i p ?r r'" "\<not> reliable i p r"
      using out by simp_all
    then have "refused i p r r'"
      unfolding refused_def dropped_def leaves_def by (simp add: stays_def)
    moreover have "reactor_inv r'" and "\<forall>j q. live j q r' \<longrightarrow> live j q r"
      using l(1) connectedD(1) unfolding leaves_def by (blast, simp)
    ultimately show ?thesis
      using run False by auto
  next
    case True
    then have a: "settles ''ACK'' (\<lambda>j. j = i) ?r s" and ls: "live i p s" and b: "settles ?t (?W s) s r'"
      using out by simp_all
    have each: "outcome (j = i) (ducq_route_cmp (Some t) (Some route)) ?t j q r r'"
      if j: "live j q r" "route_at j r = Some t" for j q t
    proof -
      have "q = p" if "j = i"
        using that j(1) assms(2) by (simp add: live_def)
      moreover obtain l where l: "link_at q r = Some (l, slot_fd j r)"
        using assms(1) j(1) unfolding connected_def by blast
      ultimately obtain x where x: "if j = i then framed l ''ACK'' x else x = []" "stays x j q r s"
        using settlesD(6,7) [OF a, of j q] j(1) ls by (cases "j = i") (auto simp: gets_def dropped_def)
      then have s: "live j q s" "link_at q s = Some (l, slot_fd j r)" "slot_fd j s = slot_fd j r"
          "out_of (slot_fd j r) s = out_of (slot_fd j r) r @ x" "reliable j q r \<longrightarrow> reliable j q s"
        using l settlesD(5) [OF a] by (auto simp: stays_def)
      have "?W s j \<longleftrightarrow> ducq_route_cmp (Some t) (Some route)"
        using s(1) j(2) settlesD(8) [OF a] by (auto simp: subscribed_def)
      then show ?thesis
        using x(1) settlesD(6,7) [OF b s(1)] s l unfolding outcome_def gets_def dropped_def stays_def
        by (intro exI [of _ l] exI [of _ x]) auto
    qed
    have "reactor_inv r'" and "\<forall>j q. live j q r' \<longrightarrow> live j q r"
      using connectedD(1) [OF settlesD(1) [OF b]] settlesD(4) [OF a] settlesD(4) [OF b] by simp_all
    then show ?thesis
      using run each True by auto
  qed
qed

end
