(* ===== verification/Mixed_Turn.thy ===== *)
theory Mixed_Turn
  imports Mixed_Delivery Main_Loop
begin

text \<open>
  One turn of the main loop of a server with TCP and WebSocket clients: a message that arrives on the transport of
  its publisher goes out on the transport of every subscriber, and the subscribers the network fails for
  do no harm to the others.
\<close>

section \<open>What arrives on a link\<close>

text \<open>The link of the other side: a WebSocket client masks, a server does not.\<close>

fun peer :: "link \<Rightarrow> link" where
  "peer TcpLink = TcpLink"
| "peer (WsLink masks) = WsLink (\<not> masks)"
| "peer NoLink = NoLink"

text \<open>The stream of the client in the slot starts with a frame of the message, whole but in any pieces.\<close>

definition arrives :: "char list \<Rightarrow> nat \<Rightarrow> nat \<Rightarrow> ('l, 'd) reactor \<Rightarrow> bool" where
  "arrives m i p r \<longleftrightarrow> fluent (os_in (w_os (re_world r)) (slot_fd i r)) \<and>
     (\<exists>l x rest. link_at p r = Some (l, slot_fd i r) \<and> framed (peer l) m x \<and> stream (slot_fd i r) (w_os (re_world r)) = x @ rest)"

abbreviation filled :: "char list \<Rightarrow> char list" where
  "filled m \<equiv> m @ NUL # replicate (DUCQ_MSGSZ - Suc (length m)) NUL"

lemma ws_receives:
  assumes "wf_ws c" and "ws_link c = (l, fd)" and "fluent (os_in s fd)" and "framed (peer l) m x" and "stream fd s = x @ rest"
    and "tcp_sendable m"
  shows "\<exists>c' t. ws_recv c (replicate DUCQ_MSGSZ NUL) DUCQ_MSGSZ s = Some (DUCQ_OK, length m, filled m, c', t) \<and>
    ws_link c' = ws_link c \<and> wf_ws c' \<and> only_read fd s t"
proof -
  have l: "l = WsLink (ws_is_client c)" "ws_fd c = fd"
    using assms(2) by (simp_all add: ws_link_def)
  obtain k where k: "x = ws_frame (WS_FIN OR WS_TEXT) k m" "case k of None \<Rightarrow> ws_is_client c | Some k \<Rightarrow> \<not> ws_is_client c \<and> length k = 4"
    using assms(4) by (auto simp: l(1) split: option.splits)
  have len: "length m < length (replicate 256 NUL)" "length m \<le> 256 + 1" "length m < 2 ^ 64"
    using assms(6) by (simp_all add: tcp_sendable_def)
  obtain hdr t where t: "ws_recv c (replicate 256 NUL) 256 s =
      Some (DUCQ_OK, length m, m @ NUL # drop (length m + 1) (replicate 256 NUL), c\<lparr>ws_hdr := hdr\<rparr>, t)"
      "length hdr = 14" "only_read (ws_fd c) s t"
    using ws_recv_text [OF assms(1) _ len k(2)] assms(3,5) k(1) l(2) by blast
  then show ?thesis
    using assms(1) l(2) by (auto simp: ws_link_def wf_ws_def)
qed

lemma vt_receives:
  assumes "client_wf c" and "link_of c = (l, fd)" and "fluent (os_in s fd)" and "framed (peer l) m x" and "stream fd s = x @ rest"
    and "tcp_sendable m"
  shows "\<exists>c' t. vt_recv (replicate DUCQ_MSGSZ NUL) DUCQ_MSGSZ c s = Some ((DUCQ_OK, length m, filled m), c', t) \<and>
    link_of c' = link_of c \<and> client_wf c' \<and> only_read fd s t"
proof (cases c)
  case (Tcp d)
  then have fd: "tcp_fd d = fd" and x: "stream fd s = tcp_frame m @ rest"
    using assms(2,4,5) by auto
  obtain t where "ducq_tcp_recv fd (replicate 256 NUL) 256 s = Some (Inr (length m), filled m, t)" "only_read fd s t"
    using tcp_recv_fluent [OF assms(3) x, of 256 "replicate 256 NUL"] assms(6) by (auto simp: tcp_sendable_def INT_MAX_def)
  then show ?thesis
    using Tcp fd by (simp add: tcp_recv_def)
next
  case (Ws d)
  then show ?thesis
    using ws_receives [of d l fd s m x rest] assms by auto
next
  case (Http d)
  show ?thesis
  proof (cases "http_ws d")
    case None
    then show ?thesis
      using Http assms(2,4) by auto
  next
    case (Some w)
    then show ?thesis
      using Http ws_receives [of w l fd s m x rest] assms by (auto simp: http_recv_def)
  qed
qed

lemma receive_settles:
  assumes con: "connected r" and lv: "live i p r" and "arrives m i p r" and "tcp_sendable m"
  shows "\<exists>s. on_world (ducq_recv p (replicate DUCQ_MSGSZ NUL) DUCQ_MSGSZ) r = Some ((DUCQ_OK, length m, filled m), s) \<and>
    settles bs (\<lambda>_. False) r s"
proof -
  obtain l x rest where a: "fluent (os_in (w_os (re_world r)) (slot_fd i r))" "link_at p r = Some (l, slot_fd i r)"
      "framed (peer l) m x" "stream (slot_fd i r) (w_os (re_world r)) = x @ rest"
    using assms(3) by (auto simp: arrives_def)
  obtain c where c: "w_heap (re_world r) p = Some c" "client_wf c" "link_of c = (l, slot_fd i r)"
    using connectedD(2) [OF con lv] a(2) by (auto simp: link_at_def)
  have p: "p \<noteq> 0"
    using reactor_invD(2) [OF connectedD(1) [OF con] lv] .
  obtain c' t where t: "vt_recv (replicate DUCQ_MSGSZ NUL) DUCQ_MSGSZ c (w_os (re_world r)) = Some ((DUCQ_OK, length m, filled m), c', t)"
      "link_of c' = link_of c" "client_wf c'" "only_read (slot_fd i r) (w_os (re_world r)) t"
    using vt_receives [OF c(2,3) a(1,3,4) assms(4)] by blast
  have ok: "client_ok c \<longrightarrow> client_ok c'"
    using recv_ok [OF t(1)] by blast
  have "ducq_recv p (replicate DUCQ_MSGSZ NUL) DUCQ_MSGSZ (re_world r) =
      Some ((DUCQ_OK, length m, filled m), (re_world r)\<lparr>w_os := t, w_heap := (w_heap (re_world r))(p \<mapsto> c')\<rparr>)"
    unfolding ducq_recv_def by (rule deref_run [where f = "vt_recv (replicate DUCQ_MSGSZ NUL) DUCQ_MSGSZ", OF p c(1) t(1)])
  then have run: "on_world (ducq_recv p (replicate DUCQ_MSGSZ NUL) DUCQ_MSGSZ) r = Some ((DUCQ_OK, length m, filled m), with_client p c' t r)"
    by (simp add: on_world_def with_client_def)
  note os = only_readD [OF t(4)]
  have "stays [] j q r (with_client p c' t r)" if "live j q r" for j q
    using that unfolding stays_def reliable_def with_client_link [OF c(1) t(2)] by (simp add: os out_of_def)
  then have "settles bs (\<lambda>_. False) r (with_client p c' t r)"
    using with_client_connected [OF con c(1) arg_cong [where f = snd, OF t(2)] t(3) ok] c(1) os(7) by (auto simp: settles_def)
  then show ?thesis
    using run by blast
qed

section \<open>The turn\<close>

text \<open>A server of any clients at the head of its loop, with \<open>pub\<close> loaded and memory to spare; the client in the
  slot is the only one that is ready.\<close>

definition mixed_ready :: "('l, 's dispatcher) loop_env \<Rightarrow> ('l, 's) disp_env \<Rightarrow> nat \<Rightarrow> nat \<Rightarrow> ('l, 's) server \<Rightarrow> bool" where
  "mixed_ready env denv i p r \<longleftrightarrow>
     connected r \<and> live i p r \<and> log_slots r = [] \<and> only_ready env i r \<and> env_dispatch env = ducq_dispatch denv \<and>
     (\<exists>d exec. re_dispatcher r = Some d \<and> find_loaded ''pub'' (commands_of d) = Some exec \<and> de_exec denv exec = pub) \<and>
     os_malloc (w_os (re_world r)) = []"

text \<open>The publisher takes every byte, or it is not in its own audience.\<close>

definition sound_publisher :: "string \<Rightarrow> nat \<Rightarrow> nat \<Rightarrow> ('l, 'd) reactor \<Rightarrow> bool" where
  "sound_publisher route i p r \<longleftrightarrow>
     reliable i p r \<or> (\<forall>t. route_at i r = Some t \<longrightarrow> \<not> ducq_route_cmp (Some t) (Some route))"

lemma mixed_turn:
  assumes "mixed_ready env denv i p r" and "publishable route payload r" and "arrives (message_text ''pub'' route payload) i p r"
    and "sound_publisher route i p r"
  shows "\<exists>b r'. ducq_loop_turn env buffer r = Some (b, r') \<and>
    reactor_inv r' \<and> (\<forall>j q. live j q r' \<longrightarrow> live j q r) \<and>
    ((\<forall>j q t. live j q r \<longrightarrow> route_at j r = Some t \<longrightarrow>
        outcome (j = i) (ducq_route_cmp (Some t) (Some route)) (message_text ''pub'' route payload) j q r r') \<or>
     refused i p r r')"
proof -
  let ?m = "message_text ''pub'' route payload"
  note a = assms(1) [unfolded mixed_ready_def] and b = assms(2) [unfolded publishable_def]
  obtain d exec where d: "re_dispatcher r = Some d" "find_loaded ''pub'' (commands_of d) = Some exec" "de_exec denv exec = pub"
    using a by blast
  obtain s where s: "on_world (ducq_recv p (replicate DUCQ_MSGSZ NUL) DUCQ_MSGSZ) r = Some ((DUCQ_OK, length ?m, filled ?m), s)"
      "settles [] (\<lambda>_. False) r s"
    using receive_settles [OF _ _ assms(3), of "[]"] a b by blast
  have parts: "parts_ok ''pub'' route" and buf: "in_buffer ?m (filled ?m)"
    using b by (auto simp: parts_ok_def in_buffer_def tcp_sendable_def)
  have st: "stays [] j q r s" if "live j q r" for j q
    using settlesD(7) [OF s(2) that] by simp
  have l: "live i p s" and rel: "reliable i p r \<longrightarrow> reliable i p s"
    using st a by (simp_all add: stays_def)
  have own: "reliable i p s \<or> \<not> subscribed (\<lambda>t. ducq_route_cmp (Some t) (Some route)) s i"
    using assms(4) rel settlesD(8) [OF s(2), of i] by (auto simp: sound_publisher_def subscribed_def)
  have mem: "os_malloc (w_os (re_world s)) = []" and store: "wf_last (re_last_msgs s)"
    and rt: "route \<noteq> []" "length route < DUCQ_MAX_ROUTE_LEN"
    using a b settlesD(10,11) [OF s(2)] by simp_all
  obtain st' r' where r': "pub p (filled ?m) (length ?m) s = Some (st', filled ?m, r')" "reactor_inv r'" "\<forall>j q. live j q r' \<longrightarrow> live j q s"
    and each: "if st' = DUCQ_OK
      then \<forall>j q t. live j q s \<longrightarrow> route_at j s = Some t \<longrightarrow> outcome (j = i) (ducq_route_cmp (Some t) (Some route)) ?m j q s r'
      else refused i p s r'"
    using pub_isolates [OF settlesD(1) [OF s(2)] l settles_no_log [OF s(2)] mem parts rt buf store own] a by blast
  have "ducq_dispatch denv p (filled ?m) (length ?m) s = Some (st', filled ?m, r')"
    using dispatch_run [OF parts buf, of s d denv p "length ?m"] settlesD(9) [OF s(2)] d r'(1) by simp
  then have run: "ducq_loop_turn env buffer r = Some (filled ?m, r')"
    using turn_received [OF _ _ s(1), of i env buffer] a by simp
  have "(\<forall>j q t. live j q r \<longrightarrow> route_at j r = Some t \<longrightarrow> outcome (j = i) (ducq_route_cmp (Some t) (Some route)) ?m j q r r') \<or>
    refused i p r r'"
  proof (cases "st' = DUCQ_OK")
    case True
    have "outcome (j = i) (ducq_route_cmp (Some t) (Some route)) ?m j q r r'" if "live j q r" "route_at j r = Some t" for j q t
    proof -
      have l: "live j q s"
        using st [OF that(1)] by (simp add: stays_def)
      then show ?thesis
        using outcome_after [OF st [OF that(1)] settlesD(5) [OF s(2) l]] each True that(2) settlesD(8) [OF s(2)] by simp
    qed
    then show ?thesis
      by blast
  qed (use refused_after [OF s(2)] a each in simp)
  then show ?thesis
    using run r'(2,3) settlesD(4) [OF s(2)] by blast
qed

lemma mixed_publish:
  assumes "mixed_ready env denv i p r" and "publishable route payload r" and "arrives (message_text ''pub'' route payload) i p r"
    and "reliable i p r"
  shows "\<exists>b r'. ducq_loop_turn env buffer r = Some (b, r') \<and>
    reactor_inv r' \<and> (\<forall>j q. live j q r' \<longrightarrow> live j q r) \<and>
    (\<forall>j q t. live j q r \<longrightarrow> route_at j r = Some t \<longrightarrow>
      outcome (j = i) (ducq_route_cmp (Some t) (Some route)) (message_text ''pub'' route payload) j q r r')"
  using mixed_turn [OF assms(1-3), of buffer] assms(4) by (auto simp: sound_publisher_def refused_def dropped_def)

text \<open>C5: publishing among clients of every kind, none of which is subscribed to the log, when the network fails for
  any of them.  A \<open>pub\<close> message
  arrives, in any pieces, as a TCP frame or as a masked WebSocket frame.  One turn of the loop has one of two
  results.  The publisher is acknowledged, and every client whose subscription matches gets one whole frame of the
  message in its own transport and stays, or, when it does not accept every byte, is removed and freed; the
  clients of other routes get nothing and stay.  Or the publisher, which is not reliable, has not taken its
  acknowledgement: then it is removed and freed, and nobody else gets anything or is removed.  A reliable client
  is never removed.  The publisher is reliable or is not in its own audience: otherwise the turn may be undefined
  (\<open>publisher_drops_itself\<close> below).\<close>

theorem publish_isolates_failures:
  assumes "mixed_ready env denv i p r" and "publishable route payload r" and "arrives (message_text ''pub'' route payload) i p r"
    and "sound_publisher route i p r"
  shows "\<exists>b r'. ducq_loop_turn env buffer r = Some (b, r') \<and>
    reactor_inv r' \<and> (\<forall>j q. live j q r' \<longrightarrow> live j q r) \<and>
    ((\<forall>j q t. live j q r \<longrightarrow> route_at j r = Some t \<longrightarrow>
        outcome (j = i) (ducq_route_cmp (Some t) (Some route)) (message_text ''pub'' route payload) j q r r') \<or>
     refused i p r r')"
  by (rule mixed_turn [OF assms])

section \<open>Witness\<close>

text \<open>A TCP subscriber, a WebSocket publisher, and a TCP subscriber whose first write fails.\<close>

definition mixed :: "rd_ev list \<Rightarrow> (unit, nat) server" where
  "mixed es =
     \<lparr>re_world = \<lparr>w_os = quiet_os\<lparr>os_wr := (\<lambda>fd. if fd = 7 then [WErr EOTHER] else []), os_in := (\<lambda>_. es)\<rparr>,
        w_heap = [9 \<mapsto> demo_tcp 5, 10 \<mapsto> Ws (server_ws\<lparr>ws_fd := 6\<rparr>), 11 \<mapsto> demo_tcp 7]\<rparr>,
      re_conns = (re_conns (demo ''a'' ''b''))[2 := demo_conn 7 11 ''a''], re_dispatcher = Some pub_dispatcher,
      re_allow_log_route = True, re_logfunc = no_log, re_logger = (), re_last_msgs = cleared demo_store\<rparr>"

definition mixed_loop :: "(unit, nat dispatcher) loop_env" where
  "mixed_loop = demo_loop\<lparr>env_select := (\<lambda>n fds r. (1, [6], r))\<rparr>"

lemma mixed_conns:
  "i < DUCQ_MAX_CONNECTIONS \<Longrightarrow> re_conns (mixed es) ! i =
    (if i = 2 then demo_conn 7 11 ''a'' else re_conns (demo ''a'' ''b'') ! i)"
  by (simp add: mixed_def nth_list_update)

lemma mixed_simps [simp]:
  "w_heap (re_world (mixed es)) = [9 \<mapsto> demo_tcp 5, 10 \<mapsto> Ws (server_ws\<lparr>ws_fd := 6\<rparr>), 11 \<mapsto> demo_tcp 7]"
  "length (re_conns (mixed es)) = DUCQ_MAX_CONNECTIONS" "re_last_msgs (mixed es) = re_last_msgs (demo ''b'' ''a'')"
  "os_wr (w_os (re_world (mixed es))) fd = (if fd = 7 then [WErr EOTHER] else [])"
  "os_in (w_os (re_world (mixed es))) fd = es"
  "os_malloc (w_os (re_world (mixed es))) = []" "out_of fd (mixed es) = []" "re_dispatcher (mixed es) = Some pub_dispatcher"
  by (simp_all add: mixed_def quiet_os_def out_of_def)

lemma mixed_live: "live i p (mixed es) \<longleftrightarrow> i = 0 \<and> p = 9 \<or> i = 1 \<and> p = 10 \<or> i = 2 \<and> p = 11"
proof (cases "i = 2")
  case True
  then show ?thesis
    by (auto simp: live_def mixed_conns demo_conn_def conn_client_def)
next
  case False
  then have "live i p (mixed es) = live i p (demo ''a'' ''b'')"
    by (auto simp: live_def mixed_conns)
  then show ?thesis
    using False by (simp add: demo_live)
qed

lemma mixed_at:
  "re_conns (mixed es) ! 0 = demo_conn 5 9 ''a''" "re_conns (mixed es) ! 1 = demo_conn 6 10 ''b''" "re_conns (mixed es) ! 2 = demo_conn 7 11 ''a''"
  using mixed_conns [of 0] mixed_conns [of 1] mixed_conns [of 2] demo_conns [of 0 "''a''" "''b''"] demo_conns [of 1 "''a''" "''b''"]
  by simp_all

lemma demo_conn_route: "NUL \<notin> set t \<Longrightarrow> length t < DUCQ_MAX_ROUTE_LEN \<Longrightarrow> c_str (conn_route (demo_conn fd p t)) 0 = Some t"
  by (simp add: conn_route_def demo_conn_def c_str_strncpy)

lemma mixed_slots:
  "slot_fd 0 (mixed es) = 5" "slot_fd 1 (mixed es) = 6" "slot_fd 2 (mixed es) = 7"
  "route_at 0 (mixed es) = Some ''a''" "route_at 1 (mixed es) = Some ''b''" "route_at 2 (mixed es) = Some ''a''"
  unfolding slot_fd_def route_at_def mixed_at by (simp_all add: demo_conn_route) (simp_all add: demo_conn_def)

lemma mixed_links:
  "link_at 9 (mixed es) = Some (TcpLink, 5)" "link_at 10 (mixed es) = Some (WsLink False, 6)" "link_at 11 (mixed es) = Some (TcpLink, 7)"
  by (simp_all add: link_at_def demo_tcp_def ws_link_def server_ws_def)

lemma mixed_connected: "connected (mixed es)"
proof -
  have "length (conn_route c) = DUCQ_MAX_ROUTE_LEN" if "c \<in> set (re_conns (mixed es))" for c
  proof -
    obtain i where "i < DUCQ_MAX_CONNECTIONS" "c = re_conns (mixed es) ! i"
      using \<open>c \<in> set (re_conns (mixed es))\<close> by (metis mixed_simps(2) in_set_conv_nth)
    then show ?thesis
      by (simp add: mixed_conns demo_conns demo_conn_def conn_route_def)
  qed
  moreover have "ids_ok (re_world (mixed es))"
    by (auto simp: ids_ok_def demo_tcp_def tcp_five_def server_ws_def split: if_splits)
  moreover have "conn_client (re_conns (mixed es) ! 0) = Some 9" "conn_client (re_conns (mixed es) ! 1) = Some 10"
    by (simp_all add: mixed_conns demo_conns demo_conn_def conn_client_def)
  ultimately have "reactor_inv (mixed es)"
    using mixed_slots unfolding reactor_inv_def table_ok_def mixed_live by (auto simp: less_Suc_eq numeral_2_eq_2)
  moreover have "client_wf c" if "w_heap (re_world (mixed es)) p = Some c" for p c
    using that by (auto simp: demo_tcp_def wf_ws_def server_ws_def split: if_splits)
  ultimately show ?thesis
    using mixed_slots mixed_links unfolding connected_def mixed_live by auto
qed

definition browser_frame :: "char list" where
  "browser_frame = ws_frame (WS_FIN OR WS_TEXT) (Some [1, 2, 3, 4]) demo_pub"

lemma mixed_reliable: "reliable 1 10 (mixed es)"
  using mixed_slots mixed_links by (simp add: reliable_def del: One_nat_def)

lemma mixed_is_ready: "mixed_ready mixed_loop pub_env 1 10 (mixed es)"
proof -
  have lv: "live 1 10 (mixed es)"
    by (simp add: mixed_live)
  have quiet: "log_slots (mixed es) = []"
    using mixed_slots by (auto simp: log_slots_def filter_empty_conv subscribed_def mixed_live DUCQ_LOG_ROUTE_def)
  have fds: "conn_fd (re_conns (mixed es) ! j) = 6 \<longrightarrow> j = 1" if "j < DUCQ_MAX_CONNECTIONS" for j
    using that by (simp add: mixed_conns demo_conns demo_conn_def)
  have "watched_fds (re_conns (mixed es)) = Some [5, 6, 7]"
    by (simp add: mixed_def demo_conn_list watched_fds_def demo_conn_def FD_SETSIZE_def numeral_eq_Suc)
  then have "only_ready mixed_loop 1 (mixed es)"
    using fds mixed_slots(2) by (simp add: only_ready_def mixed_loop_def)
  moreover have "find_loaded ''pub'' (commands_of pub_dispatcher) = Some 7" "de_exec pub_env 7 = pub" "env_dispatch mixed_loop = ducq_dispatch pub_env"
    by (simp_all add: mixed_loop_def demo_loop_def pub_dispatcher_def commands_of_def find_loaded_def pub_env_def)
  ultimately show ?thesis
    using mixed_connected lv quiet by (simp add: mixed_ready_def)
qed

theorem publish_isolates_failures_witness:
  "\<exists>b r'. ducq_loop_turn mixed_loop [] (mixed [RData browser_frame]) = Some (b, r') \<and>
    out_of 5 r' = tcp_frame demo_pub \<and> out_of 6 r' = ws_frame (WS_FIN OR WS_TEXT) None ''ACK''"
proof -
  let ?r = "mixed [RData browser_frame]"
  have "publishable ''a'' ''hi'' ?r"
    unfolding publishable_def mixed_simps using demo_store_free(1) demo_room demo_stream(3) by (simp add: message_text_def)
  moreover have "arrives demo_pub 1 10 ?r"
    unfolding arrives_def mixed_slots mixed_links
    by (auto simp: browser_frame_def stream_def ws_frame_def rfc_header_Cons intro!: exI [of _ "Some [1, 2, 3, 4]"])
  moreover have "sound_publisher ''a'' 1 10 ?r"
    using mixed_reliable by (simp add: sound_publisher_def)
  ultimately obtain b r' where r': "ducq_loop_turn mixed_loop [] ?r = Some (b, r')"
    and "(\<forall>j q t. live j q ?r \<longrightarrow> route_at j ?r = Some t \<longrightarrow>
      outcome (j = 1) (ducq_route_cmp (Some t) (Some ''a'')) demo_pub j q ?r r') \<or> refused 1 10 ?r r'"
    using publish_isolates_failures [OF mixed_is_ready, of "''a''" "''hi''" "[RData browser_frame]" "[]"] by blast
  then have each: "outcome (j = 1) (ducq_route_cmp (Some t) (Some ''a'')) demo_pub j q ?r r'"
    if "live j q ?r" "route_at j ?r = Some t" for j q t
    using that mixed_reliable [of "[RData browser_frame]"] unfolding refused_def dropped_def by blast
  have cmp: "ducq_route_cmp (Some ''a'') (Some ''a'')" "\<not> ducq_route_cmp (Some ''b'') (Some ''a'')"
    by code_simp+
  have "outcome False True demo_pub 0 9 ?r r'" and "outcome True False demo_pub 1 10 ?r r'"
    using each [of 0 9] each [of 1 10] mixed_slots cmp by (simp_all add: mixed_live)
  moreover have "reliable 0 9 ?r"
    using mixed_slots mixed_links by (simp add: reliable_def)
  ultimately have "out_of 5 r' = tcp_frame demo_pub" "out_of 6 r' = ws_frame (WS_FIN OR WS_TEXT) None ''ACK''"
    unfolding outcome_def mixed_slots mixed_links by (auto split: option.splits)
  then show ?thesis
    using r' by blast
qed

section \<open>A publisher that does not take its own message\<close>

text \<open>The first client of that server is subscribed to the route it publishes on; the network takes the
  acknowledgement and then fails for it.  The loop of \<open>pub\<close> frees the publisher, and the log line behind the
  loop asks it for its id: undefined.\<close>

definition echoing :: "(unit, nat) server" where
  "echoing = (mixed [])\<lparr>re_world := (re_world (mixed []))\<lparr>w_os :=
     quiet_os\<lparr>os_wr := (\<lambda>fd. if fd = 5 then [WOk 9, WOk 9, WErr EOTHER] else [])\<rparr>\<rparr>\<rparr>"

theorem publisher_drops_itself: "pub 9 (filled demo_pub) (length demo_pub) echoing = None"
  by code_simp

end
