(* ===== verification/Commands_Listing.thy ===== *)
theory Commands_Listing
  imports Mixed_Turn
begin

text \<open>
  The lists of the connections, on a server with clients of every kind: what \<open>lsconn\<close> answers a client, what
  \<open>list_subscriptions\<close> sends when the list fits its buffer, and what it does when the list is longer.
\<close>

section \<open>Names\<close>

text \<open>The id a client answers, cached or not.\<close>

definition name_of :: "client \<Rightarrow> os \<Rightarrow> string" where
  "name_of c s = (case vt_id c s of Some (Some a, _, _) \<Rightarrow> a | _ \<Rightarrow> [])"

definition client_name :: "nat \<Rightarrow> world \<Rightarrow> string" where
  "client_name p w = (case w_heap w p of Some c \<Rightarrow> name_of c (w_os w) | None \<Rightarrow> [])"

definition same_names :: "('l, 'd) reactor \<Rightarrow> ('l, 'd) reactor \<Rightarrow> bool" where
  "same_names r r' \<longleftrightarrow> (\<forall>q. client_name q (re_world r') = client_name q (re_world r))"

lemma name_simps [simp]:
  "name_of (Tcp t) s = fst (tcp_get_id t s)" "name_of (Ws w) s = fst (ws_get_id w s)" "name_of (Http h) s = fst (http_get_id h s)"
  by (simp_all add: name_of_def split: prod.split)

lemma socket_name: "os_peer t = os_peer s \<Longrightarrow> inet_socket_tostring fd False n t = inet_socket_tostring fd False n s"
  by (simp add: inet_socket_tostring_def)

text \<open>It depends on the peer of the socket only, and on what an earlier call has left.\<close>

lemma name_os: "os_peer t = os_peer s \<Longrightarrow> name_of c t = name_of c s"
  by (cases c) (simp_all add: tcp_get_id_def ws_get_id_def http_get_id_def socket_name [of t s] split: option.split)

lemma name_again:
  assumes "vt_id c s = Some (a, c', t)"
  shows "a = Some (name_of c s)" and "name_of c' s = name_of c s" and "t = s"
  using assms by (cases c; auto simp: tcp_get_id_def ws_get_id_def http_get_id_def snprintf_def Let_def split: if_splits option.splits prod.splits)+

lemma ws_name_kept: "ws_fd w' = ws_fd w \<Longrightarrow> ws_id w' = ws_id w \<Longrightarrow> fst (ws_get_id w' s) = fst (ws_get_id w s)"
  by (simp add: ws_get_id_def Let_def split: prod.split)

lemma ws_send_names:
  assumes "wf_ws c" and "length bs \<le> DUCQ_MSGSZ" and "ws_send_text c bs s = (st, c', t)"
  shows "ws_fd c' = ws_fd c" and "ws_id c' = ws_id c" and "os_peer t = os_peer s"
proof -
  define d where "d = c\<lparr>ws_hdr := (ws_hdr c)[0 := WS_FIN OR WS_TEXT]\<rparr>"
  have "wf_ws d" and run: "ws_send d bs s = (st, c', t)"
    using assms(1,3) by (simp_all add: wf_ws_def d_def ws_send_text_def)
  then have c: "ws_fd c' = ws_fd d \<and> ws_id c' = ws_id d \<and> (\<exists>x. only_wrote (ws_fd d) x s t)"
    using ws_send_cases [OF _ _ _ run] assms(2) by fastforce
  then show "ws_fd c' = ws_fd c" and "ws_id c' = ws_id c"
    by (simp_all add: d_def)
  obtain x where "only_wrote (ws_fd d) x s t"
    using c by blast
  then show "os_peer t = os_peer s"
    by (rule only_wroteD(6))
qed

lemma tcp_send_names:
  assumes "tcp_send c bs s = Some (st, t)"
  shows "os_peer t = os_peer s"
proof -
  obtain res u where run: "ducq_tcp_send (tcp_fd c) bs s = Some (res, u)"
    using assms by (auto simp: tcp_send_def bind_Some_conv)
  moreover have "u = t"
    using assms run by (cases res) (simp_all add: tcp_send_def)
  ultimately obtain x where "only_wrote (tcp_fd c) x s t"
    using tcp_send_prefix by blast
  then show ?thesis
    by (rule only_wroteD(6))
qed

lemma send_names:
  assumes "client_wf c" and "length bs \<le> DUCQ_MSGSZ" and "vt_send bs c s = Some (st, c', t)"
  shows "name_of c' t = name_of c s \<and> os_peer t = os_peer s"
proof (cases c)
  case (Tcp d)
  then show ?thesis
    using assms(3) tcp_send_names [of d bs s] name_os [of t s c] by auto
next
  case (Ws d)
  obtain st' w u where w: "ws_send_text d bs s = (st', w, u)" by (metis prod_cases3)
  then have c': "c' = Ws w" "u = t"
    using assms(3) Ws by auto
  have "wf_ws d"
    using assms(1) Ws by simp
  note n = ws_send_names [OF this assms(2) w]
  show ?thesis
    unfolding c'(1) Ws name_simps ws_name_kept [OF n(1,2)] using name_os [OF n(3), of "Ws d"] n(3) c'(2) by simp
next
  case (Http d)
  show ?thesis
  proof (cases "http_ws d")
    case None
    then show ?thesis
      using assms(3) Http by (auto simp: http_send_def)
  next
    case (Some v)
    obtain st' w u where w: "ws_send_text v bs s = (st', w, u)" by (metis prod_cases3)
    then have c': "c' = Http (d\<lparr>http_ws := Some w\<rparr>)" "u = t"
      using assms(3) Http Some by (auto simp: http_send_def)
    have "wf_ws v"
      using assms(1) Http Some by simp
    note n = ws_send_names [OF this assms(2) w]
    have "name_of c' t = fst (ws_get_id w t)" and "name_of c s = fst (ws_get_id v s)"
      by (simp_all add: c'(1) Http Some http_get_id_def split: prod.split)
    then show ?thesis
      unfolding ws_name_kept [OF n(1,2)] using name_os [OF n(3), of "Ws v"] n(3) c'(2) by simp
  qed
qed

text \<open>What one client does leaves the names of all.\<close>

lemma with_client_names:
  assumes "w_heap (re_world r) p = Some c" and "name_of c' s = name_of c (w_os (re_world r))" and "os_peer s = os_peer (w_os (re_world r))"
  shows "same_names r (with_client p c' s r)"
  using assms name_os [OF assms(3)] by (simp add: same_names_def client_name_def split: option.split)

section \<open>What a client is told\<close>

text \<open>The client in the slot is sent some bytes; nothing else happens to any client.\<close>

definition told :: "char list \<Rightarrow> nat \<Rightarrow> ('l, 'd) reactor \<Rightarrow> ('l, 'd) reactor \<Rightarrow> bool" where
  "told x i r s \<longleftrightarrow> aside i r s \<and> same_names r s \<and> (\<forall>p. live i p r \<longrightarrow> stays x i p r s)"

lemma toldD:
  assumes "told x i r s"
  shows "connected s" and "same_names r s" and "re_conns s = re_conns r" and "live j q s = live j q r" and "slot_fd j s = slot_fd j r"
    and "route_at j s = route_at j r" and "log_slots s = log_slots r" and "aside i r s"
    and "live j q r \<Longrightarrow> stays (if j = i then x else []) j q r s"
proof -
  show as: "aside i r s" and "same_names r s"
    using assms by (simp_all add: told_def)
  then show "connected s" and "re_conns s = re_conns r"
    by (simp_all add: aside_def)
  show "live j q s = live j q r" and "slot_fd j s = slot_fd j r" and "route_at j s = route_at j r" for j q
    using aside_table [OF as] by blast+
  then have "subscribed W s = subscribed W r" for W
    by (simp add: subscribed_def fun_eq_iff)
  then show "log_slots s = log_slots r"
    using as by (simp add: log_slots_def aside_def)
  show "live j q r \<Longrightarrow> stays (if j = i then x else []) j q r s"
    using assms as unfolding told_def aside_def by (cases "j = i") simp_all
qed

lemma told_trans:
  assumes "told x i r s" and "told y i s t"
  shows "told (x @ y) i r t"
proof -
  note a = toldD [OF assms(1)] and b = toldD [OF assms(2)]
  have "stays (x @ y) i p r t" if "live i p r" for p
    using stays_trans [of x i p r s y t] a(9) [OF that] b(9) [of i p] that a(4,5) by simp
  moreover have "same_names r t"
    using a(2) b(2) by (simp add: same_names_def)
  ultimately show ?thesis
    using aside_trans [OF a(8) b(8)] by (simp add: told_def)
qed

lemma settles_told:
  assumes "settles bs (\<lambda>_. False) r s" and "connected r" and "same_names r s"
  shows "told [] i r s"
  using assms(3) settles_aside [OF assms(1,2)] settlesD(7) [OF assms(1)] by (simp add: told_def)

lemma told_refl: "connected r \<Longrightarrow> told [] i r r"
  by (rule settles_told [OF settles_refl]) (simp_all add: same_names_def)

lemma told_reliable: "told x i r s \<Longrightarrow> live i p r \<Longrightarrow> reliable i p r \<Longrightarrow> reliable i p s"
  using toldD(9) [of x i r s i p] by (simp add: stays_def)

lemma told_link: "told x i r s \<Longrightarrow> live j q r \<Longrightarrow> link_at q s = link_at q r"
  using toldD(9) [of x i r s j q] by (simp add: stays_def)

lemma id_told:
  assumes con: "connected r" and lv: "live j q r"
  shows "\<exists>s. on_world (ducq_id q) r = Some (Some (client_name q (re_world r)), s) \<and> told [] i r s \<and>
    length (client_name q (re_world r)) < 100"
proof -
  obtain a s where s: "on_world (ducq_id q) r = Some (Some a, s)" "length a < 100" "settles [] (\<lambda>_. False) r s"
    using id_settles [OF con lv] by blast
  obtain c where c: "w_heap (re_world r) q = Some c"
    using connectedD(2) [OF con lv] by blast
  have q: "q \<noteq> 0"
    using reactor_invD(2) [OF connectedD(1) [OF con] lv] .
  have "vt_id c (w_os (re_world r)) \<noteq> None"
    by (cases c) (auto split: prod.splits)
  then obtain b c' t where t: "vt_id c (w_os (re_world r)) = Some (b, c', t)"
    by auto
  have "ducq_id q (re_world r) = Some (b, (re_world r)\<lparr>w_os := t, w_heap := (w_heap (re_world r))(q \<mapsto> c')\<rparr>)"
    unfolding ducq_id_def by (rule deref_run [where f = vt_id, OF q c t])
  then have "b = Some a" and sw: "s = with_client q c' (w_os (re_world r)) r"
    using s(1) name_again(3) [OF t] by (simp_all add: on_world_def with_client_def)
  then have "a = client_name q (re_world r)"
    using name_again(1) [OF t] c by (simp add: client_name_def)
  moreover have "same_names r s"
    unfolding sw by (rule with_client_names [OF c name_again(2) [OF t]]) simp
  ultimately show ?thesis
    using s settles_told [OF s(3) con] by auto
qed

lemma send_told:
  assumes con: "connected r" and lv: "live i p r" and rel: "reliable i p r" and len: "length bs \<le> DUCQ_MSGSZ"
  shows "\<exists>l x s. link_at p r = Some (l, slot_fd i r) \<and> framed l bs x \<and> on_world (ducq_send p bs) r = Some (DUCQ_OK, s) \<and> told x i r s"
proof -
  obtain st s where s: "on_world (ducq_send p bs) r = Some (st, s)" "aside i r s"
      "if st = DUCQ_OK then settles bs (\<lambda>j. j = i) r s \<and> live i p s
       else \<not> reliable i p r \<and> (\<exists>f. connection_free i s = Some f \<and> settles bs (\<lambda>j. j = i) r f \<and> \<not> live i p f)"
    using send_settles [OF con lv len] by blast
  then have ok: "st = DUCQ_OK" and st: "settles bs (\<lambda>j. j = i) r s"
    using rel by (auto split: if_splits)
  have "gets bs i p r s"
    using settlesD(6) [OF st lv] rel by (auto simp: dropped_def)
  then obtain l x where x: "link_at p r = Some (l, slot_fd i r)" "framed l bs x" "stays x i p r s"
    by (auto simp: gets_def)
  obtain c where c: "w_heap (re_world r) p = Some c" "client_wf c"
    using connectedD(2) [OF con lv] by blast
  have p: "p \<noteq> 0"
    using reactor_invD(2) [OF connectedD(1) [OF con] lv] .
  obtain st' c' t where t: "vt_send bs c (w_os (re_world r)) = Some (st', c', t)"
    using vt_sends [OF c(2) len] by blast
  have "ducq_send p bs (re_world r) = Some (st', (re_world r)\<lparr>w_os := t, w_heap := (w_heap (re_world r))(p \<mapsto> c')\<rparr>)"
    unfolding ducq_send_def by (rule deref_run [where f = "vt_send bs", OF p c(1) t])
  then have "s = with_client p c' t r"
    using s(1) by (simp add: on_world_def with_client_def)
  then have "same_names r s"
    using with_client_names [OF c(1)] send_names [OF c(2) len t] by simp
  moreover have "q = p" if "live i q r" for q
    using that lv by (simp add: live_def)
  ultimately have "told x i r s"
    using s(2) x(3) by (auto simp: told_def)
  then show ?thesis
    using x s(1) ok by blast
qed

lemma log_told:
  assumes "connected r" and "live j q r" and "log_slots r = []" and "length f + length txt \<le> 142"
  shows "\<exists>s. ducq_log lv f q txt r = Some s \<and> told [] i r s"
proof -
  let ?a = "client_name q (re_world r)"
  obtain s where s: "on_world (ducq_id q) r = Some (Some ?a, s)" "told [] i r s" "length ?a < 100"
    using id_told [OF assms(1,2)] by blast
  note d = toldD [OF s(2)]
  define e where "e = \<lparr>le_level = lv, le_function = f, le_sender = Some ?a, le_text = txt\<rparr>"
  have "length (ducq_level_tostr lv) \<le> 7"
    by (cases lv) simp_all
  then have "length (log_line e) < DUCQ_MSGSZ"
    using assms(4) s(3) by (simp add: log_line_def e_def fmt_str_def)
  then obtain rc l where l: "ducq_reactor_log e s = Some (rc, s\<lparr>re_logger := l\<rparr>)"
    using log_idle [OF connectedD(1) [OF d(1)]] d(7) assms(3) by metis
  have "told [] i s (s\<lparr>re_logger := l\<rparr>)"
    by (rule settles_told [OF idle_settles [OF d(1)] d(1)]) (simp_all add: same_names_def)
  then have "told [] i r (s\<lparr>re_logger := l\<rparr>)"
    using told_trans [OF s(2)] by fastforce
  moreover have "ducq_log lv f q txt r = Some (s\<lparr>re_logger := l\<rparr>)"
    using s(1) l by (simp add: ducq_log_def e_def)
  ultimately show ?thesis
    by blast
qed

section \<open>The loop\<close>

definition slot_line :: "nat \<Rightarrow> ('l, 'd) reactor \<Rightarrow> string" where
  "slot_line i r = conn_line (Some (client_name (the (conn_client (re_conns r ! i))) (re_world r))) (the (route_at i r))"

definition listing :: "nat list \<Rightarrow> ('l, 'd) reactor \<Rightarrow> string list" where
  "listing is r = map (\<lambda>i. slot_line i r) (filter (\<lambda>i. \<exists>p. live i p r) is)"

lemma listing_same:
  assumes "told x k r r'"
  shows "listing is r' = listing is r" and "slot_line i r' = slot_line i r"
  using toldD(2,3,4,6) [OF assms] by (simp_all add: listing_def slot_line_def same_names_def)

lemma listing_Cons:
  "listing (i # is) r = (if \<exists>p. live i p r then [slot_line i r] else []) @ listing is r"
  by (simp add: listing_def)

text \<open>One client's entry, with the room \<open>left\<close> for it.\<close>

lemma list_entry_run:
  assumes "connected r" and "live i p r"
  shows "\<exists>r'. told [] k r r' \<and>
    list_entry p i (payload, pos, left) r =
      do {
        payload \<leftarrow> (if left = 0 then Some payload else mem_write payload pos (take (left - 1) (slot_line i r) @ [NUL]));
        let n = length (slot_line i r); left' = nat ((int left - int n) mod 2 ^ 64) in
        Some (if 0 < left' then DUCQ_LOOP_CONTINUE else DUCQ_LOOP_BREAK, (payload, pos + n, left'), r')
      }"
proof -
  obtain r' where r': "on_world (ducq_id p) r = Some (Some (client_name p (re_world r)), r')" "told [] k r r'"
    using id_told [OF assms] by blast
  obtain t where t: "route_at i r = Some t"
    using reactor_invD(4) [OF connectedD(1) [OF assms(1)] assms(2)] by blast
  have "slot_line i r = conn_line (Some (client_name p (re_world r))) t"
    using assms(2) t by (simp add: slot_line_def live_def)
  then show ?thesis
    using r' t by (intro exI [of _ r']) (simp add: list_entry_def snprintf_def Let_def)
qed

lemma list_slot:
  assumes "connected r" and "i < DUCQ_MAX_CONNECTIONS" and "conn_fd (re_conns r ! i) \<noteq> - 1"
  shows "(\<nexists>p. live i p r) \<and> loop_through_client list_entry i x r = Some (DUCQ_LOOP_CONTINUE, x, r) \<or>
    (\<exists>p. live i p r \<and> loop_through_client list_entry i x r = list_entry p i x r)"
proof (cases "conn_as (re_conns r ! i)")
  case (AsClient p area)
  then have "live i p r"
    using assms by (simp add: live_def conn_client_def)
  then show ?thesis
    using AsClient by (auto simp: loop_through_client_def)
qed (simp add: loop_through_client_def live_def conn_client_def)

text \<open>A list that fits.\<close>

lemma listing_fits:
  assumes "connected r" and "set is \<subseteq> {..<DUCQ_MAX_CONNECTIONS}" and "length payload = DUCQ_MSGSZ" and "pos \<le> DUCQ_MSGSZ"
    and "pos + length (concat (listing is r)) < DUCQ_MSGSZ"
  shows "\<exists>rest r'. loop_slots (loop_through_client list_entry) is DUCQ_LOOP_CONTINUE (payload, pos, DUCQ_MSGSZ - pos) r =
      Some (DUCQ_LOOP_CONTINUE, (take pos payload @ concat (listing is r) @ rest,
        pos + length (concat (listing is r)), DUCQ_MSGSZ - (pos + length (concat (listing is r)))), r') \<and>
    length (take pos payload @ concat (listing is r) @ rest) = DUCQ_MSGSZ \<and> told [] k r r'"
  using assms
proof (induction "is" arbitrary: payload pos r)
  case Nil
  then show ?case
    by (intro exI [of _ "drop pos payload"] exI [of _ r]) (simp add: listing_def told_refl)
next
  case (Cons i "is")
  show ?case
  proof (cases "\<exists>p. live i p r")
    case False
    then have "loop_slots (loop_through_client list_entry) (i # is) DUCQ_LOOP_CONTINUE (payload, pos, DUCQ_MSGSZ - pos) r =
        loop_slots (loop_through_client list_entry) is DUCQ_LOOP_CONTINUE (payload, pos, DUCQ_MSGSZ - pos) r"
      using list_slot [OF Cons.prems(1), of i "(payload, pos, DUCQ_MSGSZ - pos)"] Cons.prems(2) by auto
    then show ?thesis
      using Cons.IH [OF Cons.prems(1) _ Cons.prems(3,4)] Cons.prems(2,5) False unfolding listing_Cons by simp
  next
    case True
    then obtain p where p: "live i p r" by blast
    let ?l = "slot_line i r"
    have fits: "pos + length ?l + length (concat (listing is r)) < DUCQ_MSGSZ"
      using Cons.prems(5) True unfolding listing_Cons by simp
    define pl where "pl = take pos payload @ (?l @ [NUL]) @ drop (pos + length (?l @ [NUL])) payload"
    have pl: "mem_write payload pos (take (DUCQ_MSGSZ - pos - 1) ?l @ [NUL]) = Some pl" "length pl = DUCQ_MSGSZ"
        "take (pos + length ?l) pl = take pos payload @ ?l"
      using fits Cons.prems(3) by (simp_all add: mem_write_def pl_def)
    obtain r1 where r1: "told [] k r r1"
        "list_entry p i (payload, pos, DUCQ_MSGSZ - pos) r =
          Some (DUCQ_LOOP_CONTINUE, (pl, pos + length ?l, DUCQ_MSGSZ - (pos + length ?l)), r1)"
      using list_entry_run [OF Cons.prems(1) p, of k payload pos "DUCQ_MSGSZ - pos"] fits pl(1) by (auto simp: Let_def nat_eq_iff)
    have hook: "loop_through_client list_entry i (payload, pos, DUCQ_MSGSZ - pos) r =
        Some (DUCQ_LOOP_CONTINUE, (pl, pos + length ?l, DUCQ_MSGSZ - (pos + length ?l)), r1)"
      using list_slot [OF Cons.prems(1), of i "(payload, pos, DUCQ_MSGSZ - pos)"] p r1(2) live_unique [OF connectedD(1) [OF Cons.prems(1)]]
      by (auto simp: live_def)
    have s1: "connected r1" and l1: "listing is r1 = listing is r"
      using toldD(1) [OF r1(1)] listing_same [OF r1(1)] by simp_all
    obtain rest r' where r': "loop_slots (loop_through_client list_entry) is DUCQ_LOOP_CONTINUE (pl, pos + length ?l, DUCQ_MSGSZ - (pos + length ?l)) r1 =
        Some (DUCQ_LOOP_CONTINUE, (take (pos + length ?l) pl @ concat (listing is r) @ rest,
          pos + length ?l + length (concat (listing is r)), DUCQ_MSGSZ - (pos + length ?l + length (concat (listing is r)))), r')"
        "length (take (pos + length ?l) pl @ concat (listing is r) @ rest) = DUCQ_MSGSZ" "told [] k r1 r'"
      using Cons.IH [OF s1 _ pl(2), of "pos + length ?l"] Cons.prems(2) fits l1 by auto
    have "conn_fd (re_conns r ! i) \<noteq> - 1"
      using p by (simp add: live_def)
    then show ?thesis
      using r' hook told_trans [OF r1(1) r'(3)] True pl(3) unfolding listing_Cons
      by (intro exI [of _ rest] exI [of _ r']) (simp add: add.assoc)
  qed
qed

text \<open>A list that does not fit: \<open>left\<close> wraps around, and the next entry is written behind the buffer.\<close>

lemma slot_line_short:
  assumes "connected r" and "live i p r"
  shows "length (slot_line i r) \<le> 201"
proof -
  have name: "length (client_name p (re_world r)) < 100"
    using id_told [OF assms] by blast
  note inv = reactor_invD [OF connectedD(1) [OF assms(1)]]
  obtain t where t: "route_at i r = Some t"
    using inv(4) [OF assms(2)] by blast
  have "re_conns r ! i \<in> set (re_conns r)"
    using assms(2) inv(1) by (simp add: live_def)
  then have "length t \<le> 100"
    using t inv(6) length_takeWhile_le [of "\<lambda>c. c \<noteq> NUL" "conn_route (re_conns r ! i)"]
    by (auto simp: route_at_def c_str_def split: if_splits)
  then show ?thesis
    using name t assms(2) by (simp add: slot_line_def conn_line_def fmt_str_def live_def)
qed

lemma listing_past:
  assumes "connected r" and "set is \<subseteq> {..<DUCQ_MAX_CONNECTIONS}" and "length payload < pos" and "0 < left"
  shows "loop_slots (loop_through_client list_entry) is DUCQ_LOOP_CONTINUE (payload, pos, left) r \<in>
    {None, Some (DUCQ_LOOP_CONTINUE, (payload, pos, left), r)}"
  using assms(2)
proof (induction "is")
  case (Cons i "is")
  show ?case
  proof (cases "conn_fd (re_conns r ! i) = - 1")
    case False
    have "mem_write payload pos (bs @ [NUL]) = None" for bs
      using assms(3) by (simp add: mem_write_def)
    then have "list_entry p i (payload, pos, left) r = None" if "live i p r" for p
      using list_entry_run [OF assms(1) that, of _ payload pos left] assms(4) by auto
    then show ?thesis
      using list_slot [OF assms(1) _ False, of "(payload, pos, left)"] Cons False by auto
  qed (use Cons in simp)
qed simp

definition overfull :: "nat \<Rightarrow> string list \<Rightarrow> bool" where
  "overfull pos ls \<longleftrightarrow> DUCQ_MSGSZ < pos + length (concat ls) \<and> (\<forall>k. pos + length (concat (take k ls)) \<noteq> DUCQ_MSGSZ)"

lemma overfull_Cons: "overfull pos (l # ls) \<Longrightarrow> pos + length l < DUCQ_MSGSZ \<Longrightarrow> overfull (pos + length l) ls"
  unfolding overfull_def
proof (intro conjI allI)
  fix k
  assume a: "DUCQ_MSGSZ < pos + length (concat (l # ls)) \<and> (\<forall>k. pos + length (concat (take k (l # ls))) \<noteq> DUCQ_MSGSZ)"
  from conjunct2 [OF this, rule_format, of "Suc k"]
  show "pos + length l + length (concat (take k ls)) \<noteq> DUCQ_MSGSZ" by simp
qed simp

definition past_end :: "(nat \<times> (char list \<times> nat \<times> nat) \<times> ('l, 'd) reactor) option \<Rightarrow> bool" where
  "past_end result \<longleftrightarrow> (case result of
     None \<Rightarrow> True
   | Some (c, (payload, pos, left), r) \<Rightarrow> length payload < nat ((int DUCQ_MSGSZ - int left) mod 2 ^ 64))"

text \<open>The subtraction of a \<open>size_t\<close> from a smaller one.\<close>

lemma size_sub: "n \<le> m \<Longrightarrow> m < 2 ^ 64 \<Longrightarrow> nat ((int m - int n) mod 2 ^ 64) = m - n"
  by (simp add: nat_eq_iff)

lemma size_sub_wraps:
  assumes "m < n" and "n < 2 ^ 63"
  shows "nat ((int m - int n) mod 2 ^ 64) = 2 ^ 64 - (n - m)"
proof -
  have "(int m - int n) mod 2 ^ 64 = (int m - int n + 2 ^ 64) mod 2 ^ 64"
    by simp
  also have "\<dots> = int m - int n + 2 ^ 64"
    using assms by (intro mod_pos_pos_trivial) simp_all
  finally show ?thesis
    using assms by (simp add: nat_eq_iff)
qed

lemma size_back:
  assumes "DUCQ_MSGSZ < d" and "d < 2 ^ 63"
  shows "nat ((int DUCQ_MSGSZ - int (2 ^ 64 - (d - DUCQ_MSGSZ))) mod 2 ^ 64) = d"
proof -
  have "int (2 ^ 64 - (d - DUCQ_MSGSZ)) = 2 ^ 64 - int (d - DUCQ_MSGSZ)"
    using assms by (simp add: of_nat_diff)
  then have "(int DUCQ_MSGSZ - int (2 ^ 64 - (d - DUCQ_MSGSZ))) mod 2 ^ 64 = (int d - 2 ^ 64) mod 2 ^ 64"
    using assms by simp
  also have "\<dots> = int d mod 2 ^ 64"
    by (simp only: minus_mod_self2)
  also have "\<dots> = int d"
    using assms by (intro mod_pos_pos_trivial) simp_all
  finally show ?thesis
    by (simp only: nat_int)
qed

lemma listing_overflows:
  assumes "connected r" and "set is \<subseteq> {..<DUCQ_MAX_CONNECTIONS}" and "length payload = DUCQ_MSGSZ" and "pos < DUCQ_MSGSZ"
    and "overfull pos (listing is r)"
  shows "past_end (loop_slots (loop_through_client list_entry) is DUCQ_LOOP_CONTINUE (payload, pos, DUCQ_MSGSZ - pos) r)"
  using assms
proof (induction "is" arbitrary: payload pos r)
  case Nil
  then show ?case
    by (simp add: overfull_def listing_def)
next
  case (Cons i "is")
  let ?loop = "loop_slots (loop_through_client list_entry)"
  let ?x = "(payload, pos, DUCQ_MSGSZ - pos)"
  show ?case
  proof (cases "\<exists>p. live i p r")
    case False
    then have "?loop (i # is) DUCQ_LOOP_CONTINUE ?x r = ?loop is DUCQ_LOOP_CONTINUE ?x r"
      using list_slot [OF Cons.prems(1), of i ?x] Cons.prems(2) by auto
    then show ?thesis
      using Cons.IH [OF Cons.prems(1) _ Cons.prems(3,4)] Cons.prems(2,5) False unfolding listing_Cons by simp
  next
    case True
    then obtain p where p: "live i p r" by blast
    then have i: "i < DUCQ_MAX_CONNECTIONS" "conn_fd (re_conns r ! i) \<noteq> - 1"
      by (simp_all add: live_def)
    let ?l = "slot_line i r"
    note short = slot_line_short [OF Cons.prems(1) p]
    have ls: "overfull pos (?l # listing is r)"
      using Cons.prems(5) True unfolding listing_Cons by simp
    then have ne: "pos + length ?l \<noteq> DUCQ_MSGSZ"
      unfolding overfull_def by (auto dest: spec [of _ "1 :: nat"])
    define pl where "pl = the (mem_write payload pos (take (DUCQ_MSGSZ - pos - 1) ?l @ [NUL]))"
    have pl: "mem_write payload pos (take (DUCQ_MSGSZ - pos - 1) ?l @ [NUL]) = Some pl" "length pl = DUCQ_MSGSZ"
      using Cons.prems(3,4) by (auto simp: mem_write_def pl_def min_def)
    define left' where "left' = nat ((int (DUCQ_MSGSZ - pos) - int (length ?l)) mod 2 ^ 64)"
    obtain r1 where r1: "told [] i r r1"
        "list_entry p i ?x r = Some (if 0 < left' then DUCQ_LOOP_CONTINUE else DUCQ_LOOP_BREAK, (pl, pos + length ?l, left'), r1)"
      using list_entry_run [OF Cons.prems(1) p, of i payload pos "DUCQ_MSGSZ - pos"] Cons.prems(4) pl(1)
      by (auto simp: Let_def left'_def)
    have s1: "connected r1" and l1: "listing is r1 = listing is r"
      using toldD(1) [OF r1(1)] listing_same [OF r1(1)] by simp_all
    have room: "left' = (if pos + length ?l < DUCQ_MSGSZ then DUCQ_MSGSZ - (pos + length ?l) else 2 ^ 64 - (pos + length ?l - DUCQ_MSGSZ))"
      using size_sub [of "length ?l" "DUCQ_MSGSZ - pos"] size_sub_wraps [of "DUCQ_MSGSZ - pos" "length ?l"] ne short Cons.prems(4)
      by (auto simp: left'_def)
    then have pos': "0 < left'"
      using ne short Cons.prems(4) by simp
    have run: "?loop (i # is) DUCQ_LOOP_CONTINUE ?x r = ?loop is DUCQ_LOOP_CONTINUE (pl, pos + length ?l, left') r1"
      using list_slot [OF Cons.prems(1) i, of ?x] p r1(2) i(2) pos' live_unique [OF connectedD(1) [OF Cons.prems(1)]]
      by (auto simp: live_def)
    show ?thesis
    proof (cases "pos + length ?l < DUCQ_MSGSZ")
      case True
      then have "left' = DUCQ_MSGSZ - (pos + length ?l)"
        by (simp add: room)
      then show ?thesis
        using Cons.IH [OF s1 _ pl(2) True] Cons.prems(2) overfull_Cons [OF ls True] unfolding l1 run by simp
    next
      case False
      have "nat ((int DUCQ_MSGSZ - int left') mod 2 ^ 64) = pos + length ?l"
        using size_back [of "pos + length ?l"] False ne short Cons.prems(4) by (simp add: room)
      then have "length pl < nat ((int DUCQ_MSGSZ - int left') mod 2 ^ 64)"
        using False ne pl(2) by simp
      then show ?thesis
        using listing_past [OF s1, of "is" pl "pos + length ?l" left'] False ne pl(2) pos' Cons.prems(2)
        unfolding run past_end_def by auto
    qed
  qed
qed

section \<open>Properties\<close>

lemma all_slots: "set [0..<DUCQ_MAX_CONNECTIONS] \<subseteq> {..<DUCQ_MAX_CONNECTIONS}"
  by auto

text \<open>\<open>list_subscriptions\<close> answers the client with one message: one line "id,route" for each
  connected client, in the order of their slots, when these lines with their terminator fit the
  256 bytes of the buffer.  Nobody else gets anything and the table does not change.\<close>

theorem list_subscriptions_answers:
  assumes "connected r" and "live i p r" and "reliable i p r" and "log_slots r = []"
    and "length (concat (listing [0..<DUCQ_MAX_CONNECTIONS] r)) < DUCQ_MSGSZ"
  shows "\<exists>l x r'. list_subscriptions p buffer n r = Some (DUCQ_OK, buffer, r') \<and> re_conns r' = re_conns r \<and>
    link_at p r = Some (l, slot_fd i r) \<and> framed l (concat (listing [0..<DUCQ_MAX_CONNECTIONS] r)) x \<and>
    (\<forall>j q. live j q r \<longrightarrow> stays (if j = i then x else []) j q r r')"
proof -
  let ?t = "concat (listing [0..<DUCQ_MAX_CONNECTIONS] r)"
  obtain r1 where r1: "ducq_log DUCQ_LOG_INFO ''list_subscriptions'' p [] r = Some r1" "told [] i r r1"
    using log_told [OF assms(1,2,4), of "''list_subscriptions''" "[]"] by auto
  have s1: "connected r1" and l1: "listing [0..<DUCQ_MAX_CONNECTIONS] r1 = listing [0..<DUCQ_MAX_CONNECTIONS] r"
    using toldD(1) [OF r1(2)] listing_same [OF r1(2)] by simp_all
  obtain rest r2 where r2: "ducq_reactor_loop list_entry (replicate DUCQ_MSGSZ NUL, 0, DUCQ_MSGSZ) r1 =
        Some (DUCQ_LOOP_CONTINUE, (?t @ rest, length ?t, DUCQ_MSGSZ - length ?t), r2)"
      "length (?t @ rest) = DUCQ_MSGSZ" "told [] i r1 r2"
    using listing_fits [OF s1 all_slots, of "replicate DUCQ_MSGSZ NUL" 0 i] assms(5) l1
    unfolding ducq_reactor_loop_def connection_loop_template_def by auto
  have e2: "told [] i r r2"
    using told_trans [OF r1(2) r2(3)] by simp
  obtain l x r3 where r3: "link_at p r2 = Some (l, slot_fd i r2)" "framed l ?t x" "on_world (ducq_send p ?t) r2 = Some (DUCQ_OK, r3)"
      "told x i r2 r3"
    using send_told [OF toldD(1) [OF r2(3)] _ told_reliable [OF e2 assms(2,3)], of ?t] toldD(4) [OF e2] assms(2,5) by auto
  have "nat ((int DUCQ_MSGSZ - int (DUCQ_MSGSZ - length ?t)) mod 2 ^ 64) = length ?t"
    using size_sub [of "DUCQ_MSGSZ - length ?t" DUCQ_MSGSZ] assms(5) by simp
  then have "list_subscriptions p buffer n r = Some (DUCQ_OK, buffer, r3)"
    using r1(1) r2(1,2) r3(3) by (simp add: list_subscriptions_def send_buf_append)
  moreover have e: "told x i r r3"
    using told_trans [OF e2 r3(4)] by simp
  ultimately show ?thesis
    using r3(1,2) told_link [OF e2 assms(2)] toldD(5) [OF e2] toldD(3) [OF e] toldD(9) [OF e] by metis
qed

text \<open>A longer list (of which no prefix fills the buffer exactly) makes the command write or send
  bytes behind its buffer: \<open>left\<close> is a \<open>size_t\<close> and wraps around when \<open>snprintf\<close> answers more than
  it had room for.\<close>

theorem list_subscriptions_overflows:
  assumes "connected r" and "live i p r" and "log_slots r = []"
    and "overfull 0 (listing [0..<DUCQ_MAX_CONNECTIONS] r)"
  shows "list_subscriptions p buffer n r = None"
proof -
  obtain r1 where r1: "ducq_log DUCQ_LOG_INFO ''list_subscriptions'' p [] r = Some r1" "told [] i r r1"
    using log_told [OF assms(1-3), of "''list_subscriptions''" "[]"] by auto
  have s1: "connected r1" and l1: "listing [0..<DUCQ_MAX_CONNECTIONS] r1 = listing [0..<DUCQ_MAX_CONNECTIONS] r"
    using toldD(1) [OF r1(2)] listing_same [OF r1(2)] by simp_all
  have "past_end (ducq_reactor_loop list_entry (replicate DUCQ_MSGSZ NUL, 0, DUCQ_MSGSZ) r1)"
    using listing_overflows [OF s1 all_slots, of "replicate DUCQ_MSGSZ NUL" 0] assms(4) l1
    unfolding ducq_reactor_loop_def connection_loop_template_def by auto
  then show ?thesis
    using r1(1) by (auto simp: past_end_def list_subscriptions_def send_buf_def on_world_def split: option.splits)
qed

section \<open>The list of connections\<close>

text \<open>The marks of a message in parts are texts over TCP; the other clients have none.\<close>

lemma marks_tcp:
  assumes "link_at p r = Some (TcpLink, fd)" and "p \<noteq> 0"
  shows "on_world (ducq_parts p) r = on_world (ducq_send p ''PARTS'') r" and "on_world (ducq_end p) r = on_world (ducq_send p ''END'') r"
proof -
  obtain c where "w_heap (re_world r) p = Some (Tcp c)"
    using assms(1) by (auto simp: link_at_def ws_link_def elim!: link_of.elims split: option.splits)
  then show "on_world (ducq_parts p) r = on_world (ducq_send p ''PARTS'') r" and "on_world (ducq_end p) r = on_world (ducq_send p ''END'') r"
    using assms(2) by (simp_all add: on_world_def ducq_parts_def ducq_end_def ducq_send_def deref_def tcp_parts_def tcp_end_def)
qed

lemma marks_other:
  assumes "link_at p r = Some (l, fd)" and "l \<noteq> TcpLink" and "p \<noteq> 0"
  shows "on_world (ducq_parts p) r = Some (DUCQ_ENOIMPL, r)"
proof -
  obtain c where c: "w_heap (re_world r) p = Some c" "link_of c = (l, fd)"
    using assms(1) by (auto simp: link_at_def)
  then have "vt_parts c (w_os (re_world r)) = Some (DUCQ_ENOIMPL, c, w_os (re_world r))"
    using assms(2) by (cases c) auto
  then show ?thesis
    using c(1) assms(3) by (simp add: on_world_def ducq_parts_def deref_run fun_upd_idem)
qed

lemma tcp_told:
  assumes "connected r" and "live i p r" and "reliable i p r" and "link_at p r = Some (TcpLink, fd)" and "length bs \<le> DUCQ_MSGSZ"
  shows "\<exists>s. on_world (ducq_send p bs) r = Some (DUCQ_OK, s) \<and> told (tcp_frame bs) i r s"
  using send_told [OF assms(1,2,3,5)] assms(4) by auto

text \<open>Each entry of \<open>lsconn\<close> is a message of its own.\<close>

lemma send_entry_run:
  assumes "connected r" and "live i p r" and "reliable i p r" and "link_at p r = Some (TcpLink, fd)" and "live j q r"
  shows "\<exists>s. send_entry p q j () r = Some (DUCQ_LOOP_CONTINUE, (), s) \<and> told (tcp_frame (slot_line j r)) i r s"
proof -
  obtain r1 where r1: "on_world (ducq_id q) r = Some (Some (client_name q (re_world r)), r1)" "told [] i r r1"
    using id_told [OF assms(1,5)] by blast
  obtain t where t: "route_at j r = Some t"
    using reactor_invD(4) [OF connectedD(1) [OF assms(1)] assms(5)] by blast
  have line: "slot_line j r = conn_line (Some (client_name q (re_world r))) t"
    using assms(5) t by (simp add: slot_line_def live_def)
  have short: "length (slot_line j r) \<le> 201"
    by (rule slot_line_short [OF assms(1,5)])
  obtain r2 where r2: "on_world (ducq_send p (slot_line j r)) r1 = Some (DUCQ_OK, r2)" "told (tcp_frame (slot_line j r)) i r1 r2"
    using tcp_told [OF toldD(1) [OF r1(2)] _ told_reliable [OF r1(2) assms(2,3)], of fd "slot_line j r"]
      toldD(4) [OF r1(2)] told_link [OF r1(2) assms(2)] assms(2,4) short by auto
  have "send_entry p q j () r = Some (DUCQ_LOOP_CONTINUE, (), r2)"
    using r1(1) t r2(1) short unfolding send_entry_def line [symmetric] by (simp add: snprintf_fits send_buf_append line)
  then show ?thesis
    using told_trans [OF r1(2) r2(2)] by auto
qed

lemma send_entries:
  assumes "connected r" and "live i p r" and "reliable i p r" and "link_at p r = Some (TcpLink, fd)"
    and "set is \<subseteq> {..<DUCQ_MAX_CONNECTIONS}"
  shows "\<exists>s. loop_slots (loop_through_client (send_entry p)) is DUCQ_LOOP_CONTINUE () r = Some (DUCQ_LOOP_CONTINUE, (), s) \<and>
    told (concat (map tcp_frame (listing is r))) i r s"
  using assms
proof (induction "is" arbitrary: r)
  case Nil
  then show ?case
    using told_refl [of r] by (simp add: listing_def)
next
  case (Cons j "is")
  show ?case
  proof (cases "\<exists>q. live j q r")
    case False
    then have "conn_fd (re_conns r ! j) \<noteq> - 1 \<Longrightarrow> conn_client (re_conns r ! j) = None"
      using Cons.prems(5) by (auto simp: live_def)
    then have "loop_slots (loop_through_client (send_entry p)) (j # is) DUCQ_LOOP_CONTINUE () r =
        loop_slots (loop_through_client (send_entry p)) is DUCQ_LOOP_CONTINUE () r"
      by (auto simp: loop_through_client_def conn_client_def split: conn_as.splits)
    then show ?thesis
      using Cons.IH [OF Cons.prems(1-4)] Cons.prems(5) False unfolding listing_Cons by simp
  next
    case True
    then obtain q where q: "live j q r" by blast
    obtain r1 where r1: "send_entry p q j () r = Some (DUCQ_LOOP_CONTINUE, (), r1)" "told (tcp_frame (slot_line j r)) i r r1"
      using send_entry_run [OF Cons.prems(1-4) q] by blast
    obtain s where s: "loop_slots (loop_through_client (send_entry p)) is DUCQ_LOOP_CONTINUE () r1 = Some (DUCQ_LOOP_CONTINUE, (), s)"
        "told (concat (map tcp_frame (listing is r))) i r1 s"
      using Cons.IH [OF toldD(1) [OF r1(2)] _ told_reliable [OF r1(2) Cons.prems(2,3)]] toldD(4) [OF r1(2)] Cons.prems(2,4,5)
        told_link [OF r1(2) Cons.prems(2)] listing_same(1) [OF r1(2)] by auto
    have fd: "conn_fd (re_conns r ! j) \<noteq> - 1" and "\<exists>area. conn_as (re_conns r ! j) = AsClient q area"
      using q by (auto simp: live_def conn_client_def split: conn_as.splits)
    then have "loop_through_client (send_entry p) j () r = Some (DUCQ_LOOP_CONTINUE, (), r1)"
      using r1(1) by (auto simp: loop_through_client_def)
    then show ?thesis
      using fd s(1) told_trans [OF r1(2) s(2)] True unfolding listing_Cons by simp
  qed
qed

lemma connections_listed:
  assumes "connected r" and "live i p r" and "reliable i p r" and "link_at p r = Some (TcpLink, fd)"
  shows "\<exists>s. list_connections p r = Some (DUCQ_OK, s) \<and>
    told (concat (map tcp_frame ([''PARTS''] @ listing [0..<DUCQ_MAX_CONNECTIONS] r @ [''END'']))) i r s"
proof -
  let ?ls = "listing [0..<DUCQ_MAX_CONNECTIONS] r"
  have p: "p \<noteq> 0"
    using reactor_invD(2) [OF connectedD(1) [OF assms(1)] assms(2)] .
  obtain r1 where r1: "on_world (ducq_parts p) r = Some (DUCQ_OK, r1)" "told (tcp_frame ''PARTS'') i r r1"
    using tcp_told [OF assms, of "''PARTS''"] marks_tcp(1) [OF assms(4) p] by auto
  have l1: "live i p r1" "link_at p r1 = Some (TcpLink, fd)" "listing is r1 = listing is r" for "is"
    using toldD(4) [OF r1(2)] told_link [OF r1(2) assms(2)] listing_same [OF r1(2)] assms(2,4) by simp_all
  note rel1 = told_reliable [OF r1(2) assms(2,3)]
  obtain r2 where r2: "ducq_reactor_loop (send_entry p) () r1 = Some (DUCQ_LOOP_CONTINUE, (), r2)" "told (concat (map tcp_frame ?ls)) i r1 r2"
    using send_entries [OF toldD(1) [OF r1(2)] l1(1) rel1 l1(2) all_slots] unfolding ducq_reactor_loop_def connection_loop_template_def l1(3) by auto
  have l2: "live i p r2" "link_at p r2 = Some (TcpLink, fd)"
    using toldD(4) [OF r2(2)] told_link [OF r2(2) l1(1)] l1(1,2) by simp_all
  obtain r3 where r3: "on_world (ducq_end p) r2 = Some (DUCQ_OK, r3)" "told (tcp_frame ''END'') i r2 r3"
    using tcp_told [OF toldD(1) [OF r2(2)] l2(1) told_reliable [OF r2(2) l1(1) rel1] l2(2), of "''END''"] marks_tcp(2) [OF l2(2) p] by auto
  have "DUCQ_LOOP_CONTINUE = 0"
    by (simp add: DUCQ_LOOP_CONTINUE_def)
  then have "list_connections p r = Some (DUCQ_OK, r3)"
    using r1(1) r2(1) r3(1) by (simp add: list_connections_def)
  then show ?thesis
    using told_trans [OF told_trans [OF r1(2) r2(2)] r3(2)] by simp
qed

text \<open>C23: \<open>lsconn\<close> on a server with clients of every kind.  A TCP client that asks gets the message PARTS, one
  message "id,route" for each connected client, of whatever kind, in the order of their slots, however
  many there are, and END.  A WebSocket or HTTP client that asks gets nothing at all, since its table has no
  \<open>parts\<close>: the command ends with the state DUCQ_ENOIMPL.  Nobody else gets anything and the table does
  not change.\<close>

theorem lsconn_answers:
  assumes "connected r" and "live i p r" and "log_slots r = []" and "link_at p r = Some (l, fd)" and "l = TcpLink \<longrightarrow> reliable i p r"
  shows "\<exists>r'. lsconn p buffer n r = Some (if l = TcpLink then DUCQ_OK else DUCQ_ENOIMPL, buffer, r') \<and> re_conns r' = re_conns r \<and>
    (\<forall>j q. live j q r \<longrightarrow>
      stays (if j = i \<and> l = TcpLink then concat (map tcp_frame ([''PARTS''] @ listing [0..<DUCQ_MAX_CONNECTIONS] r @ [''END''])) else [])
        j q r r')"
proof -
  let ?st = "if l = TcpLink then DUCQ_OK else DUCQ_ENOIMPL"
  let ?x = "if l = TcpLink then concat (map tcp_frame ([''PARTS''] @ listing [0..<DUCQ_MAX_CONNECTIONS] r @ [''END''])) else []"
  have p: "p \<noteq> 0"
    using reactor_invD(2) [OF connectedD(1) [OF assms(1)] assms(2)] .
  obtain r1 where r1: "list_connections p r = Some (?st, r1)" "told ?x i r r1"
  proof (cases "l = TcpLink")
    case True
    then show ?thesis
      using connections_listed [OF assms(1,2)] assms(4,5) that by auto
  next
    case False
    then show ?thesis
      using marks_other [OF assms(4) False p] told_refl [OF assms(1)] that by (simp add: list_connections_def)
  qed
  have l1: "live i p r1" "log_slots r1 = []"
    using toldD(4,7) [OF r1(2)] assms(2,3) by simp_all
  have "length (state_msg ?st) < 40"
    using state_msg_facts by blast
  then obtain r2 where r2: "ducq_log (if ?st \<noteq> DUCQ_OK then DUCQ_LOG_WARNING else DUCQ_LOG_INFO) ''lsconn'' p (state_msg ?st) r1 = Some r2"
      "told [] i r1 r2"
    using log_told [OF toldD(1) [OF r1(2)] l1, of "''lsconn''" "state_msg ?st"] by fastforce
  have "lsconn p buffer n r = Some (?st, buffer, r2)"
    using r1(1) r2(1) by (simp add: lsconn_def)
  moreover have e: "told ?x i r r2"
    using told_trans [OF r1(2) r2(2)] by simp
  have "stays (if j = i \<and> l = TcpLink then concat (map tcp_frame ([''PARTS''] @ listing [0..<DUCQ_MAX_CONNECTIONS] r @ [''END''])) else [])
      j q r r2" if "live j q r" for j q
    using toldD(9) [OF e that] by (cases "j = i"; cases "l = TcpLink") simp_all
  ultimately show ?thesis
    using toldD(3) [OF e] by blast
qed

section \<open>Witnesses\<close>

text \<open>A server of reachable TCP clients is one of the kind.\<close>

lemma serving_connected:
  assumes "serving r" and "\<forall>p c. w_heap (re_world r) p = Some c \<longrightarrow> client_wf c"
  shows "connected r" and "live i p r \<Longrightarrow> reliable i p r" and "live i p r \<Longrightarrow> link_at p r = Some (TcpLink, slot_fd i r)"
proof -
  show link: "link_at p r = Some (TcpLink, slot_fd i r)" if "live i p r" for i p
    using serving_on [OF assms(1) that] by (auto simp: tcp_on_up tcp_up_def link_at_def)
  show "reliable i p r" if "live i p r" for i p
    using serving_on [OF assms(1) that] link [OF that] by (simp add: reliable_def tcp_on_def)
  show "connected r"
    using assms link unfolding connected_def serving_def by blast
qed

lemma demo_names: "client_name 9 demo_world = ''TCP:''" "client_name 10 demo_world = ''TCP:''"
  by (simp_all add: client_name_def demo_world_def demo_tcp_def tcp_get_id_def tcp_five_def quiet_os_def snprintf_def
      inet_socket_tostring_def)

lemma demo_listing:
  assumes "NUL \<notin> set s" and "NUL \<notin> set t" and "length s < DUCQ_MAX_ROUTE_LEN" and "length t < DUCQ_MAX_ROUTE_LEN"
  shows "listing [0..<DUCQ_MAX_CONNECTIONS] (demo s t) = [''TCP:,'' @ s @ [LF], ''TCP:,'' @ t @ [LF]]"
proof -
  have "(\<exists>p. live i p (demo s t)) \<longleftrightarrow> i < 2" for i
    by (auto simp: demo_live less_2_cases_iff)
  moreover have "filter (\<lambda>i. i < 2) [0..<DUCQ_MAX_CONNECTIONS] = [0, 1]"
    by code_simp
  ultimately have "filter (\<lambda>i. \<exists>p. live i p (demo s t)) [0..<DUCQ_MAX_CONNECTIONS] = [0, 1]"
    by simp
  moreover have "conn_client (re_conns (demo s t) ! 0) = Some 9" "conn_client (re_conns (demo s t) ! 1) = Some 10"
    by (simp_all add: demo_conns demo_conn_def conn_client_def)
  ultimately show ?thesis
    using demo_route [OF assms] demo_names by (simp add: listing_def slot_line_def conn_line_def fmt_str_def)
qed

lemma demo_wf: "w_heap (re_world (demo s t)) p = Some c \<Longrightarrow> client_wf c"
  by (auto simp: demo_def fresh_reactor_def demo_world_def demo_tcp_def split: if_splits)

theorem list_subscriptions_answers_witness:
  "\<exists>r'. list_subscriptions 9 [] 0 (demo ''b'' ''a'') = Some (DUCQ_OK, [], r') \<and>
    out_of 5 r' = out_of 5 (demo ''b'' ''a'') @ tcp_frame (''TCP:,b'' @ [LF] @ ''TCP:,a'' @ [LF])"
proof -
  have wf: "\<forall>p c. w_heap (re_world (demo ''b'' ''a'')) p = Some c \<longrightarrow> client_wf c"
    using demo_wf by blast
  note d = demo_quiet(2) serving_connected [OF demo_quiet(1) wf]
  have len: "length (concat (listing [0..<DUCQ_MAX_CONNECTIONS] (demo ''b'' ''a''))) < DUCQ_MSGSZ"
    using demo_listing [of "''b''" "''a''"] by simp
  obtain l x r' where r': "list_subscriptions 9 [] 0 (demo ''b'' ''a'') = Some (DUCQ_OK, [], r')" "link_at 9 (demo ''b'' ''a'') = Some (l, slot_fd 0 (demo ''b'' ''a''))"
      "framed l (concat (listing [0..<DUCQ_MAX_CONNECTIONS] (demo ''b'' ''a''))) x"
      "\<forall>j q. live j q (demo ''b'' ''a'') \<longrightarrow> stays (if j = 0 then x else []) j q (demo ''b'' ''a'') r'"
    using list_subscriptions_answers [OF d(2,1) d(3) [OF d(1)] demo_quiet(4) len, of "[]" 0] by blast
  then show ?thesis
    using r'(4) [rule_format, OF d(1)] demo_listing [of "''b''" "''a''"] d(4) [OF d(1)] by (auto simp: demo_fd stays_def)
qed

text \<open>Two clients with ids of 90 characters and routes of 40.\<close>

definition demo_long :: "(unit, unit) reactor" where
  "demo_long = (demo (replicate 40 CHR ''x'') (replicate 40 CHR ''x''))\<lparr>re_world := demo_world\<lparr>w_heap :=
     [9 \<mapsto> Tcp (tcp_five\<lparr>tcp_fd := 5, tcp_id := replicate 90 CHR ''y''\<rparr>), 10 \<mapsto> Tcp (tcp_five\<lparr>tcp_fd := 6, tcp_id := replicate 90 CHR ''y''\<rparr>)]\<rparr>\<rparr>"

lemma demo_long: "connected demo_long" "live 0 9 demo_long" "log_slots demo_long = []"
    "listing [0..<DUCQ_MAX_CONNECTIONS] demo_long = replicate 2 (replicate 90 CHR ''y'' @ '','' @ replicate 40 CHR ''x'' @ [LF])"
proof -
  let ?x = "replicate 40 CHR ''x''"
  have w: "re_world demo_long = demo_world\<lparr>w_heap := w_heap (re_world demo_long)\<rparr>"
      "w_heap (re_world demo_long) 9 = Some (Tcp (tcp_five\<lparr>tcp_fd := 5, tcp_id := replicate 90 CHR ''y''\<rparr>))"
      "w_heap (re_world demo_long) 10 = Some (Tcp (tcp_five\<lparr>tcp_fd := 6, tcp_id := replicate 90 CHR ''y''\<rparr>))"
    by (simp_all add: demo_long_def)
  have tab: "live i p demo_long = live i p (demo ?x ?x)" "route_at i demo_long = route_at i (demo ?x ?x)"
      "slot_fd i demo_long = slot_fd i (demo ?x ?x)" "re_conns demo_long = re_conns (demo ?x ?x)" for i p
    by (simp_all add: demo_long_def live_def route_at_def slot_fd_def)
  have s: "serving (demo ?x ?x)"
    by (rule demo_serving) simp_all
  have "same_heap (re_world (demo ?x ?x)) (re_world demo_long)"
    by (auto simp: same_heap_def demo_long_def demo_world_def ids_ok_def split: if_splits)
  then have inv: "reactor_inv demo_long"
    using inv_world [OF serving_inv [OF s]] by (simp add: demo_long_def)
  moreover have "tcp_on 9 5 (re_world demo_long)" "tcp_on 10 6 (re_world demo_long)"
    using w(2,3) by (simp_all add: tcp_on_def) (simp_all add: demo_long_def demo_world_def quiet_os_def)
  ultimately have "serving demo_long"
    using s unfolding serving_def tab by (auto simp: demo_live demo_fd)
  moreover have "client_wf c" if "w_heap (re_world demo_long) p = Some c" for p c
    using that by (auto simp: demo_long_def split: if_splits)
  ultimately show "connected demo_long"
    using serving_connected(1) by blast
  show "live 0 9 demo_long"
    by (simp add: tab demo_live)
  have rt: "route_at 0 demo_long = Some ?x" "route_at 1 demo_long = Some ?x"
    using demo_route [of ?x ?x] by (simp_all add: tab)
  have "length DUCQ_LOG_ROUTE \<noteq> length ?x"
    by (simp add: DUCQ_LOG_ROUTE_def)
  then have "DUCQ_LOG_ROUTE \<noteq> ?x"
    by metis
  then show "log_slots demo_long = []"
    using rt unfolding tab(2) by (auto simp: log_slots_def filter_empty_conv subscribed_def tab demo_live)
  have "(\<exists>p. live i p demo_long) \<longleftrightarrow> i < 2" for i
    by (auto simp: tab demo_live less_2_cases_iff)
  moreover have "filter (\<lambda>i. i < 2) [0..<DUCQ_MAX_CONNECTIONS] = [0, 1]"
    by code_simp
  ultimately have "filter (\<lambda>i. \<exists>p. live i p demo_long) [0..<DUCQ_MAX_CONNECTIONS] = [0, 1]"
    by simp
  moreover have "conn_client (re_conns demo_long ! 0) = Some 9" "conn_client (re_conns demo_long ! 1) = Some 10"
    by (simp_all add: tab demo_conns demo_conn_def conn_client_def)
  moreover have "client_name 9 (re_world demo_long) = replicate 90 CHR ''y''" "client_name 10 (re_world demo_long) = replicate 90 CHR ''y''"
    using w(2,3) by (simp_all add: client_name_def tcp_get_id_def)
  ultimately show "listing [0..<DUCQ_MAX_CONNECTIONS] demo_long = replicate 2 (replicate 90 CHR ''y'' @ '','' @ ?x @ [LF])"
    using rt by (simp add: listing_def slot_line_def conn_line_def fmt_str_def numeral_2_eq_2)
qed

theorem list_subscriptions_overflows_witness:
  "list_subscriptions 9 [] 0 demo_long = None"
proof (rule list_subscriptions_overflows [OF demo_long(1-3)])
  have "length (concat (take k (replicate 2 l))) = min k 2 * length l" for k and l :: string
    by (simp add: take_replicate length_concat sum_list_replicate)
  moreover have "min k 2 * 132 \<noteq> (256 :: nat)" for k
    by (cases "k = 0"; cases "k = 1") auto
  ultimately show "overfull 0 (listing [0..<DUCQ_MAX_CONNECTIONS] demo_long)"
    unfolding demo_long(4) overfull_def by (simp add: length_concat sum_list_replicate)
qed

text \<open>The first TCP client of the server with both kinds asks.\<close>

lemma mixed_listing:
  "listing [0..<DUCQ_MAX_CONNECTIONS] (mixed es) = [''TCP:,a'' @ [LF], ''WS:,b'' @ [LF], ''TCP:,a'' @ [LF]]"
proof -
  have "(\<exists>p. live i p (mixed es)) \<longleftrightarrow> i = 0 \<or> i = 1 \<or> i = 2" for i
    unfolding mixed_live by blast
  moreover have "filter (\<lambda>i. i = 0 \<or> i = 1 \<or> i = 2) [0..<DUCQ_MAX_CONNECTIONS] = [0, 1, 2]"
    by code_simp
  ultimately have "filter (\<lambda>i. \<exists>p. live i p (mixed es)) [0..<DUCQ_MAX_CONNECTIONS] = [0, 1, 2]"
    by simp
  moreover have "conn_client (re_conns (mixed es) ! 0) = Some 9" "conn_client (re_conns (mixed es) ! 1) = Some 10"
      "conn_client (re_conns (mixed es) ! 2) = Some 11"
    unfolding mixed_at by (simp_all add: demo_conn_def conn_client_def)
  moreover have "client_name 9 (re_world (mixed es)) = ''TCP:''" "client_name 10 (re_world (mixed es)) = ''WS:''"
      "client_name 11 (re_world (mixed es)) = ''TCP:''"
    by (simp_all add: client_name_def mixed_def demo_tcp_def tcp_get_id_def tcp_five_def ws_get_id_def server_ws_def quiet_os_def snprintf_def
        inet_socket_tostring_def)
  ultimately show ?thesis
    using mixed_slots by (simp add: listing_def slot_line_def conn_line_def fmt_str_def)
qed

theorem lsconn_answers_witness:
  "\<exists>r'. lsconn 9 [] 0 (mixed []) = Some (DUCQ_OK, [], r') \<and>
    out_of 5 r' = tcp_frame ''PARTS'' @ tcp_frame (''TCP:,a'' @ [LF]) @ tcp_frame (''WS:,b'' @ [LF]) @ tcp_frame (''TCP:,a'' @ [LF]) @
      tcp_frame ''END''"
proof -
  have lv: "live 0 9 (mixed [])" and rel: "reliable 0 9 (mixed [])"
    using mixed_slots mixed_links by (simp_all add: mixed_live reliable_def)
  have quiet: "log_slots (mixed []) = []"
    using mixed_slots by (auto simp: log_slots_def filter_empty_conv subscribed_def mixed_live DUCQ_LOG_ROUTE_def)
  let ?x = "concat (map tcp_frame ([''PARTS''] @ [''TCP:,a'' @ [LF], ''WS:,b'' @ [LF], ''TCP:,a'' @ [LF]] @ [''END'']))"
  obtain r' where r': "lsconn 9 [] 0 (mixed []) = Some (DUCQ_OK, [], r')"
      "\<forall>j q. live j q (mixed []) \<longrightarrow> stays (if j = 0 \<and> TcpLink = TcpLink then ?x else []) j q (mixed []) r'"
    using lsconn_answers [OF mixed_connected lv quiet mixed_links(1), of "[]" 0] rel unfolding mixed_listing by auto
  then show ?thesis
    using r'(2) [rule_format, OF lv] mixed_slots(1) by (simp add: stays_def)
qed

end
