(* ===== verification/Commands_Removal.thy ===== *)
theory Commands_Removal
  imports Commands_Listing
begin

text \<open>
  The command \<open>unsub\<close> on a server with clients of every kind: the search for a client by its id, and what
  happens when a client asks for the removal of itself.
\<close>

section \<open>The search\<close>

text \<open>The slots before: no client in them has the id that is looked for.\<close>

lemma search_passes:
  assumes "connected r" and "set is \<subseteq> {..<DUCQ_MAX_CONNECTIONS}"
    and "\<forall>j \<in> set is. \<forall>q. live j q r \<longrightarrow> client_name q (re_world r) \<noteq> name"
  shows "\<exists>s. told [] i r s \<and>
    (\<forall>js. loop_slots (loop_through_client (unsubscribe_id name)) (is @ js) DUCQ_LOOP_CONTINUE 0 r =
      loop_slots (loop_through_client (unsubscribe_id name)) js DUCQ_LOOP_CONTINUE 0 s)"
  using assms
proof (induction "is" arbitrary: r)
  case Nil
  then show ?case
    using told_refl by auto
next
  case (Cons j "is")
  let ?h = "loop_through_client (unsubscribe_id name) :: (nat, 'a, 'b) loop_hook"
  have rest: "\<exists>s. told [] i r s \<and> (\<forall>js. loop_slots ?h (is @ js) DUCQ_LOOP_CONTINUE 0 t = loop_slots ?h js DUCQ_LOOP_CONTINUE 0 s)"
    if t: "told [] i r t" for t
  proof -
    have "\<forall>k \<in> set is. \<forall>q. live k q t \<longrightarrow> client_name q (re_world t) \<noteq> name"
      using Cons.prems(3) toldD(2,4) [OF t] by (simp add: same_names_def)
    then show ?thesis
      using Cons.IH [OF toldD(1) [OF t]] Cons.prems(2) told_trans [OF t] by fastforce
  qed
  show ?case
  proof (cases "conn_fd (re_conns r ! j) \<noteq> - 1 \<and> (\<exists>q. conn_client (re_conns r ! j) = Some q)")
    case True
    then obtain q where q: "live j q r" "conn_client (re_conns r ! j) = Some q"
      using Cons.prems(2) by (auto simp: live_def)
    obtain t where t: "on_world (ducq_id q) r = Some (Some (client_name q (re_world r)), t)" "told [] i r t"
      using id_told [OF Cons.prems(1) q(1)] by blast
    have "client_name q (re_world r) \<noteq> name"
      using Cons.prems(3) q(1) by simp
    then have "?h j 0 r = Some (DUCQ_LOOP_CONTINUE, 0, t)"
      using q(2) t(1) by (auto simp: loop_through_client_def unsubscribe_id_def conn_client_def split: conn_as.splits)
    then show ?thesis
      using rest [OF t(2)] True by auto
  next
    case False
    then have "conn_fd (re_conns r ! j) \<noteq> - 1 \<Longrightarrow> ?h j 0 r = Some (DUCQ_LOOP_CONTINUE, 0, r)"
      by (auto simp: loop_through_client_def conn_client_def split: conn_as.splits)
    then show ?thesis
      using rest [OF told_refl [OF Cons.prems(1)]] by (cases "conn_fd (re_conns r ! j) = - 1") auto
  qed
qed

section \<open>Unsubscribing oneself\<close>

lemma freed_id: "p \<noteq> 0 \<Longrightarrow> w_heap w p = None \<Longrightarrow> ducq_id p w = None"
  by (simp add: ducq_id_def deref_def)

lemma name_not_empty: "connected r \<Longrightarrow> live i p r \<Longrightarrow> client_name p (re_world r) \<noteq> []"
proof -
  assume "connected r" and "live i p r"
  then obtain c where c: "w_heap (re_world r) p = Some c"
    using connectedD(2) by blast
  have "name_of c (w_os (re_world r)) \<noteq> []"
    by (cases c) (simp_all add: tcp_get_id_def ws_get_id_def http_get_id_def snprintf_def Let_def split: option.split prod.split)
  then show ?thesis
    by (simp add: client_name_def c)
qed

text \<open>C27: a client that asks for the removal of its own id is closed and freed by the loop, and then
  used for the log line and the acknowledgement: undefined whenever no client in a slot before it
  has the same id, on any transport and with any clients before it.\<close>

theorem unsub_self_use_after_free:
  assumes "connected r" and "live i p r" and "\<forall>j < i. \<forall>q. live j q r \<longrightarrow> client_name q (re_world r) \<noteq> client_name p (re_world r)"
    and "parts_ok cmd route" and "in_buffer (message_text cmd route (client_name p (re_world r))) buffer"
  shows "unsub p buffer n r = None"
proof -
  let ?name = "client_name p (re_world r)"
  let ?t = "message_text cmd route ?name" and ?h = "loop_through_client (unsubscribe_id ?name)"
  have i: "i < DUCQ_MAX_CONNECTIONS" and p: "p \<noteq> 0"
    using assms(2) reactor_invD(2) [OF connectedD(1) [OF assms(1)] assms(2)] by (simp_all add: live_def)
  obtain s where s: "told [] i r s"
    and pass: "\<And>js. loop_slots ?h ([0..<i] @ js) DUCQ_LOOP_CONTINUE 0 r = loop_slots ?h js DUCQ_LOOP_CONTINUE 0 s"
    using search_passes [OF assms(1), of "[0..<i]" ?name i] assms(3) i by (auto simp: subset_iff)
  have con: "connected s" and l: "live i p s" and name: "client_name p (re_world s) = ?name"
    using toldD(1,2,4) [OF s] assms(2) by (simp_all add: same_names_def)
  obtain u where u: "on_world (ducq_id p) s = Some (Some ?name, u)" "told [] i s u"
    using id_told [OF con l] name by auto
  have lu: "live i p u"
    using toldD(4) [OF u(2)] l by simp
  obtain r2 where r2: "connection_free i u = Some r2" "w_heap (re_world r2) p = None"
    using connection_free_run [OF connectedD(1) [OF toldD(1) [OF u(2)]] i] lu by auto
  have "?h i 0 s = Some (DUCQ_LOOP_DELETE OR DUCQ_LOOP_BREAK, 1, u)"
    using u(1) l by (auto simp: loop_through_client_def unsubscribe_id_def live_def conn_client_def split: conn_as.splits)
  then have "ducq_reactor_loop (unsubscribe_id ?name) 0 r = Some (DUCQ_LOOP_DELETE OR DUCQ_LOOP_BREAK, 1, r2)"
    unfolding ducq_reactor_loop_def connection_loop_template_def slots_split [OF i] pass
    using l r2(1) by (simp add: live_def)
  moreover have "ducq_log lv f p x r2 = None" for lv f x
    using freed_id [OF p r2(2)] by (simp add: ducq_log_def on_world_def)
  moreover have "c_str buffer 0 = Some ?t" "ducq_parse_payload ?t = Some (Suc (Suc (length cmd) + length route))"
    using in_bufferD(1) [OF assms(5)] parse_sub(2) [OF assms(4)] by simp_all
  ultimately show ?thesis
    using name_not_empty [OF assms(1,2)] by (simp add: unsub_def fmt_str_def Let_def message_text_def)
qed

text \<open>A WebSocket client behind a TCP client.\<close>

theorem unsub_self_use_after_free_witness:
  "unsub 10 (demo_buffer (message_text ''unsub'' ''_'' ''WS:'')) 11 (mixed []) = None"
proof -
  have names: "client_name 10 (re_world (mixed [])) = ''WS:''" "client_name 9 (re_world (mixed [])) = ''TCP:''"
    by (simp_all add: client_name_def mixed_def demo_tcp_def tcp_five_def server_ws_def tcp_get_id_def ws_get_id_def snprintf_def
        inet_socket_tostring_def quiet_os_def)
  have "in_buffer (message_text ''unsub'' ''_'' ''WS:'') (demo_buffer (message_text ''unsub'' ''_'' ''WS:''))"
    by (rule demo_buffer) (simp_all add: message_text_def)
  then show ?thesis
    using unsub_self_use_after_free [OF mixed_connected, of 1 10 "[]" "''unsub''" "''_''" "demo_buffer (message_text ''unsub'' ''_'' ''WS:'')" 11] names
    by (auto simp: mixed_live parts_ok_def)
qed

end
