(* ===== verification/Ws_Dump.thy ===== *)
theory Ws_Dump
  imports Inet_Ws
begin

text \<open>
  \<open>ws_dump_header\<close> of \<open>src/inet_ws.c\<close>: the text it prints to its file, from the hexadecimal dump of the
  header area to the length.  The text of a header that was written for a frame names the frame's fields,
  and two headers have the same text only when they are the same.
\<close>

section \<open>Hexadecimal numbers\<close>

definition hex_digit :: "nat \<Rightarrow> char" where
  "hex_digit d = (if d < 10 then digit_char d else char_of (87 + d))"

fun hex_nat :: "nat \<Rightarrow> string" where
  "hex_nat n = (if n < 16 then [hex_digit n] else hex_nat (n div 16) @ [hex_digit (n mod 16)])"

declare hex_nat.simps [simp del]

text \<open>The width of a conversion that starts with 0.\<close>

definition pad_zero :: "nat \<Rightarrow> string \<Rightarrow> string" where
  "pad_zero k s = replicate (k - length s) (CHR ''0'') @ s"

definition hex_byte :: "byte \<Rightarrow> string" where
  "hex_byte b = pad_zero 2 (hex_nat (unat b))"

section \<open>The dump\<close>

definition WS_RSV1 :: byte where "WS_RSV1 = 0x40"
definition WS_RSV2 :: byte where "WS_RSV2 = 0x20"
definition WS_RSV3 :: byte where "WS_RSV3 = 0x10"
definition WS_HEADER_SIZE :: nat where "WS_HEADER_SIZE = 2 + 8 + 4"

definition dump_memory :: "byte list \<Rightarrow> nat \<Rightarrow> string" where
  "dump_memory ptr len =
     (let packet_len = 32 in
      ''     '' @ concat (map (\<lambda>i. pad_zero 2 (dec_nat i) @ [SP]) [0..<packet_len]) @
      concat (map (\<lambda>i. (if i mod packet_len = 0 then LF # pad_zero 4 (hex_nat (i div packet_len)) @ [SP] else []) @
        hex_byte (ptr ! i) @ [SP]) [0..<len]) @ [LF])"

definition flag_line :: "string \<Rightarrow> byte \<Rightarrow> byte \<Rightarrow> string" where
  "flag_line name b flag = name @ '': '' @ (if b AND flag \<noteq> 0 then ''true'' else ''false'') @ [LF]"

definition ws_dump_header :: "ws_header \<Rightarrow> string" where
  "ws_dump_header hdr =
     ''in ws_dump_header'' @ LF # dump_memory hdr WS_HEADER_SIZE @
     flag_line ''fin '' (hdr ! 0) WS_FIN @ flag_line ''rsv1'' (hdr ! 0) WS_RSV1 @
     flag_line ''rsv2'' (hdr ! 0) WS_RSV2 @ flag_line ''rsv3'' (hdr ! 0) WS_RSV3 @
     (let opcode = unat (hdr ! 0 AND WS_OPCODE)
      in ''code: '' @ ws_opcode_tostring opcode @ '' ('' @ dec_nat opcode @ '')'' @ [LF]) @
     ''mask: '' @
     (if hdr ! 1 AND WS_MASK = 0 then ''false'' @ [LF]
      else
        let mask = mask_at hdr (ws_get_msk hdr) in
        ''0x'' @ hex_byte (mask ! 0) @ '' 0x'' @ hex_byte (mask ! 1) @ '' 0x'' @ hex_byte (mask ! 2) @ '' 0x'' @ hex_byte (mask ! 3) @ [LF]) @
     ''len : '' @ dec_nat (unat (ws_get_len hdr)) @ [LF]"

section \<open>What the text says\<close>

lemma hex_nat_two: "n < 256 \<Longrightarrow> hex_nat n = (if n < 16 then [hex_digit n] else [hex_digit (n div 16), hex_digit (n mod 16)])"
proof -
  assume "n < 256"
  then have "n div 16 < 16"
    by (simp add: less_mult_imp_div_less)
  then show ?thesis
    by (simp add: hex_nat.simps [of n] hex_nat.simps [of "n div 16"])
qed

lemma hex_digit_inj: "a < 16 \<Longrightarrow> b < 16 \<Longrightarrow> hex_digit a = hex_digit b \<Longrightarrow> a = b"
  by (auto simp: hex_digit_def digit_char_def split: if_splits dest!: arg_cong [where f = "of_char :: char \<Rightarrow> nat"])

lemma hex_digit_0: "hex_digit 0 = CHR ''0''"
  by code_simp

lemma byte_digits: "unat (b :: byte) div 16 < 16" "unat b mod 16 < 16"
  using unsigned_less [of b, where 'a = nat] by (simp_all add: less_mult_imp_div_less)

lemma hex_byte_digits: "hex_byte b = [hex_digit (unat b div 16), hex_digit (unat b mod 16)]"
  using unsigned_less [of b, where 'a = nat]
  by (auto simp: hex_byte_def pad_zero_def hex_nat_two hex_digit_0 [symmetric])

lemma hex_byte_inj: "hex_byte a = hex_byte b \<Longrightarrow> a = b"
proof -
  assume "hex_byte a = hex_byte b"
  then have "unat a div 16 = unat b div 16" "unat a mod 16 = unat b mod 16"
    using hex_digit_inj byte_digits by (auto simp: hex_byte_digits)
  then have "unat a = unat b"
    by (metis div_mult_mod_eq)
  then show ?thesis
    by (rule unsigned_word_eqI)
qed

text \<open>The dump of a header that starts with the header of a frame.\<close>

theorem dump_of_frame:
  assumes "encodes hdr b0 msk n"
  shows "ws_dump_header hdr = ''in ws_dump_header'' @ LF # dump_memory hdr WS_HEADER_SIZE @
     flag_line ''fin '' b0 WS_FIN @ flag_line ''rsv1'' b0 WS_RSV1 @ flag_line ''rsv2'' b0 WS_RSV2 @ flag_line ''rsv3'' b0 WS_RSV3 @
     ''code: '' @ ws_opcode_tostring (unat (b0 AND WS_OPCODE)) @ '' ('' @ dec_nat (unat (b0 AND WS_OPCODE)) @ '')'' @ LF #
     ''mask: '' @ (case msk of None \<Rightarrow> ''false''
       | Some m \<Rightarrow> ''0x'' @ hex_byte (m ! 0) @ '' 0x'' @ hex_byte (m ! 1) @ '' 0x'' @ hex_byte (m ! 2) @ '' 0x'' @ hex_byte (m ! 3)) @ LF #
     ''len : '' @ dec_nat n @ [LF]"
proof -
  have "n < 2 ^ 64"
    using assms by (simp add: encodes_def)
  then have "unat (ws_get_len hdr) = n"
    by (simp add: encodes_len [OF assms] unat_of_nat)
  moreover have "hdr ! 1 AND WS_MASK = 0 \<longleftrightarrow> msk = None"
    using encodes_bits(3) [OF assms] by blast
  moreover have "msk = Some m \<Longrightarrow> mask_at hdr (ws_get_msk hdr) = m" for m
    using encodes_mask assms by blast
  ultimately show ?thesis
    using encodes_bits(1) [OF assms] by (cases msk) (simp_all add: ws_dump_header_def Let_def)
qed

text \<open>Every byte of the header can be read back from the dump.\<close>

theorem dump_determines_header:
  assumes "length h = WS_HEADER_SIZE" and "length g = WS_HEADER_SIZE" and "ws_dump_header h = ws_dump_header g"
  shows "h = g"
proof -
  have all: "concat (map (\<lambda>i. f i @ hex_byte (h ! i) @ [SP]) is) @ x = concat (map (\<lambda>i. f i @ hex_byte (g ! i) @ [SP]) is) @ y \<Longrightarrow>
      \<forall>i \<in> set is. hex_byte (h ! i) = hex_byte (g ! i)" for f "is" x y
  proof (induction "is")
    case (Cons i "is")
    have len: "length (hex_byte (h ! i)) = length (hex_byte (g ! i))"
      by (simp add: hex_byte_digits)
    have "hex_byte (h ! i) @ SP # concat (map (\<lambda>i. f i @ hex_byte (h ! i) @ [SP]) is) @ x =
        hex_byte (g ! i) @ SP # concat (map (\<lambda>i. f i @ hex_byte (g ! i) @ [SP]) is) @ y"
      using Cons.prems by simp
    then have eq: "hex_byte (h ! i) = hex_byte (g ! i)"
        "concat (map (\<lambda>i. f i @ hex_byte (h ! i) @ [SP]) is) @ x = concat (map (\<lambda>i. f i @ hex_byte (g ! i) @ [SP]) is) @ y"
      unfolding append_eq_append_conv [OF disjI1 [OF len]] by simp_all
    show ?case
      using eq(1) Cons.IH [OF eq(2)] by simp
  qed simp
  let ?f = "\<lambda>i. if i mod 32 = 0 then LF # pad_zero 4 (hex_nat (i div 32)) @ [SP] else []"
  let ?bytes = "\<lambda>h. concat (map (\<lambda>i. ?f i @ hex_byte (h ! i) @ [SP]) [0..<WS_HEADER_SIZE])"
  define rows where "rows = ''     '' @ concat (map (\<lambda>i. pad_zero 2 (dec_nat i) @ [SP]) [0..<32])"
  define rest where "rest h = drop (length (''in ws_dump_header'' @ LF # dump_memory h WS_HEADER_SIZE)) (ws_dump_header h)" for h
  have "ws_dump_header h = ''in ws_dump_header'' @ LF # rows @ ?bytes h @ LF # rest h" for h
    by (simp add: ws_dump_header_def rest_def dump_memory_def Let_def rows_def del: upt_rec_numeral)
  then have "?bytes h @ LF # rest h = ?bytes g @ LF # rest g"
    using assms(3) by simp
  then have "\<forall>i \<in> set [0..<WS_HEADER_SIZE]. hex_byte (h ! i) = hex_byte (g ! i)"
    by (rule all)
  then show ?thesis
    using assms(1,2) hex_byte_inj by (intro nth_equalityI) auto
qed

end
