(* ===== verification/Command_Table.thy ===== *)
theory Command_Table
  imports Server_Invariant
begin

text \<open>
  The symbol \<open>command\<close> of each file of \<open>src/commands/\<close>: name, documentation and function.  A function is its
  position in the list \<open>shipped\<close>.  A server that has loaded the directory these files are built into runs,
  for every name, the function of that file.
\<close>

section \<open>The symbols\<close>

definition PING_entry :: cmd_entry where
  "PING_entry = \<lparr>cmd_name = ''PING'', cmd_doc = ''Reply with a PONG command with unchanged payload.'', cmd_exec = 0\<rparr>"

definition PONG_entry :: cmd_entry where
  "PONG_entry = \<lparr>cmd_name = ''PONG'', cmd_doc = ''Trap PONG command.'', cmd_exec = 1\<rparr>"

definition epoch_entry :: cmd_entry where
  "epoch_entry = \<lparr>cmd_name = ''epoch'', cmd_doc = ''Reply with current time in epoch format'', cmd_exec = 2\<rparr>"

definition time_entry :: cmd_entry where
  "time_entry = \<lparr>cmd_name = ''time'', cmd_doc = ''Reply with current time in YYYY-MM-DDTHH:MM:SS format'', cmd_exec = 3\<rparr>"

text \<open>The backslash in the documentation of the two lists is doubled in the source.\<close>

definition list_subscriptions_entry :: cmd_entry where
  "list_subscriptions_entry = \<lparr>cmd_name = ''list_subscriptions'',
     cmd_doc = ''list all current subscriptions as csv: <id>,<route>'' @ [CHR 0x5C] @ ''n.'', cmd_exec = 4\<rparr>"

definition lsconn_entry :: cmd_entry where
  "lsconn_entry = \<lparr>cmd_name = ''lsconn'',
     cmd_doc = ''list all current connections as csv: <id>,<route>'' @ [CHR 0x5C] @ ''n.'', cmd_exec = 5\<rparr>"

definition pub_entry :: cmd_entry where
  "pub_entry = \<lparr>cmd_name = ''pub'', cmd_doc = ''publish a message to a queue.'', cmd_exec = 6\<rparr>"

definition publish_entry :: cmd_entry where
  "publish_entry = \<lparr>cmd_name = ''publish'', cmd_doc = ''publish a message to a queue.'', cmd_exec = 7\<rparr>"

definition sub_entry :: cmd_entry where
  "sub_entry = \<lparr>cmd_name = ''sub'', cmd_doc = ''subscribe to a message queue. '' @
     ''send '' @ [CHR 0x27] @ ''last'' @ [CHR 0x27] @ '' as payload to received last published message '' @
     ''on this route (if any).'', cmd_exec = 8\<rparr>"

definition subscribe_entry :: cmd_entry where
  "subscribe_entry = \<lparr>cmd_name = ''subscribe'', cmd_doc = ''subscribe to a message queue. '' @
     ''send '' @ [CHR 0x27] @ ''last'' @ [CHR 0x27] @ '' as payload to received last published message '' @
     ''on this route (if any).'', cmd_exec = 9\<rparr>"

definition unsub_entry :: cmd_entry where
  "unsub_entry = \<lparr>cmd_name = ''unsub'',
     cmd_doc = ''close a client'' @ [CHR 0x27] @ ''s connection. set payload as id to unsubscribe.'', cmd_exec = 10\<rparr>"

definition shipped_entries :: "cmd_entry list" where
  "shipped_entries = [PING_entry, PONG_entry, epoch_entry, time_entry, list_subscriptions_entry, lsconn_entry,
     pub_entry, publish_entry, sub_entry, subscribe_entry, unsub_entry]"

lemmas entry_defs = PING_entry_def PONG_entry_def epoch_entry_def time_entry_def list_subscriptions_entry_def
  lsconn_entry_def pub_entry_def publish_entry_def sub_entry_def subscribe_entry_def unsub_entry_def

section \<open>The right function runs\<close>

lemma shipped_names:
  "e \<in> set shipped_entries \<Longrightarrow> e' \<in> set shipped_entries \<Longrightarrow> cmd_name e = cmd_name e' \<Longrightarrow> e = e'"
  "e \<in> set shipped_entries \<Longrightarrow> cmd_name e \<noteq> ''lscmd'' \<and> cmd_name e \<noteq> ''help''"
  by (auto simp: shipped_entries_def) (simp_all add: entry_defs)

lemma shipped_found:
  assumes "set es \<subseteq> set shipped_entries" and "e \<in> set es"
  shows "find_loaded (cmd_name e) es = Some (cmd_exec e)"
proof -
  obtain x where x: "find (\<lambda>c. cmd_name c = cmd_name e) es = Some x"
    using assms(2) by (metis (mono_tags, lifting) find_None_iff option.exhaust)
  then have "x \<in> set es" "cmd_name x = cmd_name e"
    by (auto simp: find_Some_iff)
  then have "x = e"
    using shipped_names(1) assms by blast
  then show ?thesis
    using x by (simp add: find_loaded_def)
qed

text \<open>C30: A directory in which every \<open>.so\<close> file is built from a file of \<open>src/commands/\<close> is loaded, and from then on
  a message with the name of one of them, with any route and payload and for any client, runs the
  function of the file it is built from.\<close>

theorem shipped_commands_run:
  assumes "re_dispatcher r = Some d" and "de_readdir env path = Some names" and "again path = Some names"
    and "de_closedir env path" and "\<forall>name \<in> set names. strrchr_dot name \<noteq> None"
    and "\<forall>name \<in> set names. is_so name \<longrightarrow>
      de_dlopen env (full_path path name) = DlCommand (entry_of name) \<and> entry_of name \<in> set shipped_entries"
    and "os_malloc (w_os (re_world r)) = []" and "de_exec env = nth (shipped lt)"
  shows "\<exists>r'. ducq_dispatcher_load_commands_path env again (Some path) r = Some (DUCQ_OK, r') \<and>
    (\<forall>name \<in> set names. is_so name \<longrightarrow>
      (\<forall>s route payload buffer p n. re_dispatcher s = re_dispatcher r' \<and> parts_ok (cmd_name (entry_of name)) route \<and>
        in_buffer (message_text (cmd_name (entry_of name)) route payload) buffer \<longrightarrow>
        ducq_dispatch env p buffer n s = (shipped lt ! cmd_exec (entry_of name)) p buffer n s))"
proof -
  obtain r' d' where r': "ducq_dispatcher_load_commands_path env again (Some path) r = Some (DUCQ_OK, r')"
      "re_dispatcher r' = Some d'" "commands_of d' = map entry_of (filter is_so names)"
    using load_commands_loads [where r = r and env = env and path = path and names = names and again = again and cmd_of = entry_of,
        OF assms(1-5) _ assms(7)] assms(6) by blast
  have es: "set (commands_of d') \<subseteq> set shipped_entries"
    using assms(6) by (auto simp: r'(3))
  have "ducq_dispatch env p buffer n s = (shipped lt ! cmd_exec (entry_of name)) p buffer n s"
    if "name \<in> set names" "is_so name" "re_dispatcher s = re_dispatcher r'" "parts_ok (cmd_name (entry_of name)) route"
      "in_buffer (message_text (cmd_name (entry_of name)) route payload) buffer" for name s route payload buffer p n
  proof -
    have e: "entry_of name \<in> set (commands_of d')"
      using that(1,2) by (simp add: r'(3))
    show ?thesis
      using dispatch_run [OF that(4,5), of s d' env p n] that(3) r'(2) shipped_found [OF es e] shipped_names(2) es e assms(8)
      by auto
  qed
  then show ?thesis
    using r'(1) by blast
qed

text \<open>The directory of the Makefile.\<close>

definition shipped_env :: "(unit, nat) disp_env" where
  "shipped_env = demo_env\<lparr>de_readdir := (\<lambda>path. Some ([''.'', ''..''] @ map (\<lambda>e. cmd_name e @ ''.so'') shipped_entries)),
     de_dlopen := (\<lambda>path. case find (\<lambda>e. path = ''cmds/'' @ cmd_name e @ ''.so'') shipped_entries of
        None \<Rightarrow> DlFailed path | Some e \<Rightarrow> DlCommand e),
     de_exec := nth (shipped (\<lambda>t. \<lparr>tm_year = 70, tm_mon = 0, tm_mday = 1, tm_hour = 0, tm_min = 0, tm_sec = 0\<rparr>))\<rparr>"

definition built_from :: "string \<Rightarrow> cmd_entry" where
  "built_from name = (case find (\<lambda>e. name = cmd_name e @ ''.so'') shipped_entries of None \<Rightarrow> PING_entry | Some e \<Rightarrow> e)"

definition shipped_files :: "string list" where
  "shipped_files = [''.'', ''..''] @ map (\<lambda>e. cmd_name e @ ''.so'') shipped_entries"

lemma shipped_dir:
  "list_all (\<lambda>name. strrchr_dot name \<noteq> None \<and> length name < 30 \<and> (is_so name \<longrightarrow>
     find (\<lambda>e. ''cmds/'' @ name = ''cmds/'' @ cmd_name e @ ''.so'') shipped_entries = Some (built_from name) \<and>
     built_from name \<in> set shipped_entries)) shipped_files"
  by code_simp

theorem shipped_commands_run_witness:
  "\<exists>r'. ducq_dispatcher_load_commands_path shipped_env (de_readdir shipped_env) (Some ''cmds'') (demo_server None) = Some (DUCQ_OK, r') \<and>
    ducq_dispatch shipped_env 9 (demo_buffer (message_text ''unsub'' ''_'' ''x'')) 9 r' =
      unsub 9 (demo_buffer (message_text ''unsub'' ''_'' ''x'')) 9 r'"
proof -
  let ?lt = "\<lambda>t. \<lparr>tm_year = 70, tm_mon = 0, tm_mday = 1, tm_hour = 0, tm_min = 0, tm_sec = 0\<rparr> :: tm"
  have dir: "de_readdir shipped_env ''cmds'' = Some shipped_files" "de_closedir shipped_env ''cmds''"
      "de_exec shipped_env = nth (shipped ?lt)"
    by (simp_all add: shipped_env_def shipped_files_def demo_env_def)
  have m: "os_malloc (w_os (re_world (demo_server None))) = []"
    by (simp add: demo_server_def demo_world_def quiet_os_def)
  have each: "strrchr_dot name \<noteq> None \<and> length name < 30 \<and> (is_so name \<longrightarrow>
     find (\<lambda>e. ''cmds/'' @ name = ''cmds/'' @ cmd_name e @ ''.so'') shipped_entries = Some (built_from name) \<and>
     built_from name \<in> set shipped_entries)" if "name \<in> set shipped_files" for name
    using shipped_dir that unfolding list_all_iff by blast
  have path: "full_path ''cmds'' name = ''cmds/'' @ name" if "length name < 30" for name
    using that by (simp add: full_path_def snprintf_fits PATH_MAX_def)
  have so: "\<forall>name \<in> set shipped_files. is_so name \<longrightarrow>
      de_dlopen shipped_env (full_path ''cmds'' name) = DlCommand (built_from name) \<and> built_from name \<in> set shipped_entries"
    using each path by (auto simp: shipped_env_def)
  have unsub_file: "''unsub.so'' \<in> set shipped_files" "is_so ''unsub.so''" "built_from ''unsub.so'' = unsub_entry"
    by code_simp+
  have buf: "in_buffer (message_text ''unsub'' ''_'' ''x'') (demo_buffer (message_text ''unsub'' ''_'' ''x''))"
    by (auto intro!: demo_buffer simp: message_text_def)
  have "parts_ok (cmd_name unsub_entry) ''_''" and e: "cmd_name unsub_entry = ''unsub''" "cmd_exec unsub_entry = 10"
    by (simp_all add: parts_ok_def unsub_entry_def)
  then show ?thesis
    using shipped_commands_run [where entry_of = built_from and lt = ?lt and again = "de_readdir shipped_env" and path = "''cmds''",
        OF demo_server(4) dir(1) dir(1) dir(2) _ so m dir(3)] each unsub_file buf
    by (fastforce simp: shipped_def e)
qed

end
