(* ===== verification/Ducq_Lua.thy ===== *)
theory Ducq_Lua
  imports Ducq_Dispatcher
begin

text \<open>
  The functions Lua code calls, \<open>src/ducq_lua.c\<close>.

  Lua is a parameter: the record \<open>lua_api\<close> has one field for each function of its API the file calls,
  over a Lua state of any type.  The C functions are numbered by a datatype, as a closure or a method
  table holds them, and interpreted by \<open>lua_call\<close>.  A function answers the error it raises (\<open>Inl\<close>; in
  C it does not return then) or the count of values it leaves (\<open>Inr\<close>).  The memory of a userdata is one pointer,
  \<open>bi_blocks\<close>; the iterators \<open>malloc\<close> made are \<open>bi_its\<close>, and the addresses it answers are not used again.
  A failing allocation inside Lua is not modelled.
\<close>

section \<open>The state and the API\<close>

definition DUCQ_METATABLE :: string where "DUCQ_METATABLE = ''Ducq.Ducq''"
definition DUCQ_REACTOR_METATABLE :: string where "DUCQ_REACTOR_METATABLE = ''Ducq.Reactor''"
definition DUCQ_ITERATOR_METATABLE :: string where "DUCQ_ITERATOR_METATABLE = ''Ducq.Iterator''"
definition DUCQ_MSG_METATABLE :: string where "DUCQ_MSG_METATABLE = ''Ducq.Msg''"

text \<open>\<open>bi_self\<close> is the address of the reactor, \<open>bi_next\<close> the next one \<open>malloc\<close> answers.\<close>

record ('s, 'l, 'd) binding =
  bi_lua :: 's
  bi_blocks :: "nat \<Rightarrow> nat option"
  bi_its :: "nat \<Rightarrow> nat option"
  bi_next :: nat
  bi_self :: nat
  bi_reactor :: "('l, 'd) reactor"

datatype lua_cfunction =
    C_conn | C_id | C_eq | C_timeout | C_recv | C_send | C_close | C_sendack
  | C_iterator_gc | C_clients_iteration | C_clients | C_loop | C_msg_tostring

datatype lua_index = At int | Registry | Upvalue nat

text \<open>\<open>la_tonumberx\<close> answers a number rounded toward zero, as its conversion to an enum does, and None
  when the value is no number.  Reading a field may run a metamethod, so it may raise an error and
  change anything; \<open>la_pcall\<close> answers whether the call returned, with its value or the error message
  on the stack.\<close>

record ('s, 'l, 'd) lua_api =
  la_checkudata :: "int \<Rightarrow> string \<Rightarrow> 's \<Rightarrow> string + nat"
  la_checkinteger :: "int \<Rightarrow> 's \<Rightarrow> string + int"
  la_checklstring :: "int \<Rightarrow> 's \<Rightarrow> string + (char list \<times> 's)"
  la_checktable :: "int \<Rightarrow> 's \<Rightarrow> string option"
  la_touserdata :: "lua_index \<Rightarrow> 's \<Rightarrow> nat"
  la_tostring :: "int \<Rightarrow> 's \<Rightarrow> string option \<times> 's"
  la_tonumberx :: "int \<Rightarrow> 's \<Rightarrow> int option"
  la_isfunction :: "int \<Rightarrow> 's \<Rightarrow> bool"
  la_pushinteger :: "int \<Rightarrow> 's \<Rightarrow> 's"
  la_pushboolean :: "bool \<Rightarrow> 's \<Rightarrow> 's"
  la_pushstring :: "string option \<Rightarrow> 's \<Rightarrow> 's"
  la_pushlstring :: "char list \<Rightarrow> 's \<Rightarrow> 's"
  la_pushfstring :: "string \<Rightarrow> string option list \<Rightarrow> 's \<Rightarrow> 's"
  la_pushvalue :: "int \<Rightarrow> 's \<Rightarrow> 's"
  la_pushcclosure :: "lua_cfunction \<Rightarrow> nat \<Rightarrow> 's \<Rightarrow> 's"
  la_pop :: "nat \<Rightarrow> 's \<Rightarrow> 's"
  la_newuserdata :: "'s \<Rightarrow> nat \<times> 's"
  la_createtable :: "'s \<Rightarrow> 's"
  la_newmetatable :: "string \<Rightarrow> 's \<Rightarrow> 's"
  la_getmetatable :: "string \<Rightarrow> 's \<Rightarrow> 's"
  la_setmetatable :: "int \<Rightarrow> 's \<Rightarrow> 's"
  la_setfield :: "int \<Rightarrow> string \<Rightarrow> 's \<Rightarrow> 's"
  la_setfuncs :: "(string \<times> lua_cfunction) list \<Rightarrow> 's \<Rightarrow> 's"
  la_newlib :: "(string \<times> lua_cfunction) list \<Rightarrow> 's \<Rightarrow> 's"
  la_error :: "string \<Rightarrow> string option list \<Rightarrow> 's \<Rightarrow> string"
  la_getfield :: "lua_index \<Rightarrow> string \<Rightarrow> ('s, 'l, 'd) binding \<Rightarrow> (string option \<times> ('s, 'l, 'd) binding) option"
  la_pcall :: "nat \<Rightarrow> nat \<Rightarrow> ('s, 'l, 'd) binding \<Rightarrow> (bool \<times> ('s, 'l, 'd) binding) option"

type_synonym ('s, 'l, 'd) lua_outcome = "((string + nat) \<times> ('s, 'l, 'd) binding) option"

definition on_lua :: "('s \<Rightarrow> 's) \<Rightarrow> ('s, 'l, 'd) binding \<Rightarrow> ('s, 'l, 'd) binding" where
  "on_lua f b = b\<lparr>bi_lua := f (bi_lua b)\<rparr>"

definition on_client :: "(world \<Rightarrow> ('a \<times> world) option) \<Rightarrow> ('s, 'l, 'd) binding \<Rightarrow> ('a \<times> ('s, 'l, 'd) binding) option" where
  "on_client f b = map_option (\<lambda>(a, r). (a, b\<lparr>bi_reactor := r\<rparr>)) (on_world f (bi_reactor b))"

definition raised :: "string \<Rightarrow> ('s, 'l, 'd) binding \<Rightarrow> ('s, 'l, 'd) lua_outcome" where
  "raised e b = Some (Inl e, b)"

definition luaL_error :: "('s, 'l, 'd) lua_api \<Rightarrow> string \<Rightarrow> string option list \<Rightarrow> ('s, 'l, 'd) binding \<Rightarrow> string" where
  "luaL_error api fmt args b = la_error api fmt args (bi_lua b)"

text \<open>\<open>*(T**) luaL_checkudata (L, i, metatable)\<close>, and what follows.\<close>

definition with_pointer ::
  "('s, 'l, 'd) lua_api \<Rightarrow> int \<Rightarrow> string \<Rightarrow> (nat \<Rightarrow> ('s, 'l, 'd) binding \<Rightarrow> ('s, 'l, 'd) lua_outcome) \<Rightarrow>
   ('s, 'l, 'd) binding \<Rightarrow> ('s, 'l, 'd) lua_outcome" where
  "with_pointer api i metatable f b =
     (case la_checkudata api i metatable (bi_lua b) of
        Inl e \<Rightarrow> raised e b
      | Inr block \<Rightarrow> do { p \<leftarrow> bi_blocks b block; f p b })"

definition push_state :: "('s, 'l, 'd) lua_api \<Rightarrow> ducq_state \<Rightarrow> ('s, 'l, 'd) binding \<Rightarrow> ('s, 'l, 'd) binding" where
  "push_state api state b = on_lua (la_pushinteger api (state_code state)) b"

section \<open>Methods of a client\<close>

definition lua_conn :: "('s, 'l, 'd) lua_api \<Rightarrow> ('s, 'l, 'd) binding \<Rightarrow> ('s, 'l, 'd) lua_outcome" where
  "lua_conn api = with_pointer api 1 DUCQ_METATABLE (\<lambda>ducq b.
     do { (state, b) \<leftarrow> on_client (ducq_conn ducq) b; Some (Inr 1, push_state api state b) })"

definition lua_id :: "('s, 'l, 'd) lua_api \<Rightarrow> ('s, 'l, 'd) binding \<Rightarrow> ('s, 'l, 'd) lua_outcome" where
  "lua_id api = with_pointer api 1 DUCQ_METATABLE (\<lambda>ducq b.
     do { (ident, b) \<leftarrow> on_client (ducq_id ducq) b; Some (Inr 1, on_lua (la_pushstring api ident) b) })"

definition lua_eq :: "('s, 'l, 'd) lua_api \<Rightarrow> ('s, 'l, 'd) binding \<Rightarrow> ('s, 'l, 'd) lua_outcome" where
  "lua_eq api = with_pointer api 1 DUCQ_METATABLE (\<lambda>ducq_a.
     with_pointer api 2 DUCQ_METATABLE (\<lambda>ducq_b b.
       do {
         equal \<leftarrow> ducq_eq ducq_a ducq_b (re_world (bi_reactor b));
         Some (Inr 1, on_lua (la_pushboolean api equal) b)
       }))"

text \<open>The integer of Lua becomes an \<open>int\<close>, and that one the \<open>unsigned\<close> of the transports.\<close>

definition lua_timeout :: "('s, 'l, 'd) lua_api \<Rightarrow> ('s, 'l, 'd) binding \<Rightarrow> ('s, 'l, 'd) lua_outcome" where
  "lua_timeout api = with_pointer api 1 DUCQ_METATABLE (\<lambda>ducq b.
     case la_checkinteger api 2 (bi_lua b) of
       Inl e \<Rightarrow> raised e b
     | Inr timeout \<Rightarrow>
         do {
           (state, b) \<leftarrow> on_client (ducq_timeout ducq (nat (to_int32 timeout mod 2 ^ 32))) b;
           Some (Inr 1, push_state api state b)
         })"

text \<open>The length is taken from \<open>ducq_recv\<close> whatever the state it answers.\<close>

definition lua_recv :: "('s, 'l, 'd) lua_api \<Rightarrow> ('s, 'l, 'd) binding \<Rightarrow> ('s, 'l, 'd) lua_outcome" where
  "lua_recv api = with_pointer api 1 DUCQ_METATABLE (\<lambda>ducq b.
     do {
       ((state, len, msg), b) \<leftarrow> on_client (ducq_recv ducq (replicate DUCQ_MSGSZ NUL) DUCQ_MSGSZ) b;
       if len \<le> length msg
       then Some (Inr 2, push_state api state (on_lua (la_pushlstring api (take len msg)) b))
       else None
     })"

text \<open>The message is the last argument.\<close>

definition lua_send :: "('s, 'l, 'd) lua_api \<Rightarrow> ('s, 'l, 'd) binding \<Rightarrow> ('s, 'l, 'd) lua_outcome" where
  "lua_send api = with_pointer api 1 DUCQ_METATABLE (\<lambda>ducq b.
     case la_checklstring api (- 1) (bi_lua b) of
       Inl e \<Rightarrow> raised e b
     | Inr (msg, s) \<Rightarrow>
         do {
           (state, b) \<leftarrow> on_client (ducq_send ducq msg) (b\<lparr>bi_lua := s\<rparr>);
           Some (Inr 1, push_state api state b)
         })"

definition lua_close :: "('s, 'l, 'd) lua_api \<Rightarrow> ('s, 'l, 'd) binding \<Rightarrow> ('s, 'l, 'd) lua_outcome" where
  "lua_close api = with_pointer api 1 DUCQ_METATABLE (\<lambda>ducq b.
     do { (state, b) \<leftarrow> on_client (ducq_close ducq) b; Some (Inr 1, push_state api state b) })"

definition lua_sendack :: "('s, 'l, 'd) lua_api \<Rightarrow> ('s, 'l, 'd) binding \<Rightarrow> ('s, 'l, 'd) lua_outcome" where
  "lua_sendack api = with_pointer api 1 DUCQ_METATABLE (\<lambda>ducq b.
     do { (state, b) \<leftarrow> on_client (ducq_send_ack ducq DUCQ_OK) b; Some (Inr 1, push_state api state b) })"

section \<open>Values for Lua\<close>

text \<open>A userdata of one pointer.\<close>

definition push_pointer :: "('s, 'l, 'd) lua_api \<Rightarrow> string \<Rightarrow> nat \<Rightarrow> ('s, 'l, 'd) binding \<Rightarrow> ('s, 'l, 'd) binding" where
  "push_pointer api metatable p b =
     (let (block, s) = la_newuserdata api (bi_lua b)
      in b\<lparr>bi_blocks := (bi_blocks b)(block \<mapsto> p),
           bi_lua := la_setmetatable api (- 2) (la_getmetatable api metatable s)\<rparr>)"

definition ducq_push_ducq :: "('s, 'l, 'd) lua_api \<Rightarrow> nat \<Rightarrow> ('s, 'l, 'd) binding \<Rightarrow> ('s, 'l, 'd) binding" where
  "ducq_push_ducq api ducq b = push_pointer api DUCQ_METATABLE ducq b"

definition ducq_push_reactor :: "('s, 'l, 'd) lua_api \<Rightarrow> nat \<Rightarrow> ('s, 'l, 'd) binding \<Rightarrow> ('s, 'l, 'd) binding" where
  "ducq_push_reactor api reactor b = push_pointer api DUCQ_REACTOR_METATABLE reactor b"

definition ducq_push_msg :: "('s, 'l, 'd) lua_api \<Rightarrow> ducq_msg \<Rightarrow> 's \<Rightarrow> 's" where
  "ducq_push_msg api msg s =
     (let s = la_createtable api s;
          s = la_setfield api (- 2) ''command'' (la_pushstring api (msg_command msg) s);
          s = la_setfield api (- 2) ''route'' (la_pushstring api (msg_route msg) s);
          s = la_setfield api (- 2) ''payload'' (la_pushstring api (msg_payload msg) s)
      in la_setmetatable api (- 2) (la_getmetatable api DUCQ_MSG_METATABLE s))"

definition lua_msg_tostring :: "('s, 'l, 'd) lua_api \<Rightarrow> ('s, 'l, 'd) binding \<Rightarrow> ('s, 'l, 'd) lua_outcome" where
  "lua_msg_tostring api b =
     (case la_checktable api 1 (bi_lua b) of
        Some e \<Rightarrow> raised e b
      | None \<Rightarrow>
          do {
            (e, b) \<leftarrow> la_getfield api (At 1) ''command'' b;
            case e of Some e \<Rightarrow> raised e b | None \<Rightarrow>
              do {
                (e, b) \<leftarrow> la_getfield api (At 1) ''route'' b;
                case e of Some e \<Rightarrow> raised e b | None \<Rightarrow>
                  do {
                    (e, b) \<leftarrow> la_getfield api (At 1) ''payload'' b;
                    case e of Some e \<Rightarrow> raised e b | None \<Rightarrow>
                      let (command, s) = la_tostring api (- 3) (bi_lua b);
                          (route, s) = la_tostring api (- 2) s;
                          (payload, s) = la_tostring api (- 1) s
                      in Some (Inr 1, b\<lparr>bi_lua := la_pushfstring api (''%s %s'' @ LF # ''%s'') [command, route, payload] s\<rparr>)
                  }
              }
          })"

section \<open>The iterator\<close>

definition ducq_client_it_free :: "nat \<Rightarrow> ('s, 'l, 'd) binding \<Rightarrow> ('s, 'l, 'd) binding option" where
  "ducq_client_it_free it b =
     (if it = 0 then Some b
      else do { _ \<leftarrow> bi_its b it; Some (b\<lparr>bi_its := (bi_its b)(it := None)\<rparr>) })"

definition lua_iterator_gc :: "('s, 'l, 'd) lua_api \<Rightarrow> ('s, 'l, 'd) binding \<Rightarrow> ('s, 'l, 'd) lua_outcome" where
  "lua_iterator_gc api = with_pointer api 1 DUCQ_ITERATOR_METATABLE (\<lambda>it b.
     do { b \<leftarrow> ducq_client_it_free it b; Some (Inr 0, b) })"

definition lua_clients_iteration :: "('s, 'l, 'd) lua_api \<Rightarrow> ('s, 'l, 'd) binding \<Rightarrow> ('s, 'l, 'd) lua_outcome" where
  "lua_clients_iteration api b =
     do {
       it \<leftarrow> bi_blocks b (la_touserdata api (Upvalue 1) (bi_lua b));
       pos \<leftarrow> bi_its b it;
       let (next, pos) = ducq_next pos (bi_reactor b);
           b = b\<lparr>bi_its := (bi_its b)(it \<mapsto> pos)\<rparr> in
       case next of
         None \<Rightarrow> Some (Inr 0, b)
       | Some (ducq, i) \<Rightarrow>
           do {
             route \<leftarrow> route_at i (bi_reactor b);
             Some (Inr 2, on_lua (la_pushstring api (Some route)) (ducq_push_ducq api ducq b))
           }
     }"

text \<open>\<open>_clients\<close>: the pointer in the userdata is NULL until the iterator is made.\<close>

definition lua_clients :: "('s, 'l, 'd) lua_api \<Rightarrow> ('s, 'l, 'd) binding \<Rightarrow> ('s, 'l, 'd) lua_outcome" where
  "lua_clients api b =
     do {
       (e, b) \<leftarrow> la_getfield api Registry ''reactor'' b;
       case e of Some e \<Rightarrow> raised e b | None \<Rightarrow>
         let reactor = la_touserdata api (At (- 1)) (bi_lua b) in
         if reactor = 0 then raised (luaL_error api ''reactor not found, probably not server-side instance'' [] b) b
         else
           let (block, s) = la_newuserdata api (bi_lua b);
               s = la_setmetatable api (- 2) (la_getmetatable api DUCQ_ITERATOR_METATABLE s);
               b = b\<lparr>bi_lua := s, bi_blocks := (bi_blocks b)(block \<mapsto> 0)\<rparr> in
           if reactor \<noteq> bi_self b then None
           else
             do {
               (pos, r) \<leftarrow> ducq_new_client_it (bi_reactor b);
               let it = bi_next b;
                   b = b\<lparr>bi_reactor := r, bi_its := (bi_its b)(it \<mapsto> pos), bi_next := it + 1,
                         bi_blocks := (bi_blocks b)(block \<mapsto> it)\<rparr> in
               if it = 0 then raised (luaL_error api ''ducq_newclient_it() failed.'' [] b) b
               else Some (Inr 1, on_lua (la_pushcclosure api C_clients_iteration 1) b)
             }
     }"

section \<open>The loop\<close>

text \<open>The context is the state and the error raised in the callback.  A raised error leaves
  \<open>ducq_reactor_loop\<close> at once, as an answer BREAK does.\<close>

definition do_lua_callback ::
  "('s, 'l, 'd) lua_api \<Rightarrow> (('s, 'l, 'd) binding \<times> string option, 'l, 'd) loop_fun" where
  "do_lua_callback api ducq i x r =
     (let b = on_lua (la_pushvalue api (- 1)) ((fst x)\<lparr>bi_reactor := r\<rparr>);
          b = ducq_push_ducq api ducq b in
      do {
        route \<leftarrow> route_at i r;
        let b = on_lua (la_pushstring api (Some route)) b in
        do {
          (ok, b) \<leftarrow> la_pcall api 2 1 b;
          if \<not> ok then
            let (txt, s) = la_tostring api (- 1) (bi_lua b); b = b\<lparr>bi_lua := s\<rparr> in
            Some (DUCQ_LOOP_BREAK, (b, Some (luaL_error api ''error in reactor:loop() callback: %s'' [txt] b)), bi_reactor b)
          else
            case la_tonumberx api (- 1) (bi_lua b) of
              None \<Rightarrow>
                Some (DUCQ_LOOP_BREAK,
                  (b, Some (luaL_error api ''error reactor:loop() callback must return a ducq_loop_t'' [] b)), bi_reactor b)
            | Some control \<Rightarrow>
                if 0 \<le> control \<and> control < 2 ^ 32
                then Some (nat control, (on_lua (la_pop api 1) b, None), bi_reactor b) else None
        }
      })"

definition lua_loop :: "('s, 'l, 'd) lua_api \<Rightarrow> ('s, 'l, 'd) binding \<Rightarrow> ('s, 'l, 'd) lua_outcome" where
  "lua_loop api = with_pointer api 1 DUCQ_REACTOR_METATABLE (\<lambda>reactor b.
     if \<not> la_isfunction api (- 1) (bi_lua b) then
       raised (luaL_error api ''reactor:loop() expected parameter to be a function'' [] b) b
     else if reactor \<noteq> bi_self b then None
     else
       do {
         (control, (b, e), r) \<leftarrow> ducq_reactor_loop (do_lua_callback api) (b, None) (bi_reactor b);
         let b = b\<lparr>bi_reactor := r\<rparr> in
         case e of
           Some e \<Rightarrow> raised e b
         | None \<Rightarrow> Some (Inr 1, on_lua (la_pushinteger api (int control)) b)
       })"

section \<open>The tables of functions\<close>

definition ducqlib_f :: "(string \<times> lua_cfunction) list" where
  "ducqlib_f = []"

definition ducq_m :: "(string \<times> lua_cfunction) list" where
  "ducq_m =
     [(''conn'', C_conn), (''id'', C_id), (''timeout'', C_timeout), (''recv'', C_recv), (''send'', C_send),
      (''__eq'', C_eq), (''close'', C_close), (''sendack'', C_sendack), (''clients'', C_clients)]"

definition reactor_m :: "(string \<times> lua_cfunction) list" where
  "reactor_m = [(''loop'', C_loop)]"

definition msg_m :: "(string \<times> lua_cfunction) list" where
  "msg_m = [(''__tostring'', C_msg_tostring)]"

definition lua_call :: "('s, 'l, 'd) lua_api \<Rightarrow> lua_cfunction \<Rightarrow> ('s, 'l, 'd) binding \<Rightarrow> ('s, 'l, 'd) lua_outcome" where
  "lua_call api f =
     (case f of
        C_conn \<Rightarrow> lua_conn api
      | C_id \<Rightarrow> lua_id api
      | C_eq \<Rightarrow> lua_eq api
      | C_timeout \<Rightarrow> lua_timeout api
      | C_recv \<Rightarrow> lua_recv api
      | C_send \<Rightarrow> lua_send api
      | C_close \<Rightarrow> lua_close api
      | C_sendack \<Rightarrow> lua_sendack api
      | C_iterator_gc \<Rightarrow> lua_iterator_gc api
      | C_clients_iteration \<Rightarrow> lua_clients_iteration api
      | C_clients \<Rightarrow> lua_clients api
      | C_loop \<Rightarrow> lua_loop api
      | C_msg_tostring \<Rightarrow> lua_msg_tostring api)"

text \<open>A metatable that is its own index and hides itself.\<close>

definition open_metatable :: "('s, 'l, 'd) lua_api \<Rightarrow> string \<Rightarrow> 's \<Rightarrow> 's" where
  "open_metatable api name s =
     (let s = la_newmetatable api name s;
          s = la_setfield api (- 2) ''__index'' (la_pushvalue api (- 1) s)
      in la_setfield api (- 2) ''__metatable'' (la_pushstring api (Some name) s))"

definition luaopen_LuaDucq :: "('s, 'l, 'd) lua_api \<Rightarrow> 's \<Rightarrow> nat \<times> 's" where
  "luaopen_LuaDucq api s =
     (let s = la_setfuncs api ducq_m (open_metatable api DUCQ_METATABLE s);
          s = open_metatable api DUCQ_REACTOR_METATABLE s;
          s = la_setfield api (- 2) ''continue'' (la_pushinteger api (int DUCQ_LOOP_CONTINUE) s);
          s = la_setfield api (- 2) ''stop'' (la_pushinteger api (int DUCQ_LOOP_BREAK) s);
          s = la_setfield api (- 2) ''delete'' (la_pushinteger api (int DUCQ_LOOP_DELETE) s);
          s = la_setfuncs api reactor_m s;
          s = la_newmetatable api DUCQ_ITERATOR_METATABLE s;
          s = la_setfield api (- 2) ''__gc'' (la_pushcclosure api C_iterator_gc 0 s);
          s = la_setfield api (- 2) ''__metatable'' (la_pushstring api (Some DUCQ_ITERATOR_METATABLE) s);
          s = la_setfuncs api msg_m (open_metatable api DUCQ_MSG_METATABLE s)
      in (1, la_newlib api ducqlib_f s))"

end
