(* ===== verification/Lua_Manual.thy ===== *)
theory Lua_Manual
  imports Ducq_Lua
begin

text \<open>
  What the manual of Lua promises of the functions \<open>ducq_push_msg\<close> and \<open>__tostring\<close> call, said of a view of the
  Lua state: the stack, the tables and the metatables.  \<open>small_lua\<close> is a Lua of that kind, with one
  function, enough to run the binding in the witnesses.
\<close>

section \<open>A view of the Lua state\<close>

datatype lua_val =
    VNil | VBool bool | VInt int | VStr "char list" | VTable nat | VUser nat | VLight nat | VMeta string
  | VFun | VClosure lua_cfunction

record lua_table =
  tb_fields :: "string \<Rightarrow> lua_val"
  tb_meta :: "string option"

text \<open>A table is the number of those made before it.\<close>

record lua_view =
  lv_stack :: "lua_val list"
  lv_tables :: "lua_table list"

definition lv_push :: "lua_val \<Rightarrow> ('a) lua_view_scheme \<Rightarrow> ('a) lua_view_scheme" where
  "lv_push v s = s\<lparr>lv_stack := lv_stack s @ [v]\<rparr>"

definition opt_str :: "string option \<Rightarrow> lua_val" where
  "opt_str x = (case x of None \<Rightarrow> VNil | Some t \<Rightarrow> VStr t)"

lemma lv_push_simps [simp]:
  "lv_stack (lv_push v s) = lv_stack s @ [v]" "lv_tables (lv_push v s) = lv_tables s"
  by (simp_all add: lv_push_def)

text \<open>Fields are read and written without metamethods when they are there or the table has no metatable.  A part that
  is missing in a message is not in its metatable either, which \<open>luaopen_LuaDucq\<close> has filled with other fields.
  \<open>pushfstring\<close> is described for the call the file makes; a NULL string is printed as "(null)".\<close>

definition lua_tables :: "('s, 'l, 'd) lua_api \<Rightarrow> ('s \<Rightarrow> lua_view) \<Rightarrow> bool" where
  "lua_tables api view \<longleftrightarrow>
     (\<forall>s. view (la_createtable api s) =
       lv_push (VTable (length (lv_tables (view s))))
         ((view s)\<lparr>lv_tables := lv_tables (view s) @ [\<lparr>tb_fields = \<lambda>_. VNil, tb_meta = None\<rparr>]\<rparr>)) \<and>
     (\<forall>s vs t v k. lv_stack (view s) = vs @ [VTable t, v] \<longrightarrow> t < length (lv_tables (view s)) \<longrightarrow>
       tb_meta (lv_tables (view s) ! t) = None \<longrightarrow>
       view (la_setfield api (- 2) k s) =
         (view s)\<lparr>lv_stack := vs @ [VTable t], lv_tables := (lv_tables (view s))
           [t := (lv_tables (view s) ! t)\<lparr>tb_fields := (tb_fields (lv_tables (view s) ! t))(k := v)\<rparr>]\<rparr>) \<and>
     (\<forall>s vs t name. lv_stack (view s) = vs @ [VTable t, VMeta name] \<longrightarrow> t < length (lv_tables (view s)) \<longrightarrow>
       view (la_setmetatable api (- 2) s) =
         (view s)\<lparr>lv_stack := vs @ [VTable t],
           lv_tables := (lv_tables (view s))[t := (lv_tables (view s) ! t)\<lparr>tb_meta := Some name\<rparr>]\<rparr>) \<and>
     (\<forall>b t vs k. lv_stack (view (bi_lua b)) = VTable t # vs \<longrightarrow> t < length (lv_tables (view (bi_lua b))) \<longrightarrow>
       tb_fields (lv_tables (view (bi_lua b)) ! t) k \<noteq> VNil \<longrightarrow>
       (\<exists>s. la_getfield api (At 1) k b = Some (None, b\<lparr>bi_lua := s\<rparr>) \<and>
         view s = lv_push (tb_fields (lv_tables (view (bi_lua b)) ! t) k) (view (bi_lua b)))) \<and>
     (\<forall>b t vs k. lv_stack (view (bi_lua b)) = VTable t # vs \<longrightarrow> t < length (lv_tables (view (bi_lua b))) \<longrightarrow>
       tb_fields (lv_tables (view (bi_lua b)) ! t) k = VNil \<longrightarrow>
       tb_meta (lv_tables (view (bi_lua b)) ! t) = Some DUCQ_MSG_METATABLE \<longrightarrow> k \<in> {''command'', ''route'', ''payload''} \<longrightarrow>
       (\<exists>s. la_getfield api (At 1) k b = Some (None, b\<lparr>bi_lua := s\<rparr>) \<and> view s = lv_push VNil (view (bi_lua b))))"

definition lua_values :: "('s, 'l, 'd) lua_api \<Rightarrow> ('s \<Rightarrow> lua_view) \<Rightarrow> bool" where
  "lua_values api view \<longleftrightarrow>
     (\<forall>s x. view (la_pushstring api x s) = lv_push (opt_str x) (view s)) \<and>
     (\<forall>s name. view (la_getmetatable api name s) = lv_push (VMeta name) (view s)) \<and>
     (\<forall>s t vs. lv_stack (view s) = VTable t # vs \<longrightarrow> la_checktable api 1 s = None) \<and>
     (\<forall>s vs x ws. lv_stack (view s) = vs @ VStr x # ws \<longrightarrow> la_tostring api (- 1 - int (length ws)) s = (Some x, s)) \<and>
     (\<forall>s vs ws. lv_stack (view s) = vs @ VNil # ws \<longrightarrow> la_tostring api (- 1 - int (length ws)) s = (None, s)) \<and>
     (\<forall>s a b c. view (la_pushfstring api (''%s %s'' @ LF # ''%s'') [a, b, c] s) =
       lv_push (VStr (fmt_str a @ SP # fmt_str b @ LF # fmt_str c)) (view s))"

section \<open>A small Lua\<close>

record small_state = lua_view +
  sm_meta :: "nat \<Rightarrow> string option"
  sm_fresh :: nat
  sm_registry :: "string \<Rightarrow> lua_val"
  sm_upvalue :: lua_val
  sm_calls :: "(nat \<times> string \<times> nat) list"

definition at_index :: "int \<Rightarrow> 'a lua_view_scheme \<Rightarrow> lua_val" where
  "at_index i s =
     (let n = int (length (lv_stack s)); j = (if 0 < i then i - 1 else n + i)
      in if 0 \<le> j \<and> j < n then lv_stack s ! nat j else VNil)"

definition lv_pop :: "nat \<Rightarrow> 'a lua_view_scheme \<Rightarrow> 'a lua_view_scheme" where
  "lv_pop n s = s\<lparr>lv_stack := take (length (lv_stack s) - n) (lv_stack s)\<rparr>"

definition small_setfield :: "int \<Rightarrow> string \<Rightarrow> small_state \<Rightarrow> small_state" where
  "small_setfield i k s =
     (case at_index i s of
        VTable t \<Rightarrow> lv_pop 1 (s\<lparr>lv_tables := (lv_tables s)
          [t := (lv_tables s ! t)\<lparr>tb_fields := (tb_fields (lv_tables s ! t))(k := at_index (- 1) s)\<rparr>]\<rparr>)
      | _ \<Rightarrow> lv_pop 1 s)"

definition small_setmetatable :: "int \<Rightarrow> small_state \<Rightarrow> small_state" where
  "small_setmetatable i s =
     (case (at_index i s, at_index (- 1) s) of
        (VTable t, VMeta name) \<Rightarrow>
          lv_pop 1 (s\<lparr>lv_tables := (lv_tables s)[t := (lv_tables s ! t)\<lparr>tb_meta := Some name\<rparr>]\<rparr>)
      | (VUser block, VMeta name) \<Rightarrow> lv_pop 1 (s\<lparr>sm_meta := (sm_meta s)(block \<mapsto> name)\<rparr>)
      | _ \<Rightarrow> lv_pop 1 s)"

definition small_getfield :: "lua_index \<Rightarrow> string \<Rightarrow> (small_state, 'l, 'd) binding \<Rightarrow> (string option \<times> (small_state, 'l, 'd) binding) option" where
  "small_getfield i k b =
     (let s = bi_lua b;
          v = (case i of
                 At j \<Rightarrow> (case at_index j s of VTable t \<Rightarrow> tb_fields (lv_tables s ! t) k | _ \<Rightarrow> VNil)
               | Registry \<Rightarrow> sm_registry s k
               | Upvalue _ \<Rightarrow> VNil)
      in Some (None, b\<lparr>bi_lua := lv_push v s\<rparr>))"

text \<open>The one function gets a client and a route and answers a number, or raises an error; what it has answered is
  recorded.\<close>

definition small_pcall :: "(nat \<Rightarrow> string \<Rightarrow> int option) \<Rightarrow> (small_state, 'l, 'd) binding \<Rightarrow> (bool \<times> (small_state, 'l, 'd) binding) option" where
  "small_pcall g b =
     (let s = bi_lua b in
      case (at_index (- 2) s, at_index (- 1) s) of
        (VUser block, VStr route) \<Rightarrow>
          (case bi_blocks b block \<bind> (\<lambda>ducq. map_option (Pair ducq) (g ducq route)) of
             Some (ducq, v) \<Rightarrow>
               Some (True, b\<lparr>bi_lua := lv_push (VInt v) (lv_pop 3 (s\<lparr>sm_calls := sm_calls s @ [(ducq, route, nat v)]\<rparr>))\<rparr>)
           | None \<Rightarrow> Some (False, b\<lparr>bi_lua := lv_push (VStr ''failed'') (lv_pop 3 s)\<rparr>))
      | _ \<Rightarrow> Some (False, b\<lparr>bi_lua := lv_push (VStr ''no client'') (lv_pop 3 s)\<rparr>))"

definition small_lua :: "(nat \<Rightarrow> string \<Rightarrow> int option) \<Rightarrow> (small_state, 'l, 'd) lua_api" where
  "small_lua g =
     \<lparr>la_checkudata = (\<lambda>i m s. case at_index i s of
          VUser block \<Rightarrow> if sm_meta s block = Some m then Inr block else Inl ''bad userdata''
        | _ \<Rightarrow> Inl ''userdata expected''),
      la_checkinteger = (\<lambda>i s. case at_index i s of VInt n \<Rightarrow> Inr n | _ \<Rightarrow> Inl ''number expected''),
      la_checklstring = (\<lambda>i s. case at_index i s of VStr t \<Rightarrow> Inr (t, s) | _ \<Rightarrow> Inl ''string expected''),
      la_checktable = (\<lambda>i s. case at_index i s of VTable _ \<Rightarrow> None | _ \<Rightarrow> Some ''table expected''),
      la_touserdata = (\<lambda>i s. case (case i of At j \<Rightarrow> at_index j s | Registry \<Rightarrow> VNil | Upvalue _ \<Rightarrow> sm_upvalue s) of
          VUser block \<Rightarrow> block | VLight p \<Rightarrow> p | _ \<Rightarrow> 0),
      la_tostring = (\<lambda>i s. (case at_index i s of VStr t \<Rightarrow> Some t | VInt n \<Rightarrow> Some (dec_int n) | _ \<Rightarrow> None, s)),
      la_tonumberx = (\<lambda>i s. case at_index i s of VInt n \<Rightarrow> Some n | _ \<Rightarrow> None),
      la_isfunction = (\<lambda>i s. case at_index i s of VFun \<Rightarrow> True | VClosure _ \<Rightarrow> True | _ \<Rightarrow> False),
      la_pushinteger = (\<lambda>n. lv_push (VInt n)),
      la_pushboolean = (\<lambda>b. lv_push (VBool b)),
      la_pushstring = (\<lambda>t. lv_push (opt_str t)),
      la_pushlstring = (\<lambda>t. lv_push (VStr t)),
      la_pushfstring = (\<lambda>fmt args. lv_push (VStr (case map fmt_str args of [a, b, c] \<Rightarrow> a @ SP # b @ LF # c | _ \<Rightarrow> fmt))),
      la_pushvalue = (\<lambda>i s. lv_push (at_index i s) s),
      la_pushcclosure = (\<lambda>f n s. lv_push (VClosure f) (lv_pop n s)),
      la_pop = lv_pop,
      la_newuserdata = (\<lambda>s. (sm_fresh s, lv_push (VUser (sm_fresh s)) (s\<lparr>sm_fresh := sm_fresh s + 1\<rparr>))),
      la_createtable = (\<lambda>s. lv_push (VTable (length (lv_tables s)))
         (s\<lparr>lv_tables := lv_tables s @ [\<lparr>tb_fields = \<lambda>_. VNil, tb_meta = None\<rparr>]\<rparr>)),
      la_newmetatable = (\<lambda>name. lv_push (VMeta name)),
      la_getmetatable = (\<lambda>name. lv_push (VMeta name)),
      la_setmetatable = small_setmetatable,
      la_setfield = small_setfield,
      la_setfuncs = (\<lambda>fs s. s),
      la_newlib = (\<lambda>fs. lv_push VNil),
      la_error = (\<lambda>fmt args s. fmt),
      la_getfield = small_getfield,
      la_pcall = (\<lambda>k n. small_pcall g)\<rparr>"

definition small_start :: "lua_val list \<Rightarrow> small_state" where
  "small_start vs = \<lparr>lv_stack = vs, lv_tables = [], sm_meta = (\<lambda>_. None), sm_fresh = 100,
     sm_registry = (\<lambda>_. VNil), sm_upvalue = VNil, sm_calls = []\<rparr>"

definition plain_lua :: "(small_state, unit, unit) lua_api" where
  "plain_lua = small_lua (\<lambda>_ _. None)"

text \<open>A call of \<open>f\<close> with a client, or the reactor at the address 1, as the first argument.\<close>

definition small_binding :: "string \<Rightarrow> nat \<Rightarrow> lua_val list \<Rightarrow> ('l, 'd) reactor \<Rightarrow> (small_state, 'l, 'd) binding" where
  "small_binding metatable p args r =
     \<lparr>bi_lua = (small_start (VUser 50 # args))\<lparr>sm_meta := [50 \<mapsto> metatable]\<rparr>,
      bi_blocks = [50 \<mapsto> p], bi_its = (\<lambda>_. None), bi_next = 200, bi_self = 1, bi_reactor = r\<rparr>"

text \<open>The small Lua keeps the promises.\<close>

lemma at_index_last [simp]: "at_index (- 1) (s\<lparr>lv_stack := vs @ [v]\<rparr>) = v"
  by (simp add: at_index_def)

lemma at_index_stack:
  "lv_stack s = vs @ v # ws \<Longrightarrow> at_index (- 1 - int (length ws)) s = v"
  "lv_stack s = v # ws \<Longrightarrow> at_index 1 s = v"
  by (auto simp: at_index_def nth_append)

lemma at_index_two: "lv_stack s = vs @ [v, w] \<Longrightarrow> at_index (- 2) s = v \<and> at_index (- 1) s = w"
  using at_index_stack(1) [of s vs v "[w]"] at_index_stack(1) [of s "vs @ [v]" w "[]"] by simp

lemma truncate_simps [simp]:
  "lv_stack (lua_view.truncate s) = lv_stack s" "lv_tables (lua_view.truncate s) = lv_tables s"
  "lua_view.truncate (lv_push v s) = lv_push v (lua_view.truncate s)"
  by (simp_all add: lua_view.truncate_def lv_push_def)

lemma small_tables: "lua_tables (small_lua g) lua_view.truncate"
proof -
  have set: "lua_view.truncate (small_setfield (- 2) k s) =
      (lua_view.truncate s)\<lparr>lv_stack := vs @ [VTable t], lv_tables := (lv_tables s)
        [t := (lv_tables s ! t)\<lparr>tb_fields := (tb_fields (lv_tables s ! t))(k := v)\<rparr>]\<rparr>"
    if "lv_stack s = vs @ [VTable t, v]" for s vs t v k
    using at_index_two [OF that] that by (simp add: small_setfield_def lv_pop_def lua_view.truncate_def)
  have meta: "lua_view.truncate (small_setmetatable (- 2) s) =
      (lua_view.truncate s)\<lparr>lv_stack := vs @ [VTable t],
        lv_tables := (lv_tables s)[t := (lv_tables s ! t)\<lparr>tb_meta := Some name\<rparr>]\<rparr>"
    if "lv_stack s = vs @ [VTable t, VMeta name]" for s vs t name
    using at_index_two [OF that] that by (simp add: small_setmetatable_def lv_pop_def lua_view.truncate_def)
  have field: "small_getfield (At 1) k b =
      Some (None, b\<lparr>bi_lua := lv_push (tb_fields (lv_tables (bi_lua b) ! t) k) (bi_lua b)\<rparr>)"
    if "lv_stack (bi_lua b) = VTable t # vs" for b :: "(small_state, 'a, 'b) binding" and t vs k
    using at_index_stack(2) [OF that] by (simp add: small_getfield_def Let_def)
  show ?thesis
    unfolding lua_tables_def
    by (auto simp: small_lua_def set meta) (simp_all add: field, (rule exI, rule conjI [OF refl], simp add: lua_view.truncate_def lv_push_def)+)
qed

lemma small_values: "lua_values (small_lua g) lua_view.truncate"
  unfolding lua_values_def by (auto simp: small_lua_def at_index_stack fmt_str_def)

text \<open>What a callback finds on the stack.\<close>

lemma small_push_ducq:
  "ducq_push_ducq (small_lua g) p b = b\<lparr>bi_blocks := (bi_blocks b)(sm_fresh (bi_lua b) \<mapsto> p),
     bi_lua := lv_push (VUser (sm_fresh (bi_lua b))) ((bi_lua b)\<lparr>sm_fresh := sm_fresh (bi_lua b) + 1,
       sm_meta := (sm_meta (bi_lua b))(sm_fresh (bi_lua b) \<mapsto> DUCQ_METATABLE)\<rparr>)\<rparr>"
proof -
  have "small_setmetatable (- 2) (lv_push (VMeta m) (lv_push (VUser u) s)) = lv_push (VUser u) (s\<lparr>sm_meta := (sm_meta s)(u \<mapsto> m)\<rparr>)"
    for m u and s :: small_state
    using at_index_two [of "lv_push (VMeta m) (lv_push (VUser u) s)" "lv_stack s" "VUser u" "VMeta m"]
    by (simp add: small_setmetatable_def lv_pop_def lv_push_def)
  then show ?thesis
    by (simp add: ducq_push_ducq_def push_pointer_def small_lua_def)
qed

end
