(* ===== verification/Lua_Facts.thy ===== *)
theory Lua_Facts
  imports Lua_Manual Server_Invariant
begin

text \<open>
  What holds of the functions Lua code calls, whatever Lua does with them: errors come before effects, every
  script that ends without undefined behaviour leaves the table of connections in order, and so does a
  server that runs such scripts.  Then the functions one by one: what \<open>recv\<close> hands over, what \<open>close\<close> leaves
  behind, what \<open>loop\<close> removes, and how a message prints.
\<close>

section \<open>Every function keeps the table\<close>

lemma conn_heap [keeps_heap]: "ducq_conn p w = Some (st, w') \<Longrightarrow> same_heap w w'"
proof -
  have "vt_conn c s = Some (a, c', s') \<Longrightarrow> client_ok c \<Longrightarrow> client_ok c'" for c s a c' s'
    by (cases c) (auto simp: tcp_conn_def bind_Some_conv case_prod_beta split: if_split_asm)
  then show "ducq_conn p w = Some (st, w') \<Longrightarrow> ?thesis"
    unfolding ducq_conn_def by (elim deref_same_heap)
qed

lemma timeout_heap [keeps_heap]: "ducq_timeout p t w = Some (st, w') \<Longrightarrow> same_heap w w'"
proof -
  have "vt_timeout t c s = Some (a, c', s') \<Longrightarrow> client_ok c \<Longrightarrow> client_ok c'" for c s a c' s'
    by (cases c) (auto split: prod.split_asm)
  then show "ducq_timeout p t w = Some (st, w') \<Longrightarrow> ?thesis"
    unfolding ducq_timeout_def by (elim deref_same_heap)
qed

lemma close_heap [keeps_heap]: "ducq_close p w = Some (st, w') \<Longrightarrow> same_heap w w'"
  by (auto simp: ducq_close_def dest: deref_same_heap close_ok)

lemma on_client_table [keeps_table]:
  "on_client f b = Some (a, b') \<Longrightarrow> table_ok (bi_reactor b) \<Longrightarrow>
    (\<And>w'. f (re_world (bi_reactor b)) = Some (a, w') \<Longrightarrow> same_heap (re_world (bi_reactor b)) w') \<Longrightarrow> table_ok (bi_reactor b')"
  by (auto simp: on_client_def dest: on_world_table)

lemma binding_simps [simp]:
  "bi_reactor (on_lua f b) = bi_reactor b" "bi_reactor (push_state api st b) = bi_reactor b"
  "bi_reactor (push_pointer api m p b) = bi_reactor b" "bi_reactor (ducq_push_ducq api p b) = bi_reactor b"
  "bi_reactor (ducq_push_reactor api p b) = bi_reactor b"
  by (simp_all add: on_lua_def push_state_def push_pointer_def ducq_push_ducq_def ducq_push_reactor_def split: prod.splits)

lemma with_pointer_cases:
  assumes "with_pointer api i m f b = Some (x, b')"
  obtains e where "la_checkudata api i m (bi_lua b) = Inl e" "x = Inl e" "b' = b"
    | block p where "la_checkudata api i m (bi_lua b) = Inr block" "bi_blocks b block = Some p" "f p b = Some (x, b')"
  using assms by (auto simp: with_pointer_def raised_def bind_Some_conv split: sum.split_asm)

text \<open>What Lua code that runs inside a call (a callback, a metamethod) has to keep.\<close>

definition api_table :: "('s, 'l, 'd) lua_api \<Rightarrow> bool" where
  "api_table api \<longleftrightarrow>
     (\<forall>k n b ok b'. la_pcall api k n b = Some (ok, b') \<longrightarrow> table_ok (bi_reactor b) \<longrightarrow> table_ok (bi_reactor b')) \<and>
     (\<forall>k n b e b'. la_getfield api k n b = Some (e, b') \<longrightarrow> table_ok (bi_reactor b) \<longrightarrow> table_ok (bi_reactor b'))"

lemma callback_table: "api_table api \<Longrightarrow> table_fun (do_lua_callback api)"
proof
  fix p i x r c y r'
  assume api: "api_table api" and run: "do_lua_callback api p i x r = Some (c, y, r')" and ok: "table_ok r"
  obtain route ret b where b: "la_pcall api 2 1 (on_lua (la_pushstring api (Some route))
        (ducq_push_ducq api p (on_lua (la_pushvalue api (- 1)) ((fst x)\<lparr>bi_reactor := r\<rparr>)))) = Some (ret, b)" "r' = bi_reactor b"
    using run by (auto simp: do_lua_callback_def Let_def case_prod_beta bind_Some_conv split: if_split_asm option.split_asm)
  then show "table_ok r'"
    using api ok unfolding api_table_def by (fastforce dest: spec)
qed

lemma iterator_free_reactor [simp]: "ducq_client_it_free it b = Some b' \<Longrightarrow> bi_reactor b' = bi_reactor b"
  by (auto simp: ducq_client_it_free_def bind_Some_conv split: if_splits)

lemma method_table:
  assumes "lua_call api f b = Some (x, b')" and "f \<notin> {C_clients, C_loop, C_msg_tostring, C_clients_iteration}"
    and "table_ok (bi_reactor b)"
  shows "table_ok (bi_reactor b')"
  using assms
  by (cases f)
    (auto simp: lua_call_def lua_conn_def lua_id_def lua_eq_def lua_timeout_def lua_recv_def lua_send_def lua_close_def
      lua_sendack_def lua_iterator_gc_def raised_def bind_Some_conv case_prod_beta
      elim!: with_pointer_cases split: sum.split_asm if_split_asm dest!: on_client_table dest: keeps_heap)

lemma call_table:
  assumes "lua_call api f b = Some (x, b')" and api: "api_table api" and ok: "table_ok (bi_reactor b)"
  shows "table_ok (bi_reactor b')"
proof -
  note fields = api [unfolded api_table_def, THEN conjunct2, rule_format]
  consider "f \<notin> {C_clients, C_loop, C_msg_tostring, C_clients_iteration}" | "f = C_clients_iteration"
    | "f = C_clients" | "f = C_msg_tostring" | "f = C_loop"
    by blast
  then show ?thesis
  proof cases
    case 1
    then show ?thesis
      using method_table assms(1) ok by blast
  next
    case 2
    then show ?thesis
      using assms(1) ok by (auto simp: lua_call_def lua_clients_iteration_def bind_Some_conv Let_def case_prod_beta split: option.split_asm)
  next
    case 3
    then show ?thesis
      using assms(1) ok
      by (auto simp: lua_call_def lua_clients_def raised_def bind_Some_conv Let_def case_prod_beta ducq_new_client_it_def
          split: option.split_asm if_split_asm dest!: fields)
  next
    case 4
    then show ?thesis
      using assms(1) ok
      by (auto simp: lua_call_def lua_msg_tostring_def raised_def bind_Some_conv Let_def case_prod_beta
          split: option.split_asm dest!: fields)
  next
    case 5
    then show ?thesis
      using assms(1) ok table_fun.reactor_loop_table [OF callback_table [OF api]]
      by (auto simp: lua_call_def lua_loop_def raised_def bind_Some_conv Let_def case_prod_beta
          elim!: with_pointer_cases split: option.split_asm if_split_asm)
  qed
qed

section \<open>Scripts\<close>

text \<open>A run of Lua code: it computes, calls the functions above with any arguments, and these call back.
  Between the calls the code may do anything but touch the reactor; the library of Lua may use the
  operating system.\<close>

inductive lua_run :: "('s, 'l, 'd) lua_api \<Rightarrow> ('s, 'l, 'd) binding \<Rightarrow> ('s, 'l, 'd) binding \<Rightarrow> bool" for api where
  run_start: "lua_run api b b"
| run_code: "lua_run api b c \<Longrightarrow>
    bi_reactor c' = (bi_reactor c)\<lparr>re_world := (re_world (bi_reactor c))\<lparr>w_os := s\<rparr>\<rparr> \<Longrightarrow> lua_run api b c'"
| run_call: "lua_run api b c \<Longrightarrow>
    \<forall>k n d ok d'. pcall k n d = Some (ok, d') \<longrightarrow> lua_run api d d' \<Longrightarrow>
    \<forall>k n d e d'. getfield k n d = Some (e, d') \<longrightarrow> lua_run api d d' \<Longrightarrow>
    lua_call (api\<lparr>la_pcall := pcall, la_getfield := getfield\<rparr>) f c = Some (x, c') \<Longrightarrow> lua_run api b c'"

lemma run_table: "lua_run api b b' \<Longrightarrow> table_ok (bi_reactor b) \<Longrightarrow> table_ok (bi_reactor b')"
proof (induction rule: lua_run.induct)
  case (run_call b c pcall getfield f x c')
  have "api_table (api\<lparr>la_pcall := pcall, la_getfield := getfield\<rparr>)"
    using run_call.IH(2,3) by (auto simp: api_table_def)
  then show ?case
    using call_table [OF run_call.hyps(2)] run_call.IH(1) run_call.prems by blast
qed auto

text \<open>The Lua files and the Lua commands of a server are such runs.\<close>

definition lua_by_binding :: "('s, 'l, 't dispatcher) lua_api \<Rightarrow> ('l, 't) disp_env \<Rightarrow> bool" where
  "lua_by_binding api env \<longleftrightarrow>
     (\<forall>path r e r'. de_lua_file env path r = Some (e, r') \<longrightarrow>
       (\<exists>b b'. lua_run api b b' \<and> bi_reactor b = r \<and> bi_reactor b' = r')) \<and>
     (\<forall>name p msg r x r'. de_lua_call env name p msg r = Some (x, r') \<longrightarrow>
       (\<exists>b b'. lua_run api b b' \<and> bi_reactor b = r \<and> bi_reactor b' = r'))"

lemma binding_lua_table: "lua_by_binding api env \<Longrightarrow> lua_table env"
  unfolding lua_by_binding_def lua_table_def using run_table by metis

section \<open>Errors come before effects\<close>

text \<open>Reading the registry runs no code: it has no metatable.\<close>

definition registry_plain :: "('s, 'l, 'd) lua_api \<Rightarrow> bool" where
  "registry_plain api \<longleftrightarrow>
     (\<forall>name b e b'. la_getfield api Registry name b = Some (e, b') \<longrightarrow>
       bi_reactor b' = bi_reactor b \<and> bi_next b' = bi_next b)"

lemma clients_error:
  assumes run: "lua_clients api b = Some (Inl e, b')" and "bi_next b \<noteq> 0" and plain: "registry_plain api"
  shows "bi_reactor b' = bi_reactor b"
proof -
  obtain e0 c where c: "la_getfield api Registry ''reactor'' b = Some (e0, c)"
    using run by (auto simp: lua_clients_def bind_Some_conv)
  then have same: "bi_reactor c = bi_reactor b" "bi_next c \<noteq> 0"
    using plain assms(2) by (auto simp: registry_plain_def)
  show ?thesis
  proof (cases "e0 = None \<and> la_touserdata api (At (- 1)) (bi_lua c) \<noteq> 0")
    case True
    then show ?thesis
      using run c same by (auto simp: lua_clients_def Let_def case_prod_beta raised_def bind_Some_conv split: if_split_asm)
  next
    case False
    then show ?thesis
      using run c same by (cases e0) (auto simp: lua_clients_def raised_def)
  qed
qed

lemma error_no_effect:
  assumes "lua_call api f b = Some (Inl e, b')" and "f \<noteq> C_loop" and "f \<noteq> C_msg_tostring"
    and "bi_next b \<noteq> 0" and "registry_plain api"
  shows "bi_reactor b' = bi_reactor b"
proof (cases "f = C_clients")
  case True
  then show ?thesis
    using assms clients_error by (simp add: lua_call_def)
next
  case False
  then show ?thesis
    using assms(1-3)
    by (cases f)
      (auto simp: lua_call_def lua_conn_def lua_id_def lua_eq_def lua_timeout_def lua_recv_def lua_send_def lua_close_def
        lua_sendack_def lua_iterator_gc_def lua_clients_iteration_def raised_def
        bind_Some_conv case_prod_beta Let_def elim!: with_pointer_cases split: sum.split_asm if_split_asm option.split_asm)
qed

lemma first_argument:
  assumes "f \<in> snd ` set ducq_m" and "f \<noteq> C_clients" and "la_checkudata api 1 DUCQ_METATABLE (bi_lua b) = Inl e"
  shows "lua_call api f b = Some (Inl e, b)"
  using assms
  by (auto simp: ducq_m_def lua_call_def lua_conn_def lua_id_def lua_eq_def lua_timeout_def lua_recv_def lua_send_def
      lua_close_def lua_sendack_def with_pointer_def raised_def)

text \<open>The other functions that check an argument: an error, and nothing done.\<close>

lemma loop_argument:
  assumes "lua_call api C_loop b = Some (x, b')" and "la_checkudata api 1 DUCQ_REACTOR_METATABLE (bi_lua b) = Inl e"
  shows "x = Inl e \<and> b' = b"
  using assms by (auto simp: lua_call_def lua_loop_def with_pointer_def raised_def)

lemma tostring_argument:
  assumes "lua_call api C_msg_tostring b = Some (x, b')" and "la_checktable api 1 (bi_lua b) = Some e"
  shows "x = Inl e \<and> b' = b"
  using assms by (auto simp: lua_call_def lua_msg_tostring_def raised_def)

text \<open>\<open>clients\<close> does not look at its argument.\<close>

lemma clients_any_argument: "lua_call (api\<lparr>la_checkudata := chk\<rparr>) C_clients b = lua_call api C_clients b"
  by (simp add: lua_call_def lua_clients_def luaL_error_def Let_def case_prod_beta cong: option.case_cong if_cong)

text \<open>C12: Every method of a client but \<open>clients\<close>, the method \<open>loop\<close> of the reactor and the printing of a message check
  their first argument: when it is of another kind they raise the error of the check and have done nothing at all.
  \<open>clients\<close> never looks at it.  And a function that raises any error has left the server as it was, except for
  \<open>loop\<close>, which may have called back and removed clients before, and the printing of a message, where reading a field
  may run other Lua code.\<close>

theorem lua_errors_first:
  assumes "lua_call api f b = Some (x, b')" and "bi_next b \<noteq> 0" and "registry_plain api"
  shows "(f \<in> snd ` set ducq_m - {C_clients} \<and> la_checkudata api 1 DUCQ_METATABLE (bi_lua b) = Inl e \<longrightarrow> x = Inl e \<and> b' = b) \<and>
    (f = C_loop \<and> la_checkudata api 1 DUCQ_REACTOR_METATABLE (bi_lua b) = Inl e \<longrightarrow> x = Inl e \<and> b' = b) \<and>
    (f = C_msg_tostring \<and> la_checktable api 1 (bi_lua b) = Some e \<longrightarrow> x = Inl e \<and> b' = b) \<and>
    (\<forall>chk. lua_call (api\<lparr>la_checkudata := chk\<rparr>) C_clients b = lua_call api C_clients b) \<and>
    (f \<noteq> C_loop \<and> f \<noteq> C_msg_tostring \<longrightarrow> (\<forall>e. x = Inl e \<longrightarrow> bi_reactor b' = bi_reactor b))"
proof (intro conjI impI allI)
  assume "f \<in> snd ` set ducq_m - {C_clients} \<and> la_checkudata api 1 DUCQ_METATABLE (bi_lua b) = Inl e"
  then show "x = Inl e" and "b' = b"
    using first_argument [of f api b e] assms(1) by auto
next
  assume "f = C_loop \<and> la_checkudata api 1 DUCQ_REACTOR_METATABLE (bi_lua b) = Inl e"
  then show "x = Inl e" and "b' = b"
    using loop_argument [of api b x b' e] assms(1) by auto
next
  assume "f = C_msg_tostring \<and> la_checktable api 1 (bi_lua b) = Some e"
  then show "x = Inl e" and "b' = b"
    using tostring_argument [of api b x b' e] assms(1) by auto
next
  fix e
  assume "f \<noteq> C_loop \<and> f \<noteq> C_msg_tostring" and "x = Inl e"
  then show "bi_reactor b' = bi_reactor b"
    using error_no_effect [of api f b e b'] assms by simp
qed (rule clients_any_argument)

section \<open>Messages\<close>

text \<open>\<open>holds vs t fs s\<close>: the table \<open>t\<close> is on top of the stack, without a metatable yet.\<close>

definition holds :: "lua_val list \<Rightarrow> nat \<Rightarrow> (string \<Rightarrow> lua_val) \<Rightarrow> lua_view \<Rightarrow> bool" where
  "holds vs t fs s \<longleftrightarrow> lv_stack s = vs @ [VTable t] \<and> t < length (lv_tables s) \<and>
     lv_tables s ! t = \<lparr>tb_fields = fs, tb_meta = None\<rparr>"

lemma set_string:
  assumes "lua_tables api view" and "lua_values api view" and "holds vs t fs (view s)"
  shows "holds vs t (fs(k := opt_str x)) (view (la_setfield api (- 2) k (la_pushstring api x s)))"
proof -
  note h = assms(3) [unfolded holds_def]
  have v: "view (la_pushstring api x s) = lv_push (opt_str x) (view s)"
    using assms(2) unfolding lua_values_def by blast
  have st: "lv_stack (view (la_pushstring api x s)) = vs @ [VTable t, opt_str x]"
      "t < length (lv_tables (view (la_pushstring api x s)))"
      "tb_meta (lv_tables (view (la_pushstring api x s)) ! t) = None"
    using h by (simp_all add: v)
  note law = assms(1) [unfolded lua_tables_def, THEN conjunct2, THEN conjunct1, rule_format, OF st, of k]
  show ?thesis
    unfolding holds_def law using h by (simp add: v)
qed

lemma push_msg_table:
  fixes view :: "'s \<Rightarrow> lua_view" and s :: 's and msg :: ducq_msg
  assumes laws: "lua_tables api view" "lua_values api view"
  defines "t \<equiv> length (lv_tables (view s))" and "s' \<equiv> ducq_push_msg api msg s"
  shows "lv_stack (view s') = lv_stack (view s) @ [VTable t] \<and> t < length (lv_tables (view s')) \<and>
    tb_fields (lv_tables (view s') ! t) = (\<lambda>_. VNil)(''command'' := opt_str (msg_command msg),
      ''route'' := opt_str (msg_route msg), ''payload'' := opt_str (msg_payload msg)) \<and>
    tb_meta (lv_tables (view s') ! t) = Some DUCQ_MSG_METATABLE"
proof -
  let ?vs = "lv_stack (view s)"
  define s1 where "s1 = la_createtable api s"
  define s2 where "s2 = la_setfield api (- 2) ''command'' (la_pushstring api (msg_command msg) s1)"
  define s3 where "s3 = la_setfield api (- 2) ''route'' (la_pushstring api (msg_route msg) s2)"
  define s4 where "s4 = la_setfield api (- 2) ''payload'' (la_pushstring api (msg_payload msg) s3)"
  define s5 where "s5 = la_getmetatable api DUCQ_MSG_METATABLE s4"
  let ?f = "(\<lambda>_. VNil)(''command'' := opt_str (msg_command msg), ''route'' := opt_str (msg_route msg),
      ''payload'' := opt_str (msg_payload msg))"
  have "holds ?vs t (\<lambda>_. VNil) (view s1)"
    using laws(1) by (simp add: lua_tables_def holds_def s1_def t_def)
  then have "holds ?vs t ?f (view s4)"
    unfolding s4_def s3_def s2_def by (intro set_string [OF laws])
  then have s4: "lv_stack (view s4) = ?vs @ [VTable t]" "t < length (lv_tables (view s4))"
      "tb_fields (lv_tables (view s4) ! t) = ?f"
    by (simp_all add: holds_def)
  have s5: "view s5 = lv_push (VMeta DUCQ_MSG_METATABLE) (view s4)"
    using laws(2) unfolding lua_values_def s5_def by blast
  have "lv_stack (view s5) = ?vs @ [VTable t, VMeta DUCQ_MSG_METATABLE]" "t < length (lv_tables (view s5))"
    using s4 by (simp_all add: s5)
  note law = laws(1) [unfolded lua_tables_def, THEN conjunct2, THEN conjunct2, THEN conjunct1, rule_format, OF this]
  have "s' = la_setmetatable api (- 2) s5"
    by (simp add: s'_def ducq_push_msg_def s1_def s2_def s3_def s4_def s5_def Let_def)
  then show ?thesis
    using s4 by (simp add: law s5)
qed

lemma get_field:
  assumes "lua_tables api view" and "lv_stack (view (bi_lua b)) = VTable t # vs" and "t < length (lv_tables (view (bi_lua b)))"
    and "tb_fields (lv_tables (view (bi_lua b)) ! t) k = opt_str x"
    and "tb_meta (lv_tables (view (bi_lua b)) ! t) = Some DUCQ_MSG_METATABLE" and "k \<in> {''command'', ''route'', ''payload''}"
  shows "\<exists>s. la_getfield api (At 1) k b = Some (None, b\<lparr>bi_lua := s\<rparr>) \<and> view s = lv_push (opt_str x) (view (bi_lua b))"
proof -
  note law = assms(1) [unfolded lua_tables_def, THEN conjunct2, THEN conjunct2, THEN conjunct2]
  show ?thesis
  proof (cases x)
    case None
    then show ?thesis
      using law [THEN conjunct2, rule_format, OF assms(2,3) _ assms(5,6)] assms(4) by (simp add: opt_str_def)
  next
    case (Some a)
    then show ?thesis
      using law [THEN conjunct1, rule_format, OF assms(2,3), of k] assms(4) by (simp add: opt_str_def)
  qed
qed

lemma tostring_run:
  assumes laws: "lua_tables api view" "lua_values api view"
    and b: "lv_stack (view (bi_lua b)) = [VTable t]" "t < length (lv_tables (view (bi_lua b)))"
      "tb_fields (lv_tables (view (bi_lua b)) ! t) ''command'' = opt_str c"
      "tb_fields (lv_tables (view (bi_lua b)) ! t) ''route'' = opt_str x"
      "tb_fields (lv_tables (view (bi_lua b)) ! t) ''payload'' = opt_str p"
    and m: "tb_meta (lv_tables (view (bi_lua b)) ! t) = Some DUCQ_MSG_METATABLE"
  shows "\<exists>s. lua_msg_tostring api b = Some (Inr 1, b\<lparr>bi_lua := s\<rparr>) \<and>
    at_index (- 1) (view s) = VStr (message_text (fmt_str c) (fmt_str x) (fmt_str p))"
proof -
  obtain s1 where s1: "la_getfield api (At 1) ''command'' b = Some (None, b\<lparr>bi_lua := s1\<rparr>)"
      "view s1 = lv_push (opt_str c) (view (bi_lua b))"
    using get_field [OF laws(1) b(1-3) m] by blast
  let ?b = "\<lambda>s. b\<lparr>bi_lua := s\<rparr>"
  have "lv_stack (view (bi_lua (?b s1))) = VTable t # [opt_str c]" "t < length (lv_tables (view (bi_lua (?b s1))))"
      "tb_fields (lv_tables (view (bi_lua (?b s1))) ! t) ''route'' = opt_str x"
      "tb_meta (lv_tables (view (bi_lua (?b s1))) ! t) = Some DUCQ_MSG_METATABLE"
    using b m by (simp_all add: s1)
  from get_field [OF laws(1) this] obtain s2 where s2: "la_getfield api (At 1) ''route'' (?b s1) = Some (None, ?b s2)"
      "view s2 = lv_push (opt_str x) (view s1)"
    by auto
  have "lv_stack (view (bi_lua (?b s2))) = VTable t # [opt_str c, opt_str x]" "t < length (lv_tables (view (bi_lua (?b s2))))"
      "tb_fields (lv_tables (view (bi_lua (?b s2))) ! t) ''payload'' = opt_str p"
      "tb_meta (lv_tables (view (bi_lua (?b s2))) ! t) = Some DUCQ_MSG_METATABLE"
    using b m by (simp_all add: s1 s2)
  from get_field [OF laws(1) this] obtain s3 where s3: "la_getfield api (At 1) ''payload'' (?b s2) = Some (None, ?b s3)"
      "view s3 = lv_push (opt_str p) (view s2)"
    by auto
  have st: "lv_stack (view s3) = [VTable t, opt_str c, opt_str x, opt_str p]"
    using b(1) by (simp add: s1(2) s2(2) s3(2))
  have str: "la_tostring api (- 1 - int (length ws)) s3 = (y, s3)" if "lv_stack (view s3) = vs @ opt_str y # ws" for vs y ws
    using laws(2) that unfolding lua_values_def opt_str_def by (cases y) auto
  have t3: "la_tostring api (- 3) s3 = (c, s3)" "la_tostring api (- 2) s3 = (x, s3)" "la_tostring api (- 1) s3 = (p, s3)"
    using str [of "[VTable t]" c "[opt_str x, opt_str p]"] str [of "[VTable t, opt_str c]" x "[opt_str p]"]
      str [of "[VTable t, opt_str c, opt_str x]" p "[]"] st by simp_all
  have chk: "la_checktable api 1 (bi_lua b) = None"
    using laws(2) b(1) unfolding lua_values_def by blast
  have fin: "view (la_pushfstring api (''%s %s'' @ LF # ''%s'') [c, x, p] s3) =
      lv_push (VStr (fmt_str c @ SP # fmt_str x @ LF # fmt_str p)) (view s3)"
    using laws(2) unfolding lua_values_def by blast
  have "lua_msg_tostring api b = Some (Inr 1, ?b (la_pushfstring api (''%s %s'' @ LF # ''%s'') [c, x, p] s3))"
    by (simp add: lua_msg_tostring_def chk s1(1) s2(1) s3(1) t3 del: append.simps)
  then show ?thesis
    using fin by (auto simp: message_text_def lv_push_def)
qed

text \<open>C24: A message with a route that is given to Lua prints as the text it came as when it has a payload; when it has
  none, the string ends with "(null)" in its place.\<close>

theorem lua_msg_roundtrip:
  assumes "lua_tables api view" and "lua_values api view" and "parts_ok c x" and "x \<noteq> []"
    and "lv_stack (view (bi_lua b)) = []"
  shows "\<exists>s. lua_msg_tostring api (on_lua (ducq_push_msg api (ducq_parse_msg (message_text c x p))) b) =
      Some (Inr 1, b\<lparr>bi_lua := s\<rparr>) \<and>
    at_index (- 1) (view s) = VStr (if p = [] then message_text c x ''(null)'' else message_text c x p)"
proof -
  let ?p = "if p = [] then None else Some p"
  have msg: "ducq_parse_msg (message_text c x p) = \<lparr>msg_command = Some c, msg_route = Some x, msg_payload = ?p\<rparr>"
    using parse_msg_text [of c x p] assms(3,4) by simp
  let ?b = "on_lua (ducq_push_msg api (ducq_parse_msg (message_text c x p))) b"
  note push = push_msg_table [OF assms(1,2), where s = "bi_lua b" and msg = "ducq_parse_msg (message_text c x p)", unfolded msg]
  have up: "?b\<lparr>bi_lua := s\<rparr> = b\<lparr>bi_lua := s\<rparr>" for s
    by (simp add: on_lua_def)
  show ?thesis
    using tostring_run [OF assms(1,2), of ?b "length (lv_tables (view (bi_lua b)))" "Some c" "Some x" ?p] push assms(5)
    unfolding up by (simp add: on_lua_def msg fmt_str_def split: if_splits)
qed

definition demo_frame :: "(small_state, unit, unit) binding" where
  "demo_frame = (small_binding DUCQ_METATABLE 9 [] (demo ''a'' ''b''))\<lparr>bi_lua := small_start []\<rparr>"

theorem lua_msg_roundtrip_witness:
  "\<exists>s. lua_msg_tostring plain_lua (on_lua (ducq_push_msg plain_lua (ducq_parse_msg (message_text ''pub'' ''a'' ''hi''))) demo_frame) =
      Some (Inr 1, demo_frame\<lparr>bi_lua := s\<rparr>) \<and>
    at_index (- 1) (lua_view.truncate s) = VStr (message_text ''pub'' ''a'' ''hi'')"
  using lua_msg_roundtrip [OF small_tables small_values, of "''pub''" "''a''" demo_frame _ "''hi''"]
  unfolding plain_lua_def by (simp add: parts_ok_def demo_frame_def small_start_def)

lemma demo_registry: "registry_plain plain_lua"
  by (auto simp: registry_plain_def plain_lua_def small_lua_def small_getfield_def Let_def)

theorem lua_errors_first_witness:
  "lua_call plain_lua C_send (demo_frame\<lparr>bi_lua := small_start [VStr ''hi'']\<rparr>) =
    Some (Inl ''userdata expected'', demo_frame\<lparr>bi_lua := small_start [VStr ''hi'']\<rparr>)"
proof -
  let ?b = "demo_frame\<lparr>bi_lua := small_start [VStr ''hi'']\<rparr>"
  have chk: "la_checkudata plain_lua 1 DUCQ_METATABLE (bi_lua ?b) = Inl ''userdata expected''"
    by (simp add: plain_lua_def small_lua_def at_index_def small_start_def)
  obtain x where x: "lua_call plain_lua C_send ?b = Some (x, ?b)"
    using chk by (simp add: lua_call_def lua_send_def with_pointer_def raised_def)
  have "bi_next ?b \<noteq> 0"
    by (simp add: demo_frame_def small_binding_def)
  from lua_errors_first [OF x this demo_registry, of "''userdata expected''"] show ?thesis
    using x chk by (simp add: ducq_m_def image_def)
qed

section \<open>A server with Lua\<close>

text \<open>C3: a server that runs the commands of the repository and any Lua files and Lua commands, which call
  the functions of \<open>ducq_lua.c\<close> as they like, from its construction on, through any number of turns of the
  main loop, with any messages from its clients and any behaviour of the network: every live slot holds
  a client that is allocated, and no client is in two of them.\<close>

theorem lua_server_keeps_table:
  assumes "served denv env r" and "range (de_exec denv) \<subseteq> set (shipped lt)" and "lua_by_binding api denv"
    and "env_dispatch env = ducq_dispatch denv" and "accept_table env"
  shows "(\<forall>i p. live i p r \<longrightarrow> p \<noteq> 0 \<and> w_heap (re_world r) p \<noteq> None) \<and>
    (\<forall>i j p. live i p r \<and> live j p r \<longrightarrow> i = j)"
proof -
  have env: "env_table denv"
    using assms(2) binding_lua_table [OF assms(3)] shipped_table by (fastforce simp: env_table_def)
  then have "table_ok r"
    using served_table [OF assms(1)] dispatch_table [OF env] assms(4,5) by (simp add: loop_env_table_def)
  then show ?thesis
    using table_okD(2,3) table_unique by blast
qed

text \<open>A server whose Lua commands acknowledge the client they are called for, and with it a client.\<close>

definition acking_env :: "(unit, nat) disp_env" where
  "acking_env = demo_served_env\<lparr>de_lua_call := (\<lambda>name p msg r.
     map_option (\<lambda>(x, b). (LuaState DUCQ_OK, bi_reactor b))
       (lua_call (small_lua (\<lambda>_ _. None)) C_sendack (small_binding DUCQ_METATABLE p [] r)))\<rparr>"

definition acking_loop :: "(unit, nat dispatcher) loop_env" where
  "acking_loop = demo_served_loop\<lparr>env_dispatch := ducq_dispatch acking_env\<rparr>"

definition acking_accepted :: "(unit, nat) server option" where
  "acking_accepted = do {
     r \<leftarrow> demo_new;
     r \<leftarrow> r;
     (_, r) \<leftarrow> ducq_loop_turn acking_loop [] (snd (ducq_reactor_add_server 3 1 0 r));
     Some r
   }"

lemma acking_accepted:
  "map_option (\<lambda>r. (conn_fd (re_conns r ! 2), conn_client (re_conns r ! 2))) acking_accepted = Some (7, Some 9)"
  by code_simp

lemma acking_binding:
  "lua_by_binding (small_lua (\<lambda>_ _. None) :: (small_state, unit, nat dispatcher) lua_api) acking_env"
proof -
  let ?api = "small_lua (\<lambda>_ _. None) :: (small_state, unit, nat dispatcher) lua_api"
  have "lua_run ?api b b'" if "lua_call ?api C_sendack b = Some (x, b')" for b x b'
  proof (rule run_call [where f = C_sendack])
    show "lua_run ?api b b"
      by (rule run_start)
    show "lua_call (?api\<lparr>la_pcall := (\<lambda>_ _ _. None), la_getfield := (\<lambda>_ _ _. None)\<rparr>) C_sendack b = Some (x, b')"
      using that by (simp add: lua_call_def lua_sendack_def with_pointer_def push_state_def)
  qed simp_all
  moreover have "bi_reactor (small_binding DUCQ_METATABLE p [] r :: (small_state, unit, nat dispatcher) binding) = r" for p r
    by (simp add: small_binding_def)
  ultimately show ?thesis
    unfolding lua_by_binding_def
    by (auto simp: acking_env_def demo_served_env_def demo_env_def) (metis run_start, metis)
qed

theorem lua_server_keeps_table_witness:
  "\<exists>r. served acking_env acking_loop r \<and> live 2 9 r \<and> w_heap (re_world r) 9 \<noteq> None \<and> \<not> live 1 9 r"
proof -
  obtain r where r: "acking_accepted = Some r" "conn_fd (re_conns r ! 2) = 7" "conn_client (re_conns r ! 2) = Some 9"
    using acking_accepted by (cases acking_accepted) auto
  obtain r0 b where s: "demo_new = Some (Some r0)" "ducq_loop_turn acking_loop [] (snd (ducq_reactor_add_server 3 1 0 r0)) = Some (b, r)"
    using r(1) by (auto simp: acking_accepted_def bind_Some_conv)
  have lua: "make_lua acking_env = make_lua demo_served_env"
    by (simp add: fun_eq_iff make_lua_def acking_env_def)
  have "ducq_dispatcher_new acking_env 4 = ducq_dispatcher_new demo_served_env 4"
    unfolding fun_eq_iff ducq_dispatcher_new_def lua by simp
  then have "served acking_env acking_loop r0"
    using s(1) served_new [of "\<lparr>w_os = quiet_os, w_heap = Map.empty\<rparr>" True acking_env 4 "[]" "()" None r0 acking_loop]
    by (simp add: demo_new_def)
  then have "served acking_env acking_loop (snd (ducq_reactor_add_server 3 1 0 r0))"
    by (rule served_listen [OF _ prod.collapse [symmetric]])
  then have sv: "served acking_env acking_loop r"
    using s(2) by (rule served_turn)
  have live: "live 2 9 r"
    using r(2,3) by (simp add: live_def)
  have "(\<forall>i p. live i p r \<longrightarrow> p \<noteq> 0 \<and> w_heap (re_world r) p \<noteq> None) \<and> (\<forall>i j p. live i p r \<and> live j p r \<longrightarrow> i = j)"
  proof (rule lua_server_keeps_table [OF sv _ acking_binding])
    show "range (de_exec acking_env) \<subseteq> set (shipped (\<lambda>t. \<lparr>tm_year = 70, tm_mon = 0, tm_mday = 1, tm_hour = 0, tm_min = 0, tm_sec = 0\<rparr>))"
      by (auto simp: acking_env_def demo_served_env_def shipped_def)
    show "env_dispatch acking_loop = ducq_dispatch acking_env"
      by (simp add: acking_loop_def)
    show "accept_table acking_loop"
      using demo_accept_table by (simp add: accept_table_def acking_loop_def)
  qed
  then show ?thesis
    using sv live by (metis numeral_eq_one_iff semiring_norm(85))
qed

end
