(* ===== verification/Lua_Clients.thy ===== *)
theory Lua_Clients
  imports Lua_Facts
begin

text \<open>
  The Lua functions that work on connections: what \<open>recv\<close> hands over and where it reads too far, what \<open>close\<close>
  leaves behind, and which clients \<open>loop\<close> visits and removes.
\<close>

section \<open>The loop\<close>

text \<open>\<open>called api ducq route r b\<close>: the state in which the function is called with a client and a route.\<close>

definition called :: "('s, 'l, 'd) lua_api \<Rightarrow> nat \<Rightarrow> string \<Rightarrow> ('l, 'd) reactor \<Rightarrow> ('s, 'l, 'd) binding \<Rightarrow> ('s, 'l, 'd) binding" where
  "called api ducq route r b = on_lua (la_pushstring api (Some route))
     (ducq_push_ducq api ducq (on_lua (la_pushvalue api (- 1)) (b\<lparr>bi_reactor := r\<rparr>)))"

text \<open>\<open>callback api ready calls may\<close>: in a state that is ready, the function on top of the stack answers a number for the
  client and the route that \<open>may\<close> allows, or raises an error where that is None, and leaves the server alone.  What it
  answers may depend on everything in the Lua state.  \<open>calls\<close> reads off the state what it has been called with so far
  and what it has answered.\<close>

definition callback ::
  "('s, 'l, 'd) lua_api \<Rightarrow> (('s, 'l, 'd) binding \<Rightarrow> bool) \<Rightarrow> ('s \<Rightarrow> (nat \<times> string \<times> nat) list) \<Rightarrow>
    (nat \<Rightarrow> string \<Rightarrow> nat option \<Rightarrow> bool) \<Rightarrow> bool" where
  "callback api ready calls may \<longleftrightarrow> (\<forall>k s. calls (la_pushinteger api k s) = calls s) \<and>
     (\<forall>b r ducq route. ready b \<longrightarrow>
       (\<exists>v ok b'. may ducq route v \<and> la_pcall api 2 1 (called api ducq route r b) = Some (ok, b') \<and> bi_reactor b' = r \<and>
         (case v of
            None \<Rightarrow> \<not> ok
          | Some n \<Rightarrow> ok \<and> la_tonumberx api (- 1) (bi_lua b') = Some (int n) \<and> ready (on_lua (la_pop api 1) b') \<and>
              calls (la_pop api 1 (bi_lua b')) = calls (bi_lua b) @ [(ducq, route, n)])))"

lemma callback_runs:
  assumes "callback api ready calls may" and "ready b" and "route_at i r = Some t"
  shows "(\<exists>n b'. may p t (Some n) \<and>
      (n < 2 ^ 32 \<longrightarrow> do_lua_callback api p i (b, None) r = Some (n, (b', None), r) \<and> ready b' \<and>
        calls (bi_lua b') = calls (bi_lua b) @ [(p, t, n)])) \<or>
    (\<exists>b' e. may p t None \<and> do_lua_callback api p i (b, None) r = Some (DUCQ_LOOP_BREAK, (b', Some e), r))"
proof -
  obtain v ok c where c: "may p t v" "la_pcall api 2 1 (called api p t r b) = Some (ok, c)" "bi_reactor c = r"
      "case v of None \<Rightarrow> \<not> ok
       | Some n \<Rightarrow> ok \<and> la_tonumberx api (- 1) (bi_lua c) = Some (int n) \<and> ready (on_lua (la_pop api 1) c) \<and>
           calls (la_pop api 1 (bi_lua c)) = calls (bi_lua b) @ [(p, t, n)]"
    using assms(1) [unfolded callback_def, THEN conjunct2, rule_format, OF assms(2), of p t r] by blast
  show ?thesis
  proof (cases v)
    case None
    then show ?thesis
      using c assms(3) by (simp add: do_lua_callback_def case_prod_beta Let_def flip: called_def)
  next
    case (Some n)
    have "do_lua_callback api p i (b, None) r = Some (n, (on_lua (la_pop api 1) c, None), r)" if "n < 2 ^ 32"
    proof -
      have "int n < int (2 ^ 32)"
        using that by (simp only: of_nat_less_iff)
      then show ?thesis
        using c Some assms(3) by (simp add: do_lua_callback_def Let_def flip: called_def)
    qed
    then show ?thesis
      using c Some by (intro disjI1 exI [of _ n] exI [of _ "on_lua (la_pop api 1) c"]) (simp add: on_lua_def)
  qed
qed

text \<open>The clients of some slots, in their order: slot, client and route.\<close>

definition slot_clients :: "nat list \<Rightarrow> ('l, 'd) reactor \<Rightarrow> (nat \<times> nat \<times> string) list" where
  "slot_clients is r =
     map (\<lambda>j. (j, the (conn_client (re_conns r ! j)), the (route_at j r))) (filter (\<lambda>j. \<exists>p. live j p r) is)"

lemma slot_clients_simps:
  "slot_clients [] r = []"
  "live j p r \<Longrightarrow> route_at j r = Some t \<Longrightarrow> slot_clients (j # is) r = (j, p, t) # slot_clients is r"
  "(\<And>p. \<not> live j p r) \<Longrightarrow> slot_clients (j # is) r = slot_clients is r"
  by (auto simp: slot_clients_def live_def)

text \<open>A visit: a slot, the client in it, its route and what the function has answered.  After some visits exactly the
  clients it has answered \<open>delete\<close> for are gone.\<close>

type_synonym visit = "nat \<times> nat \<times> string \<times> nat"

abbreviation visit_of :: "visit \<Rightarrow> nat \<times> nat \<times> string" where
  "visit_of \<equiv> \<lambda>(j, p, t, n). (j, p, t)"

definition visited :: "visit list \<Rightarrow> ('l, 'd) reactor \<Rightarrow> ('l, 'd) reactor \<Rightarrow> bool" where
  "visited xs r r' \<longleftrightarrow> reactor_inv r' \<and>
     (\<forall>j q. live j q r' \<longleftrightarrow> live j q r \<and> (\<forall>t. (j, q, t, DUCQ_LOOP_DELETE) \<notin> set xs)) \<and>
     (\<forall>j. route_at j r' = route_at j r) \<and>
     (\<forall>q. w_heap (re_world r') q = None \<longleftrightarrow> w_heap (re_world r) q = None \<or> (\<exists>j t. (j, q, t, DUCQ_LOOP_DELETE) \<in> set xs))"

lemma visited_none: "reactor_inv r \<Longrightarrow> visited [] r r"
  by (simp add: visited_def)

text \<open>A function that answers \<open>continue\<close> or \<open>delete\<close> for the client of a slot.\<close>

definition asks :: "(nat \<Rightarrow> string \<Rightarrow> nat option \<Rightarrow> bool) \<Rightarrow> nat \<Rightarrow> ('l, 'd) reactor \<Rightarrow> bool" where
  "asks may j r \<longleftrightarrow> (\<forall>q t v. live j q r \<longrightarrow> route_at j r = Some t \<longrightarrow> may q t v \<longrightarrow>
     v \<in> {Some DUCQ_LOOP_CONTINUE, Some DUCQ_LOOP_DELETE})"

lemma visited_continue: "visited xs r s \<Longrightarrow> n \<noteq> DUCQ_LOOP_DELETE \<Longrightarrow> visited (xs @ [(i, p, t, n)]) r s"
  by (simp add: visited_def)

lemma visited_delete:
  assumes v: "visited xs r s" and lv: "live i p s"
  shows "\<exists>s'. connection_free i s = Some s' \<and> visited (xs @ [(i, p, t, DUCQ_LOOP_DELETE)]) r s'"
proof -
  have inv: "reactor_inv s" and i: "i < DUCQ_MAX_CONNECTIONS"
    using v lv by (auto simp: visited_def live_def)
  obtain s' where s': "connection_free i s = Some s'" "reactor_inv s'"
      "re_conns s' = (re_conns s)[i := (re_conns s ! i)\<lparr>conn_fd := - 1\<rparr>]"
      "\<forall>q. w_heap (re_world s') q = None \<longleftrightarrow> w_heap (re_world s) q = None \<or> live i q s"
    using connection_free_run [OF inv i] by blast
  have one: "live i q s \<longleftrightarrow> q = p" for q
    using lv by (auto simp: live_def)
  have "live i p r"
    using v lv by (simp add: visited_def)
  then have only: "live i q r \<Longrightarrow> q = p" for q
    by (simp add: live_def)
  have "live j q s' \<longleftrightarrow> live j q (set_conn i ((re_conns s ! i)\<lparr>conn_fd := - 1\<rparr>) s)" for j q
    by (simp add: live_def s'(3))
  then have live: "live j q s' \<longleftrightarrow> j \<noteq> i \<and> live j q s" for j q
    using live_set_conn [OF reactor_invD(1) [OF inv] i] by simp
  have r1: "route_at j s' = route_at j s" for j
    using reactor_invD(1) [OF inv] i by (cases "j = i") (auto simp: route_at_def s'(3) conn_route_def)
  have "visited (xs @ [(i, p, t, DUCQ_LOOP_DELETE)]) r s'"
    using v s'(2,4) one live r1 only unfolding visited_def by auto
  then show ?thesis
    using s'(1) by blast
qed

lemma loop_visits:
  assumes cb: "callback api ready calls may"
  shows "distinct is \<Longrightarrow> set is \<subseteq> {..<DUCQ_MAX_CONNECTIONS} \<Longrightarrow> \<forall>x \<in> set xs. fst x \<notin> set is \<Longrightarrow> visited xs r s \<Longrightarrow>
    ready b \<Longrightarrow> \<forall>j \<in> set is. asks may j r \<Longrightarrow>
    \<exists>ctl' b' s' ys. map visit_of ys = slot_clients is r \<and> (\<forall>(j, p, t, n) \<in> set ys. may p t (Some n)) \<and> visited (xs @ ys) r s' \<and> ready b' \<and>
      calls (bi_lua b') = calls (bi_lua b) @ map snd ys \<and>
      (\<forall>js. loop_slots (loop_through_client (do_lua_callback api)) (is @ js) ctl (b, None) s =
        loop_slots (loop_through_client (do_lua_callback api)) js ctl' (b', None) s')"
proof (induction "is" arbitrary: xs s b ctl)
  case Nil
  then show ?case
    by (intro exI [of _ ctl] exI [of _ b] exI [of _ s] exI [of _ "[]"]) (simp add: slot_clients_simps)
next
  case (Cons i "is")
  let ?h = "loop_through_client (do_lua_callback api)"
  have v: "visited xs r s" and i: "i < DUCQ_MAX_CONNECTIONS" "i \<notin> set is" and new: "i \<notin> fst ` set xs"
    using Cons.prems by auto
  show ?case
  proof (cases "conn_fd (re_conns s ! i) \<noteq> - 1 \<and> (\<exists>p. conn_client (re_conns s ! i) = Some p)")
    case True
    then obtain p where p: "live i p s" "conn_client (re_conns s ! i) = Some p"
      using i(1) by (auto simp: live_def)
    then have lv: "live i p r"
      using v by (simp add: visited_def)
    obtain t where t: "route_at i s = Some t" "route_at i r = Some t"
      using v p(1) reactor_invD(4) [of s i p] by (auto simp: visited_def)
    have hook: "?h i x s = do_lua_callback api p i x s" for x
      using p(2) by (auto simp: loop_through_client_def conn_client_def split: conn_as.splits)
    have may: "n \<in> {Some DUCQ_LOOP_CONTINUE, Some DUCQ_LOOP_DELETE}" if "may p t n" for n
      using Cons.prems(6) lv t(2) that by (auto simp: asks_def)
    obtain n d where n: "may p t (Some n)"
      and d: "n < 2 ^ 32 \<longrightarrow> do_lua_callback api p i (b, None) s = Some (n, (d, None), s) \<and> ready d \<and>
        calls (bi_lua d) = calls (bi_lua b) @ [(p, t, n)]"
      using callback_runs [OF cb Cons.prems(5) t(1), of p] may [of None] by auto
    have two: "n = DUCQ_LOOP_CONTINUE \<or> n = DUCQ_LOOP_DELETE"
      using may [OF n] by simp
    then have run: "do_lua_callback api p i (b, None) s = Some (n, (d, None), s)" "ready d"
        "calls (bi_lua d) = calls (bi_lua b) @ [(p, t, n)]"
      using d by (auto simp: DUCQ_LOOP_CONTINUE_def DUCQ_LOOP_DELETE_def)
    have "\<exists>u. (if n AND DUCQ_LOOP_DELETE \<noteq> 0 then connection_free i s else Some s) = Some u \<and> visited (xs @ [(i, p, t, n)]) r u"
      using two visited_continue [OF v, of n i p t] visited_delete [OF v p(1), of t]
      by (auto simp: DUCQ_LOOP_CONTINUE_def DUCQ_LOOP_DELETE_def)
    then obtain u where u: "(if n AND DUCQ_LOOP_DELETE \<noteq> 0 then connection_free i s else Some s) = Some u"
        "visited (xs @ [(i, p, t, n)]) r u"
      by blast
    have go: "n AND DUCQ_LOOP_BREAK = 0"
      using two by auto
    obtain ctl' b' s' ys where ys: "map visit_of ys = slot_clients is r" "\<forall>(j, p, t, n) \<in> set ys. may p t (Some n)" "visited ((xs @ [(i, p, t, n)]) @ ys) r s'" "ready b'"
        "calls (bi_lua b') = calls (bi_lua d) @ map snd ys"
        "\<forall>js. loop_slots ?h (is @ js) n (d, None) u = loop_slots ?h js ctl' (b', None) s'"
      using Cons.IH [of "xs @ [(i, p, t, n)]" u d n] Cons.prems u(2) run(2) i(2) by auto
    have "loop_slots ?h ((i # is) @ js) ctl (b, None) s = loop_slots ?h js ctl' (b', None) s'" for js
      using True hook run(1) u(1) go ys(6) by simp
    then show ?thesis
      using ys(1-5) run(3) n slot_clients_simps(2) [OF lv t(2)]
      by (intro exI [of _ ctl'] exI [of _ b'] exI [of _ s'] exI [of _ "(i, p, t, n) # ys"]) simp
  next
    case False
    then have "\<not> live i q s" for q
      by (auto simp: live_def)
    then have "\<not> live i q r" for q
      using v new by (force simp: visited_def)
    then have none: "slot_clients (i # is) r = slot_clients is r"
      by (rule slot_clients_simps)
    have "loop_slots ?h ((i # is) @ js) ctl (b, None) s =
        loop_slots ?h (is @ js) (if conn_fd (re_conns s ! i) = - 1 then ctl else DUCQ_LOOP_CONTINUE) (b, None) s" for js
      using False by (auto simp: loop_through_client_def conn_client_def split: conn_as.splits)
    then show ?thesis
      unfolding none using Cons.IH [of xs s b "if conn_fd (re_conns s ! i) = - 1 then ctl else DUCQ_LOOP_CONTINUE"] Cons.prems by auto
  qed
qed

text \<open>The small Lua runs such functions.\<close>

definition small_ready :: "(small_state, 'l, 'd) binding \<Rightarrow> bool" where
  "small_ready b \<longleftrightarrow> at_index (- 1) (bi_lua b) = VFun"

lemma small_callback: "callback (small_lua (\<lambda>p t. map_option int (g p t))) small_ready sm_calls (\<lambda>p t v. v = g p t)"
  unfolding callback_def
proof (intro conjI allI impI)
  let ?api = "small_lua (\<lambda>p t. map_option int (g p t)) :: (small_state, 'a, 'b) lua_api"
  show "sm_calls (la_pushinteger ?api k s) = sm_calls s" for k s
    by (simp add: small_lua_def lv_push_def)
  fix b :: "(small_state, 'a, 'b) binding" and r ducq route
  assume ready: "small_ready b"
  then obtain vs where vs: "lv_stack (bi_lua b) = vs @ [VFun]"
    by (cases "lv_stack (bi_lua b)" rule: rev_cases) (auto simp: small_ready_def at_index_def split: if_splits)
  define u where "u = sm_fresh (bi_lua b)"
  define s where "s = bi_lua (called ?api ducq route r b)"
  have c: "lv_stack s = vs @ [VFun, VFun, VUser u, VStr route]" "bi_blocks (called ?api ducq route r b) u = Some ducq"
      "bi_reactor (called ?api ducq route r b) = r" "sm_calls s = sm_calls (bi_lua b)"
    using ready vs unfolding s_def called_def
    by (simp_all add: small_push_ducq on_lua_def u_def small_ready_def) (simp_all add: small_lua_def lv_push_def opt_str_def)
  have at: "at_index (- 2) s = VUser u" "at_index (- 1) s = VStr route"
    using at_index_two [of s "vs @ [VFun, VFun]" "VUser u" "VStr route"] c(1) by simp_all
  define w where "w x = lv_pop 3 (s\<lparr>sm_calls := sm_calls s @ [x]\<rparr>)" for x
  have pop: "lv_stack (w x) = vs @ [VFun]" "sm_calls (lv_pop 1 (lv_push v (w x))) = sm_calls (bi_lua b) @ [x]" for v x
    by (simp_all add: w_def lv_pop_def lv_push_def c(1,4))
  have top: "at_index (- 1) (lv_push v (w x)) = v" "at_index (- 1) (lv_pop 1 (lv_push v (w x))) = VFun" for v x
    using pop(1) [of x] at_index_stack(1) [of "lv_push v (w x)" "vs @ [VFun]" v "[]"]
      at_index_stack(1) [of "lv_pop 1 (lv_push v (w x))" vs VFun "[]"] by (simp_all add: lv_pop_def)
  have run: "la_pcall ?api 2 1 (called ?api ducq route r b) = small_pcall (\<lambda>p t. map_option int (g p t)) (called ?api ducq route r b)"
    by (simp add: small_lua_def)
  have "\<exists>ok b'. la_pcall ?api 2 1 (called ?api ducq route r b) = Some (ok, b') \<and> bi_reactor b' = r \<and>
      (case g ducq route of None \<Rightarrow> \<not> ok
       | Some n \<Rightarrow> ok \<and> la_tonumberx ?api (- 1) (bi_lua b') = Some (int n) \<and> small_ready (on_lua (la_pop ?api 1) b') \<and>
           sm_calls (la_pop ?api 1 (bi_lua b')) = sm_calls (bi_lua b) @ [(ducq, route, n)])"
  proof (cases "g ducq route")
    case None
    then show ?thesis
      using c(2,3) at unfolding run by (auto simp: small_pcall_def s_def [symmetric])
  next
    case (Some n)
    have "la_tonumberx ?api (- 1) (lv_push (VInt (int n)) (w (ducq, route, n))) = Some (int n)"
      by (simp add: small_lua_def top(1))
    moreover have "la_pop ?api = lv_pop"
      by (simp add: small_lua_def)
    moreover have "la_pcall ?api 2 1 (called ?api ducq route r b) =
        Some (True, (called ?api ducq route r b)\<lparr>bi_lua := lv_push (VInt (int n)) (w (ducq, route, n))\<rparr>)"
      using Some c(2) at unfolding run by (simp add: small_pcall_def s_def [symmetric] w_def)
    ultimately show ?thesis
      using Some c(3) top(2) pop(2) by (auto simp: small_ready_def on_lua_def)
  qed
  then show "\<exists>v ok b'. v = g ducq route \<and> la_pcall ?api 2 1 (called ?api ducq route r b) = Some (ok, b') \<and> bi_reactor b' = r \<and>
      (case v of None \<Rightarrow> \<not> ok
       | Some n \<Rightarrow> ok \<and> la_tonumberx ?api (- 1) (bi_lua b') = Some (int n) \<and> small_ready (on_lua (la_pop ?api 1) b') \<and>
           sm_calls (la_pop ?api 1 (bi_lua b')) = sm_calls (bi_lua b) @ [(ducq, route, n)])"
    by auto
qed

text \<open>How \<open>reactor:loop\<close> is called: the first argument is the reactor, the last a function.\<close>

definition loop_call :: "('s, 'l, 'd) lua_api \<Rightarrow> ('s, 'l, 'd) binding \<Rightarrow> bool" where
  "loop_call api b \<longleftrightarrow> (\<exists>block. la_checkudata api 1 DUCQ_REACTOR_METATABLE (bi_lua b) = Inr block \<and>
     bi_blocks b block = Some (bi_self b)) \<and> la_isfunction api (- 1) (bi_lua b)"

lemma loop_call_run:
  assumes "loop_call api b"
  shows "lua_loop api b =
    do {
      (control, (b, e), r) \<leftarrow> ducq_reactor_loop (do_lua_callback api) (b, None) (bi_reactor b);
      let b = b\<lparr>bi_reactor := r\<rparr> in
      case e of
        Some e \<Rightarrow> raised e b
      | None \<Rightarrow> Some (Inr 1, on_lua (la_pushinteger api (int control)) b)
    }"
  using assms by (auto simp: loop_call_def lua_loop_def with_pointer_def)

text \<open>C31: The function is called exactly once for every client, in the order of the slots, with the client and its
  route, whatever it answers for the others; and exactly the clients it answers \<open>delete\<close> for are removed and freed.
  The function answers \<open>continue\<close> or \<open>delete\<close>, whichever of them it likes, and leaves the server alone.\<close>

theorem lua_loop_removes:
  assumes "reactor_inv (bi_reactor b)" and "loop_call api b" and "callback api ready calls may" and "ready b"
    and "\<forall>j. asks may j (bi_reactor b)"
  shows "\<exists>b' xs. lua_loop api b = Some (Inr 1, b') \<and> reactor_inv (bi_reactor b') \<and>
    map visit_of xs = slot_clients [0..<DUCQ_MAX_CONNECTIONS] (bi_reactor b) \<and>
    (\<forall>(j, p, t, n) \<in> set xs. may p t (Some n)) \<and>
    calls (bi_lua b') = calls (bi_lua b) @ map snd xs \<and>
    (\<forall>j q. live j q (bi_reactor b') \<longleftrightarrow> live j q (bi_reactor b) \<and> (\<forall>t. (j, q, t, DUCQ_LOOP_DELETE) \<notin> set xs)) \<and>
    (\<forall>j q t. (j, q, t, DUCQ_LOOP_DELETE) \<in> set xs \<longrightarrow> w_heap (re_world (bi_reactor b')) q = None)"
proof -
  let ?r = "bi_reactor b" and ?h = "loop_through_client (do_lua_callback api)"
  obtain ctl' c s' xs where c: "map visit_of xs = slot_clients [0..<DUCQ_MAX_CONNECTIONS] ?r" "visited xs ?r s'" "\<forall>(j, p, t, n) \<in> set xs. may p t (Some n)"
      "calls (bi_lua c) = calls (bi_lua b) @ map snd xs"
      "\<forall>js. loop_slots ?h ([0..<DUCQ_MAX_CONNECTIONS] @ js) DUCQ_LOOP_CONTINUE (b, None) ?r = loop_slots ?h js ctl' (c, None) s'"
    using loop_visits [OF assms(3), of "[0..<DUCQ_MAX_CONNECTIONS]" "[]" ?r ?r b DUCQ_LOOP_CONTINUE]
      visited_none [OF assms(1)] assms(4,5) by (auto simp: atLeast0LessThan simp del: upt_rec_numeral)
  have run: "ducq_reactor_loop (do_lua_callback api) (b, None) ?r = Some (ctl', (c, None), s')"
    using c(5) [rule_format, of "[]"] by (simp add: ducq_reactor_loop_def connection_loop_template_def del: upt_rec_numeral)
  have push: "calls (la_pushinteger api k s) = calls s" for k s
    using assms(3) by (simp add: callback_def)
  show ?thesis
    unfolding loop_call_run [OF assms(2)] run
    using c(1-4) push by (auto simp: Let_def visited_def on_lua_def simp del: upt_rec_numeral)
qed

theorem lua_loop_removes_witness:
  "\<exists>b'. lua_loop (small_lua (\<lambda>p t. map_option int (if t = ''a'' then Some 2 else Some 0)))
      (small_binding DUCQ_REACTOR_METATABLE 1 [VFun] (demo ''a'' ''b'')) = Some (Inr 1, b') \<and>
    sm_calls (bi_lua b') = [(9, ''a'', 2), (10, ''b'', 0)] \<and>
    live 1 10 (bi_reactor b') \<and> \<not> live 0 9 (bi_reactor b') \<and> w_heap (re_world (bi_reactor b')) 9 = None"
proof -
  let ?g = "\<lambda>p t. if t = ''a'' then Some (2::nat) else Some 0"
  let ?b = "small_binding DUCQ_REACTOR_METATABLE 1 [VFun] (demo ''a'' ''b'')"
  have r: "bi_reactor ?b = demo ''a'' ''b''" "sm_calls (bi_lua ?b) = []"
    by (simp_all add: small_binding_def small_start_def)
  have call: "loop_call (small_lua (\<lambda>p t. map_option int (?g p t))) ?b"
    by (simp add: loop_call_def small_lua_def small_binding_def small_start_def at_index_def)
  have ready: "small_ready ?b"
    by (simp add: small_ready_def small_binding_def small_start_def at_index_def)
  have asks: "\<forall>j. asks (\<lambda>p t v. v = ?g p t) j (bi_reactor ?b)"
    by (simp add: asks_def DUCQ_LOOP_CONTINUE_def DUCQ_LOOP_DELETE_def)
  have live: "live 0 9 (demo ''a'' ''b'')" "live 1 10 (demo ''a'' ''b'')"
    by (simp_all add: demo_live)
  have route: "route_at 0 (demo ''a'' ''b'') = Some ''a''" "route_at 1 (demo ''a'' ''b'') = Some ''b''"
    using demo_route [of "''a''" "''b''"] by simp_all
  have inv: "reactor_inv (bi_reactor ?b)"
    using serving_inv [OF demo_serving [of "''a''" "''b''"]] unfolding r by simp
  have all: "[0..<DUCQ_MAX_CONNECTIONS] = 0 # 1 # [2..<DUCQ_MAX_CONNECTIONS]"
    by (simp add: upt_conv_Cons)
  have "filter (\<lambda>j. \<exists>p. live j p (demo ''a'' ''b'')) [2..<DUCQ_MAX_CONNECTIONS] = []"
    unfolding filter_empty_conv demo_live by auto
  then have slots: "slot_clients [0..<DUCQ_MAX_CONNECTIONS] (demo ''a'' ''b'') = [(0, 9, ''a''), (1, 10, ''b'')]"
    unfolding all slot_clients_simps(2) [OF live(1) route(1)] slot_clients_simps(2) [OF live(2) route(2)]
    by (simp add: slot_clients_def)
  have "\<exists>b' xs. lua_loop (small_lua (\<lambda>p t. map_option int (?g p t))) ?b = Some (Inr 1, b') \<and> reactor_inv (bi_reactor b') \<and>
    map visit_of xs = [(0, 9, ''a''), (1, 10, ''b'')] \<and> (\<forall>(j, p, t, n) \<in> set xs. Some n = ?g p t) \<and>
    sm_calls (bi_lua b') = map snd xs \<and>
    (\<forall>j q. live j q (bi_reactor b') \<longleftrightarrow> live j q (demo ''a'' ''b'') \<and> (\<forall>t. (j, q, t, DUCQ_LOOP_DELETE) \<notin> set xs)) \<and>
    (\<forall>j q t. (j, q, t, DUCQ_LOOP_DELETE) \<in> set xs \<longrightarrow> w_heap (re_world (bi_reactor b')) q = None)"
    using lua_loop_removes [OF inv call small_callback ready asks] unfolding r slots append_Nil .
  then obtain b' xs where b': "lua_loop (small_lua (\<lambda>p t. map_option int (?g p t))) ?b = Some (Inr 1, b')"
      "map visit_of xs = [(0, 9, ''a''), (1, 10, ''b'')]" "\<forall>(j, p, t, n) \<in> set xs. Some n = ?g p t" "sm_calls (bi_lua b') = map snd xs"
      "\<forall>j q. live j q (bi_reactor b') \<longleftrightarrow> live j q (demo ''a'' ''b'') \<and> (\<forall>t. (j, q, t, DUCQ_LOOP_DELETE) \<notin> set xs)"
      "\<forall>j q t. (j, q, t, DUCQ_LOOP_DELETE) \<in> set xs \<longrightarrow> w_heap (re_world (bi_reactor b')) q = None"
    by (elim exE conjE) (rule that)
  obtain m n where "xs = [(0, 9, ''a'', m), (1, 10, ''b'', n)]"
    using b'(2) by (auto simp: map_eq_Cons_conv)
  then have xs: "xs = [(0, 9, ''a'', 2), (1, 10, ''b'', 0)]"
    using b'(3) by simp
  show ?thesis
    using b'(1,4,5) b'(6) [rule_format, of 0 9 "''a''"] live unfolding xs
    by (intro exI [of _ b']) (simp add: DUCQ_LOOP_DELETE_def)
qed

text \<open>An error in the function ends the loop: the slots before are done, the client it was called for and
  those behind it are as they were, and \<open>loop\<close> raises an error.\<close>

theorem lua_loop_stops_at_error:
  assumes "reactor_inv (bi_reactor b)" and "loop_call api b" and "callback api ready calls may" and "ready b"
    and "\<forall>j < i. asks may j (bi_reactor b)" and "live i p (bi_reactor b)" and "route_at i (bi_reactor b) = Some t"
    and "\<forall>v. may p t v \<longrightarrow> v = None"
  shows "\<exists>e b' xs. lua_loop api b = Some (Inl e, b') \<and> reactor_inv (bi_reactor b') \<and>
    map visit_of xs = slot_clients [0..<i] (bi_reactor b) \<and>
    (\<forall>j q. live j q (bi_reactor b') \<longleftrightarrow> live j q (bi_reactor b) \<and> (\<forall>t. (j, q, t, DUCQ_LOOP_DELETE) \<notin> set xs))"
proof -
  let ?r = "bi_reactor b" and ?h = "loop_through_client (do_lua_callback api)"
  have i: "i < DUCQ_MAX_CONNECTIONS"
    using assms(6) by (simp add: live_def)
  obtain ctl' c s' xs where c: "map visit_of xs = slot_clients [0..<i] ?r" "visited xs ?r s'" "ready c"
      "\<forall>js. loop_slots ?h ([0..<i] @ js) DUCQ_LOOP_CONTINUE (b, None) ?r = loop_slots ?h js ctl' (c, None) s'"
    using loop_visits [OF assms(3), of "[0..<i]" "[]" ?r ?r b DUCQ_LOOP_CONTINUE]
      visited_none [OF assms(1)] assms(4,5) i by (auto simp: atLeast0LessThan)
  have "i \<notin> fst ` set xs"
  proof -
    have "map fst xs = map fst (map visit_of xs)"
      by (simp add: comp_def case_prod_beta)
    then have "map fst xs = filter (\<lambda>j. \<exists>p. live j p ?r) [0..<i]"
      unfolding c(1) by (simp add: slot_clients_def comp_def)
    then have "set (map fst xs) \<subseteq> {0..<i}"
      by auto
    then show ?thesis
      by auto
  qed
  then have s': "live i p s'" "route_at i s' = Some t"
    using c(2) assms(6,7) by (force simp: visited_def)+
  obtain d e where d: "do_lua_callback api p i (c, None) s' = Some (DUCQ_LOOP_BREAK, (d, Some e), s')"
    using callback_runs [OF assms(3) c(3) s'(2), of p] assms(8) by blast
  have "?h i (c, None) s' = Some (DUCQ_LOOP_BREAK, (d, Some e), s')"
    using s'(1) d by (auto simp: loop_through_client_def live_def conn_client_def split: conn_as.splits)
  then have run: "ducq_reactor_loop (do_lua_callback api) (b, None) ?r = Some (DUCQ_LOOP_BREAK, (d, Some e), s')"
    unfolding ducq_reactor_loop_def connection_loop_template_def slots_split [OF i] c(4) [rule_format]
    using s'(1) by (simp add: live_def DUCQ_LOOP_BREAK_def DUCQ_LOOP_DELETE_def)
  show ?thesis
    unfolding loop_call_run [OF assms(2)] run
    using c(1,2) by (auto simp: visited_def Let_def raised_def)
qed

section \<open>What recv hands over\<close>

text \<open>A method called on the client \<open>p\<close>.\<close>

definition method_call :: "('s, 'l, 'd) lua_api \<Rightarrow> nat \<Rightarrow> ('s, 'l, 'd) binding \<Rightarrow> bool" where
  "method_call api p b \<longleftrightarrow> (\<exists>block. la_checkudata api 1 DUCQ_METATABLE (bi_lua b) = Inr block \<and> bi_blocks b block = Some p)"

lemma method_call_run: "method_call api p b \<Longrightarrow> with_pointer api 1 DUCQ_METATABLE f b = f p b"
  by (auto simp: method_call_def with_pointer_def)

text \<open>A message that arrives on a TCP connection, in pieces of any size, is the string Lua gets, whole and
  unchanged, with the state ok.\<close>

theorem lua_recv_message:
  assumes "method_call api p b" and "tcp_up p c (re_world (bi_reactor b))"
    and "stream (tcp_fd c) (w_os (re_world (bi_reactor b))) = tcp_frame m @ rest" and "tcp_sendable m"
  shows "\<exists>t. lua_recv api b = Some (Inr 2, push_state api DUCQ_OK (on_lua (la_pushlstring api m)
      (b\<lparr>bi_reactor := (bi_reactor b)\<lparr>re_world := (re_world (bi_reactor b))\<lparr>w_os := t\<rparr>\<rparr>\<rparr>))) \<and>
    stream (tcp_fd c) t = rest"
proof -
  let ?w = "re_world (bi_reactor b)" and ?buf = "replicate DUCQ_MSGSZ NUL"
  obtain t where t: "ducq_recv p ?buf DUCQ_MSGSZ ?w =
        Some ((DUCQ_OK, length m, m @ NUL # drop (length m + 1) ?buf), ?w\<lparr>w_os := t\<rparr>)"
      "stream (tcp_fd c) t = rest"
    using recv_tcp [OF assms(2-4), of ?buf] by auto
  then show ?thesis
    using assms(1) by (auto simp: lua_recv_def method_call_run on_client_def on_world_def)
qed

lemma small_method: "method_call plain_lua p (small_binding DUCQ_METATABLE p args r)"
  by (simp add: method_call_def plain_lua_def small_lua_def small_binding_def small_start_def at_index_def)

definition server_with :: "world \<Rightarrow> (unit, unit) reactor" where
  "server_with w = (demo ''a'' ''b'')\<lparr>re_world := w\<rparr>"

theorem lua_recv_message_witness:
  "\<exists>b t. lua_recv plain_lua (small_binding DUCQ_METATABLE 9 [] (server_with (world_five [RData (tcp_frame ''hi'')]))) =
      Some (Inr 2, push_state plain_lua DUCQ_OK (on_lua (la_pushlstring plain_lua ''hi'') b)) \<and>
    stream 5 t = []"
proof -
  let ?w = "world_five [RData (tcp_frame ''hi'')]"
  have rr: "re_world (bi_reactor (small_binding DUCQ_METATABLE 9 [] (server_with ?w))) = ?w"
    by (simp add: small_binding_def server_with_def)
  have up: "tcp_up 9 tcp_five ?w"
    by (rule tcp_up_five) (simp add: tcp_frame_def)
  have st: "stream (tcp_fd tcp_five) (w_os ?w) = tcp_frame ''hi'' @ []"
    by (simp add: stream_def world_five_def tcp_five_def)
  have snd: "tcp_sendable ''hi''" and fd: "tcp_fd tcp_five = 5"
    by (simp_all add: tcp_sendable_def tcp_five_def)
  show ?thesis
    using lua_recv_message [OF small_method [of 9 "[]" "server_with ?w"], unfolded rr, OF up st snd]
    unfolding fd by blast
qed

text \<open>One chunk of data from which less is read than is there.\<close>

lemma readn_chunk:
  assumes "os_in s fd = RData (a @ b) # es" and "length a = n"
  shows "readn_loop fd n [] s = (int n, a, if n = 0 then s else
    s\<lparr>os_in := (os_in s)(fd := if b = [] then es else RData b # es)\<rparr>)"
proof (cases "n = 0")
  case True
  then show ?thesis
    using assms(2) by (subst readn_loop.simps) simp
next
  case False
  define t where "t = s\<lparr>os_in := (os_in s)(fd := if b = [] then es else RData b # es)\<rparr>"
  have "sys_read fd n s = (int n, a, t)"
    using assms by (simp add: sys_read_def t_def)
  then have "readn_loop fd n [] s = readn_loop fd 0 a t"
    using False by (subst readn_loop.simps) simp
  then show ?thesis
    using assms(2) False by (simp add: readn_loop.simps [of fd 0] t_def)
qed

lemma readn_error:
  assumes "os_in s fd = RErr e # es" and "e \<noteq> EINTR" and "0 < n"
  shows "\<exists>s'. readn_loop fd n [] s = (- 1, [], s')"
  using assms by (subst readn_loop.simps) (simp add: sys_read_def)

text \<open>A frame whose payload does not come: the count that is left is the -1 of the read.\<close>

lemma ws_recv_interrupted:
  assumes wf: "length (ws_hdr ws) = 14" and m: "length msk = 4" and n: "0 < n" "n \<le> count + 1" "n + 1 < 2 ^ 64"
    and es: "os_in s (ws_fd ws) = RData (map char_of_byte (rfc_header b0 (Some msk) n)) # RErr e # es" "e \<noteq> EINTR"
  shows "\<exists>ws' s'. ws_recv ws buf count s = Some (DUCQ_EREAD, 2 ^ 64 - 1, buf, ws', s')"
proof -
  define H where "H = rfc_header b0 (Some msk) n"
  define k where "k = length H"
  define hdr where "hdr = H @ drop k (ws_hdr ws)"
  have k: "6 \<le> k" "k \<le> 14"
    using length_rfc_header [of "Some msk" b0 n] m by (auto simp: k_def H_def rfc_header_def split: prod.splits)
  have enc: "encodes hdr b0 (Some msk) n"
    using m n(3) by (auto simp: encodes_def hdr_def H_def)
  have klen: "ws_get_hdr_len hdr = k"
    using encodes_hdr_len [OF enc] by (simp add: k_def H_def)
  have ml: "unat (ws_get_len hdr) = n"
    using encodes_len [OF enc] n(3) by (simp add: unat_of_nat)
  define hdr1 where "hdr1 = put_at (ws_hdr ws) 0 (take 2 H)"
  have hdr1: "hdr1 = take 2 H @ drop 2 (ws_hdr ws)"
    using k by (simp add: hdr1_def put_at_def k_def numeral_2_eq_2)
  have "hdr1 ! 1 = hdr ! 1"
    using k by (simp add: hdr1 hdr_def nth_append k_def)
  then have klen1: "ws_get_hdr_len hdr1 = k"
    using hdr_len_byte1 klen by metis
  have split: "map char_of_byte (take 2 H) @ map char_of_byte (drop 2 H) = map char_of_byte H"
    by (metis append_take_drop_id map_append)
  define s1 where "s1 = s\<lparr>os_in := (os_in s)(ws_fd ws := RData (map char_of_byte (drop 2 H)) # RErr e # es)\<rparr>"
  define s2 where "s2 = s1\<lparr>os_in := (os_in s1)(ws_fd ws := RErr e # es)\<rparr>"
  have "drop 2 H \<noteq> []"
    using k by (simp add: k_def)
  then have r1: "read_hdr ws 0 2 s = (2, ws\<lparr>ws_hdr := hdr1\<rparr>, s1)"
    using readn_chunk [of s "ws_fd ws" "map char_of_byte (take 2 H)" "map char_of_byte (drop 2 H)" "RErr e # es" 2] es(1) k split
    by (simp add: read_hdr_def hdr1_def s1_def H_def k_def comp_def)
  have "put_at hdr1 2 (drop 2 H) = hdr"
  proof -
    have "length (take 2 H) = 2" "drop (length (drop 2 H)) (drop 2 (ws_hdr ws)) = drop k (ws_hdr ws)"
      using k le_Suc_ex [of 2 k] by (auto simp: k_def)
    then have "put_at hdr1 2 (drop 2 H) = take 2 H @ drop 2 H @ drop k (ws_hdr ws)"
      using put_at_append [of "take 2 H" "drop 2 (ws_hdr ws)" "drop 2 H"] by (simp only: hdr1)
    then show ?thesis
      unfolding hdr_def by (metis append_assoc append_take_drop_id)
  qed
  then have r2: "read_hdr (ws\<lparr>ws_hdr := hdr1\<rparr>) 2 (k - 2) s1 = (int (k - 2), ws\<lparr>ws_hdr := hdr\<rparr>, s2)"
    using readn_chunk [of s1 "ws_fd ws" "map char_of_byte (drop 2 H)" "[]" "RErr e # es" "k - 2"] k
    by (simp add: read_hdr_def s1_def s2_def k_def comp_def)
  obtain s3 where s3: "readn_loop (ws_fd ws) n [] s2 = (- 1, [], s3)"
    using readn_error [of s2 "ws_fd ws" e es n] es(2) n(1) by (auto simp: s2_def)
  have rd: "readn (ws_fd ws) buf 0 n s2 = Some (- 1, buf, s3)"
    by (simp add: readn_def s3 mem_write_def)
  have max: "nat (- 1 mod 2 ^ 64) = 2 ^ 64 - 1"
    by simp
  have "ws_recv ws buf count s = ws_recv_packet (ws\<lparr>ws_hdr := hdr\<rparr>) buf n s2"
    using k klen1 r1 r2 ml n(2) by (simp add: ws_recv_def Let_def)
  also have "\<dots> = Some (DUCQ_EREAD, 2 ^ 64 - 1, buf, ws\<lparr>ws_hdr := hdr\<rparr>, s3)"
    using n(3) by (simp add: ws_recv_packet_def rd max)
  finally show ?thesis
    by blast
qed

text \<open>A WebSocket client that sends the header of a frame and then nothing until the timeout: \<open>recv\<close> answers
  DUCQ_EREAD and a count of 2 ^ 64 - 1, and the function for Lua reads that many bytes of its buffer.\<close>

theorem lua_recv_overread:
  assumes "method_call api p b" and "p \<noteq> 0" and "w_heap (re_world (bi_reactor b)) p = Some (Ws ws)"
    and "wf_ws ws" and "length msk = 4" and "0 < n" and "n \<le> DUCQ_MSGSZ"
    and "os_in (w_os (re_world (bi_reactor b))) (ws_fd ws) =
      RData (map char_of_byte (rfc_header b0 (Some msk) n)) # RErr EWOULDBLOCK # es"
  shows "(\<exists>buf w'. ducq_recv p (replicate DUCQ_MSGSZ NUL) DUCQ_MSGSZ (re_world (bi_reactor b)) =
      Some ((DUCQ_EREAD, 2 ^ 64 - 1, buf), w')) \<and> lua_recv api b = None"
proof -
  let ?w = "re_world (bi_reactor b)" and ?buf = "replicate DUCQ_MSGSZ NUL"
  obtain ws' s' where r: "ws_recv ws ?buf DUCQ_MSGSZ (w_os ?w) = Some (DUCQ_EREAD, 2 ^ 64 - 1, ?buf, ws', s')"
    using ws_recv_interrupted [of ws msk n DUCQ_MSGSZ "w_os ?w" b0 EWOULDBLOCK es ?buf] assms(4-8)
    by (auto simp: wf_ws_def)
  have v: "vt_recv ?buf DUCQ_MSGSZ (Ws ws) (w_os ?w) = Some ((DUCQ_EREAD, 2 ^ 64 - 1, ?buf), Ws ws', s')"
    unfolding vt_recv.simps r by simp
  have "ducq_recv p ?buf DUCQ_MSGSZ ?w =
      Some ((DUCQ_EREAD, 2 ^ 64 - 1, ?buf), ?w\<lparr>w_os := s', w_heap := (w_heap ?w)(p \<mapsto> Ws ws')\<rparr>)"
    unfolding ducq_recv_def by (rule deref_run [where f = "vt_recv ?buf DUCQ_MSGSZ", OF assms(2,3) v])
  then show ?thesis
    using assms(1) by (simp add: lua_recv_def method_call_run on_client_def on_world_def)
qed

definition slow_ws :: ws where
  "slow_ws = \<lparr>ws_fd = 5, ws_reuse = False, ws_id = [], ws_hdr = replicate 14 0, ws_payload = replicate 256 NUL, ws_st = WS_OPEN,
     ws_is_client = False, ws_host = None, ws_port = None\<rparr>"

definition slow_world :: world where
  "slow_world = \<lparr>w_os = quiet_os\<lparr>os_in := (\<lambda>_. [RData (map char_of_byte (rfc_header (WS_FIN OR WS_TEXT) (Some [1, 2, 3, 4]) 5)),
     RErr EWOULDBLOCK])\<rparr>, w_heap = [9 \<mapsto> Ws slow_ws]\<rparr>"

theorem lua_recv_overread_witness:
  "lua_recv plain_lua (small_binding DUCQ_METATABLE 9 [] (server_with slow_world)) = None"
  using lua_recv_overread [OF small_method, of 9 "[]" "server_with slow_world" slow_ws "[1, 2, 3, 4]" 5 "WS_FIN OR WS_TEXT" "[]"]
  by (simp add: small_binding_def server_with_def slow_world_def slow_ws_def wf_ws_def)

section \<open>What close leaves behind\<close>

lemma lua_close_run:
  assumes "method_call api p b" and "p \<noteq> 0" and "w_heap (re_world (bi_reactor b)) p = Some (Tcp c)"
    and "tcp_fd c \<noteq> - 1" and "os_close (w_os (re_world (bi_reactor b))) = []"
  shows "lua_close api b = Some (Inr 1, push_state api DUCQ_OK (b\<lparr>bi_reactor := (bi_reactor b)\<lparr>re_world := (re_world (bi_reactor b))
    \<lparr>w_os := log_call (CClose (tcp_fd c)) (w_os (re_world (bi_reactor b))),
     w_heap := (w_heap (re_world (bi_reactor b)))(p \<mapsto> Tcp (c\<lparr>tcp_fd := - 1\<rparr>))\<rparr>\<rparr>\<rparr>))"
proof -
  let ?w = "re_world (bi_reactor b)"
  have "sys_close (tcp_fd c) (w_os ?w) = (0, log_call (CClose (tcp_fd c)) (w_os ?w))"
    using assms(5) by (simp add: sys_close_def answer_def log_call_def)
  then have "vt_close (Tcp c) (w_os ?w) = Some (DUCQ_OK, Tcp (c\<lparr>tcp_fd := - 1\<rparr>), log_call (CClose (tcp_fd c)) (w_os ?w))"
    using assms(4) by (simp add: tcp_close_def inet_close_def)
  note run = deref_run [where f = vt_close, OF assms(2,3) this, of DUCQ_ENULL]
  show ?thesis
    using assms(1) run by (simp add: lua_close_def method_call_run on_client_def on_world_def ducq_close_def)
qed

text \<open>The last thing the operating system was asked for is to close that descriptor.\<close>

definition just_closed :: "int \<Rightarrow> ('l, 'd) reactor \<Rightarrow> bool" where
  "just_closed fd r \<longleftrightarrow> os_calls (w_os (re_world r)) \<noteq> [] \<and> last (os_calls (w_os (re_world r))) = CClose fd"

text \<open>C14: A Lua script that closes a TCP client closes its descriptor and leaves the slot as it was, with the closed
  descriptor in it.  When nobody is subscribed to the log and \<open>select\<close> fails for a set with a descriptor that has just
  been closed, every later turn of the main loop does one thing only: it gives the log function the
  failure of \<open>select\<close>.  After any number of turns the table and the clients are as they were, nothing has been
  read from any connection and nothing has been written to one; and the loop goes on for ever.\<close>

theorem lua_close_stops_server:
  fixes env :: "('l, 'd) loop_env"
  assumes "reactor_inv (bi_reactor b)" and "method_call api p b" and "live i p (bi_reactor b)"
    and "w_heap (re_world (bi_reactor b)) p = Some (Tcp c)" and "tcp_fd c = slot_fd i (bi_reactor b)"
    and "os_close (w_os (re_world (bi_reactor b))) = []" and "log_slots (bi_reactor b) = []"
    and "watched_fds (re_conns (bi_reactor b)) = Some fds"
    and "\<forall>n gds s. tcp_fd c \<in> set gds \<and> just_closed (tcp_fd c) s \<longrightarrow> (\<exists>e. env_select env n gds s = (- 1, [], with_errno e s))"
    and "\<forall>e. length (env_strerror env e) \<le> 60"
  shows "\<exists>b'. lua_close api b = Some (Inr 1, b') \<and> re_conns (bi_reactor b') = re_conns (bi_reactor b) \<and>
    (\<forall>n buffer. \<exists>es s. length es = n \<and> turns env n buffer (bi_reactor b') = Some (buffer, s) \<and>
      s = fold (starved env) es (bi_reactor b') \<and>
      re_conns s = re_conns (bi_reactor b') \<and> w_heap (re_world s) = w_heap (re_world (bi_reactor b')) \<and>
      os_in (w_os (re_world s)) = os_in (w_os (re_world (bi_reactor b'))) \<and>
      os_out (w_os (re_world s)) = os_out (w_os (re_world (bi_reactor b')))) \<and>
    ducq_loop env (bi_reactor b') = None"
proof -
  let ?r = "bi_reactor b"
  have p: "p \<noteq> 0" "tcp_fd c \<noteq> - 1"
    using reactor_invD(2) [OF assms(1,3)] assms(3,5) by (simp_all add: live_def slot_fd_def)
  define w where "w = (re_world ?r)\<lparr>w_os := log_call (CClose (tcp_fd c)) (w_os (re_world ?r)),
     w_heap := (w_heap (re_world ?r))(p \<mapsto> Tcp (c\<lparr>tcp_fd := - 1\<rparr>))\<rparr>"
  let ?s = "?r\<lparr>re_world := w\<rparr>"
  have run: "lua_close api b = Some (Inr 1, push_state api DUCQ_OK (b\<lparr>bi_reactor := ?s\<rparr>))"
    using lua_close_run [OF assms(2) p(1) assms(4) p(2) assms(6)] by (simp add: w_def)
  have heap: "same_heap (re_world ?r) w"
    using assms(4) by (auto simp: same_heap_def ids_ok_def w_def split: if_splits dest!: spec [of _ "Tcp c"] spec [of _ p])
  have "conn_fd (re_conns ?r ! i) \<in> set (map conn_fd (take DUCQ_MAX_CONNECTIONS (re_conns ?r)))"
    using assms(3) reactor_invD(1) [OF assms(1)] by (auto simp: live_def)
  then have fd: "tcp_fd c \<in> set fds"
    using assms(5,8) p(2) by (auto simp: watched_fds_def Let_def slot_fd_def split: if_splits)
  have fails: "select_fails env fds ?s"
    unfolding select_fails_def
  proof (intro allI impI)
    fix n :: int and s :: "('l, 'd) reactor"
    assume "os_calls (w_os (re_world s)) = os_calls (w_os (re_world ?s))"
    then have "just_closed (tcp_fd c) s"
      by (simp add: just_closed_def w_def log_call_def)
    then show "\<exists>e. env_select env n fds s = (- 1, [], with_errno e s)"
      using assms(9) fd by blast
  qed
  have inv: "reactor_inv ?s" and quiet: "log_slots ?s = []" and fds: "watched_fds (re_conns ?s) = Some fds"
    using inv_world [OF assms(1) heap] assms(7,8) by simp_all
  have "ducq_loop env ?s = None"
    by (rule loop_spins [OF inv quiet fds fails assms(10)])
  moreover have "\<exists>es s. length es = n \<and> turns env n buffer ?s = Some (buffer, s) \<and> s = fold (starved env) es ?s \<and>
      re_conns s = re_conns ?s \<and> w_heap (re_world s) = w_heap (re_world ?s) \<and>
      os_in (w_os (re_world s)) = os_in (w_os (re_world ?s)) \<and> os_out (w_os (re_world s)) = os_out (w_os (re_world ?s))" for n buffer
    using turns_starve [OF inv quiet fds fails assms(10), of n buffer] fold_starved [of env _ ?s] by blast
  ultimately show ?thesis
    using run by simp
qed

text \<open>A \<open>select\<close> that looks at the descriptors that have been closed.\<close>

definition strict_loop :: "('l, 'd) loop_env" where
  "strict_loop = \<lparr>env_dispatch = (\<lambda>p b n r. Some (DUCQ_OK, b, r)), env_accept = (\<lambda>f fd ctx r. Some r),
     env_select = (\<lambda>n fds r. if \<exists>fd \<in> set fds. just_closed fd r
        then (- 1, [], with_errno EOTHER r) else (0, [], r)), env_strerror = (\<lambda>e. ''error'')\<rparr>"

theorem lua_close_stops_server_witness:
  "\<exists>b'. lua_close plain_lua (small_binding DUCQ_METATABLE 9 [] (demo ''a'' ''b'')) = Some (Inr 1, b') \<and>
    re_conns (bi_reactor b') = re_conns (demo ''a'' ''b'') \<and>
    (\<exists>es. turns strict_loop 7 [] (bi_reactor b') = Some ([], fold (starved strict_loop) es (bi_reactor b')))"
proof -
  let ?b = "small_binding DUCQ_METATABLE 9 [] (demo ''a'' ''b'')"
  have r: "bi_reactor ?b = demo ''a'' ''b''"
    by (simp add: small_binding_def)
  have heap: "w_heap (re_world (demo ''a'' ''b'')) 9 = Some (Tcp (tcp_five\<lparr>tcp_fd := 5\<rparr>))"
    by (simp add: demo_world_def demo_tcp_def)
  have "watched_fds (re_conns (demo ''a'' ''b'')) = Some [5, 6]"
    by (simp add: demo_conn_list watched_fds_def demo_conn_def FD_SETSIZE_def)
  moreover have "log_slots (demo ''a'' ''b'') = []"
    by (auto simp: log_slots_def filter_empty_conv subscribed_def demo_live DUCQ_LOG_ROUTE_def
        demo_route [of "''a''" "''b''", simplified])
  moreover have "reactor_inv (demo ''a'' ''b'')"
    using serving_inv [OF demo_serving [of "''a''" "''b''"]] by simp
  moreover have "os_close (w_os (re_world (demo ''a'' ''b''))) = []"
    by (simp add: demo_world_def quiet_os_def)
  moreover have "\<forall>n gds s. 5 \<in> set gds \<and> just_closed 5 s \<longrightarrow> (\<exists>e. env_select strict_loop n gds s = (- 1, [], with_errno e s))"
    by (auto simp: strict_loop_def)
  moreover have "\<forall>e. length (env_strerror strict_loop e) \<le> 60"
    by (simp add: strict_loop_def)
  moreover have "live 0 9 (demo ''a'' ''b'')" "slot_fd 0 (demo ''a'' ''b'') = 5"
    by (simp_all add: demo_live demo_fd)
  moreover have "tcp_fd (tcp_five\<lparr>tcp_fd := 5\<rparr>) = 5"
    by simp
  ultimately have "\<exists>b'. lua_close plain_lua ?b = Some (Inr 1, b') \<and> re_conns (bi_reactor b') = re_conns (bi_reactor ?b) \<and>
    (\<forall>n buffer. \<exists>es s. length es = n \<and> turns strict_loop n buffer (bi_reactor b') = Some (buffer, s) \<and>
      s = fold (starved strict_loop) es (bi_reactor b') \<and>
      re_conns s = re_conns (bi_reactor b') \<and> w_heap (re_world s) = w_heap (re_world (bi_reactor b')) \<and>
      os_in (w_os (re_world s)) = os_in (w_os (re_world (bi_reactor b'))) \<and>
      os_out (w_os (re_world s)) = os_out (w_os (re_world (bi_reactor b')))) \<and>
    ducq_loop strict_loop (bi_reactor b') = None"
    using heap by (intro lua_close_stops_server [OF _ small_method, where i = 0 and fds = "[5, 6]" and c = "tcp_five\<lparr>tcp_fd := 5\<rparr>"])
      (simp_all only: r)
  then show ?thesis
    unfolding r by blast
qed

end
