(* ===== verification/Lua_Files.thy ===== *)
theory Lua_Files
  imports Dispatch_Facts
begin

text \<open>
  The Lua extensions of \<open>src/ducq_dispatcher.c\<close>: a directory is added, every Lua file in it is run, and the
  notifications of \<open>inotify\<close> have a changed file run again.  What Lua does when it runs a file is a parameter;
  the theorem is for files that run without an error and change nothing but the Lua state, in which the
  files that have been run can be read.
\<close>

section \<open>Files and the Lua state\<close>

definition set_lua :: "'s lua \<Rightarrow> ('l, 's) server \<Rightarrow> ('l, 's) server" where
  "set_lua L r = r\<lparr>re_dispatcher := map_option (\<lambda>d. d\<lparr>di_lua := Some L\<rparr>) (re_dispatcher r)\<rparr>"

definition lua_journal :: "('l, 's) disp_env \<Rightarrow> ('s \<Rightarrow> string list) \<Rightarrow> bool" where
  "lua_journal env files \<longleftrightarrow> (\<forall>path r L. lua_of r = Some L \<longrightarrow>
     (\<exists>L'. de_lua_file env path r = Some (None, set_lua L' r) \<and> files (lua_state L') = files (lua_state L) @ [path]))"

text \<open>A server that can run Lua and has no client on the log route.\<close>

definition lua_ready :: "('l, 's) server \<Rightarrow> bool" where
  "lua_ready r \<longleftrightarrow> reactor_inv r \<and> log_slots r = [] \<and> (\<exists>L. lua_of r = Some L \<and> lua_top L < LUA_MINSTACK)"

text \<open>The files \<open>ps\<close> have been run, and only the log and the Lua state have changed.\<close>

definition has_run :: "('s \<Rightarrow> string list) \<Rightarrow> string list \<Rightarrow> ('l, 's) server \<Rightarrow> ('l, 's) server \<Rightarrow> bool" where
  "has_run files ps r r' \<longleftrightarrow> (\<exists>l L L'. lua_of r = Some L \<and> r' = set_lua L' (r\<lparr>re_logger := l\<rparr>) \<and> lua_top L' = lua_top L \<and>
     files (lua_state L') = files (lua_state L) @ ps)"

lemma lua_of_set_lua [simp]: "lua_of r = Some L \<Longrightarrow> lua_of (set_lua L' r) = Some L'"
  by (auto simp: lua_of_def set_lua_def bind_Some_conv)

lemma lua_of_logger [simp]: "lua_of (r\<lparr>re_logger := l\<rparr>) = lua_of r"
  by (simp add: lua_of_def)

lemma set_lua_logger: "set_lua L (set_lua K r\<lparr>re_logger := l\<rparr>) = set_lua L (r\<lparr>re_logger := l\<rparr>)"
  by (cases "re_dispatcher r") (simp_all add: set_lua_def)

lemma set_lua_same: "lua_of r = Some L \<Longrightarrow> set_lua L r = r"
  by (cases "re_dispatcher r") (simp_all add: set_lua_def lua_of_def)

lemma ran_refl: "lua_ready r \<Longrightarrow> has_run files [] r r"
proof -
  assume "lua_ready r"
  then obtain L where "lua_of r = Some L"
    by (auto simp: lua_ready_def)
  then show ?thesis
    using set_lua_same [of r L] unfolding has_run_def by (intro exI [of _ "re_logger r"] exI [of _ L]) simp
qed

lemma ran_trans: "has_run files ps r s \<Longrightarrow> has_run files qs s t \<Longrightarrow> has_run files (ps @ qs) r t"
  unfolding has_run_def by (auto simp: set_lua_logger) blast

lemma ran_ready:
  assumes "has_run files ps r r'" and "lua_ready r"
  shows "lua_ready r'"
proof -
  obtain l L L' where "lua_of r = Some L" "r' = set_lua L' (r\<lparr>re_logger := l\<rparr>)" "lua_top L' = lua_top L"
    using assms(1) by (auto simp: has_run_def)
  then show ?thesis
    using assms(2) by (auto simp: lua_ready_def set_lua_def lua_of_def bind_Some_conv log_slots_def subscribed_def live_def
        route_at_def cong: filter_cong)
qed

lemma ran_extensions:
  "has_run files ps r r' \<Longrightarrow> re_dispatcher r = Some d \<Longrightarrow> \<exists>d'. re_dispatcher r' = Some d' \<and> di_extensions d' = di_extensions d"
  by (auto simp: has_run_def set_lua_def)

lemma ran_files: "has_run files ps r r' \<Longrightarrow> map_option (files \<circ> lua_state) (lua_of r') = map_option (\<lambda>L. files (lua_state L) @ ps) (lua_of r)"
  by (auto simp: has_run_def)

lemma log_as_ran:
  assumes "lua_ready r" and "length f + length s + length txt \<le> 240"
  shows "\<exists>r'. log_as lv f s txt r = Some r' \<and> has_run files [] r r'"
proof -
  obtain L where L: "lua_of r = Some L"
    using assms(1) by (auto simp: lua_ready_def)
  define e where "e = \<lparr>le_level = lv, le_function = f, le_sender = Some s, le_text = txt\<rparr>"
  have "length (ducq_level_tostr lv) \<le> 7"
    by (cases lv) simp_all
  then have "length (log_line e) < DUCQ_MSGSZ"
    using assms(2) by (simp add: log_line_def e_def fmt_str_def)
  then obtain rc l where "ducq_reactor_log e r = Some (rc, r\<lparr>re_logger := l\<rparr>)"
    using log_idle [of r e] assms(1) by (auto simp: lua_ready_def)
  moreover have "has_run files [] r (r\<lparr>re_logger := l\<rparr>)"
    using L set_lua_same [of "r\<lparr>re_logger := l\<rparr>" L] unfolding has_run_def by (intro exI [of _ l] exI [of _ L]) simp
  ultimately show ?thesis
    by (auto simp: log_as_def e_def)
qed

section \<open>Loading\<close>

lemma load_file_runs:
  assumes "lua_journal env files" and "lua_ready r" and "length path \<le> 190"
  shows "\<exists>r'. load_lua_file env path r = Some (DUCQ_OK, r') \<and> has_run files [path] r r'"
proof -
  obtain r1 where r1: "log_as DUCQ_LOG_INFO ''_load_lua_file'' ''dispatcher'' (''loading '' @ [CHR 0x27] @ path @ [CHR 0x27]) r = Some r1"
      "has_run files [] r r1"
    using log_as_ran [OF assms(2), of "''_load_lua_file''" "''dispatcher''" "''loading '' @ [CHR 0x27] @ path @ [CHR 0x27]"] assms(3)
    by auto
  obtain L where L: "lua_of r1 = Some L" "lua_top L < LUA_MINSTACK"
    using ran_ready [OF r1(2) assms(2)] by (auto simp: lua_ready_def)
  obtain L' where L': "de_lua_file env path r1 = Some (None, set_lua L' r1)" "files (lua_state L') = files (lua_state L) @ [path]"
    using assms(1) L(1) unfolding lua_journal_def by blast
  let ?r = "set_top (lua_top L) (set_lua L' r1)"
  have "?r = set_lua (L'\<lparr>lua_top := lua_top L\<rparr>) (r1\<lparr>re_logger := re_logger r1\<rparr>)"
    by (cases "re_dispatcher r1") (simp_all add: set_lua_def set_top_def)
  then have "has_run files [path] r1 ?r"
    unfolding has_run_def using L L'(2)
    by (intro exI [of _ "re_logger r1"] exI [of _ L] exI [of _ "L'\<lparr>lua_top := lua_top L\<rparr>"]) simp
  then have "has_run files [path] r ?r"
    using ran_trans [OF r1(2)] by fastforce
  moreover have "load_lua_file env path r = Some (DUCQ_OK, ?r)"
    using r1(1) L L'(1) by (simp add: load_lua_file_def lua_room_def)
  ultimately show ?thesis
    by blast
qed

definition is_lua :: "string \<Rightarrow> bool" where
  "is_lua name \<longleftrightarrow> strrchr_dot name = Some ''.lua''"

lemma load_names_runs:
  assumes "lua_journal env files" and "lua_ready r" and "de_closedir env path"
    and "\<forall>name \<in> set names. length path + length name \<le> 189"
  shows "\<exists>r'. load_lua_names env path names r = Some (DUCQ_OK, r') \<and> has_run files (map (full_path path) (filter is_lua names)) r r'"
  using assms(2,4)
proof (induction names arbitrary: r)
  case Nil
  then show ?case
    using ran_refl assms(3) by auto
next
  case (Cons name names)
  show ?case
  proof (cases "is_lua name")
    case True
    have "full_path path name = path @ ''/'' @ name"
      using Cons.prems(2) unfolding full_path_def by (subst snprintf_fits) (simp_all add: PATH_MAX_def)
    then have "length (full_path path name) \<le> 190"
      using Cons.prems(2) by simp
    then obtain r1 where r1: "load_lua_file env (full_path path name) r = Some (DUCQ_OK, r1)" "has_run files [full_path path name] r r1"
      using load_file_runs [OF assms(1) Cons.prems(1)] by blast
    obtain r2 where "load_lua_names env path names r1 = Some (DUCQ_OK, r2)" "has_run files (map (full_path path) (filter is_lua names)) r1 r2"
      using Cons.IH [OF ran_ready [OF r1(2) Cons.prems(1)]] Cons.prems(2) by auto
    moreover have "strrchr_dot name = Some ''.lua''"
      using True by (simp add: is_lua_def)
    ultimately show ?thesis
      using r1(1) ran_trans [OF r1(2)] True by fastforce
  next
    case False
    then show ?thesis
      using Cons by (auto simp: is_lua_def)
  qed
qed

lemma load_lua_runs:
  assumes "lua_journal env files" and "lua_ready r" and "length path \<le> 190"
  shows "de_stat env path = Some Regular \<Longrightarrow> \<exists>r'. load_lua env path r = Some (DUCQ_OK, r') \<and> has_run files [path] r r'"
    and "\<lbrakk>de_stat env path = Some Directory; de_readdir env path = Some names; de_closedir env path;
      \<forall>name \<in> set names. length path + length name \<le> 189\<rbrakk> \<Longrightarrow>
      \<exists>r'. load_lua env path r = Some (DUCQ_OK, r') \<and> has_run files (map (full_path path) (filter is_lua names)) r r'"
proof -
  show "de_stat env path = Some Regular \<Longrightarrow> \<exists>r'. load_lua env path r = Some (DUCQ_OK, r') \<and> has_run files [path] r r'"
    using load_file_runs [OF assms] by (simp add: load_lua_def)
next
  assume d: "de_stat env path = Some Directory" "de_readdir env path = Some names" "de_closedir env path"
      "\<forall>name \<in> set names. length path + length name \<le> 189"
  obtain r1 where r1: "log_as DUCQ_LOG_INFO ''_load_lua'' ''dispatcher'' (''loading '' @ [CHR 0x27] @ path @ [CHR 0x27]) r = Some r1"
      "has_run files [] r r1"
    using log_as_ran [OF assms(2), of "''_load_lua''" "''dispatcher''" "''loading '' @ [CHR 0x27] @ path @ [CHR 0x27]"] assms(3)
    by auto
  obtain r2 where "load_lua_names env path names r1 = Some (DUCQ_OK, r2)" "has_run files (map (full_path path) (filter is_lua names)) r1 r2"
    using load_names_runs [OF assms(1) ran_ready [OF r1(2) assms(2)] d(3,4)] by blast
  then show "\<exists>r'. load_lua env path r = Some (DUCQ_OK, r') \<and> has_run files (map (full_path path) (filter is_lua names)) r r'"
    using r1 d ran_trans [OF r1(2)] by (fastforce simp: load_lua_def)
qed

section \<open>Adding and reloading\<close>

lemma find_wd_Some:
  "find_wd wd es = Some i \<longleftrightarrow> i < length es \<and> ext_wd (es ! i) = wd \<and> (\<forall>j < i. ext_wd (es ! j) \<noteq> wd)"
proof (induction es arbitrary: i)
  case (Cons e es)
  then show ?case
    by (cases i) (auto simp: less_Suc_eq_0_disj)
qed simp

lemma find_wd_None: "find_wd wd es = None \<longleftrightarrow> (\<forall>e \<in> set es. ext_wd e \<noteq> wd)"
  by (induction es) auto

lemma add_runs:
  assumes "lua_journal env files" and "lua_ready r" and "re_dispatcher r = Some d"
    and "find_wd (- 1) (di_extensions d) = Some i" and "de_watch env path = wd" and "wd \<noteq> - 1"
    and "path \<noteq> []" and "last path \<noteq> CHR ''/''" and "length path \<le> 180"
    and "de_stat env path = Some Directory" and "de_stat env (path @ ''/'') = Some Directory"
    and "de_readdir env (path @ ''/'') = Some names" and "de_closedir env (path @ ''/'')"
    and "\<forall>name \<in> set names. length path + length name \<le> 188"
  shows "\<exists>r' d'. ducq_dispatcher_add env path r = Some (DUCQ_OK, r') \<and> lua_ready r' \<and>
    map_option (files \<circ> lua_state) (lua_of r') =
      map_option (\<lambda>L. files (lua_state L) @ map (full_path (path @ ''/'')) (filter is_lua names)) (lua_of r) \<and>
    re_dispatcher r' = Some d' \<and> di_extensions d' = (di_extensions d)[i := \<lparr>ext_wd = wd, ext_path = path @ ''/''\<rparr>]"
proof -
  let ?f = "''ducq_dispatcher_add''" and ?p = "path @ ''/''"
  let ?add = "''adding '' @ [CHR 0x27] @ ?p @ [CHR 0x27] @ '' ('' @ (if is_dir env ?p \<noteq> 0 then ''dir'' else ''file'') @ '')''"
  obtain r1 where r1: "log_as DUCQ_LOG_INFO ?f ''dispatcher'' (''request to add '' @ [CHR 0x27] @ path @ [CHR 0x27]) r = Some r1"
      "has_run files [] r r1"
    using log_as_ran [OF assms(2), of ?f "''dispatcher''" "''request to add '' @ [CHR 0x27] @ path @ [CHR 0x27]"] assms(9) by auto
  obtain d1 where d1: "re_dispatcher r1 = Some d1" "di_extensions d1 = di_extensions d"
    using ran_extensions [OF r1(2) assms(3)] by blast
  define d2 where "d2 = d1\<lparr>di_extensions := (di_extensions d)[i := \<lparr>ext_wd = wd, ext_path = ?p\<rparr>]\<rparr>"
  define r2 where "r2 = r1\<lparr>re_dispatcher := Some d2\<rparr>"
  have lua2: "lua_of r2 = lua_of r1"
    using d1(1) by (simp add: lua_of_def r2_def d2_def)
  have "subscribed P r2 = subscribed P r1" for P
    by (simp add: fun_eq_iff subscribed_def live_def route_at_def r2_def)
  then have "log_slots r2 = log_slots r1"
    by (simp add: log_slots_def r2_def)
  then have ready2: "lua_ready r2"
    using ran_ready [OF r1(2) assms(2)] lua2 by (simp add: lua_ready_def) (simp add: r2_def)
  have "length ?add \<le> 210"
    using assms(9) by simp
  then obtain r3 where r3: "log_as DUCQ_LOG_INFO ?f ''dispatcher'' ?add r2 = Some r3" "has_run files [] r2 r3"
    using log_as_ran [OF ready2, of ?f "''dispatcher''" ?add] by fastforce
  obtain r4 where r4: "load_lua env ?p r3 = Some (DUCQ_OK, r4)" "has_run files (map (full_path ?p) (filter is_lua names)) r3 r4"
    using load_lua_runs(2) [OF assms(1) ran_ready [OF r3(2) ready2] _ assms(11-13)] assms(9,14) by auto
  have e: "has_run files (map (full_path ?p) (filter is_lua names)) r2 r4"
    using ran_trans [OF r3(2) r4(2)] by simp
  have "ext_name env path = Some ?p"
    using assms(7-10) by (simp add: ext_name_def is_dir_def PATH_MAX_def)
  then have "ducq_dispatcher_add env path r = Some (DUCQ_OK, r4)"
    using r1(1) d1 assms(4-6) r3(1) r4(1) unfolding ducq_dispatcher_add_def
    by (simp add: r2_def d2_def)
  moreover have "map_option (files \<circ> lua_state) (lua_of r4) =
      map_option (\<lambda>L. files (lua_state L) @ map (full_path ?p) (filter is_lua names)) (lua_of r)"
    using ran_files [OF e] ran_files [OF r1(2)] lua2 by (cases "lua_of r"; cases "lua_of r1") auto
  moreover have "\<exists>d'. re_dispatcher r4 = Some d' \<and> di_extensions d' = di_extensions d2"
    using ran_extensions [OF e, of d2] by (simp add: r2_def)
  ultimately show ?thesis
    using ran_ready [OF e ready2] by (auto simp: d2_def)
qed

lemma reload_runs:
  assumes "lua_journal env files" and "lua_ready r" and "re_dispatcher r = Some d"
    and "find_wd wd (di_extensions d) = Some i" and "ext_path (di_extensions d ! i) = dir"
    and "\<forall>name \<in> set changed. de_stat env (dir @ name) = Some Regular \<and> length dir + length name \<le> 180"
  shows "\<exists>r'. reload_events env (map (\<lambda>name. (wd, name)) changed) r = Some r' \<and>
    has_run files (map (\<lambda>name. dir @ name) changed) r r'"
  using assms(2-6)
proof (induction changed arbitrary: r d)
  case Nil
  then show ?case
    using ran_refl by auto
next
  case (Cons name changed)
  let ?p = "dir @ name"
  have len: "length ?p \<le> 180" and st: "de_stat env ?p = Some Regular"
    using Cons.prems(5) by simp_all
  have path: "fst (snprintf PATH_MAX ?p) = ?p"
    using len by (subst snprintf_fits) (simp_all add: PATH_MAX_def)
  obtain r1 where r1: "log_as DUCQ_LOG_INFO ''ducq_dispatcher_accept_notify'' ''dispatcher'' (''reloading: '' @ [CHR 0x27] @ ?p @ [CHR 0x27]) r = Some r1"
      "has_run files [] r r1"
    using log_as_ran [OF Cons.prems(1), of "''ducq_dispatcher_accept_notify''" "''dispatcher''" "''reloading: '' @ [CHR 0x27] @ ?p @ [CHR 0x27]"] len
    by auto
  obtain r2 where r2: "load_lua env ?p r1 = Some (DUCQ_OK, r2)" "has_run files [?p] r1 r2"
    using load_lua_runs(1) [OF assms(1) ran_ready [OF r1(2) Cons.prems(1)] _ st] len by auto
  have e: "has_run files [?p] r r2"
    using ran_trans [OF r1(2) r2(2)] by simp
  obtain d2 where d2: "re_dispatcher r2 = Some d2" "di_extensions d2 = di_extensions d"
    using ran_extensions [OF e Cons.prems(2)] by blast
  obtain r3 where r3: "reload_events env (map (\<lambda>name. (wd, name)) changed) r2 = Some r3"
      "has_run files (map (\<lambda>name. dir @ name) changed) r2 r3"
    using Cons.IH [OF ran_ready [OF e Cons.prems(1)] d2(1)] Cons.prems(3-5) d2(2) by auto
  have "reload_events env (map (\<lambda>name. (wd, name)) (name # changed)) r = Some r3"
    using Cons.prems(2-4) r1(1) r2(1) r3(1) path by simp
  then show ?case
    using ran_trans [OF e r3(2)] by auto
qed

text \<open>C28: adding a directory runs its Lua files, and every later notification runs the changed files again.
  The files are run in the order of the directory and of the events, a changed file whatever its name is:
  the notifications do not ask for \<open>.lua\<close>.\<close>

theorem extension_reloaded:
  assumes "lua_journal env files" and "lua_ready r" and "re_dispatcher r = Some d"
    and "find_wd (- 1) (di_extensions d) = Some i" and "de_watch env path = wd" and "wd \<noteq> - 1"
    and "find_wd wd (di_extensions d) = None"
    and "path \<noteq> []" and "last path \<noteq> CHR ''/''" and "length path \<le> 100"
    and "de_stat env path = Some Directory" and "de_stat env (path @ ''/'') = Some Directory"
    and "de_readdir env (path @ ''/'') = Some names" and "de_closedir env (path @ ''/'')"
    and "\<forall>name \<in> set names. length name \<le> 70"
    and "\<And>r. de_notify env r = NotifyEvents (map (\<lambda>name. (wd, name)) changed)"
    and "\<forall>name \<in> set changed. de_stat env (path @ ''/'' @ name) = Some Regular \<and> length name \<le> 70"
  shows "\<exists>r1 r2. ducq_dispatcher_add env path r = Some (DUCQ_OK, r1) \<and>
    ducq_dispatcher_accept_notify env r1 = Some r2 \<and>
    map_option (files \<circ> lua_state) (lua_of r2) = map_option (\<lambda>L. files (lua_state L) @
      map (full_path (path @ ''/'')) (filter is_lua names) @ map (\<lambda>name. path @ ''/'' @ name) changed) (lua_of r)"
proof -
  obtain r1 d1 where r1: "ducq_dispatcher_add env path r = Some (DUCQ_OK, r1)" "lua_ready r1"
      "map_option (files \<circ> lua_state) (lua_of r1) =
        map_option (\<lambda>L. files (lua_state L) @ map (full_path (path @ ''/'')) (filter is_lua names)) (lua_of r)"
      "re_dispatcher r1 = Some d1" "di_extensions d1 = (di_extensions d)[i := \<lparr>ext_wd = wd, ext_path = path @ ''/''\<rparr>]"
    using add_runs [OF assms(1-6,8,9) _ assms(11-14)] assms(10,15) by fastforce
  have i: "i < length (di_extensions d)" "\<forall>j < length (di_extensions d). ext_wd (di_extensions d ! j) \<noteq> wd"
    using assms(4,7) by (auto simp: find_wd_Some find_wd_None)
  then have wd: "find_wd wd (di_extensions d1) = Some i" "ext_path (di_extensions d1 ! i) = path @ ''/''"
    using r1(5) by (auto simp: find_wd_Some nth_list_update)
  have "\<forall>name \<in> set changed. de_stat env ((path @ ''/'') @ name) = Some Regular \<and> length (path @ ''/'') + length name \<le> 180"
    using assms(10,17) by auto
  then obtain r2 where r2: "reload_events env (map (\<lambda>name. (wd, name)) changed) r1 = Some r2"
      "has_run files (map (\<lambda>name. (path @ ''/'') @ name) changed) r1 r2"
    using reload_runs [OF assms(1) r1(2,4) wd] by blast
  have "map_option (files \<circ> lua_state) (lua_of r2) = map_option (\<lambda>L. files (lua_state L) @
      map (full_path (path @ ''/'')) (filter is_lua names) @ map (\<lambda>name. path @ ''/'' @ name) changed) (lua_of r)"
    using ran_files [OF r2(2)] r1(3) by (cases "lua_of r"; cases "lua_of r1") auto
  then show ?thesis
    using r1(1) r2(1) assms(16) by (auto simp: ducq_dispatcher_accept_notify_def)
qed

section \<open>Witness\<close>

text \<open>A Lua whose state is the list of the files it has run.\<close>

definition journal_env :: "(unit, string list) disp_env" where
  "journal_env =
     \<lparr>de_exec = (\<lambda>f p buffer n r. Some (DUCQ_OK, buffer, r)),
      de_readdir = (\<lambda>path. Some [''.'', ''a.lua'', ''b.txt'']), de_closedir = (\<lambda>path. True),
      de_dlopen = (\<lambda>path. DlFailed []),
      de_stat = (\<lambda>path. Some (if path = ''ext'' \<or> path = ''ext/'' then Directory else Regular)),
      de_watch = (\<lambda>path. 1), de_notify = (\<lambda>r. NotifyEvents [(1, ''c.swp''), (1, ''a.lua'')]),
      de_strerror = (\<lambda>e. ''error''), de_lua_new = (None, []),
      de_lua_file = (\<lambda>path r. Some (None, case lua_of r of None \<Rightarrow> r
        | Some L \<Rightarrow> set_lua (L\<lparr>lua_state := lua_state L @ [path]\<rparr>) r)),
      de_lua_commands = (\<lambda>s. None), de_lua_call = (\<lambda>name p msg r. Some (LuaState DUCQ_OK, r))\<rparr>"

definition journal_dispatcher :: "string list dispatcher" where
  "journal_dispatcher =
     \<lparr>di_cmds = None, di_lua = Some \<lparr>lua_state = [], lua_top = 0\<rparr>, di_notifyfd = 3,
      di_extensions = replicate MAX_EXTENSIONS \<lparr>ext_wd = - 1, ext_path = []\<rparr>\<rparr>"

definition journal_server :: "(unit, string list) server" where
  "journal_server =
     \<lparr>re_world = demo_world, re_conns = re_conns (demo ''b'' ''a''), re_dispatcher = Some journal_dispatcher,
      re_allow_log_route = True, re_logfunc = no_log, re_logger = (), re_last_msgs = cleared demo_store\<rparr>"

lemma journal_ready: "lua_ready journal_server"
proof -
  have f: "re_conns journal_server = re_conns (demo ''b'' ''a'')" "re_world journal_server = re_world (demo ''b'' ''a'')"
    by (simp_all add: journal_server_def)
  have "serving journal_server"
    using serving_fields [OF f] demo_quiet(1) by simp
  moreover have "log_slots journal_server = []"
    using demo_quiet(4) by (simp add: log_slots_def subscribed_def live_def route_at_def f filter_empty_conv)
  ultimately show ?thesis
    using serving_inv by (simp add: lua_ready_def lua_of_def journal_server_def journal_dispatcher_def LUA_MINSTACK_def)
qed

theorem extension_reloaded_witness:
  "\<exists>r1 r2. ducq_dispatcher_add journal_env ''ext'' journal_server = Some (DUCQ_OK, r1) \<and>
    ducq_dispatcher_accept_notify journal_env r1 = Some r2 \<and>
    map_option lua_state (lua_of r2) = Some [''ext//a.lua'', ''ext/c.swp'', ''ext/a.lua'']"
proof -
  have j: "lua_journal journal_env (\<lambda>files. files)"
    by (auto simp: lua_journal_def journal_env_def)
  have d: "re_dispatcher journal_server = Some journal_dispatcher"
    by (simp add: journal_server_def)
  have wd: "find_wd (- 1) (di_extensions journal_dispatcher) = Some 0" "find_wd 1 (di_extensions journal_dispatcher) = None"
    by (simp_all add: journal_dispatcher_def MAX_EXTENSIONS_def find_wd_None numeral_eq_Suc)
  have e: "de_watch journal_env ''ext'' = 1" "de_stat journal_env ''ext'' = Some Directory"
      "de_stat journal_env (''ext'' @ ''/'') = Some Directory"
      "de_readdir journal_env (''ext'' @ ''/'') = Some [''.'', ''a.lua'', ''b.txt'']" "de_closedir journal_env (''ext'' @ ''/'')"
      "\<And>r. de_notify journal_env r = NotifyEvents (map (\<lambda>name. (1, name)) [''c.swp'', ''a.lua''])"
      "\<forall>name \<in> set [''c.swp'', ''a.lua'']. de_stat journal_env (''ext'' @ ''/'' @ name) = Some Regular \<and> length name \<le> 70"
      "\<forall>name \<in> set [''.'', ''a.lua'', ''b.txt'']. length name \<le> 70"
    by (simp_all add: journal_env_def)
  have "filter is_lua [''.'', ''a.lua'', ''b.txt''] = [''a.lua'']"
    by (simp add: is_lua_def strrchr_dot_def)
  moreover have "lua_of journal_server = Some \<lparr>lua_state = [], lua_top = 0\<rparr>"
    by (simp add: lua_of_def d journal_dispatcher_def)
  ultimately show ?thesis
    using extension_reloaded [OF j journal_ready d wd(1) e(1) _ wd(2) _ _ _ e(2-5,8,6,7)]
    by (auto simp: full_path_def snprintf_def PATH_MAX_def comp_def)
qed

end
