(* ===== verification/Browser_Session.thy ===== *)
theory Browser_Session
  imports Mixed_Turn
begin

text \<open>
  A browser: an HTTP connection that asks for a WebSocket and publishes over it.  The first turn of the main loop
  reads the header and answers the upgrade, the second reads a masked frame and publishes its message.
\<close>

section \<open>Reading the header\<close>

text \<open>The header comes in pieces, and nothing behind it before it has been answered.\<close>

lemma strstr_prefix:
  assumes "strstr (xs @ ys) p = Some i" and "length xs < i + length p"
  shows "strstr xs p = None"
proof (cases "strstr xs p")
  case (Some j)
  then have j: "j + length p \<le> length xs" "take (length p) (drop j xs) = p"
    by (simp_all add: strstr_Some)
  then have j': "take (length p) (drop j (xs @ ys)) = p"
    by simp
  have "\<forall>j < i. take (length p) (drop j (xs @ ys)) \<noteq> p"
    using assms(1) unfolding strstr_Some by blast
  then have "\<not> j < i"
    using j' by blast
  then show ?thesis
    using j(1) assms(2) by simp
qed simp

lemma strstr_append: "strstr xs p = Some i \<Longrightarrow> strstr (xs @ ys) p = Some i"
  unfolding strstr_Some by auto

text \<open>What is behind the text in the array does not complete the end of a header when it has no line feed.\<close>

lemma strstr_stale:
  assumes "strstr xs (p @ [c]) = None" and "c \<notin> set ys"
  shows "strstr (xs @ ys) (p @ [c]) = None"
proof (rule ccontr)
  assume "strstr (xs @ ys) (p @ [c]) \<noteq> None"
  then obtain i where "strstr (xs @ ys) (p @ [c]) = Some i"
    by blast
  then have i: "i + length p < length xs + length ys" "take (Suc (length p)) (drop i (xs @ ys)) = p @ [c]"
      "\<forall>j < i. take (Suc (length p)) (drop j (xs @ ys)) \<noteq> p @ [c]"
    by (auto simp: strstr_Some)
  have "(xs @ ys) ! (i + length p) = take (Suc (length p)) (drop i (xs @ ys)) ! length p"
    using i(1) by (simp del: take_append drop_append)
  then have at: "(xs @ ys) ! (i + length p) = c"
    unfolding i(2) by simp
  have lt: "i + length p < length xs"
  proof (rule ccontr)
    assume "\<not> i + length p < length xs"
    then have "ys ! (i + length p - length xs) = c" and "i + length p - length xs < length ys"
      using at i(1) by (auto simp: nth_append)
    then show False
      using assms(2) nth_mem by blast
  qed
  then have "take (length (p @ [c])) (drop j (xs @ ys)) = take (length (p @ [c])) (drop j xs)" if "j \<le> i" for j
    using that by simp
  then have "strstr xs (p @ [c]) = Some i"
    using i(2,3) lt by (simp add: strstr_Some)
  then show False
    using assms(1) by simp
qed

lemma only_read_event:
  "os_in s fd = RData x # es \<Longrightarrow> length x \<le> n \<Longrightarrow> sys_read fd n s = (int (length x), x, s\<lparr>os_in := (os_in s)(fd := es)\<rparr>)"
  by (simp add: sys_read_def)

text \<open>The bytes of an array up to the first terminator.\<close>

abbreviation upto_NUL :: "char list \<Rightarrow> string" where
  "upto_NUL \<equiv> takeWhile (\<lambda>c. c \<noteq> NUL)"

lemma c_str_stale: "NUL \<notin> set xs \<Longrightarrow> NUL \<in> set ys \<Longrightarrow> c_str (xs @ ys) 0 = Some (xs @ upto_NUL ys)"
  by (auto simp: c_str_def takeWhile_append)

text \<open>The array has any contents \<open>H\<close> behind what has been read: it needs a terminator behind the request, and no
  line feed unless the request comes in one piece.\<close>

lemma header_pieces:
  assumes "os_in s fd = map RData ps @ es" and "\<forall>x \<in> set ps. x \<noteq> []" and "ps \<noteq> []"
    and "d @ concat ps = h @ CRLF" and "strstr (d @ concat ps) (CRLF @ CRLF) = Some (length h - 2)" and "2 \<le> length h"
    and "NUL \<notin> set (d @ concat ps)" and "NUL \<in> set (drop (length (concat ps)) H)" and "length ps = 1 \<or> LF \<notin> set H"
  shows "\<exists>t. http_header_loop fd (d @ H) (length d) (length d + length H) s =
      Some (int (length h + 2), Some (length h), h @ CRLF @ drop (length (concat ps)) H, t) \<and>
    only_read fd s t \<and> os_in t fd = es"
  using assms
proof (induction ps arbitrary: d H s)
  case (Cons x ps)
  let ?s = "s\<lparr>os_in := (os_in s)(fd := map RData ps @ es)\<rparr>" and ?H = "drop (length x) H"
  have long: "length (concat (x # ps)) < length H"
    using Cons.prems(8) by (metis drop_all empty_iff empty_set linorder_not_less)
  have x: "x \<noteq> []" "length x < length H" and nul: "NUL \<notin> set (d @ x)"
    using Cons.prems(2,7) long by auto
  have stale: "NUL \<in> set ?H"
    using Cons.prems(8) in_set_dropD [of NUL "length (concat ps)" ?H] by (simp add: add.commute)
  have rd: "sys_read fd (length H) s = (int (length x), x, ?s)"
    using only_read_event [of s fd x "map RData ps @ es" "length H"] Cons.prems(1) x(2) by simp
  have wr: "mem_write (d @ H) (length d) x = Some ((d @ x) @ ?H)"
    using x(2) by (simp add: mem_write_def)
  have cs: "c_str ((d @ x) @ ?H) 0 = Some ((d @ x) @ upto_NUL ?H)"
    by (rule c_str_stale [OF nul stale])
  have ne: "H \<noteq> []" and two: "Suc (Suc (length h - 2)) = length h"
    using x(2) Cons.prems(6) by auto
  have len: "length d + length x + length (concat ps) = length h + 2"
    using arg_cong [where f = length, OF Cons.prems(4)] by (simp add: CRLF_def)
  show ?case
  proof (cases ps)
    case Nil
    then have "strstr (d @ x) (CRLF @ CRLF) = Some (length h - 2)"
      using Cons.prems(5) by simp
    then have "strstr ((d @ x) @ upto_NUL ?H) (CRLF @ CRLF) = Some (length h - 2)"
      by (rule strstr_append)
    then have "http_header_loop fd (d @ H) (length d) (length d + length H) s =
        Some (int (length h + 2), Some (length h), (d @ x) @ ?H, ?s)"
      using rd wr cs x len ne two Nil by (subst http_header_loop.simps) simp
    moreover have "only_read fd s ?s"
      by (rule only_read_data)
    ultimately show ?thesis
      using Cons.prems(4) Nil by auto
  next
    case (Cons y qs)
    then have "length (d @ x) < length h - 2 + length (CRLF @ CRLF)"
      using len Cons.prems(2,6) by (cases y) (auto simp: CRLF_def)
    then have "strstr (d @ x) (CRLF @ CRLF) = None"
      using strstr_prefix [of "d @ x" "concat ps" "CRLF @ CRLF" "length h - 2"] Cons.prems(5) by simp
    moreover have lf: "LF \<notin> set H"
      using Cons.prems(9) Cons by simp
    then have "LF \<notin> set (upto_NUL ?H)"
      by (auto dest: set_takeWhileD in_set_dropD)
    ultimately have "strstr ((d @ x) @ upto_NUL ?H) (CRLF @ CRLF) = None"
      using strstr_stale [of "d @ x" "CRLF @ [CR]" LF "upto_NUL ?H"] by (simp add: CRLF_def)
    then have step: "http_header_loop fd (d @ H) (length d) (length d + length H) s =
        http_header_loop fd ((d @ x) @ ?H) (length (d @ x)) (length (d @ x) + length ?H) ?s"
      using rd wr cs x ne by (subst http_header_loop.simps) simp
    have "NUL \<in> set (drop (length (concat ps)) ?H)" and "LF \<notin> set ?H"
      using Cons.prems(8) lf by (auto simp: add.commute dest: in_set_dropD)
    then obtain t where t: "http_header_loop fd ((d @ x) @ ?H) (length (d @ x)) (length (d @ x) + length ?H) ?s =
        Some (int (length h + 2), Some (length h), h @ CRLF @ drop (length (concat ps)) ?H, t)"
        "only_read fd ?s t" "os_in t fd = es"
      using Cons.IH [of ?s "d @ x" ?H] Cons.prems(2,4-7) Cons by auto
    show ?thesis
      using t only_read_trans [OF only_read_data t(2)] unfolding step by (simp add: add.commute)
  qed
qed simp

section \<open>The upgrade\<close>

text \<open>The request of a browser: lines up to the empty one, with a key of 24 characters behind the first mention
  of its field.\<close>

definition upgrade_request :: "string \<Rightarrow> string \<Rightarrow> nat \<Rightarrow> string \<Rightarrow> string \<Rightarrow> bool" where
  "upgrade_request h pre b key rest \<longleftrightarrow> h = key_header pre (Suc b) key rest \<and> NUL \<notin> set h \<and> 2 \<le> length h \<and>
     strstr (h @ CRLF) (CRLF @ CRLF) = Some (length h - 2) \<and> strstr h (CRLF @ ''Upgrade; websocket'' @ CRLF) = None \<and>
     strstr h SEC_WEBSOCKET_KEY = Some (length pre) \<and> length key = 24 \<and> hd key \<noteq> SP \<and> CR \<notin> set key"

text \<open>The header array, which the constructor does not initialise, as far as the reading depends on it.\<close>

definition header_ready :: "string \<Rightarrow> char list list \<Rightarrow> char list \<Rightarrow> bool" where
  "header_ready h ps H \<longleftrightarrow> NUL \<in> set (drop (length h + 2) H) \<and> (length ps = 1 \<or> LF \<notin> set H)"

lemma http_upgrades:
  assumes "upgrade_request h pre b key rest" and "http_ws c = None" and "header_ready h ps (http_header c)"
    and "os_in s (http_fd c) = map RData ps @ es" and "\<forall>x \<in> set ps. x \<noteq> []" and "concat ps = h @ CRLF"
    and "writable (os_wr s (http_fd c))" and "os_malloc s = []"
  shows "\<exists>c' u. http_recv c buf n s = Some (DUCQ_PROTOCOL, n, buf, c', u) \<and>
    link_of (Http c') = (WsLink False, http_fd c) \<and> client_wf (Http c') \<and> (client_ok (Http c) \<longrightarrow> client_ok (Http c')) \<and>
    only_on (http_fd c) s u \<and> os_out u (http_fd c) = os_out s (http_fd c) @ ws_upgrade_reply (accept_value key) \<and>
    os_in u (http_fd c) = es \<and> writable (os_wr u (http_fd c)) \<and> os_malloc u = []"
proof -
  let ?fd = "http_fd c"
  note q = assms(1) [unfolded upgrade_request_def]
  let ?H = "drop (length (concat ps)) (http_header c)"
  have "ps \<noteq> []"
    using assms(6) by (auto simp: CRLF_def)
  moreover have "[] @ concat ps = h @ CRLF" "strstr ([] @ concat ps) (CRLF @ CRLF) = Some (length h - 2)" "2 \<le> length h"
      "NUL \<notin> set ([] @ concat ps)"
    using q assms(6) by (auto simp: CRLF_def)
  moreover have "NUL \<in> set ?H" "length ps = 1 \<or> LF \<notin> set (http_header c)"
    using assms(3,6) by (simp_all add: header_ready_def CRLF_def)
  ultimately obtain t where t: "http_header_loop ?fd (http_header c) 0 (length (http_header c)) s =
      Some (int (length h + 2), Some (length h), h @ CRLF @ ?H, t)" "only_read ?fd s t" "os_in t ?fd = es"
    using header_pieces [OF assms(4,5), of "[]" h "http_header c"] by auto
  have cut: "mem_write (h @ CRLF @ ?H) (length h) [NUL] = Some (h @ NUL # LF # ?H)"
    by (simp add: mem_write_def CRLF_def)
  have "NUL \<notin> set h"
    using q by blast
  then have cs: "c_str (h @ NUL # LF # ?H) 0 = Some h"
    by simp
  have wr: "writable (os_wr t ?fd)" and mem: "answer True (os_malloc t)" "os_malloc t = []"
    using only_readD(2,7) [OF t(2)] assms(7,8) by (simp_all add: answer_def)
  obtain w arr u where w: "ducq_new_ws_upgrade_from_http ?fd (h @ NUL # LF # ?H) t =
        Some (DUCQ_PROTOCOL, Some w, arr, u\<lparr>os_malloc := tl (os_malloc u)\<rparr>)" "wf_ws w" "ws_fd w = ?fd"
      "\<not> ws_is_client w" "ws_id w = []" "only_wrote ?fd (ws_upgrade_reply (accept_value key)) t u" "writable (os_wr u ?fd)"
    using upgrade_accepts [of pre b key rest t ?fd "LF # ?H"] q wr mem(1) by auto
  let ?u = "u\<lparr>os_malloc := tl (os_malloc u)\<rparr>" and ?c = "c\<lparr>http_header := arr, http_ws := Some w\<rparr>"
  have "strstr h (CRLF @ ''Upgrade; websocket'' @ CRLF) = None"
    using q by blast
  then have "http_recv c buf n s = Some (DUCQ_PROTOCOL, n, buf, ?c, ?u)"
    using t(1) cut cs w(1) assms(2) by (simp add: http_recv_def inet_get_http_header_def)
  moreover have "only_on ?fd s ?u"
    using only_on_trans [OF only_on_read [OF t(2)] only_on_wrote [OF w(6)]] assms(8)
    by (simp add: only_on_def)
  moreover have "os_out ?u ?fd = os_out s ?fd @ ws_upgrade_reply (accept_value key)" "os_in ?u ?fd = es" "os_malloc ?u = []"
    using only_wroteD [OF w(6)] only_readD(1) [OF t(2)] t(3) mem(2) by simp_all
  moreover have "link_of (Http ?c) = (WsLink False, ?fd)" "client_wf (Http ?c)" "client_ok (Http c) \<longrightarrow> client_ok (Http ?c)"
    using w(2-5) by (simp_all add: ws_link_def)
  ultimately show ?thesis
    using w(7) by (intro exI [of _ ?c] exI [of _ ?u]) simp
qed

section \<open>What is left in the array\<close>

text \<open>Without a terminator behind what has been read the search for the end of the header runs over the array.\<close>

theorem stale_header_overread:
  assumes "http_ws c = None" and "os_in s (http_fd c) = RData x # es" and "x \<noteq> []" and "length x < length (http_header c)"
    and "NUL \<notin> set x" and "NUL \<notin> set (drop (length x) (http_header c))"
  shows "http_recv c buf n s = None"
proof -
  have "NUL \<notin> set (x @ drop (length x) (http_header c))" and ne: "http_header c \<noteq> []"
    using assms(4-6) by auto
  then have "c_str (x @ drop (length x) (http_header c)) 0 = None"
    by (simp add: c_str_def)
  then have "http_header_loop (http_fd c) (http_header c) 0 (length (http_header c)) s = None"
    using only_read_event [OF assms(2), of "length (http_header c)"] assms(3,4) ne
    by (subst http_header_loop.simps) (simp add: mem_write_def)
  then show ?thesis
    using assms(1) by (simp add: http_recv_def inet_get_http_header_def)
qed

text \<open>Bytes of an old request complete a piece of the new one: the header ends where the old one did, and the rest
  of the request is left on the connection.\<close>

theorem stale_header_ends_early:
  assumes "os_in s fd = RData x # es" and "x \<noteq> []" and "length x < length H" and "NUL \<notin> set x"
    and "NUL \<in> set (drop (length x) H)" and "strstr (x @ upto_NUL (drop (length x) H)) (CRLF @ CRLF) = Some e"
  shows "\<exists>s'. inet_get_http_header fd H (length H) s =
      Some (int (length x), Some (e + 2), x @ drop (length x) H, s') \<and> os_in s' fd = es"
proof -
  have "H \<noteq> []"
    using assms(3) by auto
  then show ?thesis
    using only_read_event [OF assms(1), of "length H"] c_str_stale [OF assms(4,5)] assms(2,3,6)
    unfolding inet_get_http_header_def by (subst http_header_loop.simps) (simp add: mem_write_def)
qed

section \<open>Two turns\<close>

text \<open>The reactor after the upgrade: the client in the slot is a WebSocket, everybody else is as before.\<close>

lemma upgrade_turn:
  assumes "connected r" and "live i p r" and "only_ready env i r" and "w_heap (re_world r) p = Some (Http c)"
    and "upgrade_request h pre b key rest" and "http_ws c = None" and "header_ready h ps (http_header c)"
    and "os_in (w_os (re_world r)) (slot_fd i r) = map RData ps @ es" and "\<forall>x \<in> set ps. x \<noteq> []" and "concat ps = h @ CRLF"
    and "writable (os_wr (w_os (re_world r)) (slot_fd i r))" and "os_malloc (w_os (re_world r)) = []"
  shows "\<exists>s. ducq_loop_turn env buffer r = Some (replicate DUCQ_MSGSZ NUL, s) \<and>
    connected s \<and> re_conns s = re_conns r \<and> re_dispatcher s = re_dispatcher r \<and> re_allow_log_route s = re_allow_log_route r \<and>
    re_last_msgs s = re_last_msgs r \<and> os_malloc (w_os (re_world s)) = [] \<and>
    link_at p s = Some (WsLink False, slot_fd i r) \<and> reliable i p s \<and> os_in (w_os (re_world s)) (slot_fd i r) = es \<and>
    out_of (slot_fd i r) s = out_of (slot_fd i r) r @ ws_upgrade_reply (accept_value key) \<and>
    (\<forall>j q. live j q r \<longrightarrow> j \<noteq> i \<longrightarrow> stays [] j q r s)"
proof -
  have fd: "http_fd c = slot_fd i r"
    using connectedD(2) [OF assms(1,2)] assms(4,6) by auto
  have p: "p \<noteq> 0"
    using reactor_invD(2) [OF connectedD(1) [OF assms(1)] assms(2)] .
  have i: "i < DUCQ_MAX_CONNECTIONS" "conn_fd (re_conns r ! i) \<noteq> - 1"
    using assms(2) by (simp_all add: live_def)
  obtain area where as: "conn_as (re_conns r ! i) = AsClient p area"
    using assms(2) by (auto simp: live_def conn_client_def split: conn_as.splits)
  let ?b = "replicate DUCQ_MSGSZ NUL"
  obtain c' u where u: "http_recv c ?b DUCQ_MSGSZ (w_os (re_world r)) = Some (DUCQ_PROTOCOL, DUCQ_MSGSZ, ?b, c', u)"
      "link_of (Http c') = (WsLink False, slot_fd i r)" "client_wf (Http c')" "client_ok (Http c) \<longrightarrow> client_ok (Http c')"
      "only_on (slot_fd i r) (w_os (re_world r)) u"
      "os_out u (slot_fd i r) = os_out (w_os (re_world r)) (slot_fd i r) @ ws_upgrade_reply (accept_value key)"
      "os_in u (slot_fd i r) = es" "writable (os_wr u (slot_fd i r))" "os_malloc u = []"
    using http_upgrades [OF assms(5-7), of "w_os (re_world r)" es ?b DUCQ_MSGSZ] assms(8-12) unfolding fd by blast
  let ?s = "with_client p (Http c') u r"
  have recv: "vt_recv ?b DUCQ_MSGSZ (Http c) (w_os (re_world r)) = Some ((DUCQ_PROTOCOL, DUCQ_MSGSZ, ?b), Http c', u)"
    using u(1) by simp
  have "ducq_recv p ?b DUCQ_MSGSZ (re_world r) =
      Some ((DUCQ_PROTOCOL, DUCQ_MSGSZ, ?b), (re_world r)\<lparr>w_os := u, w_heap := (w_heap (re_world r))(p \<mapsto> Http c')\<rparr>)"
    unfolding ducq_recv_def by (rule deref_run [where f = "vt_recv ?b DUCQ_MSGSZ", OF p assms(4) recv])
  then have "on_world (ducq_recv p ?b DUCQ_MSGSZ) r = Some ((DUCQ_PROTOCOL, DUCQ_MSGSZ, ?b), ?s)"
    by (simp add: on_world_def with_client_def)
  then have hook: "round_table env [slot_fd i r] i (buffer, 1) r = Some (DUCQ_LOOP_BREAK, (?b, 0), ?s)"
    using as by (simp add: round_table_def slot_fd_def)
  then have "\<forall>c x s. round_table env [slot_fd i r] i (buffer, 1) r = Some (c, x, s) \<longrightarrow> c AND DUCQ_LOOP_BREAK \<noteq> 0"
    by auto
  from ready_slot [OF assms(3) i this] have run: "ducq_loop_turn env buffer r = Some (?b, ?s)"
    unfolding hook by simp
  have "snd (link_of (Http c')) = snd (link_of (Http c))"
    using u(2) fd assms(6) by simp
  from with_client_connected [OF assms(1,4) this u(3,4)] have "connected ?s" .
  moreover have "link_at p ?s = Some (WsLink False, slot_fd i r)"
    using u(2) by (simp add: with_client_links)
  moreover have "stays [] j q r ?s" if "live j q r" "j \<noteq> i" for j q
    by (rule with_client_others [OF assms(1,2) u(5) that])
  ultimately show ?thesis
    using run u(6-9) assms(2) by (intro exI [of _ ?s]) (simp add: reliable_def out_of_def)
qed

text \<open>C6: a browser publishes.  An HTTP connection sends an upgrade request and then, over the WebSocket it has been
  given, a \<open>pub\<close> message.  The first turn of the main loop answers 101 with the accept value of the key to the
  browser and nothing to anybody else; the second turn acknowledges the message with a WebSocket frame and
  delivers it to the subscribers, each on its own transport: a subscriber that does not take it is removed and freed.
  The browser takes every byte it is sent, and nobody is subscribed to the log.
  The header array of the connection, which nothing initialises, may hold anything that has a terminator behind the
  request and, when the request comes in several pieces, no line feed (\<open>header_ready\<close>); the theorems behind
  show what other contents do.\<close>

theorem browser_publishes:
  assumes "connected r" and "live i p r" and "log_slots r = []" and "os_malloc (w_os (re_world r)) = []"
    and "\<And>s. re_conns s = re_conns r \<Longrightarrow> only_ready env i s" and "env_dispatch env = ducq_dispatch denv"
    and "re_dispatcher r = Some d" and "find_loaded ''pub'' (commands_of d) = Some exec" and "de_exec denv exec = pub"
    and "w_heap (re_world r) p = Some (Http c)" and "http_ws c = None" and "header_ready h ps (http_header c)"
    and "upgrade_request h pre b key rest"
    and "os_in (w_os (re_world r)) (slot_fd i r) = map RData ps @ es" and "\<forall>x \<in> set ps. x \<noteq> []" and "concat ps = h @ CRLF"
    and "writable (os_wr (w_os (re_world r)) (slot_fd i r))"
    and "publishable route payload r" and "fluent es" and "length msk = 4"
    and "rd_bytes es = ws_frame (WS_FIN OR WS_TEXT) (Some msk) (message_text ''pub'' route payload) @ tail"
  shows "\<exists>b1 r1 b2 r2. ducq_loop_turn env buffer r = Some (b1, r1) \<and> ducq_loop_turn env b1 r1 = Some (b2, r2) \<and> reactor_inv r2 \<and>
    out_of (slot_fd i r) r1 = out_of (slot_fd i r) r @ ws_upgrade_reply (accept_value key) \<and> link_at p r1 = Some (WsLink False, slot_fd i r) \<and>
    (\<forall>j q t. live j q r \<longrightarrow> route_at j r = Some t \<longrightarrow> (j \<noteq> i \<longrightarrow> out_of (slot_fd j r) r1 = out_of (slot_fd j r) r) \<and>
      outcome (j = i) (ducq_route_cmp (Some t) (Some route)) (message_text ''pub'' route payload) j q r1 r2)"
proof -
  obtain r1 where r1: "ducq_loop_turn env buffer r = Some (replicate DUCQ_MSGSZ NUL, r1)"
      "connected r1" "re_conns r1 = re_conns r" "re_dispatcher r1 = re_dispatcher r" "re_allow_log_route r1 = re_allow_log_route r"
      "re_last_msgs r1 = re_last_msgs r" "os_malloc (w_os (re_world r1)) = []"
      "link_at p r1 = Some (WsLink False, slot_fd i r)" "reliable i p r1" "os_in (w_os (re_world r1)) (slot_fd i r) = es"
      "out_of (slot_fd i r) r1 = out_of (slot_fd i r) r @ ws_upgrade_reply (accept_value key)"
      "\<forall>j q. live j q r \<longrightarrow> j \<noteq> i \<longrightarrow> stays [] j q r r1"
    using upgrade_turn [OF assms(1,2) assms(5) [OF refl] assms(10,13,11,12,14-17,4), of buffer] by blast
  have tab: "live j q r1 = live j q r" "slot_fd j r1 = slot_fd j r" "route_at j r1 = route_at j r" for j q
    by (simp_all add: live_def slot_fd_def route_at_def r1(3))
  then have sub: "subscribed P r1 = subscribed P r" for P
    by (simp add: subscribed_def fun_eq_iff)
  have "log_slots r1 = log_slots r"
    by (simp add: log_slots_def r1(5) sub)
  then have "log_slots r1 = []"
    using assms(3) by simp
  then have ready: "mixed_ready env denv i p r1"
    using r1(2,4,7) assms(2,5-9) tab(1) r1(3) by (auto simp: mixed_ready_def)
  have pubable: "publishable route payload r1"
    using assms(18) by (simp add: publishable_def r1(6))
  have "stream (slot_fd i r) (w_os (re_world r1)) = rd_bytes es"
    by (simp add: stream_def r1(10))
  then have "arrives (message_text ''pub'' route payload) i p r1"
    unfolding arrives_def tab using assms(19-21) r1(8,10)
    by (intro conjI exI [of _ "WsLink False"] exI [of _ "ws_frame (WS_FIN OR WS_TEXT) (Some msk) (message_text ''pub'' route payload)"] exI [of _ tail])
      (auto intro!: exI [of _ "Some msk"])
  then obtain b2 r2 where "ducq_loop_turn env (replicate DUCQ_MSGSZ NUL) r1 = Some (b2, r2)" "reactor_inv r2"
      "\<forall>j q t. live j q r1 \<longrightarrow> route_at j r1 = Some t \<longrightarrow>
        outcome (j = i) (ducq_route_cmp (Some t) (Some route)) (message_text ''pub'' route payload) j q r1 r2"
    using mixed_publish [OF ready pubable _ r1(9)] by blast
  then show ?thesis
    using r1(1,8,11,12) unfolding tab stays_def append_Nil2 by blast
qed

section \<open>Witness\<close>

text \<open>A TCP subscriber and an HTTP connection whose request comes in two pieces.\<close>

definition browser_header :: string where
  "browser_header = key_header (''GET /'' @ CRLF) 1 ''dGhlIHNhbXBsZSBub25jZQ=='' []"

text \<open>Left in the array: some text and a terminator behind it.\<close>

definition stale_bytes :: "char list" where
  "stale_bytes = replicate 1000 CHR ''x'' @ replicate 24 NUL"

definition browser_http :: http where
  "browser_http = \<lparr>http_fd = 6, http_id = [], http_host = None, http_port = None, http_header = stale_bytes, http_ws = None\<rparr>"

definition browser :: "(unit, nat) server" where
  "browser =
     \<lparr>re_world = \<lparr>w_os = quiet_os\<lparr>os_in := (\<lambda>_. map RData [browser_header, CRLF] @ [RData browser_frame])\<rparr>,
        w_heap = [9 \<mapsto> demo_tcp 5, 10 \<mapsto> Http browser_http]\<rparr>,
      re_conns = re_conns (demo ''a'' ''b''), re_dispatcher = Some pub_dispatcher,
      re_allow_log_route = True, re_logfunc = no_log, re_logger = (), re_last_msgs = cleared demo_store\<rparr>"

lemma browser_simps [simp]:
  "w_heap (re_world browser) = [9 \<mapsto> demo_tcp 5, 10 \<mapsto> Http browser_http]" "re_conns browser = re_conns (demo ''a'' ''b'')"
  "re_last_msgs browser = re_last_msgs (demo ''b'' ''a'')" "re_dispatcher browser = Some pub_dispatcher"
  "os_in (w_os (re_world browser)) fd = map RData [browser_header, CRLF] @ [RData browser_frame]"
  "os_wr (w_os (re_world browser)) fd = []" "os_malloc (w_os (re_world browser)) = []" "out_of fd browser = []"
  by (simp_all add: browser_def quiet_os_def out_of_def)

lemma browser_table:
  "live i p browser = live i p (demo ''a'' ''b'')" "slot_fd i browser = slot_fd i (demo ''a'' ''b'')"
  "route_at i browser = route_at i (demo ''a'' ''b'')"
  by (simp_all add: live_def slot_fd_def route_at_def)

lemma browser_slots:
  "slot_fd 0 browser = 5" "slot_fd 1 browser = 6" "route_at 0 browser = Some ''a''" "route_at 1 browser = Some ''b''"
  using demo_route [of "''a''" "''b''"] by (simp_all add: browser_table demo_fd)

lemma browser_connected: "connected browser"
proof -
  have "serving (demo ''a'' ''b'')"
    by (rule demo_serving) simp_all
  then have inv: "reactor_inv (demo ''a'' ''b'')"
    by (rule serving_inv)
  have "ids_ok (re_world browser)"
    by (auto simp: ids_ok_def demo_tcp_def tcp_five_def browser_http_def split: if_splits)
  then have "reactor_inv browser"
    using inv unfolding reactor_inv_def table_ok_def browser_table demo_live browser_simps demo_simps by auto
  moreover have "client_wf c" if "w_heap (re_world browser) p = Some c" for p c
    using that by (auto simp: demo_tcp_def browser_http_def split: if_splits)
  moreover have "link_at 9 browser = Some (TcpLink, 5)" "link_at 10 browser = Some (NoLink, 6)"
    by (simp_all add: link_at_def demo_tcp_def browser_http_def)
  ultimately show ?thesis
    using browser_slots unfolding connected_def browser_table demo_live by auto
qed

lemma browser_request: "upgrade_request browser_header (''GET /'' @ CRLF) 0 ''dGhlIHNhbXBsZSBub25jZQ=='' []"
  unfolding upgrade_request_def browser_header_def
  by (simp add: key_header_def SEC_WEBSOCKET_KEY_def CRLF_def strstr.simps)

theorem browser_publishes_witness:
  "\<exists>b1 r1 b2 r2. ducq_loop_turn mixed_loop [] browser = Some (b1, r1) \<and> ducq_loop_turn mixed_loop b1 r1 = Some (b2, r2) \<and>
    out_of 6 r1 = ws_upgrade_reply (accept_value ''dGhlIHNhbXBsZSBub25jZQ=='')"
proof -
  have lv: "live 1 10 browser"
    by (simp add: browser_table demo_live)
  have quiet: "log_slots browser = []"
    using browser_slots by (auto simp: log_slots_def filter_empty_conv subscribed_def browser_table demo_live DUCQ_LOG_ROUTE_def)
  have sel: "only_ready mixed_loop 1 s" if "re_conns s = re_conns browser" for s
  proof -
    have "watched_fds (re_conns s) = Some [5, 6]"
      using that by (simp add: demo_conn_list watched_fds_def demo_conn_def FD_SETSIZE_def)
    moreover have "slot_fd 1 s = 6"
      using that browser_slots(2) by (simp add: slot_fd_def)
    moreover have "conn_fd (re_conns s ! j) = 6 \<longrightarrow> j = 1" if "j < DUCQ_MAX_CONNECTIONS" for j
      using that \<open>re_conns s = re_conns browser\<close> by (simp add: demo_conns demo_conn_def)
    ultimately show ?thesis
      by (simp add: only_ready_def mixed_loop_def)
  qed
  have d: "find_loaded ''pub'' (commands_of pub_dispatcher) = Some 7" "de_exec pub_env 7 = pub" "env_dispatch mixed_loop = ducq_dispatch pub_env"
    by (simp_all add: mixed_loop_def demo_loop_def pub_dispatcher_def commands_of_def find_loaded_def pub_env_def)
  have c: "w_heap (re_world browser) 10 = Some (Http browser_http)" "http_ws browser_http = None"
      "header_ready browser_header [browser_header, CRLF] (http_header browser_http)"
    by (simp_all add: browser_http_def header_ready_def browser_header_def key_header_def SEC_WEBSOCKET_KEY_def CRLF_def stale_bytes_def)
  have h: "\<forall>x \<in> set [browser_header, CRLF]. x \<noteq> []" "concat [browser_header, CRLF] = browser_header @ CRLF"
    by (simp_all add: browser_header_def key_header_def SEC_WEBSOCKET_KEY_def CRLF_def)
  have p: "publishable ''a'' ''hi'' browser"
    unfolding publishable_def browser_simps using demo_store_free(1) demo_room demo_stream(3) by (simp add: message_text_def)
  have w: "writable (os_wr (w_os (re_world browser)) (slot_fd 1 browser))" "fluent [RData browser_frame]" "length [1, 2, 3, 4 :: byte] = 4"
      "rd_bytes [RData browser_frame] = ws_frame (WS_FIN OR WS_TEXT) (Some [1, 2, 3, 4]) demo_pub @ []"
    by (simp_all add: browser_frame_def ws_frame_def rfc_header_Cons)
  show ?thesis
    using browser_publishes [OF browser_connected lv quiet browser_simps(7) sel d(3) browser_simps(4) d(1,2) c browser_request
        browser_simps(5) h w(1) p w(2,3,4), of "[]"] browser_slots(2) browser_simps(8) by auto
qed

end
