(* ===== verification/Broker.thy ===== *)
theory Broker
  imports Ducq_Parse Ducq_Channels "HOL-Library.AList"
begin

text \<open>
  What the server is for: a broker of publications, with the route each client has subscribed and the last
  message of each route, that answers a request with texts for its clients.  And what it is to refine a
  system that answers events.
\<close>

section \<open>The abstract broker\<close>

text \<open>The routes by slot, None where there is no client; the last messages, at most as many as the server has room for.\<close>

record broker =
  br_routes :: "string option list"
  br_last :: "(string \<times> string) list"

datatype request = Subscribe string string | Publish string string

fun request_text :: "request \<Rightarrow> string" where
  "request_text (Subscribe route payload) = message_text ''sub'' route payload"
| "request_text (Publish route payload) = message_text ''pub'' route payload"

definition last_reply :: "broker \<Rightarrow> string \<Rightarrow> string" where
  "last_reply b route =
     (case map_of (br_last b) route of
        Some m \<Rightarrow> m
      | None \<Rightarrow> if length (br_last b) < DUCQ_MAX_CHANNELS then ''ACK'' else ''ACK'' @ LF # ''_'')"

definition remember :: "string \<Rightarrow> string \<Rightarrow> broker \<Rightarrow> broker" where
  "remember route m b =
     (if route \<in> fst ` set (br_last b) \<or> length (br_last b) < DUCQ_MAX_CHANNELS
      then b\<lparr>br_last := AList.update route m (br_last b)\<rparr> else b)"

definition interested :: "string \<Rightarrow> broker \<Rightarrow> nat list" where
  "interested route b =
     filter (\<lambda>j. case br_routes b ! j of Some t \<Rightarrow> ducq_route_cmp (Some t) (Some route) | None \<Rightarrow> False) [0..<length (br_routes b)]"

text \<open>A step of the broker: the texts go to the clients of the slots, in this order.\<close>

fun broker_step :: "nat \<times> request \<Rightarrow> broker \<Rightarrow> broker \<times> (nat \<times> string) list" where
  "broker_step (i, Subscribe route payload) b =
     (b\<lparr>br_routes := (br_routes b)[i := Some route]\<rparr>, [(i, if payload = ''last'' then last_reply b route else ''ACK'')])"
| "broker_step (i, Publish route payload) b =
     (let m = message_text ''pub'' route payload
      in (remember route m b, (i, ''ACK'') # map (\<lambda>j. (j, m)) (interested route b)))"

definition texts_for :: "nat \<Rightarrow> (nat \<times> string) list \<Rightarrow> string list" where
  "texts_for j xs = map snd (filter (\<lambda>x. fst x = j) xs)"

lemma texts_for_simps [simp]:
  "texts_for j [] = []" "texts_for j ((i, m) # xs) = (if i = j then [m] else []) @ texts_for j xs"
  "texts_for j (xs @ ys) = texts_for j xs @ texts_for j ys"
  by (simp_all add: texts_for_def)

lemma texts_for_all: "distinct js \<Longrightarrow> texts_for j (map (\<lambda>j. (j, m)) js) = (if j \<in> set js then [m] else [])"
  by (induction js) auto

section \<open>The broker on a network\<close>

text \<open>What becomes of a client: it is sent a text, or it is dropped because it has not taken one, or it leaves.\<close>

datatype answer = Text nat string | Dropped nat | Left nat

text \<open>What the network does in a step: whether the client that asks takes its answer, and the slots whose clients do
  not take the message.\<close>

type_synonym network = "bool \<times> nat list"

definition blank :: "nat list \<Rightarrow> 'a option list \<Rightarrow> 'a option list" where
  "blank js xs = map (\<lambda>j. if j \<in> set js then None else xs ! j) [0..<length xs]"

lemma blank_simps [simp]:
  "length (blank js xs) = length xs" "j < length xs \<Longrightarrow> blank js xs ! j = (if j \<in> set js then None else xs ! j)"
  by (simp_all add: blank_def)

lemma blank_nothing [simp]: "blank [] xs = xs"
  by (simp add: blank_def map_nth)

abbreviation without :: "nat list \<Rightarrow> broker \<Rightarrow> broker" where
  "without js b \<equiv> b\<lparr>br_routes := blank js (br_routes b)\<rparr>"

text \<open>A client that does not take its answer is removed: its subscription is undone, and its message is
  stored but goes to nobody.\<close>

fun ask_step :: "nat \<times> request \<Rightarrow> network \<Rightarrow> broker \<Rightarrow> broker \<times> answer list" where
  "ask_step (i, Subscribe route payload) (taken, js) b =
     (if taken
      then (b\<lparr>br_routes := (br_routes b)[i := Some route]\<rparr>, [Text i (if payload = ''last'' then last_reply b route else ''ACK'')])
      else (without [i] b, [Dropped i]))"
| "ask_step (i, Publish route payload) (taken, js) b =
     (let m = message_text ''pub'' route payload; b' = remember route m b; ks = interested route b
      in if taken
         then (without (filter (\<lambda>j. j \<in> set js) ks) b', Text i ''ACK'' # map (\<lambda>j. if j \<in> set js then Dropped j else Text j m) ks)
         else (without [i] b', [Dropped i]))"

text \<open>On a network that takes everything it is the broker.\<close>

lemma ask_step_taken:
  assumes "fst w" and "\<And>j. Dropped j \<notin> set (snd (ask_step (i, q) w b))"
  shows "ask_step (i, q) w b = (fst (broker_step (i, q) b), map (\<lambda>(j, m). Text j m) (snd (broker_step (i, q) b)))"
proof (cases q)
  case (Publish route payload)
  obtain js where w: "w = (True, js)"
    using assms(1) by (cases w) auto
  have "j \<notin> set js" if "j \<in> set (interested route b)" for j
    using assms(2) [of j] that by (auto simp: Publish w Let_def)
  then have "filter (\<lambda>j. j \<in> set js) (interested route b) = []"
    and "map (\<lambda>j. if j \<in> set js then Dropped j else Text j m) (interested route b) = map (\<lambda>j. Text j m) (interested route b)" for m
    by (simp_all add: filter_empty_conv)
  then show ?thesis
    by (simp add: Publish w Let_def)
qed (use assms(1) in \<open>cases w; simp\<close>)

definition texts_to :: "nat \<Rightarrow> answer list \<Rightarrow> string list" where
  "texts_to j xs = concat (map (\<lambda>x. case x of Text k m \<Rightarrow> if k = j then [m] else [] | _ \<Rightarrow> []) xs)"

lemma texts_to_simps [simp]:
  "texts_to j [] = []" "texts_to j (xs @ ys) = texts_to j xs @ texts_to j ys"
  "texts_to j (Text k m # xs) = (if k = j then [m] else []) @ texts_to j xs"
  "texts_to j (Dropped k # xs) = texts_to j xs" "texts_to j (Left k # xs) = texts_to j xs"
  by (simp_all add: texts_to_def)

lemma texts_to_map [simp]: "texts_to j (map (\<lambda>(j, m). Text j m) xs) = texts_for j xs"
  by (induction xs) auto

lemma texts_to_all:
  "distinct ks \<Longrightarrow> texts_to j (map (\<lambda>j. if j \<in> set js then Dropped j else Text j m) ks) = (if j \<in> set ks \<and> j \<notin> set js then [m] else [])"
  by (induction ks) auto

section \<open>Simulation\<close>

fun run_all :: "('e \<Rightarrow> 'c \<Rightarrow> 'c option) \<Rightarrow> 'e list \<Rightarrow> 'c \<Rightarrow> 'c option" where
  "run_all f [] c = Some c"
| "run_all f (e # es) c = do { c \<leftarrow> f e c; run_all f es c }"

fun answer_all :: "('e \<Rightarrow> 'a \<Rightarrow> 'a \<times> 'o list) \<Rightarrow> 'e list \<Rightarrow> 'a \<Rightarrow> 'a \<times> 'o list" where
  "answer_all f [] a = (a, [])"
| "answer_all f (e # es) a = (let (a', xs) = f e a; (a'', ys) = answer_all f es a' in (a'', xs @ ys))"

text \<open>Every event is acceptable when its turn comes.\<close>

fun plays :: "('e \<Rightarrow> 'c \<Rightarrow> 'c option) \<Rightarrow> ('e \<Rightarrow> 'c \<Rightarrow> bool) \<Rightarrow> 'e list \<Rightarrow> 'c \<Rightarrow> bool" where
  "plays f ok [] c \<longleftrightarrow> True"
| "plays f ok (e # es) c \<longleftrightarrow> ok e c \<and> (\<forall>d. f e c = Some d \<longrightarrow> plays f ok es d)"

lemma answer_all_append:
  "answer_all g (es @ fs) a =
    (fst (answer_all g fs (fst (answer_all g es a))), snd (answer_all g es a) @ snd (answer_all g fs (fst (answer_all g es a))))"
  by (induction es arbitrary: a) (simp_all add: case_prod_beta Let_def)

lemma answer_all_zip: "length ws = length es \<Longrightarrow> answer_all (\<lambda>(e, w). g e) (zip es ws) a = answer_all g es a"
  by (induction es ws arbitrary: a rule: list_induct2') (simp_all add: case_prod_beta Let_def)

lemma plays_append:
  "plays f ok (es @ fs) c \<longleftrightarrow> plays f ok es c \<and> (\<forall>d. run_all f es c = Some d \<longrightarrow> plays f ok fs d)"
  by (induction es arbitrary: c) (auto simp: bind_Some_conv)

text \<open>A concrete system that answers every acceptable event as the abstract one may do: the abstract step has a second
  argument for what is not decided there.\<close>

locale reactive =
  fixes conc :: "'e \<Rightarrow> 'c \<Rightarrow> 'c option"
    and abst :: "'e \<times> 'w \<Rightarrow> 'a \<Rightarrow> 'a \<times> 'o list"
    and rel :: "'a \<Rightarrow> 'c \<Rightarrow> bool"
    and ok :: "'e \<Rightarrow> 'c \<Rightarrow> bool"
    and seen :: "'o list \<Rightarrow> 'c \<Rightarrow> 'c \<Rightarrow> bool"
  assumes step: "rel a c \<Longrightarrow> ok e c \<Longrightarrow>
      \<exists>w d. conc e c = Some d \<and> rel (fst (abst (e, w) a)) d \<and> seen (snd (abst (e, w) a)) c d"
    and idle: "rel a c \<Longrightarrow> seen [] c c"
    and further: "seen xs c d \<Longrightarrow> seen ys d d' \<Longrightarrow> seen (xs @ ys) c d'"
begin

lemma played:
  assumes "rel a c" and "plays conc ok es c"
  shows "\<exists>ws d. length ws = length es \<and> run_all conc es c = Some d \<and>
    rel (fst (answer_all abst (zip es ws) a)) d \<and> seen (snd (answer_all abst (zip es ws) a)) c d"
  using assms
proof (induction es arbitrary: a c)
  case Nil
  have "seen [] c c"
    by (rule idle [OF Nil.prems(1)])
  then show ?case
    using Nil by simp
next
  case (Cons e es)
  obtain w c' where c': "conc e c = Some c'" "rel (fst (abst (e, w) a)) c'" "seen (snd (abst (e, w) a)) c c'"
    using step [OF Cons.prems(1)] Cons.prems(2) by force
  have "plays conc ok es c'"
    using Cons.prems(2) c'(1) by simp
  from Cons.IH [OF c'(2) this] obtain ws d where
    "length ws = length es" "run_all conc es c' = Some d" "rel (fst (answer_all abst (zip es ws) (fst (abst (e, w) a)))) d"
    "seen (snd (answer_all abst (zip es ws) (fst (abst (e, w) a)))) c' d"
    by blast
  then show ?case
    using c'(1) further [OF c'(3)] by (intro exI [of _ "w # ws"]) (auto simp: case_prod_beta Let_def)
qed

text \<open>What is seen from any point on.\<close>

lemma played_from:
  assumes "rel a c" and "plays conc ok (es @ fs) c"
  shows "\<exists>vs ws c' d. length vs = length es \<and> length ws = length fs \<and> run_all conc es c = Some c' \<and> run_all conc fs c' = Some d \<and>
    rel (fst (answer_all abst (zip es vs) a)) c' \<and> rel (fst (answer_all abst (zip (es @ fs) (vs @ ws)) a)) d \<and>
    seen (snd (answer_all abst (zip fs ws) (fst (answer_all abst (zip es vs) a)))) c' d"
proof -
  have es: "plays conc ok es c"
    using assms(2) by (simp add: plays_append)
  obtain vs c' where c': "length vs = length es" "run_all conc es c = Some c'" "rel (fst (answer_all abst (zip es vs) a)) c'"
    using played [OF assms(1) es] by blast
  then have "plays conc ok fs c'"
    using assms(2) by (simp add: plays_append)
  from played [OF c'(3) this] obtain ws d where
    d: "length ws = length fs" "run_all conc fs c' = Some d"
      "rel (fst (answer_all abst (zip fs ws) (fst (answer_all abst (zip es vs) a)))) d"
      "seen (snd (answer_all abst (zip fs ws) (fst (answer_all abst (zip es vs) a)))) c' d"
    by blast
  then show ?thesis
    using c' by (intro exI [of _ vs] exI [of _ ws] exI [of _ c'] exI [of _ d]) (simp add: answer_all_append)
qed

end

text \<open>When the abstract system decides everything, and an event that is acceptable stays so, it is enough to look at the
  start.\<close>

locale simulation = reactive conc "\<lambda>(e, w :: unit). step_of e" rel ok seen
  for conc :: "'e \<Rightarrow> 'c \<Rightarrow> 'c option"
    and step_of :: "'e \<Rightarrow> 'a \<Rightarrow> 'a \<times> 'o list"
    and rel :: "'a \<Rightarrow> 'c \<Rightarrow> bool"
    and ok :: "'e \<Rightarrow> 'c \<Rightarrow> bool"
    and seen :: "'o list \<Rightarrow> 'c \<Rightarrow> 'c \<Rightarrow> bool" +
  assumes later: "seen xs c d \<Longrightarrow> ok e c \<Longrightarrow> ok e d"
begin

lemma all_play:
  assumes "rel a c" and "\<forall>e \<in> set es. ok e c"
  shows "plays conc ok es c"
  using assms
proof (induction es arbitrary: a c)
  case (Cons e es)
  obtain c' where c': "conc e c = Some c'" "rel (fst (step_of e a)) c'" "seen (snd (step_of e a)) c c'"
    using step [OF Cons.prems(1)] Cons.prems(2) by force
  have "\<forall>e \<in> set es. ok e c'"
    using later [OF c'(3)] Cons.prems(2) by simp
  from Cons.IH [OF c'(2) this] show ?case
    using c'(1) Cons.prems(2) by simp
qed simp

lemma simulates:
  assumes "rel a c" and "\<forall>e \<in> set es. ok e c"
  shows "\<exists>d. run_all conc es c = Some d \<and> rel (fst (answer_all step_of es a)) d \<and> seen (snd (answer_all step_of es a)) c d"
proof -
  obtain ws d where "length ws = length es" "run_all conc es c = Some d"
      "rel (fst (answer_all (\<lambda>(e, w :: unit). step_of e) (zip es ws) a)) d" "seen (snd (answer_all (\<lambda>(e, w :: unit). step_of e) (zip es ws) a)) c d"
    using played [OF assms(1) all_play [OF assms]] by blast
  then show ?thesis
    by (simp add: answer_all_zip)
qed

end

end
