(* ===== verification/Broker_Server.thy ===== *)
theory Broker_Server
  imports Mixed_Turn Broker
begin

text \<open>
  A request of the broker is one turn of the main loop.  On any network each client is sent the texts the broker has for
  it, in their order, each in one whole frame, or is dropped because it has not taken one.  With clients that
  take every byte nobody is dropped, and the server refines the broker over any sequence of requests.
\<close>

section \<open>Subscribing on any transport\<close>

lemma subscribe_connected:
  assumes "connected r" and "live i p r" and "NUL \<notin> set route" and "length route < DUCQ_MAX_ROUTE_LEN"
  shows "\<exists>s. ducq_reactor_subscribe p route r = (DUCQ_OK, s) \<and> connected s \<and> re_world s = re_world r \<and>
    route_at i s = Some route \<and> (\<forall>j. j \<noteq> i \<longrightarrow> route_at j s = route_at j r) \<and> (\<forall>j q. live j q s = live j q r) \<and>
    (\<forall>j. slot_fd j s = slot_fd j r) \<and> re_last_msgs s = re_last_msgs r \<and> re_allow_log_route s = re_allow_log_route r \<and>
    re_dispatcher s = re_dispatcher r"
proof -
  obtain s where s: "ducq_reactor_subscribe p route r = (DUCQ_OK, s)" "reactor_inv s" "re_world s = re_world r"
      "route_at i s = Some route" "\<forall>j. j \<noteq> i \<longrightarrow> route_at j s = route_at j r" "\<forall>j q. live j q s = live j q r"
      "\<forall>j. conn_fd (re_conns s ! j) = conn_fd (re_conns r ! j)"
      "re_last_msgs s = re_last_msgs r" "re_allow_log_route s = re_allow_log_route r"
    using subscribe_run [OF connectedD(1) [OF assms(1)] assms(2-4)] by blast
  have fd: "slot_fd j s = slot_fd j r" for j
    using s(7) by (simp add: slot_fd_def)
  have "link_at q s = link_at q r" for q
    by (simp add: link_at_def s(3))
  then have "connected s"
    using assms(1) s(2,3,6) fd unfolding connected_def by simp
  moreover have "re_dispatcher s = re_dispatcher r"
    using s(1) by (auto simp: ducq_reactor_subscribe_def set_conn_def split: option.splits)
  ultimately show ?thesis
    using s fd by blast
qed

text \<open>A subscriber that does not take the answer is deleted.\<close>

lemma sub_any:
  assumes "connected r" and "live i p r" and "log_slots r = []"
    and "parts_ok cmd route" and "in_buffer (message_text cmd route payload) buffer"
    and "length f \<le> 30" and "length route < DUCQ_MAX_ROUTE_LEN" and "route \<noteq> DUCQ_LOG_ROUTE"
    and "payload = ''last'' \<longrightarrow> get_last (re_last_msgs r) route = Some reply" and "payload \<noteq> ''last'' \<longrightarrow> reply = ''ACK''"
    and "length reply \<le> DUCQ_MSGSZ"
  shows "\<exists>st s r'. sub_as f p buffer n r = Some (st, buffer, r') \<and> ducq_reactor_subscribe p route r = (DUCQ_OK, s) \<and>
    (if st = DUCQ_OK then settles reply (\<lambda>j. j = i) s r' \<and> live i p r' else leaves i p s r' \<and> \<not> reliable i p r)"
proof -
  let ?t = "message_text cmd route payload"
  let ?e = "Suc (length cmd) + length route"
  note buf = in_bufferD [OF assms(5)]
  obtain b where b: "mem_write buffer ?e [NUL] = Some b" "c_str b (Suc (length cmd)) = Some route"
      "c_str b (Suc ?e) = Some payload" "mem_write b ?e [LF] = Some buffer"
    using split_route [OF assms(5)] by blast
  have nul: "NUL \<notin> set route"
    using assms(5) by (auto simp: in_buffer_def message_text_def)
  obtain s where s: "ducq_reactor_subscribe p route r = (DUCQ_OK, s)" "connected s" "re_world s = re_world r"
      "route_at i s = Some route" "\<forall>j. j \<noteq> i \<longrightarrow> route_at j s = route_at j r" "\<forall>j q. live j q s = live j q r"
      "\<forall>j. slot_fd j s = slot_fd j r" "re_last_msgs s = re_last_msgs r" "re_allow_log_route s = re_allow_log_route r"
    using subscribe_connected [OF assms(1,2) nul assms(7)] by blast
  have q: "log_slots s = []" and l: "live i p s"
    using log_slots_route [OF assms(3) s(6,5,4) assms(8) s(9)] s(6) assms(2) by simp_all
  have rel: "reliable i p s = reliable i p r"
    using s(3,7) by (simp add: reliable_def link_at_def)
  obtain st r1 where r1: "on_world (ducq_send p reply) s = Some (st, r1)" "aside i s r1" "st \<in> {DUCQ_OK, DUCQ_EWRITE, DUCQ_ENOIMPL}"
      "if st = DUCQ_OK then settles reply (\<lambda>j. j = i) s r1 \<and> live i p r1
       else \<not> reliable i p s \<and> (\<exists>f. connection_free i r1 = Some f \<and> settles reply (\<lambda>j. j = i) s f \<and> \<not> live i p f)"
    using send_settles [OF s(2) l assms(11)] by auto
  have ack: "ducq_send_ack p DUCQ_OK = ducq_send p ''ACK''"
    by (simp add: fun_eq_iff send_ack_text ack_text_def)
  have ans: "sub_answer p DUCQ_OK (Some payload) route s = Some (st, r1)"
  proof (cases "payload = ''last''")
    case True
    then show ?thesis
      using assms(9) r1(1) s(8) unfolding sub_answer_def ducq_get_last_msg_def by simp
  next
    case False
    then show ?thesis
      using assms(10) r1(1) ack unfolding sub_answer_def by simp
  qed
  have l1: "live i p r1" and c1: "connected r1" and q1: "log_slots r1 = []"
    using l q aside_table(1) [OF r1(2)] aside_no_log [OF r1(2)] r1(2) by (simp_all add: aside_def)
  define lv where "lv = (if st \<noteq> DUCQ_OK then DUCQ_LOG_WARNING else DUCQ_LOG_INFO)"
  define x where "x = (if st \<noteq> DUCQ_OK then state_msg st else route)"
  have "length f + length x \<le> 142"
    using assms(6,7) send_state_short [OF r1(3)] by (simp add: x_def)
  then obtain r2 where r2: "ducq_log lv f p x r1 = Some r2" "settles reply (\<lambda>_. False) r1 r2"
    using log_settles [OF c1 l1 q1] by blast
  have l2: "live i p r2" and c2: "connected r2"
    using settlesD(1,7) [OF r2(2)] l1 by (simp_all add: stays_def)
  show ?thesis
  proof (cases "st = DUCQ_OK")
    case True
    then have "sub_as f p buffer n r = Some (DUCQ_OK, buffer, r2)"
      using buf(1) parse_sub [OF assms(4), of payload] b s(1) ans r2(1) unfolding sub_as_def by (simp add: lv_def x_def)
    then show ?thesis
      using s(1) settles_quiet(2) [OF _ r2(2)] r1(4) True l2 by auto
  next
    case False
    obtain g where g: "ducq_reactor_delete p r2 = Some (True, g)" "leaves i p r2 g"
      using delete_leaves [OF c2 l2] by blast
    have "leaves i p s g"
      by (rule aside_leaves [OF aside_trans [OF r1(2) settles_aside [OF r2(2) c1]] g(2)])
    moreover have "sub_as f p buffer n r = Some (st, buffer, g)"
      using False buf(1) parse_sub [OF assms(4), of payload] b s(1) ans r2(1) g(1) unfolding sub_as_def by (simp add: lv_def x_def)
    ultimately show ?thesis
      using s(1) r1(4) False rel by auto
  qed
qed

section \<open>The server as a broker\<close>

definition runs :: "('l, 's) disp_env \<Rightarrow> string \<Rightarrow> ('l, 's dispatcher) command \<Rightarrow> ('l, 's) server \<Rightarrow> bool" where
  "runs denv cmd f r \<longleftrightarrow>
     (\<exists>d exec. re_dispatcher r = Some d \<and> find_loaded cmd (commands_of d) = Some exec \<and> de_exec denv exec = f)"

text \<open>No two slots share a descriptor and \<open>select\<close> can watch them all; no client is subscribed to the log, and there
  is memory.\<close>

definition attended :: "('l, 's) disp_env \<Rightarrow> ('l, 's) server \<Rightarrow> bool" where
  "attended denv r \<longleftrightarrow>
     connected r \<and> log_slots r = [] \<and> os_malloc (w_os (re_world r)) = [] \<and>
     runs denv ''pub'' pub r \<and> runs denv ''sub'' sub r \<and> watched_fds (re_conns r) \<noteq> None \<and>
     (\<forall>i p j. live i p r \<longrightarrow> j < DUCQ_MAX_CONNECTIONS \<longrightarrow> slot_fd j r = slot_fd i r \<longrightarrow> j = i)"

text \<open>Every client takes what it is sent.\<close>

definition in_service :: "('l, 's) disp_env \<Rightarrow> ('l, 's) server \<Rightarrow> bool" where
  "in_service denv r \<longleftrightarrow> attended denv r \<and> (\<forall>j q. live j q r \<longrightarrow> reliable j q r)"

definition represents :: "broker \<Rightarrow> ('l, 'd) reactor \<Rightarrow> bool" where
  "represents b r \<longleftrightarrow>
     length (br_routes b) = DUCQ_MAX_CONNECTIONS \<and>
     (\<forall>j < DUCQ_MAX_CONNECTIONS. br_routes b ! j = (if \<exists>q. live j q r then route_at j r else None)) \<and>
     wf_last (re_last_msgs r) \<and> length (re_last_msgs r) = DUCQ_MAX_CHANNELS \<and>
     distinct (map fst (br_last b)) \<and> last_map (re_last_msgs r) = map_of (br_last b) \<and>
     (\<forall>route m. map_of (br_last b) route = Some m \<longrightarrow> length m \<le> DUCQ_MSGSZ)"

text \<open>The network delivers to a descriptor.\<close>

definition incoming :: "int \<Rightarrow> rd_ev list \<Rightarrow> ('l, 'd) reactor \<Rightarrow> ('l, 'd) reactor" where
  "incoming fd es r = r\<lparr>re_world := (re_world r)\<lparr>w_os := (w_os (re_world r))\<lparr>os_in := (os_in (w_os (re_world r)))(fd := es)\<rparr>\<rparr>\<rparr>"

text \<open>An event is a request of the client in a slot with the bytes it comes in; it takes a turn of the loop, of the
  \<open>while\<close> of \<open>ducq_loop\<close> with its buffer, in which \<open>select\<close> reports the descriptor of the slot.\<close>

type_synonym event = "nat \<times> request \<times> rd_ev list"

fun serve :: "('l, 's dispatcher) loop_env \<Rightarrow> event \<Rightarrow> char list \<times> ('l, 's) server \<Rightarrow> (char list \<times> ('l, 's) server) option" where
  "serve env (i, q, es) (buffer, r) =
     ducq_loop_turn (env\<lparr>env_select := \<lambda>n fds s. (1, [slot_fd i r], s)\<rparr>) buffer (incoming (slot_fd i r) es r)"

fun valid_request :: "request \<Rightarrow> bool" where
  "valid_request (Subscribe route payload) \<longleftrightarrow> route \<noteq> [] \<and> LF \<notin> set route \<and> length route < DUCQ_MAX_ROUTE_LEN \<and>
     route \<noteq> DUCQ_LOG_ROUTE \<and> NUL \<notin> set (message_text ''sub'' route payload) \<and> tcp_sendable (message_text ''sub'' route payload)"
| "valid_request (Publish route payload) \<longleftrightarrow> route \<noteq> [] \<and> LF \<notin> set route \<and> length route < DUCQ_MAX_ROUTE_LEN \<and>
     NUL \<notin> set (message_text ''pub'' route payload) \<and> tcp_sendable (message_text ''pub'' route payload)"

definition broker_run :: "event list \<Rightarrow> broker \<Rightarrow> broker \<times> (nat \<times> string) list" where
  "broker_run = answer_all (\<lambda>(i, q, es). broker_step (i, q))"

text \<open>A client that is connected sends the request, in one frame of its transport and in any pieces.\<close>

fun sent_by :: "event \<Rightarrow> ('l, 'd) reactor \<Rightarrow> bool" where
  "sent_by (i, q, es) r \<longleftrightarrow> valid_request q \<and> fluent es \<and>
     (\<exists>p l. live i p r \<and> link_at p r = Some (l, slot_fd i r) \<and> framed (peer l) (request_text q) (rd_bytes es))"

text \<open>Every client has been sent the texts for it, each in a frame of its transport.\<close>

definition delivered :: "(nat \<times> string) list \<Rightarrow> ('l, 'd) reactor \<Rightarrow> ('l, 'd) reactor \<Rightarrow> bool" where
  "delivered xs r r' \<longleftrightarrow>
     (\<forall>j q. live j q r \<longrightarrow> slot_fd j r' = slot_fd j r \<and>
        (\<exists>l ys. link_at q r = Some (l, slot_fd j r) \<and> list_all2 (framed l) (texts_for j xs) ys \<and> stays (concat ys) j q r r'))"

text \<open>Every client that has not left has been sent the texts for it, each in a frame of its transport, unless it was
  dropped, which does not happen to a reliable one.\<close>

definition kept :: "answer list \<Rightarrow> ('l, 'd) reactor \<Rightarrow> ('l, 'd) reactor \<Rightarrow> bool" where
  "kept xs r r' \<longleftrightarrow>
     (\<forall>j q. live j q r \<longrightarrow> Left j \<notin> set xs \<longrightarrow> (reliable j q r \<longrightarrow> Dropped j \<notin> set xs) \<and>
        (Dropped j \<notin> set xs \<longrightarrow> slot_fd j r' = slot_fd j r \<and>
           (\<exists>l ys. link_at q r = Some (l, slot_fd j r) \<and> list_all2 (framed l) (texts_to j xs) ys \<and> stays (concat ys) j q r r')))"

definition answered :: "answer list \<Rightarrow> ('l, 'd) reactor \<Rightarrow> ('l, 'd) reactor \<Rightarrow> bool" where
  "answered xs r r' \<longleftrightarrow> kept xs r r' \<and> (\<forall>j q. live j q r' \<longleftrightarrow> live j q r \<and> Dropped j \<notin> set xs)"

text \<open>The client gets what it publishes itself.\<close>

fun echoes :: "nat \<Rightarrow> request \<Rightarrow> ('l, 'd) reactor \<Rightarrow> bool" where
  "echoes i (Subscribe route payload) r \<longleftrightarrow> False"
| "echoes i (Publish route payload) r \<longleftrightarrow> (\<exists>t. route_at i r = Some t \<and> ducq_route_cmp (Some t) (Some route))"

lemma watched_iff:
  assumes "length cs = DUCQ_MAX_CONNECTIONS"
  shows "watched_fds cs \<noteq> None \<longleftrightarrow> (\<forall>j < DUCQ_MAX_CONNECTIONS. conn_fd (cs ! j) = - 1 \<or> 0 \<le> conn_fd (cs ! j) \<and> conn_fd (cs ! j) < FD_SETSIZE)"
proof -
  have "watched_fds cs \<noteq> None \<longleftrightarrow> (\<forall>c \<in> set cs. conn_fd c = - 1 \<or> 0 \<le> conn_fd c \<and> conn_fd c < FD_SETSIZE)"
    using assms by (auto simp: watched_fds_def Let_def)
  then show ?thesis
    unfolding all_set_conv_all_nth assms .
qed

section \<open>What the steps of the server come to\<close>

lemma live_same: "live j q r \<Longrightarrow> live j q' r \<Longrightarrow> q' = q"
  by (simp add: live_def)

lemma keptD:
  assumes "kept xs r s" and "live j q r" and "Left j \<notin> set xs"
  shows "reliable j q r \<Longrightarrow> Dropped j \<notin> set xs" and "Dropped j \<notin> set xs \<Longrightarrow> slot_fd j s = slot_fd j r"
    and "Dropped j \<notin> set xs \<Longrightarrow> \<exists>l ys. link_at q r = Some (l, slot_fd j r) \<and> list_all2 (framed l) (texts_to j xs) ys \<and> stays (concat ys) j q r s"
  using assms unfolding kept_def by blast+

lemma kept_append:
  assumes "kept xs r s" and "kept ys s t"
  shows "kept (xs @ ys) r t"
  unfolding kept_def
proof (intro allI impI)
  fix j q assume lv: "live j q r" and "Left j \<notin> set (xs @ ys)"
  then have left: "Left j \<notin> set xs" "Left j \<notin> set ys"
    by simp_all
  note a = keptD [OF assms(1) lv left(1)]
  have onward: "live j q s \<and> (reliable j q r \<longrightarrow> reliable j q s)" if "Dropped j \<notin> set xs"
    using a(3) [OF that] by (auto simp: stays_def)
  note b = keptD [OF assms(2) _ left(2)]
  have "Dropped j \<notin> set (xs @ ys)" if "reliable j q r"
    using a(1) [OF that] onward b(1) that by auto
  moreover have "slot_fd j t = slot_fd j r \<and>
      (\<exists>l us. link_at q r = Some (l, slot_fd j r) \<and> list_all2 (framed l) (texts_to j (xs @ ys)) us \<and> stays (concat us) j q r t)"
    if "Dropped j \<notin> set (xs @ ys)"
  proof -
    have no: "Dropped j \<notin> set xs" "Dropped j \<notin> set ys"
      using that by simp_all
    obtain l us where us: "link_at q r = Some (l, slot_fd j r)" "list_all2 (framed l) (texts_to j xs) us" "stays (concat us) j q r s"
      using a(3) [OF no(1)] by blast
    have ls: "live j q s" and lk: "link_at q s = Some (l, slot_fd j r)" and fd: "slot_fd j s = slot_fd j r"
      using us(1,3) a(2) [OF no(1)] by (simp_all add: stays_def)
    obtain k vs where vs: "link_at q s = Some (k, slot_fd j s)" "list_all2 (framed k) (texts_to j ys) vs" "stays (concat vs) j q s t"
      using b(3) [OF ls no(2)] by blast
    have "k = l"
      using vs(1) lk by simp
    then show ?thesis
      using us vs(2) b(2) [OF ls no(2)] fd stays_trans [OF us(3) vs(3) fd]
      by (intro conjI exI [of _ l] exI [of _ "us @ vs"]) (simp_all add: list_all2_appendI)
  qed
  ultimately show "(reliable j q r \<longrightarrow> Dropped j \<notin> set (xs @ ys)) \<and>
      (Dropped j \<notin> set (xs @ ys) \<longrightarrow> slot_fd j t = slot_fd j r \<and>
        (\<exists>l us. link_at q r = Some (l, slot_fd j r) \<and> list_all2 (framed l) (texts_to j (xs @ ys)) us \<and> stays (concat us) j q r t))"
    by blast
qed

lemma answered_append: "answered xs r s \<Longrightarrow> answered ys s t \<Longrightarrow> answered (xs @ ys) r t"
  using kept_append unfolding answered_def by auto

text \<open>Nothing has been said to anybody, but for the clients in some slots.\<close>

lemma silence_kept:
  assumes "connected r" and "\<And>j. texts_to j xs = []"
    and "\<And>j q. live j q r \<Longrightarrow> Left j \<notin> set xs \<Longrightarrow> reliable j q r \<Longrightarrow> Dropped j \<notin> set xs"
    and "\<And>j q. live j q r \<Longrightarrow> Left j \<notin> set xs \<Longrightarrow> Dropped j \<notin> set xs \<Longrightarrow> slot_fd j s = slot_fd j r \<and> stays [] j q r s"
  shows "kept xs r s"
  unfolding kept_def
proof (intro allI impI conjI)
  fix j q assume j: "live j q r" "Left j \<notin> set xs"
  show "reliable j q r \<Longrightarrow> Dropped j \<notin> set xs"
    by (rule assms(3) [OF j])
  assume d: "Dropped j \<notin> set xs"
  show "slot_fd j s = slot_fd j r"
    using assms(4) [OF j d] by blast
  obtain l where "link_at q r = Some (l, slot_fd j r)"
    using assms(1) j(1) unfolding connected_def by blast
  then show "\<exists>l ys. link_at q r = Some (l, slot_fd j r) \<and> list_all2 (framed l) (texts_to j xs) ys \<and> stays (concat ys) j q r s"
    using assms(2) assms(4) [OF j d] by (intro exI [of _ l] exI [of _ "[]"]) simp
qed

text \<open>The clients of some slots have been taken out.\<close>

lemma attended_shrinks:
  assumes "attended denv r" and "connected s" and "\<And>j q. live j q s \<Longrightarrow> live j q r"
    and "\<And>j. slot_fd j s = slot_fd j r \<or> slot_fd j s = - 1" and "log_slots s = []"
    and "os_malloc (w_os (re_world s)) = os_malloc (w_os (re_world r))" and "re_dispatcher s = re_dispatcher r"
  shows "attended denv s"
proof -
  note a = assms(1) [unfolded attended_def]
  have lens: "length (re_conns r) = DUCQ_MAX_CONNECTIONS" "length (re_conns s) = DUCQ_MAX_CONNECTIONS"
    using a assms(2) by (simp_all add: connectedD(1) reactor_invD(1))
  have "watched_fds (re_conns s) \<noteq> None"
    using a assms(4) watched_iff [OF lens(1)] watched_iff [OF lens(2)] unfolding slot_fd_def by metis
  moreover have "j = k" if "live k q s" "j < DUCQ_MAX_CONNECTIONS" "slot_fd j s = slot_fd k s" for j k q
  proof -
    have k: "live k q r" "slot_fd k s \<noteq> - 1"
      using assms(3) [OF that(1)] that(1) by (simp_all add: live_def slot_fd_def)
    then have "slot_fd j r = slot_fd k r"
      using assms(4) that(3) by metis
    then show ?thesis
      using a k(1) that(2) by blast
  qed
  moreover have "runs denv cmd g s = runs denv cmd g r" for cmd g
    by (simp add: runs_def assms(7))
  ultimately show ?thesis
    using a assms(2,5,6) unfolding attended_def by auto
qed

text \<open>The slots whose clients have been taken out.\<close>

definition gone :: "('l, 'd) reactor \<Rightarrow> ('l, 'd) reactor \<Rightarrow> nat list" where
  "gone r s = filter (\<lambda>j. (\<exists>q. live j q r) \<and> (\<forall>q. \<not> live j q s)) [0..<DUCQ_MAX_CONNECTIONS]"

lemma gone_iff: "j \<in> set (gone r s) \<longleftrightarrow> (\<exists>q. live j q r) \<and> (\<forall>q. \<not> live j q s)"
  unfolding gone_def by (auto simp: live_def)

lemma blank_cong: "set js = set ks \<Longrightarrow> blank js xs = blank ks xs"
  by (simp add: blank_def)

lemma gone_represents:
  assumes "represents b r" and "\<And>j q. live j q s \<Longrightarrow> live j q r" and "\<And>j q. live j q s \<Longrightarrow> route_at j s = route_at j r"
    and "re_last_msgs s = re_last_msgs r"
  shows "represents (without (gone r s) b) s"
proof -
  note a = assms(1) [unfolded represents_def]
  have "blank (gone r s) (br_routes b) ! j = (if \<exists>q. live j q s then route_at j s else None)" if "j < DUCQ_MAX_CONNECTIONS" for j
  proof (cases "\<exists>q. live j q s")
    case True
    then have "\<exists>q. live j q r" and "route_at j s = route_at j r" and "j \<notin> set (gone r s)"
      using assms(2,3) unfolding gone_iff by blast+
    then show ?thesis
      using a that True by simp
  next
    case False
    then show ?thesis
      using a that by (auto simp: gone_iff)
  qed
  then show ?thesis
    using a assms(4) by (simp add: represents_def)
qed

lemma settles_attended:
  assumes "settles bs W r s" and "attended denv r"
  shows "attended denv s"
proof (rule attended_shrinks [OF assms(2) settlesD(1) [OF assms(1)] settlesD(4) [OF assms(1)] _ _ settlesD(11,9) [OF assms(1)]])
  show "log_slots s = []"
    using settles_no_log [OF assms(1)] assms(2) by (simp add: attended_def)
  show "slot_fd j s = slot_fd j r \<or> slot_fd j s = - 1" for j
  proof (cases "\<exists>q. live j q r")
    case True
    have "conn_as (re_conns s ! j) = conn_as (re_conns r ! j)"
      using assms(1) by (simp add: settles_def)
    then have "conn_client (re_conns s ! j) = conn_client (re_conns r ! j)"
      by (simp add: conn_client_def)
    then have "live j q s \<or> slot_fd j s = - 1" if "live j q r" for q
      using that by (simp add: live_def slot_fd_def)
    then show ?thesis
      using True settlesD(5) [OF assms(1)] by blast
  next
    case False
    then show ?thesis
      using settlesD(12) [OF assms(1)] by blast
  qed
qed

lemma settles_represents:
  assumes "settles bs W r s" and "represents b r"
  shows "represents (without (gone r s) b) s"
  by (rule gone_represents [OF assms(2) settlesD(4,8,10) [OF assms(1)]])

lemma settles_answered:
  assumes "settles m W r s" and "connected r" and "distinct js" and W: "\<And>j q. live j q r \<Longrightarrow> W j \<longleftrightarrow> j \<in> set js"
  shows "answered (map (\<lambda>j. if j \<in> set (gone r s) then Dropped j else Text j m) js) r s"
proof -
  let ?xs = "map (\<lambda>j. if j \<in> set (gone r s) then Dropped j else Text j m) js"
  have drop: "Dropped j \<in> set ?xs \<longleftrightarrow> j \<in> set js \<and> j \<in> set (gone r s)" for j
    by auto
  have stay: "stays [] j q r s" if "live j q r" "j \<notin> set js" for j q
    using settlesD(7) [OF assms(1) that(1)] W [OF that(1)] that(2) by blast
  have get: "gets m j q r s \<or> dropped j q r s" if "live j q r" "j \<in> set js" for j q
    using settlesD(6) [OF assms(1) that(1)] W [OF that(1)] that(2) by blast
  have lost: "j \<in> set (gone r s) \<longleftrightarrow> \<not> live j q s" if "live j q r" for j q
    using that live_same settlesD(4) [OF assms(1)] unfolding gone_iff by metis
  have to: "live j q s \<longleftrightarrow> live j q r \<and> Dropped j \<notin> set ?xs" for j q
    using lost stay settlesD(4) [OF assms(1)] unfolding drop stays_def by metis
  moreover have "kept ?xs r s"
    unfolding kept_def
  proof (intro allI impI conjI)
    fix j q assume j: "live j q r"
    show "Dropped j \<notin> set ?xs" if "reliable j q r"
      using get [OF j] lost [OF j] that unfolding drop by (auto simp: gets_def dropped_def stays_def)
    assume d: "Dropped j \<notin> set ?xs"
    then have l: "live j q s"
      using to j by blast
    show "slot_fd j s = slot_fd j r"
      by (rule settlesD(5) [OF assms(1) l])
    obtain l where lk: "link_at q r = Some (l, slot_fd j r)"
      using assms(2) j unfolding connected_def by blast
    show "\<exists>l ys. link_at q r = Some (l, slot_fd j r) \<and> list_all2 (framed l) (texts_to j ?xs) ys \<and> stays (concat ys) j q r s"
    proof (cases "j \<in> set js")
      case True
      then obtain x where "framed l m x" "stays x j q r s"
        using get [OF j] l lk by (auto simp: gets_def dropped_def)
      then show ?thesis
        using True d lk unfolding drop by (intro exI [of _ l] exI [of _ "[x]"]) (simp add: texts_to_all [OF assms(3)])
    next
      case False
      then show ?thesis
        using stay [OF j] lk by (intro exI [of _ l] exI [of _ "[]"]) (simp add: texts_to_all [OF assms(3)])
    qed
  qed
  ultimately show ?thesis
    by (simp add: answered_def)
qed

text \<open>A step in which nobody is told anything.\<close>

lemma settles_idle:
  assumes "settles [] (\<lambda>_. False) r s" and "attended denv r" and "represents b r"
  shows "attended denv s" and "represents b s" and "answered [] r s"
proof -
  have con: "connected r"
    using assms(2) by (simp add: attended_def)
  show "attended denv s"
    by (rule settles_attended [OF assms(1,2)])
  have "live j q s" if "live j q r" for j q
    using settlesD(7) [OF assms(1) that] by (simp add: stays_def)
  then have "gone r s = []"
    unfolding gone_def filter_empty_conv by blast
  then show "represents b s"
    using settles_represents [OF assms(1,3)] by simp
  show "answered [] r s"
    using settles_answered [OF assms(1) con, of "[]"] by simp
qed

text \<open>A client that goes.\<close>

lemma leaves_attended:
  assumes "attended denv r" and "leaves i p r f"
  shows "attended denv f"
proof -
  note a = assms(1) [unfolded attended_def] and l = assms(2) [unfolded leaves_def]
  have "subscribed (\<lambda>t. t = DUCQ_LOG_ROUTE) r j" if "subscribed (\<lambda>t. t = DUCQ_LOG_ROUTE) f j" for j
    using that l by (auto simp: subscribed_def route_at_def conn_route_def)
  then have "log_slots f = []"
    using a l by (auto simp: log_slots_def filter_empty_conv split: if_splits)
  moreover have "slot_fd j f = slot_fd j r \<or> slot_fd j f = - 1" for j
    using l by metis
  moreover have "connected f" and "re_dispatcher f = re_dispatcher r" and "os_malloc (w_os (re_world f)) = os_malloc (w_os (re_world r))"
    and "\<And>j q. live j q f \<Longrightarrow> live j q r"
    using l by blast+
  ultimately show ?thesis
    using attended_shrinks [OF assms(1)] by blast
qed

lemma leaves_represents:
  assumes "represents b r" and "leaves i p r f" and "live i p r"
  shows "represents (without [i] b) f"
proof -
  note l = assms(2) [unfolded leaves_def]
  have "live j q f \<longleftrightarrow> live j q r \<and> j \<noteq> i" for j q
    using l by blast
  then have "set (gone r f) = set [i]"
    using assms(3) unfolding gone_iff set_eq_iff by auto
  moreover have "route_at j f = route_at j r" for j
    using l by (simp add: route_at_def conn_route_def)
  moreover have "re_last_msgs f = re_last_msgs r" and "\<And>j q. live j q f \<Longrightarrow> live j q r"
    using l by blast+
  ultimately show ?thesis
    using gone_represents [OF assms(1), of f] blank_cong [of "gone r f" "[i]" "br_routes b"] by simp
qed

lemma leaves_kept:
  assumes "connected r" and "leaves i p r f" and "live i p r" and "x = Left i \<or> x = Dropped i \<and> \<not> reliable i p r"
  shows "kept [x] r f"
proof (rule silence_kept [OF assms(1)])
  note l = assms(2) [unfolded leaves_def]
  show "Dropped j \<notin> set [x]" if "live j q r" "Left j \<notin> set [x]" "reliable j q r" for j q
    using assms(4) that live_same [OF assms(3)] by auto
  show "slot_fd j f = slot_fd j r \<and> stays [] j q r f" if "live j q r" "Left j \<notin> set [x]" "Dropped j \<notin> set [x]" for j q
  proof -
    have "j \<noteq> i"
      using assms(4) that(2,3) by auto
    then show ?thesis
      using l that(1) by blast
  qed
qed (use assms(4) in auto)

lemma leaves_answered:
  assumes "connected r" and "leaves i p r f" and "live i p r" and "\<not> reliable i p r"
  shows "answered [Dropped i] r f"
  using leaves_kept [OF assms(1-3), of "Dropped i"] assms(2,4) by (auto simp: answered_def leaves_def)

section \<open>One turn for a request\<close>

lemma connected_cong:
  assumes "connected r" and "re_conns r' = re_conns r" and "w_heap (re_world r') = w_heap (re_world r)"
  shows "connected r'"
proof -
  have lv: "live j q r' = live j q r" and fd: "slot_fd j r' = slot_fd j r" and lk: "link_at q r' = link_at q r" for j q
    using assms by (simp_all add: live_def slot_fd_def link_at_def)
  have "reactor_inv r'"
    using connectedD(1) [OF assms(1)] assms(2,3)
    by (simp add: reactor_inv_def table_ok_def live_def route_at_def ids_ok_def)
  then show ?thesis
    using assms(1,3) unfolding connected_def lv fd lk by simp
qed

lemma incoming_simps [simp]:
  "re_conns (incoming fd es r) = re_conns r" "live j q (incoming fd es r) = live j q r" "slot_fd j (incoming fd es r) = slot_fd j r"
  "route_at j (incoming fd es r) = route_at j r" "link_at q (incoming fd es r) = link_at q r" "reliable j q (incoming fd es r) = reliable j q r"
  "log_slots (incoming fd es r) = log_slots r" "runs denv cmd f (incoming fd es r) = runs denv cmd f r"
  "re_last_msgs (incoming fd es r) = re_last_msgs r" "os_malloc (w_os (re_world (incoming fd es r))) = os_malloc (w_os (re_world r))"
  "os_in (w_os (re_world (incoming fd es r))) fd = es" "stays x j q (incoming fd es r) s = stays x j q r s"
  by (simp_all add: incoming_def live_def slot_fd_def link_at_def reliable_def log_slots_def subscribed_def runs_def stays_def out_of_def)

lemma incoming_keeps:
  "attended denv r \<Longrightarrow> attended denv (incoming fd es r)" "represents b r \<Longrightarrow> represents b (incoming fd es r)"
  "kept xs (incoming fd es r) s = kept xs r s" "answered xs (incoming fd es r) s = answered xs r s"
proof -
  show "attended denv r \<Longrightarrow> attended denv (incoming fd es r)"
    using connected_cong [of r "incoming fd es r"] by (simp add: attended_def) (simp add: incoming_def)
qed (simp_all add: represents_def answered_def kept_def)

text \<open>The turn receives the request and runs its command.\<close>

lemma turn_runs:
  assumes "attended denv r" and "live i p r" and "arrives m i p r" and "m = message_text cmd route payload"
    and "parts_ok cmd route" and "tcp_sendable m" and "NUL \<notin> set m" and "runs denv cmd f r" and "cmd \<noteq> ''lscmd''" and "cmd \<noteq> ''help''"
    and "env_dispatch env = ducq_dispatch denv"
  shows "\<exists>s. settles [] (\<lambda>_. False) r s \<and>
    ducq_loop_turn (env\<lparr>env_select := \<lambda>n fds s. (1, [slot_fd i r], s)\<rparr>) buffer r =
      map_option (\<lambda>(st, b, r'). (b, r')) (f p (filled m) (length m) s)"
proof -
  let ?env = "env\<lparr>env_select := \<lambda>n fds s. (1, [slot_fd i r], s)\<rparr>"
  note a = assms(1) [unfolded attended_def]
  have con: "connected r"
    using a by blast
  obtain s where s: "on_world (ducq_recv p (replicate DUCQ_MSGSZ NUL) DUCQ_MSGSZ) r = Some ((DUCQ_OK, length m, filled m), s)"
      "settles [] (\<lambda>_. False) r s"
    using receive_settles [OF con assms(2,3,6)] by blast
  obtain fds where "watched_fds (re_conns r) = Some fds"
    using a by blast
  moreover have "\<forall>j < DUCQ_MAX_CONNECTIONS. conn_fd (re_conns r ! j) = slot_fd i r \<longrightarrow> j = i"
    using a assms(2) unfolding slot_fd_def by blast
  ultimately have "only_ready ?env i r"
    by (simp add: only_ready_def)
  note turn = turn_received [OF assms(2) this s(1), of buffer]
  obtain d exec where d: "re_dispatcher s = Some d" "find_loaded cmd (commands_of d) = Some exec" "de_exec denv exec = f"
    using assms(8) settlesD(9) [OF s(2)] by (auto simp: runs_def)
  have "in_buffer (message_text cmd route payload) (filled m)"
    using assms(4,6,7) by (auto simp: in_buffer_def tcp_sendable_def)
  note disp = dispatch_run [OF assms(5) this d(1), of denv p "length m"]
  show ?thesis
    using turn disp d(2,3) s(2) assms(9-11) by auto
qed

section \<open>Publishing and subscribing refine the steps of the broker\<close>

lemma represents_slot:
  "represents b r \<Longrightarrow> live j q r \<Longrightarrow> br_routes b ! j = route_at j r \<and> j < length (br_routes b)"
  by (auto simp: represents_def live_def)

lemma store_room:
  assumes "represents b r"
  shows "dom (last_map (re_last_msgs r)) = fst ` set (br_last b)" and "card (dom (last_map (re_last_msgs r))) = length (br_last b)"
proof -
  show "dom (last_map (re_last_msgs r)) = fst ` set (br_last b)"
    using assms by (simp add: represents_def dom_map_of_conv_image_fst)
  then show "card (dom (last_map (re_last_msgs r))) = length (br_last b)"
    using assms distinct_card [of "map fst (br_last b)"] by (simp add: represents_def)
qed

lemma store_attended [simp]: "attended denv (r\<lparr>re_last_msgs := m\<rparr>) = attended denv r"
  by (simp add: attended_def runs_def)

lemma store_answered: "answered xs (r\<lparr>re_last_msgs := m\<rparr>) s = answered xs r s"
  by (simp add: answered_def kept_def)

lemma remember_represents:
  assumes "represents b r" and "storable route m"
  shows "\<exists>st lms. set_last (re_last_msgs r) route m = Some (st, lms) \<and> represents (remember route m b) (r\<lparr>re_last_msgs := lms\<rparr>)"
proof -
  note a = assms(1) [unfolded represents_def] and room = store_room [OF assms(1)]
  have wf: "wf_last (re_last_msgs r)" and len: "length (re_last_msgs r) = DUCQ_MAX_CHANNELS"
    using a by blast+
  show ?thesis
  proof (cases "route \<in> fst ` set (br_last b) \<or> length (br_last b) < DUCQ_MAX_CHANNELS")
    case True
    then have "route \<in> dom (last_map (re_last_msgs r)) \<or> card (dom (last_map (re_last_msgs r))) < length (re_last_msgs r)"
      using room len by simp
    then obtain lms where "set_last (re_last_msgs r) route m = Some (DUCQ_OK, lms)" "wf_last lms" "length lms = length (re_last_msgs r)"
        "last_map lms = (last_map (re_last_msgs r))(route \<mapsto> m)"
      using last_msgs.put_room [OF wf assms(2)] by blast
    then show ?thesis
      using a True assms(2) by (auto simp: represents_def remember_def distinct_update update_conv' storable_def)
  next
    case False
    then have "set_last (re_last_msgs r) route m = Some (DUCQ_EMAX, re_last_msgs r)"
      using last_msgs.put_full [OF wf assms(2)] room len by simp
    then show ?thesis
      using a False by (auto simp: represents_def remember_def)
  qed
qed

lemma last_reply_get:
  assumes "represents b r" and "route \<noteq> []"
  shows "get_last (re_last_msgs r) route = Some (last_reply b route)"
  using get_last_spec [of "re_last_msgs r" route] assms store_room [OF assms(1)]
  by (simp add: represents_def last_reply_def)

lemma interested_subscribed:
  assumes "represents b r" and "live j q r"
  shows "subscribed (\<lambda>t. ducq_route_cmp (Some t) (Some route)) r j \<longleftrightarrow> j \<in> set (interested route b)"
  using represents_slot [OF assms] assms(2) by (auto simp: subscribed_def interested_def split: option.splits)

lemma publish_any:
  assumes "attended denv r" and "represents b r" and "live i p r" and "valid_request (Publish route payload)"
    and "arrives (message_text ''pub'' route payload) i p r" and "env_dispatch env = ducq_dispatch denv"
    and "reliable i p r \<or> \<not> echoes i (Publish route payload) r"
  shows "\<exists>w buf r'. ducq_loop_turn (env\<lparr>env_select := \<lambda>n fds s. (1, [slot_fd i r], s)\<rparr>) buffer r = Some (buf, r') \<and>
    attended denv r' \<and> represents (fst (ask_step (i, Publish route payload) w b)) r' \<and>
    answered (snd (ask_step (i, Publish route payload) w b)) r r'"
proof -
  let ?m = "message_text ''pub'' route payload"
  let ?W = "\<lambda>r. subscribed (\<lambda>t. ducq_route_cmp (Some t) (Some route)) r"
  let ?b = "remember route ?m b"
  have v: "parts_ok ''pub'' route" "tcp_sendable ?m" "NUL \<notin> set ?m" "route \<noteq> []" "length route < DUCQ_MAX_ROUTE_LEN"
    using assms(4) by (simp_all add: parts_ok_def)
  have "runs denv ''pub'' pub r"
    using assms(1) by (simp add: attended_def)
  from turn_runs [OF assms(1,3,5) refl v(1-3) this _ _ assms(6), of buffer] obtain s where s: "settles [] (\<lambda>_. False) r s"
    "ducq_loop_turn (env\<lparr>env_select := \<lambda>n fds s. (1, [slot_fd i r], s)\<rparr>) buffer r =
      map_option (\<lambda>(st, b, r'). (b, r')) (pub p (filled ?m) (length ?m) s)"
    by auto
  note idle = settles_idle [OF s(1) assms(1,2)]
  have live: "live i p s" and rel: "reliable i p r \<longrightarrow> reliable i p s"
    using settlesD(7) [OF s(1) assms(3)] by (simp_all add: stays_def)
  have "storable route ?m"
    using v by (auto simp: storable_def message_text_def tcp_sendable_def)
  then obtain st lms where lms: "set_last (re_last_msgs s) route ?m = Some (st, lms)" "represents ?b (s\<lparr>re_last_msgs := lms\<rparr>)"
    using remember_represents [OF idle(2)] by blast
  let ?s = "s\<lparr>re_last_msgs := lms\<rparr>"
  have buf: "in_buffer ?m (filled ?m)"
    using v(2,3) by (auto simp: in_buffer_def tcp_sendable_def)
  have ser: "connected s" "log_slots s = []" "os_malloc (w_os (re_world s)) = []" and att: "attended denv ?s"
    using idle(1) by (simp_all add: attended_def runs_def)
  have own: "reliable i p s \<or> \<not> ?W s i"
    using assms(7) rel settlesD(8) [OF s(1), of i] by (auto simp: subscribed_def)
  obtain k s2 r' where run: "pub_as ''pub'' p (filled ?m) (length ?m) s = Some (k, filled ?m, r')"
    and out: "if k = DUCQ_OK then settles ''ACK'' (\<lambda>j. j = i) ?s s2 \<and> live i p s2 \<and> settles ?m (?W s2) s2 r'
      else leaves i p ?s r' \<and> \<not> reliable i p s"
    using pub_any [OF ser(1) live ser(2,3) v(1) buf _ v(5) lms(1) own, of "''pub''"] by auto
  have told: "answered xs ?s r' \<Longrightarrow> answered xs r r'" for xs
    using answered_append [OF idle(3)] store_answered by fastforce
  have "\<exists>w. attended denv r' \<and> represents (fst (ask_step (i, Publish route payload) w b)) r' \<and>
      answered (snd (ask_step (i, Publish route payload) w b)) r r'"
  proof (cases "k = DUCQ_OK")
    case True
    then have ack: "settles ''ACK'' (\<lambda>j. j = i) ?s s2" and l2: "live i p s2" and msg: "settles ?m (?W s2) s2 r'"
      using out by simp_all
    have con: "connected ?s" "connected s2"
      using ser(1) settlesD(1) [OF ack] by simp_all
    have att2: "attended denv s2"
      by (rule settles_attended [OF ack att])
    have "i \<notin> set (gone ?s s2)" and only: "j \<in> set (gone ?s s2) \<longrightarrow> j = i" for j
      using l2 settlesD(7) [OF ack] unfolding gone_iff stays_def by blast+
    then have none: "gone ?s s2 = []"
      by (metis list.set_intros(1) neq_Nil_conv)
    then have rep2: "represents ?b s2" and ans2: "answered [Text i ''ACK''] ?s s2"
      using settles_represents [OF ack lms(2)] settles_answered [OF ack con(1), of "[i]"] by simp_all
    let ?ks = "interested route b" and ?g = "gone s2 r'"
    have same: "interested route ?b = ?ks"
      by (simp add: interested_def remember_def)
    have W: "?W s2 j \<longleftrightarrow> j \<in> set ?ks" if "live j q s2" for j q
      using interested_subscribed [OF rep2 that, of route] unfolding same .
    have "set ?g \<subseteq> set ?ks"
    proof
      fix j assume g: "j \<in> set ?g"
      then obtain q where q: "live j q s2"
        unfolding gone_iff by blast
      then have "?W s2 j"
        using settlesD(7) [OF msg q] g unfolding gone_iff stays_def by blast
      then show "j \<in> set ?ks"
        using W [OF q] by blast
    qed
    then have "set ?g = set (filter (\<lambda>j. j \<in> set ?g) ?ks)"
      by auto
    note same_blank = blank_cong [OF this, of "br_routes ?b"]
    have "represents (without (filter (\<lambda>j. j \<in> set ?g) ?ks) ?b) r'"
      using settles_represents [OF msg rep2] unfolding same_blank .
    moreover have "answered (map (\<lambda>j. if j \<in> set ?g then Dropped j else Text j ?m) ?ks) s2 r'"
      using settles_answered [OF msg con(2) _ W] by (simp add: interested_def)
    then have "answered (Text i ''ACK'' # map (\<lambda>j. if j \<in> set ?g then Dropped j else Text j ?m) ?ks) r r'"
      using told [OF answered_append [OF ans2]] by simp
    ultimately show ?thesis
      using settles_attended [OF msg att2] by (intro exI [of _ "(True, ?g)"]) (simp add: Let_def)
  next
    case False
    then have lv: "leaves i p ?s r'" and "\<not> reliable i p ?s"
      using out by simp_all
    moreover have "live i p ?s" and "connected ?s"
      using live ser(1) by simp_all
    ultimately show ?thesis
      using leaves_attended [OF att lv] leaves_represents [OF lms(2) lv] told [OF leaves_answered [OF _ lv]]
      by (intro exI [of _ "(False, [])"]) (simp add: Let_def)
  qed
  then show ?thesis
    using s(2) run by (simp add: pub_def del: ask_step.simps)
qed

lemma blank_update: "blank [i] (xs[i := v]) = blank [i] xs"
  by (simp add: blank_def)

lemma subscribe_any:
  assumes "attended denv r" and "represents b r" and "live i p r" and "valid_request (Subscribe route payload)"
    and "arrives (message_text ''sub'' route payload) i p r" and "env_dispatch env = ducq_dispatch denv"
  shows "\<exists>w buf r'. ducq_loop_turn (env\<lparr>env_select := \<lambda>n fds s. (1, [slot_fd i r], s)\<rparr>) buffer r = Some (buf, r') \<and>
    attended denv r' \<and> represents (fst (ask_step (i, Subscribe route payload) w b)) r' \<and>
    answered (snd (ask_step (i, Subscribe route payload) w b)) r r'"
proof -
  let ?m = "message_text ''sub'' route payload"
  have v: "parts_ok ''sub'' route" "tcp_sendable ?m" "NUL \<notin> set ?m" "route \<noteq> []" "length route < DUCQ_MAX_ROUTE_LEN" "route \<noteq> DUCQ_LOG_ROUTE"
    using assms(4) by (simp_all add: parts_ok_def)
  have "runs denv ''sub'' sub r"
    using assms(1) by (simp add: attended_def)
  from turn_runs [OF assms(1,3,5) refl v(1-3) this _ _ assms(6), of buffer] obtain s where s: "settles [] (\<lambda>_. False) r s"
    "ducq_loop_turn (env\<lparr>env_select := \<lambda>n fds s. (1, [slot_fd i r], s)\<rparr>) buffer r =
      map_option (\<lambda>(st, b, r'). (b, r')) (sub p (filled ?m) (length ?m) s)"
    by auto
  note idle = settles_idle [OF s(1) assms(1,2)]
  have live: "live i p s"
    using settlesD(7) [OF s(1) assms(3)] by (simp add: stays_def)
  have buf: "in_buffer ?m (filled ?m)"
    using v(2,3) by (auto simp: in_buffer_def tcp_sendable_def)
  have ser: "connected s" "log_slots s = []"
    using idle(1) by (simp_all add: attended_def)
  define reply where "reply = (if payload = ''last'' then last_reply b route else ''ACK'')"
  have last: "payload = ''last'' \<longrightarrow> get_last (re_last_msgs s) route = Some reply" "payload \<noteq> ''last'' \<longrightarrow> reply = ''ACK''"
    using last_reply_get [OF idle(2) v(4)] by (simp_all add: reply_def)
  have "\<forall>m. map_of (br_last b) route = Some m \<longrightarrow> length m \<le> DUCQ_MSGSZ"
    using idle(2) by (simp add: represents_def)
  then have len: "length reply \<le> DUCQ_MSGSZ"
    by (auto simp: reply_def last_reply_def split: option.splits)
  obtain k s1 r' where run: "sub_as ''sub'' p (filled ?m) (length ?m) s = Some (k, filled ?m, r')"
      "ducq_reactor_subscribe p route s = (DUCQ_OK, s1)"
    and out: "if k = DUCQ_OK then settles reply (\<lambda>j. j = i) s1 r' \<and> live i p r' else leaves i p s1 r' \<and> \<not> reliable i p s"
    using sub_any [OF ser(1) live ser(2) v(1) buf _ v(5,6) last len, of "''sub''" "length ?m"] by auto
  have "NUL \<notin> set route"
    using v(3) by (auto simp: message_text_def)
  then have s1: "connected s1" "re_world s1 = re_world s" "route_at i s1 = Some route" "\<And>j. j \<noteq> i \<Longrightarrow> route_at j s1 = route_at j s"
      "\<And>j q. live j q s1 = live j q s" "\<And>j. slot_fd j s1 = slot_fd j s" "re_last_msgs s1 = re_last_msgs s"
      "re_allow_log_route s1 = re_allow_log_route s" "re_dispatcher s1 = re_dispatcher s"
    using subscribe_connected [OF ser(1) live _ v(5)] run(2) by auto
  have lk: "link_at q s1 = link_at q s" and rel: "reliable j q s1 = reliable j q s" for j q
    by (simp_all add: reliable_def link_at_def s1(2,6))
  have "log_slots s1 = []"
    by (rule log_slots_route [OF ser(2) _ _ s1(3) v(6) s1(8)]) (simp_all add: s1(4,5))
  then have att1: "attended denv s1"
    using attended_shrinks [OF idle(1) s1(1)] s1(2,5,6,9) by simp
  have i: "i < DUCQ_MAX_CONNECTIONS"
    using live by (simp add: live_def)
  let ?b = "b\<lparr>br_routes := (br_routes b)[i := Some route]\<rparr>"
  have rep1: "represents ?b s1"
    using idle(2) i live s1(3,4) unfolding represents_def s1(5,7) by (auto simp: nth_list_update)
  have "stays [] j q s s1" if "live j q s" for j q
    using that by (simp add: stays_def s1(2,5,6) rel lk out_of_def)
  then have "kept [] s s1"
    using silence_kept [OF ser(1), of "[]" s1] s1(6) by simp
  then have "answered [] s s1"
    using s1(5) by (simp add: answered_def)
  from answered_append [OF idle(3) this] have sub: "answered [] r s1"
    by simp
  have "\<exists>w. attended denv r' \<and> represents (fst (ask_step (i, Subscribe route payload) w b)) r' \<and>
      answered (snd (ask_step (i, Subscribe route payload) w b)) r r'"
  proof (cases "k = DUCQ_OK")
    case True
    then have st: "settles reply (\<lambda>j. j = i) s1 r'" and l': "live i p r'"
      using out by simp_all
    have "i \<notin> set (gone s1 r')" and "j \<in> set (gone s1 r') \<longrightarrow> j = i" for j
      using l' settlesD(7) [OF st] unfolding gone_iff stays_def by blast+
    then have "gone s1 r' = []"
      by (metis list.set_intros(1) neq_Nil_conv)
    then have "represents ?b r'" and "answered [Text i reply] s1 r'"
      using settles_represents [OF st rep1] settles_answered [OF st s1(1), of "[i]"] by simp_all
    then show ?thesis
      using settles_attended [OF st att1] answered_append [OF sub]
      by (intro exI [of _ "(True, [])"]) (fastforce simp: reply_def)
  next
    case False
    then have lv: "leaves i p s1 r'" and "\<not> reliable i p s1" and l1: "live i p s1"
      using out rel live s1(5) by simp_all
    then have "answered [Dropped i] r r'"
      using answered_append [OF sub leaves_answered [OF s1(1) lv l1]] by simp
    moreover have "represents (without [i] b) r'"
      using leaves_represents [OF rep1 lv l1] by (simp add: blank_update)
    ultimately show ?thesis
      using leaves_attended [OF att1 lv] by (intro exI [of _ "(False, [])"]) simp
  qed
  then show ?thesis
    using s(2) run(1) by (simp add: sub_def del: ask_step.simps)
qed

text \<open>Any request on any network.\<close>

lemma serve_any:
  assumes "attended denv r" and "represents b r" and "sent_by (i, q, es) r" and "env_dispatch env = ducq_dispatch denv"
    and "\<And>p. live i p r \<Longrightarrow> reliable i p r \<or> \<not> echoes i q r"
  shows "\<exists>w buf r'. serve env (i, q, es) (buffer, r) = Some (buf, r') \<and>
    attended denv r' \<and> represents (fst (ask_step (i, q) w b)) r' \<and> answered (snd (ask_step (i, q) w b)) r r'"
proof -
  let ?r = "incoming (slot_fd i r) es r"
  obtain p l where p: "live i p r" "link_at p r = Some (l, slot_fd i r)" "framed (peer l) (request_text q) (rd_bytes es)"
    using assms(3) by auto
  have v: "valid_request q" and lv: "live i p ?r"
    using assms(3) p(1) by simp_all
  have st: "stream (slot_fd i r) (w_os (re_world ?r)) = rd_bytes es @ []" and fl: "fluent es"
    using assms(3) by (simp_all add: stream_def)
  have ar: "arrives (request_text q) i p ?r"
    unfolding arrives_def incoming_simps by (intro conjI exI [of _ l] exI [of _ "rd_bytes es"] exI [of _ "[]"] fl p(2,3) st)
  note keep = incoming_keeps(1) [OF assms(1)] incoming_keeps(2) [OF assms(2)]
  have own: "reliable i p ?r \<or> \<not> echoes i q ?r"
    using assms(5) [OF p(1)] by (cases q) simp_all
  show ?thesis
  proof (cases q)
    case (Subscribe route payload)
    from subscribe_any [OF keep lv v [unfolded this] ar [unfolded this request_text.simps] assms(4), of buffer]
    show ?thesis
      unfolding serve.simps incoming_keeps(4) incoming_simps(3) Subscribe .
  next
    case (Publish route payload)
    from publish_any [OF keep lv v [unfolded this] ar [unfolded this request_text.simps] assms(4) own [unfolded this], of buffer]
    show ?thesis
      unfolding serve.simps incoming_keeps(4) incoming_simps(3) Publish .
  qed
qed

section \<open>Reliable clients\<close>

lemma delivered_append:
  assumes "delivered xs r s" and "delivered ys s t"
  shows "delivered (xs @ ys) r t"
  unfolding delivered_def
proof (intro allI impI conjI)
  fix j q assume lv: "live j q r"
  obtain l us where a: "slot_fd j s = slot_fd j r" "link_at q r = Some (l, slot_fd j r)" "list_all2 (framed l) (texts_for j xs) us"
      "stays (concat us) j q r s"
    using assms(1) lv unfolding delivered_def by blast
  then have "live j q s" and "link_at q s = Some (l, slot_fd j r)"
    by (auto simp: stays_def)
  then obtain vs where b: "slot_fd j t = slot_fd j s" "list_all2 (framed l) (texts_for j ys) vs" "stays (concat vs) j q s t"
    using assms(2) unfolding delivered_def by fastforce
  show "slot_fd j t = slot_fd j r"
    using a(1) b(1) by simp
  show "\<exists>l ys'. link_at q r = Some (l, slot_fd j r) \<and> list_all2 (framed l) (texts_for j (xs @ ys)) ys' \<and> stays (concat ys') j q r t"
    using a b(2) stays_trans [OF a(4) b(3) a(1)]
    by (intro exI [of _ l] exI [of _ "us @ vs"]) (simp add: list_all2_appendI)
qed

lemma kept_delivered: "kept (map (\<lambda>(j, m). Text j m) xs) r s \<Longrightarrow> delivered xs r s"
  unfolding kept_def delivered_def by auto

lemma delivered_nothing:
  assumes "in_service denv r"
  shows "delivered [] r r"
proof -
  have "connected r"
    using assms by (simp add: in_service_def attended_def)
  then have "kept [] r r"
    by (rule silence_kept) (simp_all add: stays_def)
  then show ?thesis
    using kept_delivered [of "[]"] by simp
qed

lemma sent_later: "delivered xs r s \<Longrightarrow> sent_by e r \<Longrightarrow> sent_by e s"
  by (cases e) (fastforce simp: delivered_def stays_def)

lemma serve_refines:
  assumes "in_service denv r" and "represents b r" and "sent_by (i, q, es) r" and "env_dispatch env = ducq_dispatch denv"
  shows "\<exists>buf r'. serve env (i, q, es) (buffer, r) = Some (buf, r') \<and>
    in_service denv r' \<and> represents (fst (broker_step (i, q) b)) r' \<and> delivered (snd (broker_step (i, q) b)) r r'"
proof -
  have a: "attended denv r" and rel: "\<And>j p. live j p r \<Longrightarrow> reliable j p r"
    using assms(1) by (simp_all add: in_service_def)
  obtain w buf r' where r': "serve env (i, q, es) (buffer, r) = Some (buf, r')" "attended denv r'"
      "represents (fst (ask_step (i, q) w b)) r'" "answered (snd (ask_step (i, q) w b)) r r'"
    using serve_any [OF a assms(2-4), of buffer] rel by blast
  obtain p where p: "live i p r"
    using assms(3) by auto
  let ?xs = "snd (ask_step (i, q) w b)"
  have left: "Left j \<notin> set ?xs" for j
    by (cases q; cases w) (auto simp: Let_def)
  have no: "Dropped j \<notin> set ?xs" if "live j x r" for j x
    using r'(4) that rel left unfolding answered_def kept_def by blast
  have slot: "j = i \<or> br_routes b ! j \<noteq> None \<and> j < length (br_routes b)" if "Dropped j \<in> set ?xs" for j
    using that by (cases q; cases w) (auto simp: Let_def interested_def split: if_splits option.splits)
  have none: "Dropped j \<notin> set ?xs" for j
  proof
    assume d: "Dropped j \<in> set ?xs"
    then have "\<exists>x. live j x r"
      using slot [OF d] p assms(2) unfolding represents_def by metis
    then show False
      using no d by blast
  qed
  have taken: "fst w"
    using none [of i] by (cases q; cases w) (auto simp: Let_def split: if_splits)
  note eq = ask_step_taken [OF taken none]
  have "reliable j x r'" if "live j x r'" for j x
  proof -
    have "live j x r"
      using r'(4) that by (simp add: answered_def)
    then show ?thesis
      using r'(4) rel none left unfolding answered_def kept_def stays_def by blast
  qed
  then have "in_service denv r'"
    using r'(2) by (simp add: in_service_def)
  moreover have "kept (map (\<lambda>(j, m). Text j m) (snd (broker_step (i, q) b))) r r'"
    using r'(4) unfolding eq answered_def by simp
  then have "delivered (snd (broker_step (i, q) b)) r r'"
    by (rule kept_delivered)
  ultimately show ?thesis
    using r'(1,3) unfolding eq by auto
qed

interpretation server: simulation "serve (env\<lparr>env_dispatch := ducq_dispatch denv\<rparr>)" "\<lambda>(i, q, es). broker_step (i, q)"
    "\<lambda>b c. in_service denv (snd c) \<and> represents b (snd c)" "\<lambda>e c. sent_by e (snd c)" "\<lambda>xs c d. delivered xs (snd c) (snd d)"
  for env :: "('l, 's dispatcher) loop_env" and denv :: "('l, 's) disp_env"
proof (unfold_locales, goal_cases)
  case (1 b c e)
  then show ?case
    using serve_refines [of denv "snd c" b _ _ _ "env\<lparr>env_dispatch := ducq_dispatch denv\<rparr>" "fst c"] by (cases e) fastforce
qed (auto intro: delivered_nothing delivered_append sent_later)

text \<open>The server is a broker.  Over any sequence of subscriptions and publications that its TCP and
  WebSocket clients send, in any pieces, every request takes one turn of the main loop, the turns return, the
  routes and the last messages are those of the abstract broker after the same requests, and every
  client has been sent exactly the texts the broker has for it, in that order, each in one frame.\<close>

theorem server_refines_broker:
  assumes "in_service denv r" and "represents b r" and "\<forall>e \<in> set es. sent_by e r"
  shows "\<exists>buf r'. run_all (serve (env\<lparr>env_dispatch := ducq_dispatch denv\<rparr>)) es (buffer, r) = Some (buf, r') \<and>
    in_service denv r' \<and> represents (fst (broker_run es b)) r' \<and> delivered (snd (broker_run es b)) r r'"
  using server.simulates [of denv "(buffer, r)" b es env] assms unfolding broker_run_def by auto

section \<open>Witness\<close>

text \<open>The server of the TCP and WebSocket clients, with a network that takes everything and both commands loaded.\<close>

definition service_dispatcher :: "nat dispatcher" where
  "service_dispatcher = (demo_dispatcher None)\<lparr>di_cmds := Some
     [\<lparr>cmd_name = ''pub'', cmd_doc = [], cmd_exec = 7\<rparr>, \<lparr>cmd_name = ''sub'', cmd_doc = [], cmd_exec = 8\<rparr>]\<rparr>"

definition service_env :: "(unit, nat) disp_env" where
  "service_env = demo_env\<lparr>de_exec := (\<lambda>f. if f = 7 then pub else sub)\<rparr>"

definition service :: "(unit, nat) server" where
  "service = (mixed [])\<lparr>re_world := (re_world (mixed []))\<lparr>w_os := quiet_os\<rparr>, re_dispatcher := Some service_dispatcher\<rparr>"

definition service_broker :: broker where
  "service_broker = \<lparr>br_routes = [Some ''a'', Some ''b'', Some ''a''] @ replicate 22 None, br_last = []\<rparr>"

definition service_events :: "event list" where
  "service_events =
     [(0, Subscribe ''n'' ''x'', [RData (tcp_frame (message_text ''sub'' ''n'' ''x''))]),
      (1, Publish ''n'' ''hi'', [RData (ws_frame (WS_FIN OR WS_TEXT) (Some [1, 2, 3, 4]) (message_text ''pub'' ''n'' ''hi''))])]"

lemma service_simps [simp]:
  "re_conns service = re_conns (mixed [])" "w_heap (re_world service) = w_heap (re_world (mixed []))"
  "live i p service = live i p (mixed [])" "slot_fd i service = slot_fd i (mixed [])" "route_at i service = route_at i (mixed [])"
  "link_at p service = link_at p (mixed [])" "re_allow_log_route service = re_allow_log_route (mixed [])" "re_last_msgs service = re_last_msgs (mixed [])"
  "w_os (re_world service) = quiet_os" "re_dispatcher service = Some service_dispatcher"
  by (simp_all add: service_def live_def slot_fd_def link_at_def route_at_def)

lemma service_in_service: "in_service service_env service"
proof -
  have "connected service"
    by (rule connected_cong [OF mixed_connected]) simp_all
  moreover have "reliable j q service" if "live j q service" for j q
    using that mixed_slots mixed_links by (auto simp: reliable_def mixed_live quiet_os_def)
  moreover have "subscribed P service = subscribed P (mixed [])" for P
    by (simp add: subscribed_def fun_eq_iff)
  then have "log_slots service = log_slots (mixed [])"
    by (simp add: log_slots_def)
  then have "log_slots service = []"
    using mixed_is_ready [of "[]"] by (simp add: mixed_ready_def)
  moreover have "runs service_env ''pub'' pub service" "runs service_env ''sub'' sub service"
    by (simp_all add: runs_def service_dispatcher_def service_env_def commands_of_def find_loaded_def)
  moreover have "watched_fds (re_conns service) = Some [5, 6, 7]"
    by (simp add: mixed_def demo_conn_list watched_fds_def demo_conn_def FD_SETSIZE_def numeral_eq_Suc)
  moreover have "j = i" if "live i p service" "j < DUCQ_MAX_CONNECTIONS" "slot_fd j service = slot_fd i service" for i p j
    using that mixed_slots by (auto simp: mixed_live slot_fd_def mixed_conns demo_conns demo_conn_def split: if_splits)
  ultimately show ?thesis
    by (auto simp: in_service_def attended_def quiet_os_def)
qed

lemma service_represents: "represents service_broker service"
proof -
  have "br_routes service_broker ! j = (if \<exists>q. live j q service then route_at j service else None)" if "j < DUCQ_MAX_CONNECTIONS" for j
  proof -
    consider "j = 0" | "j = 1" | "j = 2" | "3 \<le> j"
      by linarith
    then show ?thesis
    proof cases
      case 4
      then show ?thesis
        using that by (simp add: service_broker_def mixed_live nth_append nth_Cons')
    qed (use mixed_slots in \<open>simp_all add: service_broker_def mixed_live\<close>)
  qed
  then show ?thesis
    using demo_store_free unfolding represents_def service_simps mixed_simps by (simp add: service_broker_def)
qed

lemma service_sent: "e \<in> set service_events \<Longrightarrow> sent_by e service"
proof -
  have "sent_by (0, Subscribe ''n'' ''x'', [RData (tcp_frame (message_text ''sub'' ''n'' ''x''))]) service"
    using mixed_slots mixed_links
    by (auto simp: mixed_live message_text_def tcp_sendable_def DUCQ_LOG_ROUTE_def tcp_frame_def)
  moreover have "sent_by (1, Publish ''n'' ''hi'',
      [RData (ws_frame (WS_FIN OR WS_TEXT) (Some [1, 2, 3, 4]) (message_text ''pub'' ''n'' ''hi''))]) service"
    using mixed_slots mixed_links
    by (auto simp: mixed_live message_text_def tcp_sendable_def ws_frame_def rfc_header_Cons intro!: exI [of _ "Some [1, 2, 3, 4]"])
  ultimately show "e \<in> set service_events \<Longrightarrow> sent_by e service"
    unfolding service_events_def list.set by blast
qed

lemma service_texts:
  "texts_for 0 (snd (broker_run service_events service_broker)) = [''ACK'', message_text ''pub'' ''n'' ''hi'']"
  "texts_for 2 (snd (broker_run service_events service_broker)) = []"
proof -
  let ?b = "service_broker\<lparr>br_routes := (br_routes service_broker)[0 := Some ''n'']\<rparr>"
  have cmp: "ducq_route_cmp (Some ''n'') (Some ''n'')" "\<not> ducq_route_cmp (Some ''b'') (Some ''n'')" "\<not> ducq_route_cmp (Some ''a'') (Some ''n'')"
    by code_simp+
  have "(case br_routes ?b ! j of Some t \<Rightarrow> ducq_route_cmp (Some t) (Some ''n'') | None \<Rightarrow> False) \<longleftrightarrow> j = 0" if "j < 25" for j
  proof -
    consider "j = 0" | "j = 1" | "j = 2" | "3 \<le> j"
      by linarith
    then show ?thesis
      using cmp that by cases (simp_all add: service_broker_def nth_append nth_Cons')
  qed
  then have "interested ''n'' ?b = filter (\<lambda>j. j = 0) [0..<25]"
    unfolding interested_def by (intro filter_cong) (simp_all add: service_broker_def)
  also have "\<dots> = [0]"
    by (simp add: upt_rec)
  finally show "texts_for 0 (snd (broker_run service_events service_broker)) = [''ACK'', message_text ''pub'' ''n'' ''hi'']"
    and "texts_for 2 (snd (broker_run service_events service_broker)) = []"
    by (simp_all add: broker_run_def service_events_def Let_def)
qed

theorem server_refines_broker_witness:
  "\<exists>buf r'. run_all (serve (mixed_loop\<lparr>env_dispatch := ducq_dispatch service_env\<rparr>)) service_events ([], service) = Some (buf, r') \<and>
    out_of 5 r' = tcp_frame ''ACK'' @ tcp_frame (message_text ''pub'' ''n'' ''hi'') \<and> out_of 7 r' = []"
proof -
  obtain buf r' where r': "run_all (serve (mixed_loop\<lparr>env_dispatch := ducq_dispatch service_env\<rparr>)) service_events ([], service) = Some (buf, r')"
      "delivered (snd (broker_run service_events service_broker)) service r'"
    using server_refines_broker [OF service_in_service service_represents, of service_events mixed_loop "[]"] service_sent by blast
  have "live 0 9 service" and "live 2 11 service"
    by (simp_all add: mixed_live)
  then have "out_of 5 r' = tcp_frame ''ACK'' @ tcp_frame (message_text ''pub'' ''n'' ''hi'')" and "out_of 7 r' = []"
    using r'(2) mixed_slots mixed_links service_texts unfolding delivered_def stays_def
    by (fastforce simp: list_all2_Cons1 out_of_def quiet_os_def)+
  then show ?thesis
    using r'(1) by blast
qed

end
