(* ===== verification/Broker_Sessions.thy ===== *)
theory Broker_Sessions
  imports Broker_Server
begin

text \<open>
  Clients come and go while the server works: a connection is accepted on a listening socket and takes the first
  free slot, a client whose peer has closed is removed and freed, a client that does not take what it is sent is
  dropped, and their slots are used again.  The server still refines the broker.
\<close>

section \<open>A client whose peer has closed\<close>

lemma closed_receive:
  assumes "client_wf c" and "link_of c = (l, fd)" and "l \<noteq> NoLink" and "os_in s fd = []"
  shows "\<exists>st c'. vt_recv (replicate DUCQ_MSGSZ NUL) DUCQ_MSGSZ c s = Some ((st, DUCQ_MSGSZ, replicate DUCQ_MSGSZ NUL), c', s) \<and>
    st \<noteq> DUCQ_OK \<and> st \<noteq> DUCQ_PROTOCOL \<and> link_of c' = link_of c \<and> client_wf c'"
proof -
  have eof: "readn_loop fd n [] s = (0, [], s)" for n
    by (subst readn_loop.simps) (simp add: sys_read_def assms(4))
  have ws: "ws_recv w b k s = Some (DUCQ_EREAD, k, b, w, s)" if "ws_fd w = fd" for w b k
    using that eof by (simp add: ws_recv_def read_hdr_def put_at_def)
  show ?thesis
  proof (cases c)
    case (Tcp d)
    then have fd: "tcp_fd d = fd"
      using assms(2) by simp
    have "readn fd b 0 1 s = Some (0, b, s)" for b
      using eof by (simp add: readn_def mem_write_def)
    then have "tcp_header fd 256 b 0 s = Some (Inr (0, 0), b, s)" for b
      using tcp_header_step [of fd b 0] by simp
    then show ?thesis
      using Tcp fd by (simp add: tcp_recv_def ducq_tcp_recv_def)
  next
    case (Ws w)
    then show ?thesis
      using ws [of w] assms(1,2) by (auto simp: ws_link_def)
  next
    case (Http h)
    then obtain w where "http_ws h = Some w" "ws_fd w = fd"
      using assms(2,3) by (auto simp: ws_link_def split: option.splits)
    then show ?thesis
      using Http ws [of w] assms(1) by (auto simp: http_recv_def)
  qed
qed

lemma turn_leaves:
  assumes "connected r" and "live i p r" and "log_slots r = []" and "only_ready env i r" and "link_at p r = Some (l, slot_fd i r)" and "l \<noteq> NoLink"
    and "os_in (w_os (re_world r)) (slot_fd i r) = []" and "\<forall>e. length (env_strerror env e) \<le> 60"
  shows "\<exists>b f. ducq_loop_turn env buffer r = Some (b, f) \<and> leaves i p r f"
proof -
  let ?b = "replicate DUCQ_MSGSZ NUL"
  have i: "i < DUCQ_MAX_CONNECTIONS" "conn_fd (re_conns r ! i) \<noteq> - 1"
    using assms(2) by (simp_all add: live_def)
  obtain area where as: "conn_as (re_conns r ! i) = AsClient p area"
    using assms(2) by (auto simp: live_def conn_client_def split: conn_as.splits)
  obtain c where c: "w_heap (re_world r) p = Some c" "client_wf c" "link_of c = (l, slot_fd i r)"
    using connectedD(2) [OF assms(1,2)] assms(5) by (auto simp: link_at_def)
  have p: "p \<noteq> 0"
    using reactor_invD(2) [OF connectedD(1) [OF assms(1)] assms(2)] .
  obtain st c' where st: "vt_recv ?b DUCQ_MSGSZ c (w_os (re_world r)) = Some ((st, DUCQ_MSGSZ, ?b), c', w_os (re_world r))"
      "st \<noteq> DUCQ_OK" "st \<noteq> DUCQ_PROTOCOL" "link_of c' = link_of c" "client_wf c'"
    using closed_receive [OF c(2,3) assms(6,7)] by blast
  let ?r1 = "with_client p c' (w_os (re_world r)) r"
  have "ducq_recv p ?b DUCQ_MSGSZ (re_world r) =
      Some ((st, DUCQ_MSGSZ, ?b), (re_world r)\<lparr>w_os := w_os (re_world r), w_heap := (w_heap (re_world r))(p \<mapsto> c')\<rparr>)"
    unfolding ducq_recv_def by (rule deref_run [where f = "vt_recv ?b DUCQ_MSGSZ", OF p c(1) st(1)])
  then have recv: "on_world (ducq_recv p ?b DUCQ_MSGSZ) r = Some ((st, DUCQ_MSGSZ, ?b), ?r1)"
    by (simp add: on_world_def with_client_def)
  have e1: "aside i r ?r1"
    using recv_ok [OF st(1)] by (intro with_client_aside [OF assms(1,2) c(1)]) (simp_all add: st(4,5))
  have l1: "live i p ?r1"
    using assms(2) by simp
  have "ducq_send_ack p st = ducq_send p (ack_text st)"
    by (simp add: fun_eq_iff send_ack_text)
  moreover have "length (ack_text st) \<le> DUCQ_MSGSZ"
    using ack_text_fits [of st] by simp
  ultimately obtain k r2 where r2: "on_world (ducq_send_ack p st) ?r1 = Some (k, r2)" "aside i ?r1 r2"
    using send_settles [of ?r1 i p "ack_text st"] e1 l1 by (auto simp: aside_def)
  have e2: "aside i r r2"
    by (rule aside_trans [OF e1 r2(2)])
  have c2: "connected r2" and l2: "live i p r2"
    using e2 assms(2) aside_table(1) [OF e2] by (simp_all add: aside_def)
  obtain a r3 where r3: "on_world (ducq_id p) r2 = Some (Some a, r3)" "length a < 100" "settles [] (\<lambda>_. False) r2 r3"
    using id_settles [OF c2 l2] by blast
  have e3: "aside i r r3"
    by (rule aside_trans [OF e2 settles_aside [OF r3(3) c2]])
  have c3: "connected r3" and q3: "log_slots r3 = []"
    using e3 aside_no_log [OF e3] assms(3) by (simp_all add: aside_def)
  obtain x where x: "disconnect_text (env_strerror env) st DUCQ_MSGSZ ?b (os_errno (w_os (re_world r3))) = Some x" "length x \<le> 131"
    using disconnect_fits [of "env_strerror env" "os_errno (w_os (re_world r3))" st] assms(8) by auto
  define e where "e = \<lparr>le_level = (if st = DUCQ_ECONNCLOSED then DUCQ_LOG_INFO else DUCQ_LOG_WARNING),
    le_function = ''round_table'', le_sender = Some a, le_text = x\<rparr>"
  have "length (ducq_level_tostr (le_level e)) \<le> 7"
    by (cases "le_level e") simp_all
  then have "length (log_line e) < DUCQ_MSGSZ"
    using x(2) r3(2) by (simp add: log_line_def e_def fmt_str_def)
  then obtain rc g where g: "ducq_reactor_log e r3 = Some (rc, r3\<lparr>re_logger := g\<rparr>)"
    using log_idle [OF connectedD(1) [OF c3] q3] by blast
  let ?r4 = "r3\<lparr>re_logger := g\<rparr>"
  have "settles [] (\<lambda>_. False) r3 ?r4"
    by (rule idle_settles [OF c3]) simp_all
  then have e4: "aside i r ?r4"
    using aside_trans [OF e3] settles_aside [OF _ c3] by blast
  have hook: "round_table env [slot_fd i r] i (buffer, 1) r = Some (DUCQ_LOOP_BREAK OR DUCQ_LOOP_DELETE, (?b, 0), ?r4)"
    using as recv r2(1) r3(1) x(1) g st(2,3) by (simp add: round_table_def slot_fd_def e_def)
  have "live i p ?r4" and "connected ?r4"
    using e4 assms(2) aside_table(1) [OF e4] by (simp_all add: aside_def)
  then obtain f where f: "connection_free i ?r4 = Some f" "leaves i p ?r4 f"
    using free_leaves by blast
  have "\<forall>c x s. round_table env [slot_fd i r] i (buffer, 1) r = Some (c, x, s) \<longrightarrow> c AND DUCQ_LOOP_BREAK \<noteq> 0"
    unfolding hook by auto
  from ready_slot [OF assms(4) i this] have "ducq_loop_turn env buffer r = Some (?b, f)"
    unfolding hook using f(1) by simp
  then show ?thesis
    using aside_leaves [OF e4 f(2)] by blast
qed

section \<open>A client that connects\<close>

text \<open>What an accept function does with a new connection: the client is made and added to the reactor.\<close>

definition admit :: "int \<Rightarrow> nat \<Rightarrow> client \<Rightarrow> ('l, 'd) reactor \<Rightarrow> ('l, 'd) reactor" where
  "admit fd p c r = snd (ducq_reactor_add_client fd p (r\<lparr>re_world := (re_world r)\<lparr>w_heap := (w_heap (re_world r))(p \<mapsto> c)\<rparr>\<rparr>))"

text \<open>The connection and the object are new.\<close>

definition newcomer :: "int \<Rightarrow> nat \<Rightarrow> client \<Rightarrow> ('l, 'd) reactor \<Rightarrow> bool" where
  "newcomer fd p c r \<longleftrightarrow> 0 \<le> fd \<and> fd < FD_SETSIZE \<and> (\<forall>j < DUCQ_MAX_CONNECTIONS. slot_fd j r \<noteq> fd) \<and>
     p \<noteq> 0 \<and> w_heap (re_world r) p = None \<and> client_wf c \<and> client_ok c \<and> snd (link_of c) = fd"

text \<open>The client has the slot, and nothing has happened to the others.\<close>

definition joins :: "nat \<Rightarrow> int \<Rightarrow> nat \<Rightarrow> client \<Rightarrow> ('l, 'd) reactor \<Rightarrow> ('l, 'd) reactor \<Rightarrow> bool" where
  "joins i fd p c r r' \<longleftrightarrow> (\<forall>j q. live j q r' \<longleftrightarrow> j = i \<and> q = p \<or> live j q r) \<and> (\<forall>q. \<not> live i q r) \<and>
     slot_fd i r' = fd \<and> route_at i r' = Some [] \<and> link_at p r' = Some (link_of c) \<and>
     (\<forall>j. j \<noteq> i \<longrightarrow> slot_fd j r' = slot_fd j r \<and> route_at j r' = route_at j r) \<and>
     re_last_msgs r' = re_last_msgs r \<and> (\<forall>j q. live j q r \<longrightarrow> stays [] j q r r')"

lemma admit_joins:
  assumes ins: "attended denv r" and i: "free_slot (re_conns r) = Some i" and new: "newcomer fd p c r"
  shows "attended denv (admit fd p c r)" and "joins i fd p c r (admit fd p c r)"
proof -
  note a = ins [unfolded attended_def] and n = new [unfolded newcomer_def]
  have con: "connected r" and inv: "reactor_inv r"
    using a connectedD(1) by blast+
  note tab = reactor_invD [OF inv]
  define r1 where "r1 = r\<lparr>re_world := (re_world r)\<lparr>w_heap := (w_heap (re_world r))(p \<mapsto> c)\<rparr>\<rparr>"
  define d where "d = \<lparr>conn_fd = fd, conn_as = AsClient p ((conn_route (re_conns r ! i))[0 := NUL])\<rparr>"
  define r' where "r' = set_conn i d r1"
  have ad: "admit fd p c r = r'"
    using i by (simp add: admit_def ducq_reactor_add_client_def r'_def d_def r1_def)
  have "fd \<noteq> - 1"
    using n by auto
  have free: "i < DUCQ_MAX_CONNECTIONS" "conn_fd (re_conns r ! i) = - 1"
    using i tab(1) by (auto simp: free_slot_Some)
  have l1: "live j q r1 = live j q r" for j q
    by (simp add: r1_def live_def)
  have fresh: "\<not> live j p r" for j
    using tab(3) n by blast
  have inv1: "reactor_inv r1"
    using inv n unfolding reactor_inv_def table_ok_def l1 by (auto simp: r1_def ids_ok_def route_at_def)
  have "ducq_reactor_add_client fd p r1 = (DUCQ_OK, r')"
    using i by (simp add: ducq_reactor_add_client_def r'_def d_def r1_def)
  moreover have "free_slot (re_conns r1) = Some i" "w_heap (re_world r1) p \<noteq> None" "\<forall>j. \<not> live j p r1"
    using i fresh by (simp_all add: r1_def l1 live_def)
  ultimately have r': "reactor_inv r'" "re_world r' = re_world r1" "route_at i r' = Some []"
      "live j q r' \<longleftrightarrow> j = i \<and> q = p \<or> live j q r" for j q
    using add_client_run [OF inv1 _ \<open>fd \<noteq> - 1\<close>, of i p] n l1 by auto
  have conns: "re_conns r' = (re_conns r)[i := d]"
    by (simp add: r'_def r1_def)
  have fd: "slot_fd i r' = fd" "slot_fd j r' = slot_fd j r" "route_at j r' = route_at j r" if "j \<noteq> i" for j
    using that free(1) tab(1) by (simp_all add: slot_fd_def route_at_def conns d_def)
  have fdi: "slot_fd i r' = fd"
    using free(1) tab(1) by (simp add: slot_fd_def conns d_def)
  have none: "\<not> live i q r" for q
    using free(2) by (simp add: live_def)
  have ne: "j \<noteq> i" if "live j q r" for j q
    using none that by blast
  have os: "w_os (re_world r') = w_os (re_world r)" "re_dispatcher r' = re_dispatcher r" "re_last_msgs r' = re_last_msgs r"
      "re_allow_log_route r' = re_allow_log_route r"
    by (simp_all add: r'_def r1_def set_conn_def)
  have heap: "w_heap (re_world r') = (w_heap (re_world r))(p \<mapsto> c)"
    by (simp add: r'(2) r1_def)
  have lk: "link_at q r' = (if q = p then Some (link_of c) else link_at q r)" for q
    by (simp add: link_at_def heap)
  have stays: "stays [] j q r r'" if "live j q r" for j q
    using that fresh [of j] fd(2) [OF ne [OF that]] r'(4) by (auto simp: stays_def reliable_def lk os(1) out_of_def)
  have new_fd: "slot_fd j r \<noteq> fd" if "live j q r" for j q
    using n that by (auto simp: live_def)
  have "connected r'"
    unfolding connected_def
  proof (intro conjI allI impI)
    fix j k q q' e
    show "client_wf e" if "w_heap (re_world r') q = Some e"
      using that con n by (auto simp: heap connected_def split: if_splits)
    show "\<exists>l. link_at q r' = Some (l, slot_fd j r')" if "live j q r'"
    proof (cases "j = i \<and> q = p")
      case True
      then show ?thesis
        using fdi lk n by (metis prod.collapse)
    next
      case False
      then have j: "live j q r"
        using that r'(4) by blast
      then obtain l where "link_at q r = Some (l, slot_fd j r)"
        using con unfolding connected_def by blast
      then show ?thesis
        using j fresh fd(2) [OF ne [OF j]] lk by auto
    qed
    show "j = k" if "live j q r'" and "live k q' r'" and "slot_fd j r' = slot_fd k r'"
    proof -
      have "j = i \<or> live j q r" and "k = i \<or> live k q' r"
        using that(1,2) r'(4) by blast+
      then show ?thesis
        using that(3) fdi fd(2) new_fd ne connectedD(3) [OF con] by metis
    qed
  qed (rule r'(1))
  moreover have "log_slots r' = []"
  proof -
    have "subscribed (\<lambda>t. t = DUCQ_LOG_ROUTE) r j" if "subscribed (\<lambda>t. t = DUCQ_LOG_ROUTE) r' j" for j
      using that r'(3,4) fd(3) ne none by (cases "j = i") (auto simp: subscribed_def DUCQ_LOG_ROUTE_def)
    then show ?thesis
      using a by (auto simp: log_slots_def filter_empty_conv os(4) split: if_splits)
  qed
  moreover have "watched_fds (re_conns r') \<noteq> None"
  proof -
    have "length (re_conns r) = DUCQ_MAX_CONNECTIONS"
      by (rule tab(1))
    then show ?thesis
      using a n watched_iff [of "re_conns r"] watched_iff [of "re_conns r'"] free(1)
      by (auto simp: conns d_def nth_list_update)
  qed
  moreover have "j = k" if "live k q r'" "j < DUCQ_MAX_CONNECTIONS" "slot_fd j r' = slot_fd k r'" for j k q
  proof -
    have "k = i \<or> live k q r"
      using that(1) r'(4) by blast
    then show ?thesis
      using that(2,3) fdi fd(2) new_fd a n by metis
  qed
  ultimately show "attended denv (admit fd p c r)"
    using a unfolding ad attended_def runs_def os by blast
  show "joins i fd p c r (admit fd p c r)"
    unfolding ad joins_def using r'(3,4) none fdi fd(2,3) lk os(3) stays by auto
qed

lemma turn_joins:
  assumes "k < DUCQ_MAX_CONNECTIONS" and "conn_fd (re_conns r ! k) \<noteq> - 1" and "conn_as (re_conns r ! k) = AsServer f ctx"
    and "\<forall>j < DUCQ_MAX_CONNECTIONS. slot_fd j r = slot_fd k r \<longrightarrow> j = k" and "watched_fds (re_conns r) \<noteq> None"
    and "\<And>s. env_accept env f (slot_fd k r) ctx s = Some (g s)" and "\<And>n fds s. env_select env n fds s = (1, [slot_fd k r], s)"
  shows "ducq_loop_turn env buffer r = Some (buffer, g r)"
proof -
  have ready: "only_ready env k r"
    using assms(4,5,7) by (auto simp: only_ready_def slot_fd_def)
  have hook: "round_table env [slot_fd k r] k (buffer, 1) r = Some (DUCQ_LOOP_BREAK, (buffer, 0), g r)"
    using assms(3) assms(6) by (simp add: round_table_def slot_fd_def)
  have "\<forall>c x s. round_table env [slot_fd k r] k (buffer, 1) r = Some (c, x, s) \<longrightarrow> c AND DUCQ_LOOP_BREAK \<noteq> 0"
    unfolding hook by auto
  from ready_slot [OF ready assms(1,2) this] show ?thesis
    unfolding hook by simp
qed

section \<open>Sessions\<close>

text \<open>What happens to a server: the client in a slot asks for something, a connection is accepted on the listening
  socket of a slot and gets the slot that is named, or the peer of a client has closed.\<close>

datatype happening = Asked nat request "rd_ev list" | Joined nat nat int nat client | Closed nat

text \<open>The broker with the transport and the descriptor of the client in each slot.\<close>

type_synonym sessions = "broker \<times> (link \<times> int) option list"

definition lost_slots :: "answer list \<Rightarrow> nat list" where
  "lost_slots xs = concat (map (\<lambda>x. case x of Dropped j \<Rightarrow> [j] | _ \<Rightarrow> []) xs)"

lemma lost_slots_iff: "j \<in> set (lost_slots xs) \<longleftrightarrow> Dropped j \<in> set xs"
  unfolding lost_slots_def by (induction xs) (auto split: answer.splits)

fun session_step :: "happening \<times> network \<Rightarrow> sessions \<Rightarrow> sessions \<times> answer list" where
  "session_step (Asked i q es, w) (b, ls) = (let (b', xs) = ask_step (i, q) w b in ((b', blank (lost_slots xs) ls), xs))"
| "session_step (Joined k i fd p c, w) (b, ls) = ((b\<lparr>br_routes := (br_routes b)[i := Some []]\<rparr>, ls[i := Some (link_of c)]), [])"
| "session_step (Closed i, w) (b, ls) = ((without [i] b, blank [i] ls), [Left i])"

definition session_run :: "(happening \<times> network) list \<Rightarrow> sessions \<Rightarrow> sessions \<times> answer list" where
  "session_run = answer_all session_step"

text \<open>The turn of the loop.  \<open>select\<close> reports the one descriptor something happens to.\<close>

abbreviation selecting :: "int \<Rightarrow> ('l, 'd) loop_env \<Rightarrow> ('l, 'd) loop_env" where
  "selecting fd env \<equiv> env\<lparr>env_select := \<lambda>n fds s. (1, [fd], s)\<rparr>"

fun session_turn :: "('l, 's dispatcher) loop_env \<Rightarrow> happening \<Rightarrow> char list \<times> ('l, 's) server \<Rightarrow> (char list \<times> ('l, 's) server) option" where
  "session_turn env (Asked i q es) (buffer, r) = ducq_loop_turn (selecting (slot_fd i r) env) buffer (incoming (slot_fd i r) es r)"
| "session_turn env (Joined k i fd p c) (buffer, r) =
     ducq_loop_turn ((selecting (slot_fd k r) env)\<lparr>env_accept := \<lambda>f g ctx s. Some (admit fd p c s)\<rparr>) buffer r"
| "session_turn env (Closed i) (buffer, r) = ducq_loop_turn (selecting (slot_fd i r) env) buffer (incoming (slot_fd i r) [] r)"

definition listening :: "nat \<Rightarrow> ('l, 'd) reactor \<Rightarrow> bool" where
  "listening k r \<longleftrightarrow> k < DUCQ_MAX_CONNECTIONS \<and> slot_fd k r \<noteq> - 1 \<and> (\<exists>f ctx. conn_as (re_conns r ! k) = AsServer f ctx) \<and>
     (\<forall>j < DUCQ_MAX_CONNECTIONS. slot_fd j r = slot_fd k r \<longrightarrow> j = k)"

text \<open>What can happen: a client that is there sends a request in a frame of its transport, in any pieces, and takes
  what it is sent if it gets its own publication; a connection is accepted while a slot is free, on a new
  descriptor and with a new object; a TCP or WebSocket client closes.\<close>

fun possible :: "happening \<Rightarrow> char list \<times> ('l, 'd) reactor \<Rightarrow> bool" where
  "possible (Asked i q es) (buffer, r) \<longleftrightarrow> sent_by (i, q, es) r \<and> (\<forall>p. live i p r \<longrightarrow> reliable i p r \<or> \<not> echoes i q r)"
| "possible (Joined k i fd p c) (buffer, r) \<longleftrightarrow> listening k r \<and> free_slot (re_conns r) = Some i \<and> newcomer fd p c r"
| "possible (Closed i) (buffer, r) \<longleftrightarrow> (\<exists>p l. live i p r \<and> link_at p r = Some (l, slot_fd i r) \<and> l \<noteq> NoLink)"

text \<open>The server has the sessions of the broker.\<close>

definition mirrors :: "sessions \<Rightarrow> ('l, 'd) reactor \<Rightarrow> bool" where
  "mirrors s r \<longleftrightarrow> represents (fst s) r \<and> length (snd s) = DUCQ_MAX_CONNECTIONS \<and>
     (\<forall>j q. live j q r \<longrightarrow> snd s ! j = link_at q r) \<and>
     (\<forall>j < DUCQ_MAX_CONNECTIONS. (\<forall>q. \<not> live j q r) \<longrightarrow> snd s ! j = None)"

section \<open>Each happening is a step of the broker\<close>

lemma answered_mirrors:
  assumes "answered xs r r'" and "\<And>j. Left j \<notin> set xs" and "mirrors (b, ls) r" and "represents b' r'"
  shows "mirrors (b', blank (lost_slots xs) ls) r'"
proof -
  note m = assms(3) [unfolded mirrors_def fst_conv snd_conv]
  have len: "length ls = DUCQ_MAX_CONNECTIONS" and at: "\<And>j q. live j q r \<Longrightarrow> ls ! j = link_at q r"
    and free: "\<And>j. j < DUCQ_MAX_CONNECTIONS \<Longrightarrow> \<forall>q. \<not> live j q r \<Longrightarrow> ls ! j = None"
    using m by blast+
  have lv: "live j q r' \<longleftrightarrow> live j q r \<and> Dropped j \<notin> set xs" for j q
    using assms(1) by (simp add: answered_def)
  have "blank (lost_slots xs) ls ! j = link_at q r'" if "live j q r'" for j q
  proof -
    have j: "live j q r" "Dropped j \<notin> set xs" "j < DUCQ_MAX_CONNECTIONS"
      using that lv by (simp_all add: live_def)
    have "kept xs r r'"
      using assms(1) by (simp add: answered_def)
    then have "link_at q r' = link_at q r"
      using keptD(3) [OF _ j(1) assms(2) j(2)] unfolding stays_def by blast
    then show ?thesis
      using j at [OF j(1)] len by (simp add: lost_slots_iff)
  qed
  moreover have "blank (lost_slots xs) ls ! j = None" if "j < DUCQ_MAX_CONNECTIONS" "\<forall>q. \<not> live j q r'" for j
    using that free [of j] lv len by (auto simp: lost_slots_iff)
  ultimately show ?thesis
    using assms(4) len by (simp add: mirrors_def)
qed

lemma slot_mirrors:
  assumes "mirrors (b, ls) r" and i: "i < DUCQ_MAX_CONNECTIONS"
    and lv: "\<And>j q. j \<noteq> i \<Longrightarrow> live j q r' = live j q r"
    and same: "\<And>j q. live j q r \<Longrightarrow> j \<noteq> i \<Longrightarrow> route_at j r' = route_at j r \<and> link_at q r' = link_at q r"
    and at: "(if \<exists>q. live i q r' then route_at i r' else None) = t" "\<And>q. live i q r' \<Longrightarrow> w = link_at q r'" "(\<And>q. \<not> live i q r') \<Longrightarrow> w = None"
    and last: "re_last_msgs r' = re_last_msgs r"
  shows "mirrors (b\<lparr>br_routes := (br_routes b)[i := t]\<rparr>, ls[i := w]) r'"
proof -
  note m = assms(1) [unfolded mirrors_def fst_conv snd_conv]
  have rep: "represents b r" and len: "length ls = DUCQ_MAX_CONNECTIONS"
    using m by blast+
  have "(br_routes b)[i := t] ! j = (if \<exists>q. live j q r' then route_at j r' else None)" if "j < DUCQ_MAX_CONNECTIONS" for j
  proof (cases "j = i")
    case True
    then show ?thesis
      using rep i unfolding at(1) [symmetric] by (simp add: represents_def)
  next
    case False
    then have "br_routes b ! j = (if \<exists>q. live j q r then route_at j r else None)"
      using rep that by (simp add: represents_def)
    then show ?thesis
      using False lv [OF False] same [OF _ False] by auto
  qed
  then have "represents (b\<lparr>br_routes := (br_routes b)[i := t]\<rparr>) r'"
    using rep last by (simp add: represents_def)
  moreover have "ls[i := w] ! j = link_at q r'" if "live j q r'" for j q
  proof (cases "j = i")
    case True
    then show ?thesis
      using that at(2) i len by simp
  next
    case False
    then have l: "live j q r"
      using that lv by blast
    then have "ls ! j = link_at q r"
      using m by blast
    then show ?thesis
      using False same [OF l False] by simp
  qed
  moreover have "ls[i := w] ! j = None" if "j < DUCQ_MAX_CONNECTIONS" "\<forall>q. \<not> live j q r'" for j
    using that at(3) i len lv m by (cases "j = i") auto
  ultimately show ?thesis
    using len by (simp add: mirrors_def)
qed

lemma joined_turn:
  assumes "attended denv r" and "listening k r"
  shows "session_turn env (Joined k i fd p c) (buffer, r) = Some (buffer, admit fd p c r)"
proof -
  obtain f ctx where k: "k < DUCQ_MAX_CONNECTIONS" "conn_fd (re_conns r ! k) \<noteq> - 1" "conn_as (re_conns r ! k) = AsServer f ctx"
      "\<forall>j < DUCQ_MAX_CONNECTIONS. slot_fd j r = slot_fd k r \<longrightarrow> j = k"
    using assms(2) by (auto simp: listening_def slot_fd_def)
  have w: "watched_fds (re_conns r) \<noteq> None" 
    using assms(1) by (simp add: attended_def)
  show ?thesis
    unfolding session_turn.simps by (rule turn_joins [OF k w]) simp_all
qed

lemma joined_refines:
  assumes "attended denv r" and "mirrors (b, ls) r" and "listening k r" and "free_slot (re_conns r) = Some i" and "newcomer fd p c r"
  shows "\<exists>buf r'. session_turn env (Joined k i fd p c) (buffer, r) = Some (buf, r') \<and> attended denv r' \<and>
    mirrors (fst (session_step (Joined k i fd p c, w) (b, ls))) r' \<and> kept (snd (session_step (Joined k i fd p c, w) (b, ls))) r r'"
proof -
  let ?r = "admit fd p c r"
  note ad = admit_joins [OF assms(1,4,5)]
  note j = ad(2) [unfolded joins_def]
  have len: "length (re_conns r) = DUCQ_MAX_CONNECTIONS"
    using assms(1) by (simp add: attended_def connectedD(1) reactor_invD(1))
  have i: "i < DUCQ_MAX_CONNECTIONS"
    using assms(4) len by (simp add: free_slot_Some)
  have "mirrors (b\<lparr>br_routes := (br_routes b)[i := Some []]\<rparr>, ls[i := Some (link_of c)]) ?r"
  proof (rule slot_mirrors [OF assms(2) i])
    show "live m q ?r = live m q r" if "m \<noteq> i" for m q
      using j that by blast
    show "route_at m ?r = route_at m r \<and> link_at q ?r = link_at q r" if "live m q r" "m \<noteq> i" for m q
      using j that by (simp add: stays_def)
  qed (use j in auto)
  moreover have con: "connected r"
    using assms(1) by (simp add: attended_def)
  have "slot_fd m ?r = slot_fd m r \<and> stays [] m q r ?r" if "live m q r" for m q
    using j that by (cases "m = i") blast+
  then have "kept [] r ?r"
    by (intro silence_kept [OF con]) simp_all
  ultimately show ?thesis
    using joined_turn [OF assms(1,3)] ad(1) by simp
qed

lemma closed_refines:
  assumes "attended denv r" and "mirrors (b, ls) r" and "live i p r" and "link_at p r = Some (l, slot_fd i r)" and "l \<noteq> NoLink"
    and "\<forall>e. length (env_strerror env e) \<le> 60"
  shows "\<exists>buf r'. session_turn env (Closed i) (buffer, r) = Some (buf, r') \<and> attended denv r' \<and>
    mirrors (fst (session_step (Closed i, w) (b, ls))) r' \<and> kept (snd (session_step (Closed i, w) (b, ls))) r r'"
proof -
  let ?r = "incoming (slot_fd i r) [] r"
  have att: "attended denv ?r"
    by (rule incoming_keeps(1) [OF assms(1)])
  note a = att [unfolded attended_def] assms(1) [unfolded attended_def]
  have m: "represents b r" "length ls = DUCQ_MAX_CONNECTIONS"
    using assms(2) by (simp_all add: mirrors_def)
  obtain fds where fds: "watched_fds (re_conns r) = Some fds"
    using a by blast
  have "conn_fd (re_conns r ! j) = slot_fd i r \<longrightarrow> j = i" if "j < DUCQ_MAX_CONNECTIONS" for j
    using a assms(3) that unfolding slot_fd_def by blast
  then have ready: "only_ready (selecting (slot_fd i r) env) i ?r"
    using fds by (simp add: only_ready_def)
  have con: "connected ?r" and q: "log_slots ?r = []" and lv: "live i p ?r" and lk: "link_at p ?r = Some (l, slot_fd i ?r)"
    using a assms(3,4) by simp_all
  have eof: "os_in (w_os (re_world ?r)) (slot_fd i ?r) = []" and str: "\<forall>e. length (env_strerror (selecting (slot_fd i r) env) e) \<le> 60"
    using assms(6) by simp_all
  obtain buf f where f: "ducq_loop_turn (selecting (slot_fd i r) env) buffer ?r = Some (buf, f)" "leaves i p ?r f"
    using turn_leaves [OF con lv q ready lk assms(5) eof str] by blast
  have kept: "kept [Left i] r f"
    using leaves_kept [OF con f(2) lv] unfolding incoming_keeps(3) by blast
  note g = f(2) [unfolded leaves_def incoming_simps]
  have gone: "live j x f \<longleftrightarrow> live j x r \<and> j \<noteq> i" for j x
    using g by blast
  have rep: "represents (without [i] b) f"
    by (rule leaves_represents [OF incoming_keeps(2) [OF m(1)] f(2) lv])
  have link: "link_at x f = link_at x r" if "live j x r" "j \<noteq> i" for j x
    using g that by (simp add: stays_def)
  have "blank [i] ls ! j = link_at x f" if "live j x f" for j x
  proof -
    have j: "live j x r" "j \<noteq> i" "j < DUCQ_MAX_CONNECTIONS"
      using that gone by (simp_all add: live_def)
    then show ?thesis
      using link [OF j(1,2)] assms(2) m(2) by (simp add: mirrors_def)
  qed
  moreover have "blank [i] ls ! j = None" if "j < DUCQ_MAX_CONNECTIONS" "\<forall>x. \<not> live j x f" for j
    using that gone assms(2) m(2) by (auto simp: mirrors_def)
  ultimately have "mirrors (without [i] b, blank [i] ls) f"
    using rep m(2) by (simp add: mirrors_def)
  then show ?thesis
    using f(1) kept leaves_attended [OF att f(2)] by simp
qed

lemma ask_never_left: "Left j \<notin> set (snd (ask_step (i, q) w b))"
  by (cases q; cases w) (auto simp: Let_def)

lemma asked_refines:
  assumes "attended denv r" and "mirrors (b, ls) r" and "possible (Asked i q es) (buffer, r)" and "env_dispatch env = ducq_dispatch denv"
  shows "\<exists>w buf r'. session_turn env (Asked i q es) (buffer, r) = Some (buf, r') \<and> attended denv r' \<and>
    mirrors (fst (session_step (Asked i q es, w) (b, ls))) r' \<and> kept (snd (session_step (Asked i q es, w) (b, ls))) r r'"
proof -
  have rep: "represents b r"
    using assms(2) by (simp add: mirrors_def)
  have sent: "sent_by (i, q, es) r" and own: "\<And>p. live i p r \<Longrightarrow> reliable i p r \<or> \<not> echoes i q r"
    using assms(3) by (simp_all del: sent_by.simps)
  obtain w buf r' where r': "serve env (i, q, es) (buffer, r) = Some (buf, r')" "attended denv r'"
      "represents (fst (ask_step (i, q) w b)) r'" "answered (snd (ask_step (i, q) w b)) r r'"
    using serve_any [OF assms(1) rep sent assms(4) own, of buffer] by blast
  have "mirrors (fst (ask_step (i, q) w b), blank (lost_slots (snd (ask_step (i, q) w b))) ls) r'"
    by (rule answered_mirrors [OF r'(4) ask_never_left assms(2) r'(3)])
  then show ?thesis
    using r'(1,2,4) by (intro exI [of _ w] exI [of _ buf] exI [of _ r']) (simp add: case_prod_beta answered_def)
qed

lemma session_refines:
  assumes "attended denv (snd c) \<and> mirrors s (snd c)" and "possible e c"
    and "env_dispatch env = ducq_dispatch denv" and "\<forall>e. length (env_strerror env e) \<le> 60"
  shows "\<exists>w d. session_turn env e c = Some d \<and> (attended denv (snd d) \<and> mirrors (fst (session_step (e, w) s)) (snd d)) \<and>
    kept (snd (session_step (e, w) s)) (snd c) (snd d)"
proof -
  obtain b ls where s: "s = (b, ls)" by (cases s)
  obtain buffer r where c: "c = (buffer, r)" by (cases c)
  have att: "attended denv r" and m: "mirrors (b, ls) r"
    using assms(1) by (simp_all add: s c)
  show ?thesis
  proof (cases e)
    case (Asked i q es)
    then show ?thesis
      using asked_refines [OF att m _ assms(3), of i q es buffer] assms(2) unfolding s c by fastforce
  next
    case (Joined k i fd p d)
    then show ?thesis
      using joined_refines [OF att m, of k i fd p d env buffer] assms(2) unfolding s c by fastforce
  next
    case (Closed i)
    then obtain p l where p: "live i p r" "link_at p r = Some (l, slot_fd i r)" "l \<noteq> NoLink"
      using assms(2) unfolding c by auto
    from closed_refines [OF att m p assms(4), of buffer] show ?thesis
      unfolding s c Closed by fastforce
  qed
qed

text \<open>The texts of \<open>strerror\<close> fit the log.\<close>

definition short_errors :: "('l, 'd) loop_env \<Rightarrow> bool" where
  "short_errors env \<longleftrightarrow> (\<forall>e. length (env_strerror env e) \<le> 60)"

interpretation sessions: reactive "session_turn (env\<lparr>env_dispatch := ducq_dispatch denv\<rparr>)" session_step
    "\<lambda>s c. short_errors env \<and> attended denv (snd c) \<and> mirrors s (snd c)" possible "\<lambda>xs c d. kept xs (snd c) (snd d)"
  for env :: "('l, 's dispatcher) loop_env" and denv :: "('l, 's) disp_env"
proof (unfold_locales, goal_cases)
  case (1 s c e)
  then show ?case
    using session_refines [of denv c s e "env\<lparr>env_dispatch := ducq_dispatch denv\<rparr>"] by (simp add: short_errors_def)
next
  case (2 s c)
  then have "connected (snd c)"
    by (simp add: attended_def)
  then show ?case
    by (rule silence_kept) (simp_all add: stays_def)
qed (rule kept_append)

text \<open>C1: the server is a broker for clients that come and go over any network.  Whatever connections are accepted on
  its listening sockets, whatever its clients subscribe to and publish over TCP and WebSocket, in any
  pieces, whenever a client closes and whatever the network takes of what is sent to any of them, each of
  these takes one turn of the main loop and the turns return; at any time the routes, the transports and
  the last messages are those of the abstract broker after the same happenings; and from any time on, every
  client that is connected then and does not leave is sent exactly the texts the broker has for it, in
  that order, each in one frame, or is dropped, which never happens to a client that takes every byte.\<close>

theorem sessions_refine_broker:
  assumes "attended denv r" and "mirrors s r" and "short_errors env"
    and "plays (session_turn (env\<lparr>env_dispatch := ducq_dispatch denv\<rparr>)) possible (es @ fs) (buffer, r)"
  shows "\<exists>vs ws b1 r1 b2 r2. length vs = length es \<and> length ws = length fs \<and>
    run_all (session_turn (env\<lparr>env_dispatch := ducq_dispatch denv\<rparr>)) es (buffer, r) = Some (b1, r1) \<and>
    run_all (session_turn (env\<lparr>env_dispatch := ducq_dispatch denv\<rparr>)) fs (b1, r1) = Some (b2, r2) \<and>
    attended denv r1 \<and> mirrors (fst (session_run (zip es vs) s)) r1 \<and>
    attended denv r2 \<and> mirrors (fst (session_run (zip (es @ fs) (vs @ ws)) s)) r2 \<and>
    kept (snd (session_run (zip fs ws) (fst (session_run (zip es vs) s)))) r1 r2"
  using sessions.played_from [where a = s and c = "(buffer, r)" and env = env and denv = denv and es = es and fs = fs] assms
  unfolding session_run_def by auto

section \<open>Witness\<close>

text \<open>A server gets a listening socket.\<close>

lemma listens:
  assumes ins: "attended denv r" and i: "free_slot (re_conns r) = Some i" and fd: "0 \<le> fd" "fd < FD_SETSIZE"
    and new: "\<forall>j < DUCQ_MAX_CONNECTIONS. slot_fd j r \<noteq> fd" and r': "ducq_reactor_add_server fd f ctx r = (st, r')"
  shows "attended denv r'" and "mirrors s r \<Longrightarrow> mirrors s r'" and "listening i r'"
    and "re_conns r' = (re_conns r)[i := \<lparr>conn_fd = fd, conn_as = AsServer f ctx\<rparr>]" and "re_world r' = re_world r"
proof -
  note a = ins [unfolded attended_def]
  have con: "connected r"
    using a by blast
  then have len: "length (re_conns r) = DUCQ_MAX_CONNECTIONS"
    by (simp add: connectedD(1) reactor_invD(1))
  then have free: "i < DUCQ_MAX_CONNECTIONS" "conn_fd (re_conns r ! i) = - 1"
    using i by (auto simp: free_slot_Some)
  have s: "r' = set_conn i \<lparr>conn_fd = fd, conn_as = AsServer f ctx\<rparr> r"
    using r' i by (simp add: ducq_reactor_add_server_def)
  show conns: "re_conns r' = (re_conns r)[i := \<lparr>conn_fd = fd, conn_as = AsServer f ctx\<rparr>]" and w: "re_world r' = re_world r"
    by (simp_all add: s)
  have rest: "re_dispatcher r' = re_dispatcher r" "re_last_msgs r' = re_last_msgs r" "re_allow_log_route r' = re_allow_log_route r"
    by (simp_all add: s set_conn_def)
  have lv: "live j q r' = live j q r" for j q
    using free len by (cases "j = i") (simp_all add: live_def conns conn_client_def)
  have at: "slot_fd j r' = (if j = i then fd else slot_fd j r)" for j
    using free len by (simp add: slot_fd_def conns)
  have ne: "j \<noteq> i" if "live j q r" for j q
    using that free(2) by (auto simp: live_def)
  have rt: "route_at j r' = route_at j r" if "live j q r" for j q
    using ne [OF that] by (simp add: route_at_def conns)
  have lk: "link_at q r' = link_at q r" for q
    by (simp add: link_at_def w)
  have "reactor_inv r'"
    by (rule add_server_inv [OF connectedD(1) [OF con] r'])
  then have "connected r'"
    using con ne unfolding connected_def lv lk w by (simp add: at)
  moreover have "log_slots r' = []"
  proof -
    have "subscribed P r' = subscribed P r" for P
    proof
      show "subscribed P r' j = subscribed P r j" for j
        unfolding subscribed_def lv using rt by metis
    qed
    then have "log_slots r' = log_slots r"
      by (simp add: log_slots_def rest(3))
    then show ?thesis
      using a by simp
  qed
  moreover have "watched_fds (re_conns r') \<noteq> None"
    using a watched_iff [OF len] watched_iff [of "re_conns r'"] len fd free(1) by (simp add: conns nth_list_update)
  moreover have "j = k" if "live k q r" "j < DUCQ_MAX_CONNECTIONS" "slot_fd j r' = slot_fd k r'" for j k q
  proof -
    have "slot_fd k r' = slot_fd k r" and "slot_fd k r \<noteq> fd"
      using ne [OF that(1)] new that(1) at by (auto simp: live_def)
    then show ?thesis
      using that a at by metis
  qed
  ultimately show "attended denv r'"
    using a unfolding attended_def lv runs_def rest w by blast
  show "mirrors s r'" if "mirrors s r"
  proof -
    have "(\<exists>q. live j q r) \<Longrightarrow> route_at j r' = route_at j r" for j
      using rt by blast
    then show ?thesis
      using that unfolding mirrors_def represents_def lv lk rest by auto
  qed
  show "listening i r'"
    using free new fd len at by (auto simp: listening_def conns)
qed

lemma reliable_onward:
  assumes "kept xs r s" and "live j q r" and "reliable j q r" and "Left j \<notin> set xs"
  shows "live j q s" and "reliable j q s" and "link_at q s = link_at q r" and "slot_fd j s = slot_fd j r"
  using keptD [OF assms(1,2,4)] assms(3) unfolding stays_def by blast+

lemma asked_onward:
  assumes "attended denv r" and "mirrors s r" and "possible (Asked i q es) (buffer, r)"
    and "session_turn (env\<lparr>env_dispatch := ducq_dispatch denv\<rparr>) (Asked i q es) (buffer, r) = Some d"
  shows "\<exists>buf r' s'. d = (buf, r') \<and> attended denv r' \<and> mirrors s' r' \<and>
    (\<forall>j x. live j x r \<longrightarrow> reliable j x r \<longrightarrow> live j x r' \<and> reliable j x r' \<and> link_at x r' = link_at x r \<and> slot_fd j r' = slot_fd j r)"
proof -
  obtain b ls where s: "s = (b, ls)" by (cases s)
  obtain w buf r' where r': "session_turn (env\<lparr>env_dispatch := ducq_dispatch denv\<rparr>) (Asked i q es) (buffer, r) = Some (buf, r')" "attended denv r'"
      "mirrors (fst (session_step (Asked i q es, w) (b, ls))) r'" "kept (snd (session_step (Asked i q es, w) (b, ls))) r r'"
    using asked_refines [OF assms(1) assms(2) [unfolded s] assms(3), of "env\<lparr>env_dispatch := ducq_dispatch denv\<rparr>"] by auto
  have "Left j \<notin> set (snd (session_step (Asked i q es, w) (b, ls)))" for j
    using ask_never_left by (simp add: case_prod_beta)
  then have "\<forall>j x. live j x r \<longrightarrow> reliable j x r \<longrightarrow>
      live j x r' \<and> reliable j x r' \<and> link_at x r' = link_at x r \<and> slot_fd j r' = slot_fd j r"
    using reliable_onward [OF r'(4)] by blast
  moreover have "d = (buf, r')"
    using r'(1) assms(4) by simp
  ultimately show ?thesis
    using r'(2,3) by blast
qed

text \<open>The server of three clients with a listening socket, and a network that fails for the third.  A fourth client
  connects and subscribes, the second publishes, and the first leaves.\<close>

definition shaky :: "(unit, nat) server" where
  "shaky = service\<lparr>re_world := (re_world service)\<lparr>w_os := quiet_os\<lparr>os_wr := \<lambda>fd. if fd = 7 then [WErr EOTHER] else []\<rparr>\<rparr>\<rparr>"

definition hall :: "(unit, nat) server" where
  "hall = snd (ducq_reactor_add_server 4 0 0 shaky)"

definition hall_sessions :: sessions where
  "hall_sessions = (service_broker, [Some (TcpLink, 5), Some (WsLink False, 6), Some (TcpLink, 7)] @ replicate 22 None)"

definition arrival :: "happening list" where
  "arrival = [Joined 3 4 8 12 (demo_tcp 8)]"

definition business :: "happening list" where
  "business =
     [Asked 4 (Subscribe ''a'' ''x'') [RData (tcp_frame (message_text ''sub'' ''a'' ''x''))],
      Asked 1 (Publish ''a'' ''hi'') [RData (ws_frame (WS_FIN OR WS_TEXT) (Some [1, 2, 3, 4]) (message_text ''pub'' ''a'' ''hi''))],
      Closed 0]"

lemma shaky_simps [simp]:
  "re_conns shaky = re_conns service" "w_heap (re_world shaky) = w_heap (re_world service)" "live j q shaky = live j q service"
  "slot_fd j shaky = slot_fd j service" "route_at j shaky = route_at j service" "link_at q shaky = link_at q service"
  "re_last_msgs shaky = re_last_msgs service" "re_dispatcher shaky = re_dispatcher service" "re_allow_log_route shaky = re_allow_log_route service"
  "w_os (re_world shaky) = quiet_os\<lparr>os_wr := \<lambda>fd. if fd = 7 then [WErr EOTHER] else []\<rparr>"
  by (simp_all add: shaky_def live_def slot_fd_def link_at_def route_at_def)

lemma shaky_attended: "attended service_env shaky"
proof (rule attended_shrinks)
  show att: "attended service_env service"
    using service_in_service by (simp add: in_service_def)
  then have "connected service"
    by (simp add: attended_def)
  then show "connected shaky"
    by (rule connected_cong) simp_all
  have "subscribed P shaky = subscribed P service" for P
    by (simp add: subscribed_def fun_eq_iff)
  then have "log_slots shaky = log_slots service"
    by (simp add: log_slots_def)
  then show "log_slots shaky = []"
    using att by (simp add: attended_def)
qed simp_all

lemma service_slot:
  "j < DUCQ_MAX_CONNECTIONS \<Longrightarrow> slot_fd j service = (if j = 0 then 5 else if j = 1 then 6 else if j = 2 then 7 else - 1)"
  using mixed_slots by (simp add: slot_fd_def mixed_conns demo_conns)

lemma shaky_mirrors: "mirrors hall_sessions shaky"
proof -
  have "snd hall_sessions ! j = link_at q service" if "live j q service" for j q
    using that mixed_links by (auto simp: hall_sessions_def mixed_live)
  moreover have "snd hall_sessions ! j = None" if "j < DUCQ_MAX_CONNECTIONS" "\<forall>q. \<not> live j q service" for j
  proof -
    have "live 0 9 service" "live 1 10 service" "live 2 11 service"
      by (simp_all add: mixed_live)
    then have "j \<noteq> 0 \<and> j \<noteq> 1 \<and> j \<noteq> 2"
      using that(2) by metis
    then have "3 \<le> j"
      by linarith
    then show ?thesis
      using that(1) by (simp add: hall_sessions_def nth_append nth_Cons')
  qed
  ultimately show ?thesis
    using service_represents by (simp add: mirrors_def hall_sessions_def represents_def)
qed

lemma hall_ready:
  "attended service_env hall" "mirrors hall_sessions hall" "listening 3 hall" "free_slot (re_conns hall) = Some 4"
  "newcomer 8 12 (demo_tcp 8) hall" "reliable 0 9 hall" "reliable 1 10 hall" "live 0 9 hall" "live 1 10 hall"
  "link_at 9 hall = Some (TcpLink, 5)" "link_at 10 hall = Some (WsLink False, 6)" "slot_fd 0 hall = 5" "slot_fd 1 hall = 6"
proof -
  have len: "length (re_conns shaky) = DUCQ_MAX_CONNECTIONS"
    by simp
  have free: "free_slot (re_conns shaky) = Some 3"
    unfolding free_slot_Some len using service_slot by (auto simp: slot_fd_def)
  have new: "\<forall>j < DUCQ_MAX_CONNECTIONS. slot_fd j shaky \<noteq> 4"
    using service_slot by simp
  note h = listens [OF shaky_attended free _ _ new, of 0 0 "fst (ducq_reactor_add_server 4 0 0 shaky)" hall]
  have run: "ducq_reactor_add_server 4 0 0 shaky = (fst (ducq_reactor_add_server 4 0 0 shaky), hall)"
    by (simp add: hall_def)
  show "attended service_env hall" "mirrors hall_sessions hall" "listening 3 hall"
    using h(1-3) [OF _ _ run] shaky_mirrors by (simp_all add: FD_SETSIZE_def)
  have conns: "re_conns hall = (re_conns shaky)[3 := \<lparr>conn_fd = 4, conn_as = AsServer 0 0\<rparr>]" and w: "re_world hall = re_world shaky"
    using h(4,5) [OF _ _ run] by (simp_all add: FD_SETSIZE_def)
  have slot: "slot_fd j hall = (if j = 3 then 4 else slot_fd j shaky)" if "j < DUCQ_MAX_CONNECTIONS" for j
    using that len by (simp add: slot_fd_def conns)
  show "free_slot (re_conns hall) = Some 4"
    unfolding free_slot_Some using slot service_slot len by (auto simp: slot_fd_def conns)
  show "newcomer 8 12 (demo_tcp 8) hall"
    using slot service_slot by (simp add: newcomer_def w demo_tcp_def tcp_five_def FD_SETSIZE_def quiet_os_def)
  show lv: "live 0 9 hall" "live 1 10 hall"
    using len by (simp_all add: live_def conns mixed_at demo_conn_def conn_client_def del: One_nat_def)
  have "link_at q hall = link_at q shaky" for q
    by (simp add: link_at_def w)
  then show "link_at 9 hall = Some (TcpLink, 5)" "link_at 10 hall = Some (WsLink False, 6)" "slot_fd 0 hall = 5" "slot_fd 1 hall = 6"
    using slot [of 0] slot [of 1] service_slot [of 0] service_slot [of 1] mixed_links by (simp_all del: One_nat_def)
  then show "reliable 0 9 hall" "reliable 1 10 hall"
    by (simp_all add: reliable_def w del: One_nat_def)
qed


lemma newcomer_ready:
  "attended service_env (admit 8 12 (demo_tcp 8) hall)" "\<exists>s. mirrors s (admit 8 12 (demo_tcp 8) hall)"
  "live 4 12 (admit 8 12 (demo_tcp 8) hall)" "reliable 4 12 (admit 8 12 (demo_tcp 8) hall)"
  "link_at 12 (admit 8 12 (demo_tcp 8) hall) = Some (TcpLink, 8)" "slot_fd 4 (admit 8 12 (demo_tcp 8) hall) = 8"
  "j = 0 \<and> q = 9 \<or> j = 1 \<and> q = 10 \<Longrightarrow> live j q (admit 8 12 (demo_tcp 8) hall) \<and> reliable j q (admit 8 12 (demo_tcp 8) hall)"
proof -
  let ?c = "admit 8 12 (demo_tcp 8) hall"
  note a = admit_joins [OF hall_ready(1,4,5)]
  note j = a(2) [unfolded joins_def]
  show "attended service_env ?c"
    by (rule a(1))
  have "possible (Joined 3 4 8 12 (demo_tcp 8)) ([], hall)"
    using hall_ready(3-5) by simp
  then show "\<exists>s. mirrors s ?c"
    using joined_refines [OF hall_ready(1) _ hall_ready(3,4,5), of "fst hall_sessions" "snd hall_sessions" mixed_loop "[]"] hall_ready(2)
      joined_turn [OF hall_ready(1,3)] by (metis option.inject prod.collapse prod.inject)
  show lv: "live 4 12 ?c" and lk: "link_at 12 ?c = Some (TcpLink, 8)" and fd: "slot_fd 4 ?c = 8"
    using j by (simp_all add: demo_tcp_def)
  have "w_os (re_world ?c) = w_os (re_world hall)"
    using hall_ready(4) by (simp add: admit_def ducq_reactor_add_client_def set_conn_def)
  moreover have "re_world hall = re_world shaky"
    by (simp add: hall_def ducq_reactor_add_server_def set_conn_def split: option.split)
  ultimately show "reliable 4 12 ?c"
    using lk fd by (simp add: reliable_def quiet_os_def)
  show "live j q ?c \<and> reliable j q ?c" if "j = 0 \<and> q = 9 \<or> j = 1 \<and> q = 10"
  proof -
    have "live j q hall" and "reliable j q hall"
      using that hall_ready(6-9) by auto
    then show ?thesis
      using j by (simp add: stays_def)
  qed
qed

lemma arrival_run:
  "run_all (session_turn (mixed_loop\<lparr>env_dispatch := ducq_dispatch service_env\<rparr>)) arrival ([], hall) = Some ([], admit 8 12 (demo_tcp 8) hall)"
  unfolding arrival_def run_all.simps joined_turn [OF hall_ready(1,3)] by simp

lemma hall_plays:
  "plays (session_turn (mixed_loop\<lparr>env_dispatch := ducq_dispatch service_env\<rparr>)) possible (arrival @ business) ([], hall)"
proof -
  let ?f = "session_turn (mixed_loop\<lparr>env_dispatch := ducq_dispatch service_env\<rparr>)"
  let ?c = "admit 8 12 (demo_tcp 8) hall"
  note n = newcomer_ready
  obtain s where s: "mirrors s ?c"
    using n(2) by blast
  have l10: "link_at 10 ?c = Some (WsLink False, 6)" "slot_fd 1 ?c = 6" "link_at 9 ?c = Some (TcpLink, 5)" "slot_fd 0 ?c = 5"
  proof -
    have "stays [] 1 10 hall ?c" and "stays [] 0 9 hall ?c" and fd: "slot_fd 1 ?c = slot_fd 1 hall" "slot_fd 0 ?c = slot_fd 0 hall"
      using admit_joins(2) [OF hall_ready(1,4,5)] hall_ready(8,9) unfolding joins_def by simp_all
    then show "link_at 10 ?c = Some (WsLink False, 6)" "slot_fd 1 ?c = 6" "link_at 9 ?c = Some (TcpLink, 5)" "slot_fd 0 ?c = 5"
      using hall_ready(10-13) by (simp_all add: stays_def)
  qed
  have sub: "valid_request (Subscribe ''a'' ''x'')" "valid_request (Publish ''a'' ''hi'')"
    by (simp_all add: message_text_def tcp_sendable_def DUCQ_LOG_ROUTE_def)
  have es: "fluent [RData (tcp_frame m)]" "fluent [RData (ws_frame op k m)]" for m op k
    by (simp_all add: tcp_frame_def ws_frame_def rfc_header_Cons)
  have fr: "framed (peer (WsLink False)) m (ws_frame (WS_FIN OR WS_TEXT) (Some [1, 2, 3, 4]) m)" "framed (peer TcpLink) m (tcp_frame m)" for m
    by (auto intro!: exI [of _ "Some [1, 2, 3, 4]"])
  have first: "possible (Joined 3 4 8 12 (demo_tcp 8)) ([], hall)"
    using hall_ready(3-5) by simp
  have "sent_by (4, Subscribe ''a'' ''x'', [RData (tcp_frame (message_text ''sub'' ''a'' ''x''))]) ?c"
    using n(3,5,6) sub(1) es(1) fr(2) unfolding sent_by.simps
    by (intro conjI exI [of _ 12] exI [of _ TcpLink]) simp_all
  then have ask: "possible (Asked 4 (Subscribe ''a'' ''x'') [RData (tcp_frame (message_text ''sub'' ''a'' ''x''))]) (buffer, ?c)" for buffer
    by simp
  have "plays ?f possible business ([], ?c)"
    unfolding business_def plays.simps
  proof (intro conjI allI impI)
    show "possible (Asked 4 (Subscribe ''a'' ''x'') [RData (tcp_frame (message_text ''sub'' ''a'' ''x''))]) ([], ?c)"
      by (rule ask)
    fix d assume d: "?f (Asked 4 (Subscribe ''a'' ''x'') [RData (tcp_frame (message_text ''sub'' ''a'' ''x''))]) ([], ?c) = Some d"
    obtain b1 r1 s1 where r1: "d = (b1, r1)" "attended service_env r1" "mirrors s1 r1"
        "\<forall>j x. live j x ?c \<longrightarrow> reliable j x ?c \<longrightarrow> live j x r1 \<and> reliable j x r1 \<and> link_at x r1 = link_at x ?c \<and> slot_fd j r1 = slot_fd j ?c"
      using asked_onward [OF n(1) s ask d] by blast
    have t1: "live 1 10 r1" "reliable 1 10 r1" "link_at 10 r1 = Some (WsLink False, 6)" "slot_fd 1 r1 = 6"
        "live 0 9 r1" "reliable 0 9 r1" "link_at 9 r1 = Some (TcpLink, 5)" "slot_fd 0 r1 = 5"
      using r1(4) [rule_format, of 1 10] r1(4) [rule_format, of 0 9] n(7) [of 1 10] n(7) [of 0 9] l10 by simp_all
    let ?e = "Asked 1 (Publish ''a'' ''hi'') [RData (ws_frame (WS_FIN OR WS_TEXT) (Some [1, 2, 3, 4]) (message_text ''pub'' ''a'' ''hi''))]"
    have "sent_by (1, Publish ''a'' ''hi'', [RData (ws_frame (WS_FIN OR WS_TEXT) (Some [1, 2, 3, 4]) (message_text ''pub'' ''a'' ''hi''))]) r1"
      using t1(1,3,4) sub(2) es(2) fr(1) unfolding sent_by.simps
      by (intro conjI exI [of _ 10] exI [of _ "WsLink False"]) simp_all
    moreover have "reliable 1 x r1" if "live 1 x r1" for x
      using that t1(1,2) live_same by metis
    ultimately have pub: "possible ?e (b1, r1)"
      by (simp del: sent_by.simps echoes.simps)
    then show "possible ?e d"
      by (simp only: r1(1))
    fix d2 assume d2: "?f ?e d = Some d2"
    obtain b2 r2 s2 where r2: "d2 = (b2, r2)"
        "\<forall>j x. live j x r1 \<longrightarrow> reliable j x r1 \<longrightarrow> live j x r2 \<and> reliable j x r2 \<and> link_at x r2 = link_at x r1 \<and> slot_fd j r2 = slot_fd j r1"
      using asked_onward [OF r1(2,3) pub d2 [unfolded r1(1)]] by blast
    have "live 0 9 r2 \<and> link_at 9 r2 = Some (TcpLink, slot_fd 0 r2)"
      using r2(2) [rule_format, OF t1(5,6)] t1(7,8) by simp
    then show "possible (Closed 0) d2"
      unfolding r2(1) possible.simps by blast
  qed simp_all
  moreover have "plays ?f possible arrival ([], hall)"
    using first by (simp add: arrival_def del: possible.simps)
  ultimately show ?thesis
    unfolding plays_append by (simp add: arrival_run)
qed

lemma business_answers:
  assumes "length ws = length business"
  shows "\<exists>w1 w2 b1. b1 = fst (ask_step (4, Subscribe ''a'' ''x'') w1 b) \<and> snd (session_run (zip business ws) (b, ls)) =
    snd (ask_step (4, Subscribe ''a'' ''x'') w1 b) @ snd (ask_step (1, Publish ''a'' ''hi'') w2 b1) @ [Left 0]"
proof -
  obtain w1 w2 w3 where "ws = [w1, w2, w3]"
    using assms by (auto simp: business_def length_Suc_conv)
  then show ?thesis
    by (intro exI [of _ w1] exI [of _ w2] exI) (simp add: session_run_def business_def case_prod_beta del: ask_step.simps)
qed

lemma business_texts:
  assumes "length vs = length arrival" and "length ws = length business"
    and "\<And>j. j = 1 \<or> j = 4 \<Longrightarrow> Dropped j \<notin> set (snd (session_run (zip business ws) (fst (session_run (zip arrival vs) hall_sessions))))"
  shows "texts_to 4 (snd (session_run (zip business ws) (fst (session_run (zip arrival vs) hall_sessions)))) =
    [''ACK'', message_text ''pub'' ''a'' ''hi'']"
proof -
  let ?b = "service_broker\<lparr>br_routes := [Some ''a'', Some ''b'', Some ''a'', None, Some ''a''] @ replicate 20 None\<rparr>"
  obtain v where v: "vs = [v]"
    using assms(1) by (auto simp: arrival_def length_Suc_conv)
  define ls where "ls = [Some (TcpLink, 5), Some (WsLink False, 6), Some (TcpLink, 7), None, Some (TcpLink, 8 :: int)] @ replicate 20 None"
  have s: "fst (session_run (zip arrival vs) hall_sessions) =
      (service_broker\<lparr>br_routes := [Some ''a'', Some ''b'', Some ''a'', None, Some []] @ replicate 20 None\<rparr>, ls)"
    by (simp add: v session_run_def arrival_def hall_sessions_def service_broker_def demo_tcp_def ls_def numeral_eq_Suc)
  let ?start = "service_broker\<lparr>br_routes := [Some ''a'', Some ''b'', Some ''a'', None, Some []] @ replicate 20 None\<rparr>"
  let ?xs = "snd (session_run (zip business ws) (fst (session_run (zip arrival vs) hall_sessions)))"
  obtain t1 j1 t2 j2 b1 where b1: "b1 = fst (ask_step (4, Subscribe ''a'' ''x'') (t1, j1) ?start)"
    and xs: "?xs = snd (ask_step (4, Subscribe ''a'' ''x'') (t1, j1) ?start) @ snd (ask_step (1, Publish ''a'' ''hi'') (t2, j2) b1) @ [Left 0]"
    using business_answers [OF assms(2), of ?start ls] unfolding s by auto
  have t1: t1
    using assms(3) [of 4] unfolding xs by (cases t1) simp_all
  have t2: t2
    using assms(3) [of 1] unfolding xs by (cases t2) (simp_all add: Let_def)
  have "b1 = ?b"
    using t1 by (simp add: b1 numeral_eq_Suc)
  moreover have "interested ''a'' ?b = [0, 2, 4]"
  proof -
    have cmp: "ducq_route_cmp (Some ''a'') (Some ''a'')" "\<not> ducq_route_cmp (Some ''b'') (Some ''a'')"
      by code_simp+
    have "(case br_routes ?b ! j of Some t \<Rightarrow> ducq_route_cmp (Some t) (Some ''a'') | None \<Rightarrow> False) \<longleftrightarrow> j = 0 \<or> j = 2 \<or> j = 4" if "j < 25" for j
    proof -
      consider "j = 0" | "j = 1" | "j = 2" | "j = 3" | "j = 4" | "5 \<le> j"
        by linarith
      then show ?thesis
        using cmp that by cases (simp_all add: nth_append nth_Cons')
    qed
    then have "interested ''a'' ?b = filter (\<lambda>j. j = 0 \<or> j = 2 \<or> j = 4) [0..<25]"
      unfolding interested_def by (intro filter_cong) simp_all
    then show ?thesis
      by (simp add: upt_rec)
  qed
  ultimately have "?xs = Text 4 ''ACK'' # Text 1 ''ACK'' #
      map (\<lambda>j. if j \<in> set j2 then Dropped j else Text j (message_text ''pub'' ''a'' ''hi'')) [0, 2, 4] @ [Left 0]"
    using t1 t2 unfolding xs by (simp add: Let_def del: list.map)
  moreover have "4 \<notin> set j2"
    using assms(3) [of 4] calculation by auto
  ultimately show ?thesis
    using texts_to_all [of "[0, 2, 4]" 4 j2 "message_text ''pub'' ''a'' ''hi''"] by (simp del: list.map)
qed

theorem sessions_refine_broker_witness:
  "\<exists>b1 r1 b2 r2. run_all (session_turn (mixed_loop\<lparr>env_dispatch := ducq_dispatch service_env\<rparr>)) arrival ([], hall) = Some (b1, r1) \<and>
    run_all (session_turn (mixed_loop\<lparr>env_dispatch := ducq_dispatch service_env\<rparr>)) business (b1, r1) = Some (b2, r2) \<and>
    out_of 8 r2 = out_of 8 r1 @ tcp_frame ''ACK'' @ tcp_frame (message_text ''pub'' ''a'' ''hi'')"
proof -
  have err: "short_errors mixed_loop"
    by (simp add: short_errors_def mixed_loop_def demo_loop_def)
  obtain vs ws b1 r1 b2 r2 where r: "length vs = length arrival" "length ws = length business"
      "run_all (session_turn (mixed_loop\<lparr>env_dispatch := ducq_dispatch service_env\<rparr>)) arrival ([], hall) = Some (b1, r1)"
      "run_all (session_turn (mixed_loop\<lparr>env_dispatch := ducq_dispatch service_env\<rparr>)) business (b1, r1) = Some (b2, r2)"
      "kept (snd (session_run (zip business ws) (fst (session_run (zip arrival vs) hall_sessions)))) r1 r2"
    using sessions_refine_broker [OF hall_ready(1,2) err hall_plays] by blast
  let ?xs = "snd (session_run (zip business ws) (fst (session_run (zip arrival vs) hall_sessions)))"
  have "r1 = admit 8 12 (demo_tcp 8) hall"
    using r(3) arrival_run by simp
  then have n: "live 4 12 r1" "reliable 4 12 r1" "link_at 12 r1 = Some (TcpLink, 8)" "slot_fd 4 r1 = 8" "live 1 10 r1" "reliable 1 10 r1"
    using newcomer_ready(3-7) by simp_all
  have left: "Left j \<notin> set ?xs" if "j \<noteq> 0" for j
  proof -
    obtain b ls where "fst (session_run (zip arrival vs) hall_sessions) = (b, ls)"
      by (metis prod.exhaust)
    then obtain w1 w2 b1 where "?xs = snd (ask_step (4, Subscribe ''a'' ''x'') w1 b) @ snd (ask_step (1, Publish ''a'' ''hi'') w2 b1) @ [Left 0]"
      using business_answers [OF r(2), of b ls] by auto
    then show ?thesis
      using ask_never_left that by (simp del: ask_step.simps)
  qed
  have "Left 4 \<notin> set ?xs" and "Left 1 \<notin> set ?xs"
    by (rule left, simp)+
  note k = keptD [OF r(5) n(1) this(1)] keptD [OF r(5) n(5) this(2)]
  have drop: "Dropped j \<notin> set ?xs" if "j = 1 \<or> j = 4" for j
    using that k(1) [OF n(2)] k(4) [OF n(6)] by blast
  have texts: "texts_to 4 ?xs = [''ACK'', message_text ''pub'' ''a'' ''hi'']"
    by (rule business_texts [OF r(1,2) drop])
  obtain ys where "list_all2 (framed TcpLink) [''ACK'', message_text ''pub'' ''a'' ''hi''] ys" "stays (concat ys) 4 12 r1 r2"
    using k(3) [OF k(1) [OF n(2)]] unfolding texts n(3) by auto
  then have "out_of 8 r2 = out_of 8 r1 @ tcp_frame ''ACK'' @ tcp_frame (message_text ''pub'' ''a'' ''hi'')"
    using n(4) unfolding stays_def by (auto simp: list_all2_Cons1)
  then show ?thesis
    using r(3,4) by blast
qed

end
