(* ===== verification/Spec2Isabelle.thy ===== *)
theory Spec2Isabelle
  imports Ducq_Api Main_Loop Server_Invariant Commands_Faults Commands_Listing Commands_Removal Ws_Dump Command_Table Lua_Clients Lua_Files Browser_Session Broker_Sessions
begin

text \<open>
  ducq is a small message queue: a server (\<open>src/ducq_reactor.c\<close>, \<open>src/ducq_dispatcher.c\<close>, the commands of
  \<open>src/commands/\<close>) and a client library (\<open>src/ducq.c\<close> with its TCP, WebSocket and HTTP clients).  A client
  connects, sends messages of the form "command route LF payload", and the server runs the command: \<open>sub\<close>
  subscribes the connection to a route, \<open>pub\<close> sends the message to every connection whose subscription
  matches its route.

  The program and the theories.

  \<^item> \<open>Ducq_Prelude\<close>: memory objects as lists of chars, C strings, and the functions of the C library the
    code uses (\<open>strchr\<close>, \<open>strncpy\<close>, \<open>snprintf\<close>, \<open>atoi\<close>, ...), with their lemmas.
  \<^item> \<open>Ducq_State\<close>: the states of \<open>src/ducq.h\<close> and their texts.  \<open>Ducq_Parse\<close>: the parsers and the route
    matcher of \<open>src/ducq.c\<close>, compared with two readings of a wildcard pattern (\<open>glob\<close>, \<open>lazy_glob\<close>).
  \<^item> \<open>Base64\<close>, \<open>Sha1\<close>: \<open>src/base64.c\<close> against RFC 4648, \<open>src/sha1.c\<close> against FIPS 180.
  \<^item> \<open>Inet_Socket\<close>: the operating system as scripts of what each \<open>read\<close> delivers and each \<open>write\<close> accepts,
    and \<open>src/inet_socket.c\<close>.  A theorem about every script is one about every fragmentation and failure.
  \<^item> \<open>Ducq_Tcp\<close>, \<open>Inet_Ws\<close>, \<open>Ducq_Ws\<close>, \<open>Inet_Http\<close>, \<open>Ducq_Http\<close>: the three transports, file by file.  The
    contract of a transport is the locale \<open>framing\<close>: what has been framed one after the other is received
    message by message; TCP and WebSocket are its interpretations.
  \<^item> \<open>Ducq_Client\<close>: the virtual table of \<open>src/ducq_vtbl.h\<close> over the three kinds of client and a heap of
    clients (a \<open>ducq_i *\<close> is a number, 0 is NULL).  \<open>Ducq_Api\<close>: the operations above it, from \<open>ducq_emit\<close> to
    \<open>ducq_listen\<close>.
  \<^item> \<open>Ducq_Log\<close>: \<open>src/ducq_log.c\<close> and the file logger.  \<open>Ducq_Channels\<close>: the last message of each route, an
    interpretation of the locale \<open>bounded_map\<close>.
  \<^item> \<open>Ducq_Reactor\<close>: \<open>src/ducq_reactor.c\<close>, from the table of connections to the main loop.  The table is a
    list of slots and a \<open>connection_t *\<close> the index of a slot; freeing a slot leaves its pointer behind.
  \<^item> \<open>Ducq_Commands\<close>: \<open>src/commands/\<close>.  \<open>Ducq_Dispatcher\<close>: \<open>src/ducq_dispatcher.c\<close>, with the dispatcher in
    the field \<open>re_dispatcher\<close> of the reactor.

  What the lemmas about the server show.

  \<^item> \<open>Reactor_Invariant\<close>: the order of the table (\<open>table_ok\<close>: a live slot holds an allocated client, and no
    slot before it the same pointer, not even a stale one), the invariant with terminated routes
    (\<open>reactor_inv\<close>), and the operations under them.  Functions over the clients are instances of the
    locales \<open>safe_hook\<close> (defined, and keeps the invariant) and \<open>broadcast\<close> (sends a text to the clients with
    a wanted route), with the log route and \<open>pub\<close> as interpretations.
  \<^item> \<open>Reactor_Machine\<close>: the states a reactor reaches with routes that fit their arrays, what its operations
    promise there, and that a longer route breaks the invariant in any of them.
  \<^item> \<open>Publish_Subscribe\<close>: what \<open>pub\<close> and \<open>sub\<close> deliver when every client is reachable over TCP
    (\<open>serving\<close>); \<open>Commands_Faults\<close>: messages that make a command undefined.
  \<^item> \<open>Dispatch_Facts\<close>: the choice of the command and the loading of commands; \<open>Main_Loop\<close>: one turn of the
    loop from the bytes on a connection to what every client gets, the failures that end in
    \<open>turn_removes_closed\<close>, and the turns in which \<open>select\<close> fails (\<open>turns\<close>, \<open>starved\<close>), of which there is no end.
  \<^item> \<open>Server_Invariant\<close>: the order of the table from the construction of a server on, through all commands
    of the repository and any behaviour of the clients and of the network (locales \<open>table_hook\<close> and \<open>table_fun\<close>
    with one interpretation for each function the code runs over the clients).
  \<^item> \<open>Mixed_Delivery\<close>, \<open>Mixed_Turn\<close>: one turn of the loop with clients of every kind on a network that fails as
    it likes (\<open>connected\<close>): what a text sent to some clients makes of each of them (\<open>settles\<close>), again from the
    locale \<open>broadcast\<close>.  A publisher that does not take its acknowledgement is the only one that is removed then
    (\<open>refused\<close>); one that is in its own audience has to be reliable (\<open>sound_publisher\<close>).  \<open>Browser_Session\<close>: an
    HTTP connection that becomes a WebSocket and publishes.  Its header array, which the code does not initialise,
    may hold anything with a NUL behind the request and, for a request in several pieces, without line feeds
    (\<open>header_ready\<close>); what other contents do is shown beside it.
  \<^item> \<open>Commands_Listing\<close>: what the two commands that list connections tell a client on such a server (\<open>told\<close>), with
    the names of clients of every kind.  \<open>Commands_Removal\<close>: \<open>unsub\<close> with the id of the client that asks for it.
  \<^item> \<open>Broker\<close>: the abstract broker of publications, and two locales: \<open>reactive\<close> (a program whose states stand for
    abstract ones through every happening that is possible, where the abstract step may be left undetermined by
    what the network decides; a whole history can be played and what it has sent added up from any point on) and
    its extension \<open>simulation\<close>, where nothing is left undetermined and what is possible does not depend on the
    history.  \<open>Broker_Server\<close> gives one turn of the main loop with a \<open>pub\<close> or \<open>sub\<close> message as a step of the
    broker, with TCP and WebSocket clients on any network (\<open>attended\<close>): a client that does not take what it is
    sent is dropped, one that takes every byte never is.  With clients that are all reliable (\<open>in_service\<close>,
    \<open>represents\<close>) nobody is dropped, and the turns interpret \<open>simulation\<close>.
  \<^item> \<open>Broker_Sessions\<close> interprets \<open>reactive\<close>, with the connections that are accepted and the clients that close
    among the happenings (\<open>session_turn\<close>, \<open>mirrors\<close>), over any network.  A publisher that is in its own audience
    has to be reliable (\<open>possible\<close>): for others \<open>publisher_drops_itself\<close> in \<open>Mixed_Turn\<close> shows that the turn is
    undefined.
    What the network delivers is chosen anew for each turn, each request is the whole of what its client
    sends then, and \<open>select\<close> reports one descriptor a turn.  The accept function of the server is \<open>admit\<close>,
    which puts the new client on the heap and adds it to the reactor; the texts of \<open>strerror\<close> have at most 60
    characters (\<open>short_errors\<close>), so that the message about a client that has closed fits into the buffer of
    the log.
  \<^item> \<open>Command_Table\<close>: the commands as they are found after the shared objects of the repository have been loaded.
    \<open>Lua_Files\<close>: the extension directories and the notifications of changed files.
  \<^item> \<open>Ws_Dump\<close>: the text \<open>ws_dump_header\<close> prints determines the header.
  \<^item> This theory: a publisher, the server and a subscriber joined by their streams.

  The Lua binding, \<open>src/ducq_lua.c\<close>.

  \<^item> \<open>Ducq_Lua\<close>: every function of the file over the record \<open>lua_api\<close>, whose fields are the functions of the Lua
    API on an abstract state.  A \<open>binding\<close> holds that state, the user data blocks, the iterators and the reactor.
  \<^item> \<open>Lua_Manual\<close>: what the manual of Lua says of those functions, as laws over a view of the state
    (\<open>lua_tables\<close>, \<open>lua_values\<close>), and a small Lua for which they hold.
  \<^item> \<open>Lua_Facts\<close>: a Lua command is any sequence of calls (\<open>lua_run\<close>); errors are raised before anything is
    done, messages keep their parts, and the table of the server stays in order.  \<open>Lua_Clients\<close>: the loop over
    the clients with a Lua function that may keep a state (\<open>callback\<close>: what it answers and that its calls are
    recorded), and what \<open>client:recv\<close> and \<open>client:close\<close> do.

  Conventions.  The value None is undefined behaviour (a store or a read outside an array, the use of a
  freed or NULL pointer, an unterminated string read as one, an overflow of int); so a theorem that
  concludes \<open>= Some ...\<close> shows that there is none, and one that concludes \<open>= None\<close> that there is.  The loops
  that may run for ever, \<open>ducq_listen\<close> and \<open>ducq_loop\<close>, are partial functions whose None is that they do not
  return; undefined behaviour is a value inside.  No definition has fuel; the other loops end by a measure
  or by structure.  The limits are those of the code: \<open>DUCQ_MSGSZ\<close> 256, \<open>DUCQ_MAX_CONNECTIONS\<close> 25,
  \<open>DUCQ_MAX_ROUTE_LEN\<close> 100, \<open>DUCQ_MAX_CHANNELS\<close> 25.

  Parameters.  Outside the repository are Lua (\<open>lua_api\<close> for the binding), the dynamic loader, the directories, \<open>stat\<close> and \<open>inotify\<close>
  (fields of \<open>disp_env\<close>), \<open>select\<close>, \<open>strerror\<close> and the accept functions of a server (fields of \<open>loop_env\<close>) and the
  time zone (\<open>localtime\<close>).  The stack of Lua has the 20 slots its manual guarantees, and the model counts
  what the code leaves on it.  An integer a Lua command answers that is no state is not modelled.
  \<open>lua_pushfstring\<close> puts "(null)" where it is given NULL for a string, as its implementation does.

  Where the model is less strict than the standard of C.  The bytes of a block are shifted as words of 32 bits in
  \<open>Sha1\<close>; in \<open>src/sha1.c\<close> the byte is promoted to int first, and a byte of 0x80 or more shifted by 24 does
  not fit one.  When a WebSocket client closes, \<open>_send\<close> of \<open>src/ducq_ws.c\<close> copies the two bytes of the payload
  onto themselves with \<open>memcpy\<close>; the model takes that for a copy.  The union of \<open>connection_t\<close> is a datatype, so
  the bytes of a server are never read as the pointer of a client.

  Not modelled.  An allocation that fails inside Lua, which leaves the function by a long jump; the escape
  sequences no code uses; the slot \<open>dtor\<close> of the client tables, which is empty in all of them and which
  nothing calls; \<open>src/ducq.hpp\<close>, which includes two headers; the tests.  The refinement of the broker covers \<open>pub\<close> and
  \<open>sub\<close>; the other commands have their theorems one turn at a time.
\<close>

section \<open>A publisher, the server and a subscriber\<close>

text \<open>C2: the message of a publisher arrives.  Three processes: what the publisher writes is what the server
  reads on that connection, and what the server writes in one turn of its loop is what the publisher
  and a subscriber read.  Then \<open>ducq_pub\<close> succeeds, having written exactly what the server read, and
  the subscriber's \<open>ducq_receive\<close> answers the message, whole and unchanged.\<close>

theorem published_message_arrives:
  assumes "pub_ready env denv i p r" and "publishable route payload r"
    and "stream (slot_fd i r) (w_os (re_world r)) = tcp_frame (message_text ''pub'' route payload)"
    and "ducq_loop_turn env buffer r = Some (b, r')"
    and "tcp_up pp cp wp" and "stream (tcp_fd cp) (w_os wp) = received r r' (slot_fd i r)"
    and "live j q r" and "route_at j r = Some t" and "ducq_route_cmp (Some t) (Some route)" and "j \<noteq> i"
    and "tcp_up ps cs ws" and "stream (tcp_fd cs) (w_os ws) = received r r' (slot_fd j r)"
  shows "\<exists>wp' ws'. ducq_pub pp route payload (length payload) wp = Some (DUCQ_OK, wp') \<and>
    os_out (w_os wp') (tcp_fd cp) = os_out (w_os wp) (tcp_fd cp) @ stream (slot_fd i r) (w_os (re_world r)) \<and>
    ducq_receive ps (replicate DUCQ_MSGSZ NUL) DUCQ_MSGSZ ws =
      Some ((DUCQ_OK, length (message_text ''pub'' route payload),
        message_text ''pub'' route payload @ NUL # replicate (DUCQ_MSGSZ - Suc (length (message_text ''pub'' route payload))) NUL), ws')"
proof -
  let ?m = "message_text ''pub'' route payload"
  have m: "tcp_sendable ?m" "NUL \<notin> set ?m"
    using assms(2) by (simp_all add: publishable_def)
  have "\<forall>fd. received r r' fd = (if fd = slot_fd i r then tcp_frame ''ACK'' else []) @
      (if \<exists>j q t. live j q r \<and> slot_fd j r = fd \<and> route_at j r = Some t \<and> ducq_route_cmp (Some t) (Some route)
       then tcp_frame ?m else [])"
    using publish_turn [OF assms(1,2), of "[]" buffer] assms(3,4) by auto
  moreover have "slot_fd j r \<noteq> slot_fd i r"
    using assms(1,7,10) by (auto simp: pub_ready_def only_ready_def live_def slot_fd_def)
  ultimately have j: "received r r' (slot_fd j r) = tcp_frame ?m @ []" and
    i: "\<exists>x. received r r' (slot_fd i r) = tcp_frame ''ACK'' @ x"
    using assms(7-9) by auto
  obtain x where x: "stream (tcp_fd cp) (w_os wp) = tcp_frame ''ACK'' @ x"
    using i assms(6) by auto
  have len: "length ?m < 256"
    using m(1) by (simp add: tcp_sendable_def)
  have no: "NUL \<notin> set payload"
    using m(2) by (simp add: message_text_def)
  have ack: "tcp_sendable ''ACK''" "\<not> starts_with ''ACK'' ''PING''" "\<not> starts_with ''ACK'' ''NACK''"
    by (simp_all add: tcp_sendable_def starts_with_def)
  obtain wp' where wp': "ducq_pub pp route payload (length payload) wp = Some (DUCQ_OK, wp')"
      "os_out (w_os wp') (tcp_fd cp) = os_out (w_os wp) (tcp_fd cp) @ tcp_frame ?m"
    using pub_outcome [OF assms(5) no len x ack(1,2), of "[]"] ack(3) by auto
  have ps: "protocol_state ?m = DUCQ_OK" "\<not> starts_with ?m ''PING''"
    by (simp_all add: protocol_state_def starts_with_def message_text_def)
  obtain u where "ducq_receive ps (replicate 256 NUL) 256 ws =
      Some ((DUCQ_OK, length ?m, ?m @ NUL # replicate (255 - length ?m) NUL), ws\<lparr>w_os := u\<rparr>)"
    using receive_tcp [OF assms(11) _ m(1), of "[]" "replicate 256 NUL"] assms(12) j ps by auto
  then show ?thesis
    using wp' assms(3) by auto
qed

theorem published_message_arrives_witness:
  "\<exists>b r' wp' ws'. ducq_loop_turn demo_loop [] (demo_ready [RData (tcp_frame demo_pub)]) = Some (b, r') \<and>
    received (demo_ready [RData (tcp_frame demo_pub)]) r' 5 = tcp_frame ''ACK'' \<and>
    ducq_pub 9 ''a'' ''hi'' (length ''hi'') (world_five [RData (tcp_frame ''ACK'')]) = Some (DUCQ_OK, wp') \<and>
    ducq_receive 9 (replicate DUCQ_MSGSZ NUL) DUCQ_MSGSZ (world_five [RData (tcp_frame demo_pub)]) =
      Some ((DUCQ_OK, length demo_pub, demo_pub @ NUL # replicate (DUCQ_MSGSZ - Suc (length demo_pub)) NUL), ws')"
proof -
  let ?r = "demo_ready [RData (tcp_frame demo_pub)]"
  note ready = demo_pub_ready [OF demo_stream(2)]
  note s = demo_stream(1) [folded demo_ready(4) [OF demo_stream(2)]]
  have fd: "slot_fd 0 ?r = 5" "slot_fd 1 ?r = 6"
    unfolding demo_ready_table by (simp_all add: demo_fd)
  obtain b r' where r': "ducq_loop_turn demo_loop [] ?r = Some (b, r')" "received ?r r' 5 = tcp_frame ''ACK''"
      "received ?r r' 6 = tcp_frame demo_pub"
    using publish_turn [OF ready s, of "[]"] unfolding demo_ready_gets by (auto simp: fd)
  have up: "tcp_up 9 tcp_five (world_five [RData (tcp_frame ''ACK'')])" "tcp_up 9 tcp_five (world_five [RData (tcp_frame demo_pub)])"
    by (rule tcp_up_five, simp add: tcp_frame_def message_text_def)+
  have st: "stream (tcp_fd tcp_five) (w_os (world_five [RData (tcp_frame ''ACK'')])) = received ?r r' (slot_fd 0 ?r)"
      "stream (tcp_fd tcp_five) (w_os (world_five [RData (tcp_frame demo_pub)])) = received ?r r' (slot_fd 1 ?r)"
    by (simp_all add: stream_def world_five_def fd r'(2,3) del: One_nat_def)
  have sub: "live 1 10 ?r" "route_at 1 ?r = Some ''a''" "ducq_route_cmp (Some ''a'') (Some ''a'')"
    unfolding demo_ready_table using demo_quiet(3,6) by (simp_all add: ducq_route_cmp_def route_cmp_loop.simps)
  show ?thesis
    using published_message_arrives [OF ready s [unfolded append_Nil2] r'(1) up(1) st(1) sub _ up(2) st(2)] r'(1,2) by auto
qed
end
